(* ===== verification/Prelude.thy ===== *)
theory Prelude
  imports Main "HOL-Library.Word" "HOL-Library.Char_ord" "HOL-Library.List_Lexorder"
    "HOL-Library.Product_Lexorder"
begin

text \<open>
  Shared vocabulary of the development: Rust strings as byte lists with the few \<open>str\<close>
  methods the program uses, decimal parsing and printing, the iterator methods
  \<open>max_by\<close>, \<open>min_by\<close>, \<open>find_map\<close> and \<open>position\<close>, saturating
  machine arithmetic, and five interfaces (locales) that several components implement:
  a clock that must run uninterrupted, a capped attempt counter, a majority test, a
  persisted marker and a cut at the first blocking element.
\<close>

named_theorems marker_simps \<open>read-after-write equations of the markers on the volume\<close>
named_theorems step_simps \<open>unfolding equations of the step functions\<close>

section \<open>Strings\<close>

text \<open>
  A Rust \<open>str\<close> is a list of bytes; HOL's \<open>char\<close> is a byte. Whitespace is ASCII
  whitespace: the strings trimmed here are markers and environment values the program
  wrote or an operator typed, and no multi-byte whitespace is modelled.
\<close>

definition char_code :: "char \<Rightarrow> nat" where
  "char_code c = of_char c"

definition is_ws :: "char \<Rightarrow> bool" where
  "is_ws c \<longleftrightarrow> char_code c = 32 \<or> (9 \<le> char_code c \<and> char_code c \<le> 13)"

definition is_digit :: "char \<Rightarrow> bool" where
  "is_digit c \<longleftrightarrow> 48 \<le> char_code c \<and> char_code c \<le> 57"

definition digit_val :: "char \<Rightarrow> nat" where
  "digit_val c = char_code c - 48"

definition digit_char :: "nat \<Rightarrow> char" where
  "digit_char d = char_of (48 + d)"

definition ascii_lower :: "char \<Rightarrow> char" where
  "ascii_lower c = (if 65 \<le> char_code c \<and> char_code c \<le> 90 then char_of (char_code c + 32) else c)"

definition eq_ic :: "string \<Rightarrow> string \<Rightarrow> bool" where
  "eq_ic a b \<longleftrightarrow> map ascii_lower a = map ascii_lower b"

definition trim_end_by :: "(char \<Rightarrow> bool) \<Rightarrow> string \<Rightarrow> string" where
  "trim_end_by p s = rev (dropWhile p (rev s))"

definition trim :: "string \<Rightarrow> string" where
  "trim s = trim_end_by is_ws (dropWhile is_ws s)"

definition starts_with :: "string \<Rightarrow> string \<Rightarrow> bool" where
  "starts_with p s \<longleftrightarrow> take (length p) s = p"

definition strip_prefix :: "string \<Rightarrow> string \<Rightarrow> string option" where
  "strip_prefix p s = (if starts_with p s then Some (drop (length p) s) else None)"

definition strip_suffix :: "string \<Rightarrow> string \<Rightarrow> string option" where
  "strip_suffix p s =
     (if length p \<le> length s \<and> drop (length s - length p) s = p
      then Some (take (length s - length p) s) else None)"

fun contains_str :: "string \<Rightarrow> string \<Rightarrow> bool" where
  "contains_str p [] = (p = [])"
| "contains_str p (c # s) = (starts_with p (c # s) \<or> contains_str p s)"

fun split_on :: "char \<Rightarrow> string \<Rightarrow> string list" where
  "split_on d [] = [[]]"
| "split_on d (c # s) =
     (if c = d then [] # split_on d s
      else (case split_on d s of [] \<Rightarrow> [[c]] | w # ws \<Rightarrow> (c # w) # ws))"

lemma split_on_not_Nil [simp]: "split_on d s \<noteq> []"
  by (induction s) (auto split: list.splits)

lemma split_on_fresh: "d \<notin> set l \<Longrightarrow> split_on d l = [l]"
  by (induction l) auto

lemma split_on_piece: "d \<notin> set l \<Longrightarrow> split_on d (l @ d # s) = l # split_on d s"
  by (induction l) auto

text \<open>\<open>split_whitespace\<close>: the maximal runs of non-whitespace, in order.\<close>

fun split_ws_go :: "string \<Rightarrow> string \<Rightarrow> string list" where
  "split_ws_go w [] = (if w = [] then [] else [rev w])"
| "split_ws_go w (c # s) =
     (if is_ws c then (if w = [] then [] else [rev w]) @ split_ws_go [] s
      else split_ws_go (c # w) s)"

definition split_ws :: "string \<Rightarrow> string list" where
  "split_ws s = split_ws_go [] s"

section \<open>Decimal numbers\<close>

fun show_nat :: "nat \<Rightarrow> string" where
  "show_nat n = (if n < 10 then [digit_char n] else show_nat (n div 10) @ [digit_char (n mod 10)])"

declare show_nat.simps [simp del]

definition digits_val :: "string \<Rightarrow> nat" where
  "digits_val s = foldl (\<lambda>a c. a * 10 + digit_val c) 0 s"

text \<open>
  \<open>str::parse\<close> for an unsigned integer type with largest value \<open>hi\<close>: an optional
  plus sign, at least one digit, nothing else, and no overflow.
\<close>

definition parse_uint :: "nat \<Rightarrow> string \<Rightarrow> nat option" where
  "parse_uint hi s =
     (let t = (case s of [] \<Rightarrow> s | c # r \<Rightarrow> if char_code c = 43 then r else s) in
      if t \<noteq> [] \<and> list_all is_digit t \<and> digits_val t \<le> hi then Some (digits_val t) else None)"

definition u16_max :: nat where "u16_max = 65535"
definition u32_max :: nat where "u32_max = 4294967295"
definition u64_max :: nat where "u64_max = 18446744073709551615"

lemma char_code_digit_char [simp]: "d < 10 \<Longrightarrow> char_code (digit_char d) = 48 + d"
  by (simp add: char_code_def digit_char_def)

lemma digit_char_props [simp]:
  assumes "d < 10"
  shows "is_digit (digit_char d)" and "digit_val (digit_char d) = d" and "\<not> is_ws (digit_char d)"
  using assms by (simp_all add: is_digit_def digit_val_def is_ws_def)

lemma digits_val_snoc [simp]: "digits_val (s @ [c]) = digits_val s * 10 + digit_val c"
  by (simp add: digits_val_def)

lemma digits_val_Nil [simp]: "digits_val [] = 0"
  by (simp add: digits_val_def)

lemma digits_val_single [simp]: "digits_val [c] = digit_val c"
  by (simp add: digits_val_def)

lemma show_nat_digit: "n < 10 \<Longrightarrow> show_nat n = [digit_char n]"
  by (subst show_nat.simps) simp

lemma show_nat_not_Nil [simp]: "show_nat n \<noteq> []"
  by (subst show_nat.simps) simp

lemma show_nat_digits: "list_all is_digit (show_nat n)"
proof (induction n rule: show_nat.induct)
  case (1 n)
  then show ?case
    by (cases "n < 10") (simp_all add: show_nat.simps [of n])
qed

lemma digits_no_char: "list_all is_digit s \<Longrightarrow> \<not> is_digit c \<Longrightarrow> c \<notin> set s"
  by (auto simp: list_all_iff)

lemma digits_val_show_nat [simp]: "digits_val (show_nat n) = n"
proof (induction n rule: show_nat.induct)
  case (1 n)
  then show ?case
    by (cases "n < 10") (simp_all add: show_nat.simps [of n])
qed

lemma digit_not_ws: "is_digit c \<Longrightarrow> \<not> is_ws c"
  by (auto simp: is_digit_def is_ws_def)

lemma digit_not_plus: "is_digit c \<Longrightarrow> char_code c \<noteq> 43"
  by (auto simp: is_digit_def)

lemma parse_uint_digits:
  assumes "t \<noteq> []" and "list_all is_digit t"
  shows "parse_uint hi t = (if digits_val t \<le> hi then Some (digits_val t) else None)"
proof -
  obtain c r where "t = c # r" and "char_code c \<noteq> 43"
    using assms by (cases t) (auto dest: digit_not_plus)
  then show ?thesis
    using assms by (simp add: parse_uint_def)
qed

lemma parse_uint_show_nat [simp]: "n \<le> hi \<Longrightarrow> parse_uint hi (show_nat n) = Some n"
  by (simp add: parse_uint_digits show_nat_digits)

lemma parse_uint_le: "parse_uint hi s = Some n \<Longrightarrow> n \<le> hi"
  by (auto simp: parse_uint_def Let_def split: if_splits)

lemma dropWhile_none: "list_all (\<lambda>c. \<not> p c) s \<Longrightarrow> dropWhile p s = s"
  by (cases s) auto

lemma trim_end_by_snoc [simp]: "p c \<Longrightarrow> trim_end_by p (s @ [c]) = trim_end_by p s"
  by (simp add: trim_end_by_def)

lemma trim_end_by_none: "list_all (\<lambda>c. \<not> p c) s \<Longrightarrow> trim_end_by p s = s"
  by (simp add: trim_end_by_def dropWhile_none list_all_iff)

text \<open>A marker body is the value and a newline; reading trims and gets the value back.\<close>

definition newline :: char where
  "newline = char_of (10::nat)"

lemma newline_char: "newline = CHR 0x0A"
  by (simp add: newline_def char_of_def bit_0)

lemma is_ws_newline [simp]: "is_ws newline"
  by (simp add: is_ws_def newline_def char_code_def)

lemma trim_line:
  assumes "list_all (\<lambda>c. \<not> is_ws c) s" and "s \<noteq> []"
  shows "trim (s @ [newline]) = s"
proof -
  have "dropWhile is_ws (s @ [newline]) = s @ [newline]"
    using assms by (cases s) auto
  then show ?thesis
    using assms by (simp add: trim_def trim_end_by_none)
qed

lemma show_nat_no_ws: "list_all (\<lambda>c. \<not> is_ws c) (show_nat n)"
  using show_nat_digits [of n] by (auto simp: list_all_iff dest: digit_not_ws)

lemma parse_number_line [simp]: "n \<le> hi \<Longrightarrow> parse_uint hi (trim (show_nat n @ [newline])) = Some n"
  by (simp add: trim_line show_nat_no_ws)

section \<open>Iterators and sorting\<close>

datatype ordering = Less | Equal | Greater

definition cmp_lin :: "'a::linorder \<Rightarrow> 'a \<Rightarrow> ordering" where
  "cmp_lin a b = (if a < b then Less else if a = b then Equal else Greater)"

lemma cmp_lin_iff:
  "cmp_lin a b = Greater \<longleftrightarrow> b < a" "cmp_lin a b = Less \<longleftrightarrow> a < b" "cmp_lin a b = Equal \<longleftrightarrow> a = b"
  by (auto simp: cmp_lin_def)

definition then_cmp :: "ordering \<Rightarrow> ordering \<Rightarrow> ordering" where
  "then_cmp a b = (case a of Equal \<Rightarrow> b | _ \<Rightarrow> a)"

text \<open>
  \<open>Iterator::max_by\<close> keeps the later of two equal elements, \<open>min_by\<close> the earlier;
  \<open>max_by_key\<close> is \<open>max_by\<close> on the keys.
\<close>

fun max_by :: "('a \<Rightarrow> 'a \<Rightarrow> ordering) \<Rightarrow> 'a list \<Rightarrow> 'a option" where
  "max_by cmp [] = None"
| "max_by cmp (x # xs) = Some (foldl (\<lambda>m y. if cmp m y = Greater then m else y) x xs)"

fun min_by :: "('a \<Rightarrow> 'a \<Rightarrow> ordering) \<Rightarrow> 'a list \<Rightarrow> 'a option" where
  "min_by cmp [] = None"
| "min_by cmp (x # xs) = Some (foldl (\<lambda>m y. if cmp m y = Greater then y else m) x xs)"

fun find_map :: "('a \<Rightarrow> 'b option) \<Rightarrow> 'a list \<Rightarrow> 'b option" where
  "find_map f [] = None"
| "find_map f (x # xs) = (case f x of Some y \<Rightarrow> Some y | None \<Rightarrow> find_map f xs)"

fun position :: "('a \<Rightarrow> bool) \<Rightarrow> 'a list \<Rightarrow> nat option" where
  "position p [] = None"
| "position p (x # xs) = (if p x then Some 0 else map_option Suc (position p xs))"

text \<open>
  \<open>sort_by\<close>: a stable sort. Any stable sort gives this result when the comparator is a
  total preorder, which is the case the standard library specifies.
\<close>

fun insert_by :: "('a \<Rightarrow> 'a \<Rightarrow> ordering) \<Rightarrow> 'a \<Rightarrow> 'a list \<Rightarrow> 'a list" where
  "insert_by cmp x [] = [x]"
| "insert_by cmp x (y # ys) = (if cmp x y = Greater then y # insert_by cmp x ys else x # y # ys)"

definition sort_by :: "('a \<Rightarrow> 'a \<Rightarrow> ordering) \<Rightarrow> 'a list \<Rightarrow> 'a list" where
  "sort_by cmp xs = foldr (insert_by cmp) xs []"

lemma find_map_Some: "find_map f xs = Some y \<Longrightarrow> \<exists>x \<in> set xs. f x = Some y"
  by (induction xs) (auto split: option.splits)

lemma find_map_None: "find_map f xs = None \<longleftrightarrow> (\<forall>x \<in> set xs. f x = None)"
  by (induction xs) (auto split: option.splits)

lemma find_map_skip: "\<forall>z \<in> set bs. f z = None \<Longrightarrow> find_map f (bs @ xs) = find_map f xs"
  by (induction bs) auto

lemma find_map_first: "find_map f xs = Some y \<longleftrightarrow>
    (\<exists>bs x as. xs = bs @ x # as \<and> f x = Some y \<and> (\<forall>z \<in> set bs. f z = None))"
proof
  show "find_map f xs = Some y \<Longrightarrow> \<exists>bs x as. xs = bs @ x # as \<and> f x = Some y \<and> (\<forall>z \<in> set bs. f z = None)"
  proof (induction xs)
    case (Cons x xs)
    show ?case
    proof (cases "f x")
      case None
      then obtain bs z as where "xs = bs @ z # as" "f z = Some y" "\<forall>w \<in> set bs. f w = None"
        using Cons by auto
      then show ?thesis
        using None by (intro exI [of _ "x # bs"]) auto
    next
      case (Some z)
      then show ?thesis
        using Cons.prems by (intro exI [of _ "[]"]) auto
    qed
  qed simp
qed (auto simp: find_map_skip)

lemma position_Some: "position p xs = Some i \<Longrightarrow> i < length xs \<and> p (xs ! i)"
  by (induction xs arbitrary: i) (auto split: if_splits)

lemma position_None: "position p xs = None \<longleftrightarrow> (\<forall>x \<in> set xs. \<not> p x)"
  by (induction xs) auto

lemma position_before: "position p xs = Some i \<Longrightarrow> j < i \<Longrightarrow> \<not> p (xs ! j)"
proof (induction xs arbitrary: i j)
  case (Cons x xs)
  then show ?case by (cases j) (auto split: if_splits)
qed simp

lemma find_Some_in: "find p xs = Some x \<Longrightarrow> x \<in> set xs \<and> p x"
  by (induction xs) (auto split: if_splits)

lemma foldl_pick_in: "foldl (\<lambda>m y. if q m y then m else y) x xs \<in> insert x (set xs)"
  by (induction xs arbitrary: x) auto

lemma foldl_pick_in2: "foldl (\<lambda>m y. if q m y then y else m) x xs \<in> insert x (set xs)"
  by (induction xs arbitrary: x) auto

lemma max_by_in: "max_by cmp xs = Some m \<Longrightarrow> m \<in> set xs"
  using foldl_pick_in [of "\<lambda>m y. cmp m y = Greater"] by (cases xs) fastforce+

lemma min_by_in: "min_by cmp xs = Some m \<Longrightarrow> m \<in> set xs"
  using foldl_pick_in2 [of "\<lambda>m y. cmp m y = Greater"] by (cases xs) fastforce+

lemma max_by_None [simp]: "max_by cmp xs = None \<longleftrightarrow> xs = []"
  by (cases xs) auto

lemma min_by_None [simp]: "min_by cmp xs = None \<longleftrightarrow> xs = []"
  by (cases xs) auto

lemma foldl_max_key:
  fixes k :: "'a \<Rightarrow> 'b::linorder"
  assumes "\<And>a b. cmp a b = Greater \<longleftrightarrow> k b < k a"
  shows "\<forall>y \<in> insert x (set xs). k y \<le> k (foldl (\<lambda>m y. if cmp m y = Greater then m else y) x xs)"
  using assms by (induction xs arbitrary: x) (auto, (fastforce)+)

lemma max_by_key_max:
  fixes k :: "'a \<Rightarrow> 'b::linorder"
  assumes "max_by cmp xs = Some m" and "\<And>a b. cmp a b = Greater \<longleftrightarrow> k b < k a" and "y \<in> set xs"
  shows "k y \<le> k m"
  using assms foldl_max_key [of cmp k] by (cases xs) fastforce+

lemma foldl_min_key:
  fixes k :: "'a \<Rightarrow> 'b::linorder"
  assumes "\<And>a b. cmp a b = Greater \<longleftrightarrow> k b < k a"
  shows "\<forall>y \<in> insert x (set xs). k (foldl (\<lambda>m y. if cmp m y = Greater then y else m) x xs) \<le> k y"
  using assms by (induction xs arbitrary: x) (auto, (fastforce)+)

lemma min_by_key_min:
  fixes k :: "'a \<Rightarrow> 'b::linorder"
  assumes "min_by cmp xs = Some m" and "\<And>a b. cmp a b = Greater \<longleftrightarrow> k b < k a" and "y \<in> set xs"
  shows "k m \<le> k y"
  using assms foldl_min_key [of cmp k] by (cases xs) fastforce+

lemma set_insert_by [simp]: "set (insert_by cmp x xs) = insert x (set xs)"
  by (induction xs) auto

lemma length_insert_by [simp]: "length (insert_by cmp x xs) = Suc (length xs)"
  by (induction xs) auto

lemma set_sort_by [simp]: "set (sort_by cmp xs) = set xs"
  by (induction xs) (auto simp: sort_by_def)

lemma length_sort_by [simp]: "length (sort_by cmp xs) = length xs"
  by (induction xs) (auto simp: sort_by_def)

lemma distinct_insert_by: "distinct (insert_by cmp x xs) \<longleftrightarrow> x \<notin> set xs \<and> distinct xs"
  by (induction xs) auto

lemma sort_by_Cons [simp]: "sort_by cmp (x # xs) = insert_by cmp x (sort_by cmp xs)"
  and sort_by_Nil [simp]: "sort_by cmp [] = []"
  by (simp_all add: sort_by_def)

lemma distinct_sort_by [simp]: "distinct (sort_by cmp xs) \<longleftrightarrow> distinct xs"
  by (induction xs) (auto simp: distinct_insert_by)

lemma sorted_insert_by:
  assumes "\<And>a b. cmp a b = Greater \<longleftrightarrow> k b < (k a :: 'b::linorder)" and "sorted (map k xs)"
  shows "sorted (map k (insert_by cmp x xs))"
  using assms by (induction xs) auto

lemma sorted_sort_by:
  assumes "\<And>a b. cmp a b = Greater \<longleftrightarrow> k b < (k a :: 'b::linorder)"
  shows "sorted (map k (sort_by cmp xs))"
  using assms by (induction xs) (auto simp: sort_by_def sorted_insert_by)

lemma insert_by_insort:
  "(\<And>y. y \<in> set ys \<Longrightarrow> cmp x y = Greater \<longleftrightarrow> k y < (k x :: 'b::linorder)) \<Longrightarrow> insert_by cmp x ys = insort_key k x ys"
  by (induction ys) (auto simp: not_less)

text \<open>On elements that a key compares, \<open>sort_by\<close> is the library's stable sort.\<close>

lemma sort_by_sort_key:
  fixes k :: "'a \<Rightarrow> 'b::linorder"
  assumes "\<And>x y. x \<in> set xs \<Longrightarrow> y \<in> set xs \<Longrightarrow> cmp x y = Greater \<longleftrightarrow> k y < k x"
  shows "sort_by cmp xs = sort_key k xs"
  using assms
proof (induction xs)
  case (Cons x xs)
  then have "sort_by cmp xs = sort_key k xs" by simp
  moreover have "insert_by cmp x (sort_key k xs) = insort_key k x (sort_key k xs)"
    using Cons.prems by (intro insert_by_insort) auto
  ultimately show ?case by (simp add: sort_by_def)
qed simp

section \<open>Machine arithmetic\<close>

type_synonym byte = "8 word"

definition sat_add :: "'a::len word \<Rightarrow> 'a word \<Rightarrow> 'a word" where
  "sat_add a b = (if unat a + unat b < 2 ^ LENGTH('a) then a + b else - 1)"

definition sat_mul :: "'a::len word \<Rightarrow> 'a word \<Rightarrow> 'a word" where
  "sat_mul a b = (if unat a * unat b < 2 ^ LENGTH('a) then a * b else - 1)"

definition sat_nat :: "nat \<Rightarrow> nat" where
  "sat_nat n = min n u64_max"

lemma unat_max: "unat (- 1 :: 'a::len word) = 2 ^ LENGTH('a) - 1"
  by (simp add: unsigned_minus_1_eq_mask mask_eq_exp_minus_1)

lemma unat_sat_add: "unat (sat_add a b :: 'a::len word) = min (unat a + unat b) (2 ^ LENGTH('a) - 1)"
  by (auto simp: sat_add_def unat_max unat_add_lem [THEN iffD1])

lemma unat_sat_mul: "unat (sat_mul a b :: 'a::len word) = min (unat a * unat b) (2 ^ LENGTH('a) - 1)"
  by (auto simp: sat_mul_def unat_max unat_mult_lem [THEN iffD1])

lemma word_less_inc: "w \<noteq> - 1 \<Longrightarrow> w < w + (1 :: 'a::len word)"
  by (metis inc_less_eq_self_iff_eq linorder_not_le)

section \<open>Interfaces shared by the components\<close>

subsection \<open>A clock that must run uninterrupted\<close>

text \<open>
  The bootstrap dwell, the NXDOMAIN dwell and the stuck-member dwell share one contract: a
  clock that shows \<open>t\<close> after a step was either kept by that step or started by it at
  the step's own instant. The client's reading is \<open>origin\<close>: a clock showing \<open>t\<close>
  was started by some step at \<open>t\<close> and kept by every later one.
\<close>

locale dwell_clock =
  fixes step :: "'s \<Rightarrow> 'e \<Rightarrow> 's"
    and since :: "'s \<Rightarrow> nat option"
    and time :: "'e \<Rightarrow> nat"
    and starts :: "'s \<Rightarrow> 'e \<Rightarrow> bool"
    and keeps :: "'s \<Rightarrow> 'e \<Rightarrow> bool"
  assumes tick: "since (step s e) = Some t \<Longrightarrow>
    keeps s e \<and> since s = Some t \<or> starts s e \<and> t = time e"
begin

abbreviation after :: "'s \<Rightarrow> 'e list \<Rightarrow> nat \<Rightarrow> 's" where
  "after s es i \<equiv> foldl step s (take i es)"

lemma origin:
  assumes "since s = None" and "since (foldl step s es) = Some t"
  shows "\<exists>i < length es. time (es ! i) = t \<and> starts (after s es i) (es ! i) \<and>
    (\<forall>j. i < j \<and> j < length es \<longrightarrow> keeps (after s es j) (es ! j))"
  using assms(2)
proof (induction es arbitrary: t rule: rev_induct)
  case Nil
  with assms(1) show ?case by simp
next
  case (snoc e es)
  from snoc.prems consider "keeps (foldl step s es) e" "since (foldl step s es) = Some t"
    | "starts (foldl step s es) e" "t = time e"
    using tick [of "foldl step s es" e t] by auto
  then show ?case
  proof cases
    case 1
    then obtain i where i: "i < length es" "time (es ! i) = t" "starts (after s es i) (es ! i)"
      "\<forall>j. i < j \<and> j < length es \<longrightarrow> keeps (after s es j) (es ! j)"
      using snoc.IH by blast
    then show ?thesis
      using 1 by (intro exI [of _ i]) (auto simp: nth_append less_Suc_eq)
  next
    case 2
    then show ?thesis
      by (intro exI [of _ "length es"]) (auto simp: nth_append)
  qed
qed

end

subsection \<open>A capped attempt counter\<close>

text \<open>
  The fence retries, the forced re-formations and the datadir discards are all bounded by
  a counter that every attempt must find below the cap and raises. Whatever the events,
  the attempts of a run and the starting count together never exceed the cap.
\<close>

locale attempt_budget =
  fixes step :: "'s \<Rightarrow> 'e \<Rightarrow> 's"
    and acts :: "'s \<Rightarrow> 'e \<Rightarrow> bool"
    and count :: "'s \<Rightarrow> nat"
    and cap :: nat
    and ok :: "'s \<Rightarrow> 'e \<Rightarrow> bool"
  assumes acts_below: "ok s e \<Longrightarrow> acts s e \<Longrightarrow> count s < cap"
    and acts_counts: "ok s e \<Longrightarrow> acts s e \<Longrightarrow> count s < count (step s e)"
    and keeps_count: "ok s e \<Longrightarrow> count s \<le> count (step s e)"
begin

fun attempts :: "'s \<Rightarrow> 'e list \<Rightarrow> nat" where
  "attempts s [] = 0"
| "attempts s (e # es) = (if acts s e then 1 else 0) + attempts (step s e) es"

fun all_ok :: "'s \<Rightarrow> 'e list \<Rightarrow> bool" where
  "all_ok s [] = True"
| "all_ok s (e # es) = (ok s e \<and> all_ok (step s e) es)"

lemma attempts_le: "all_ok s es \<Longrightarrow> attempts s es \<le> cap - count s"
proof (induction es arbitrary: s)
  case (Cons e es)
  then have "attempts (step s e) es \<le> cap - count (step s e)" by simp
  then show ?case
    using Cons.prems acts_below [of s e] acts_counts [of s e] keeps_count [of s e]
    by (cases "acts s e") auto
qed simp

end

subsection \<open>A majority test\<close>

text \<open>
  A test on (votes, electorate) that only passes on a strict majority: two disjoint sets
  of voters drawn from one electorate cannot both pass it.
\<close>

locale majority_test =
  fixes passes :: "nat \<Rightarrow> nat \<Rightarrow> bool"
  assumes strict: "passes k n \<Longrightarrow> n < 2 * k"
begin

lemma exclusive:
  assumes "finite U" and "A \<subseteq> U" and "B \<subseteq> U" and "A \<inter> B = {}"
    and "passes (card A) (card U)"
  shows "\<not> passes (card B) (card U)"
proof
  assume "passes (card B) (card U)"
  then have "card U < card A + card B"
    using strict [of "card A" "card U"] strict [of "card B" "card U"] assms(5) by simp
  also have "\<dots> = card (A \<union> B)"
    using assms by (simp add: card_Un_disjoint finite_subset)
  also have "\<dots> \<le> card U"
    using assms by (simp add: card_mono)
  finally show False by simp
qed

lemma counts_exclusive: "k + l \<le> n \<Longrightarrow> passes k n \<Longrightarrow> \<not> passes l n"
  using strict [of k n] strict [of l n] by auto

end

subsection \<open>A persisted marker\<close>

text \<open>
  A value kept on the volume: reading after a successful write gives the value back, for
  the values the marker can hold. The last write wins.
\<close>

locale volume_marker =
  fixes get :: "'v \<Rightarrow> 'b"
    and put :: "'a \<Rightarrow> 'v \<Rightarrow> 'v"
    and shown :: "'a \<Rightarrow> 'b"
    and storable :: "'a \<Rightarrow> bool"
  assumes get_put: "storable x \<Longrightarrow> get (put x v) = shown x"
begin

lemma last_put: "storable x \<Longrightarrow> get (foldl (\<lambda>v y. put y v) v (ys @ [x])) = shown x"
  by (simp add: get_put)

lemma put_inj: "storable x \<Longrightarrow> storable y \<Longrightarrow> put x v = put y w \<Longrightarrow> shown x = shown y"
  using get_put by metis

end

subsection \<open>A cut at the first element that blocks\<close>

text \<open>
  Both purge rules hand the server the first file, oldest first, that may not be reclaimed
  yet; everything before it goes.
\<close>

definition first_blocking :: "('a \<Rightarrow> bool) \<Rightarrow> 'a list \<Rightarrow> 'a option" where
  "first_blocking blocks xs =
     (case find blocks xs of None \<Rightarrow> None
      | Some b \<Rightarrow> if xs \<noteq> [] \<and> hd xs = b then None else Some b)"

definition before :: "'a \<Rightarrow> 'a list \<Rightarrow> 'a list" where
  "before b xs = takeWhile (\<lambda>x. x \<noteq> b) xs"

lemma find_Some_takeWhile: "find p xs = Some b \<Longrightarrow> x \<in> set (takeWhile (\<lambda>x. x \<noteq> b) xs) \<Longrightarrow> \<not> p x"
  by (induction xs) (auto split: if_splits)

locale cut_rule =
  fixes cut :: "'a list \<Rightarrow> 'a option"
    and blocks :: "'a \<Rightarrow> bool"
  assumes cut_first: "cut xs = first_blocking blocks xs"
begin

lemma cut_blocks: "cut xs = Some b \<Longrightarrow> blocks b \<and> b \<in> set xs"
  by (auto simp: cut_first first_blocking_def find_Some_iff split: option.splits if_splits)

lemma nothing_blocking_before: "cut xs = Some b \<Longrightarrow> x \<in> set (before b xs) \<Longrightarrow> \<not> blocks x"
  by (auto simp: cut_first first_blocking_def before_def
      dest: find_Some_takeWhile split: option.splits if_splits)

lemma cut_not_first: "cut xs = Some b \<Longrightarrow> before b xs \<noteq> []"
  by (cases xs) (auto simp: cut_first first_blocking_def before_def split: option.splits if_splits)

end

end
