(* ===== verification/Peers.thy ===== *)
theory Peers
  imports Prelude
begin

text \<open>
  The data the nodes exchange and read: a row of
  \<open>performance_schema.replication_group_members\<close> (\<open>sql.rs\<close>), the body of
  \<open>/gr/state\<close> and one peer's answer (\<open>peers.rs\<close>), and the pure functions of
  \<open>sql.rs\<close> over them. MySQL itself is not modelled: a query's answer is an argument,
  \<open>None\<close> when the query failed or timed out.
\<close>

type_synonym u16 = "16 word"
type_synonym u64 = "64 word"

record member_row =
  member_id :: string
  m_host :: string
  m_state :: string
  m_role :: string

record gr_state =
  group_active :: bool
  member_state :: "string option"
  member_role :: "string option"
  gtid_executed :: "string option"
  members_total :: nat
  members_reachable :: nat
  pre_gtid_data :: bool
  pre_gtid_data_unknown :: bool
  server_uuid :: "string option"
  group_name :: "string option"
  block_size :: "u64 option"
  waiver_generation :: u64

datatype peer_answer = State gr_state | NotReady | Unreachable

text \<open>
  \<open>query_peer\<close>: what came back over HTTP decides the answer. \<open>body\<close> is the
  decoded JSON, \<open>None\<close> when it does not parse.
\<close>

datatype 'b http_result = HttpErr | HttpStatus nat 'b

definition is_success :: "nat \<Rightarrow> bool" where
  "is_success status \<longleftrightarrow> 200 \<le> status \<and> status < 300"

definition query_peer :: "gr_state option http_result \<Rightarrow> peer_answer" where
  "query_peer r =
     (case r of
        HttpErr \<Rightarrow> Unreachable
      | HttpStatus status body \<Rightarrow>
          if is_success status then (case body of Some s \<Rightarrow> State s | None \<Rightarrow> NotReady)
          else NotReady)"

definition active_state :: "peer_answer \<Rightarrow> gr_state option" where
  "active_state a = (case a of State s \<Rightarrow> if group_active s then Some s else None | _ \<Rightarrow> None)"

lemma active_state_Some: "active_state a = Some s \<longleftrightarrow> a = State s \<and> group_active s"
  by (auto simp: active_state_def split: peer_answer.splits)

abbreviation is_active :: "peer_answer \<Rightarrow> bool" where
  "is_active a \<equiv> active_state a \<noteq> None"

section \<open>The write-routing fence\<close>

definition reachable_count :: "member_row list \<Rightarrow> nat" where
  "reachable_count ms = length (filter (\<lambda>m. m_state m \<noteq> ''UNREACHABLE'') ms)"

definition online_count :: "member_row list \<Rightarrow> nat" where
  "online_count ms = length (filter (\<lambda>m. m_state m = ''ONLINE'') ms)"

definition own_row :: "member_row list \<Rightarrow> string \<Rightarrow> member_row option" where
  "own_row ms self = find (\<lambda>m. eq_ic (member_id m) self) ms"

definition has_majority :: "nat \<Rightarrow> nat \<Rightarrow> bool" where
  "has_majority k n \<longleftrightarrow> \<not> k * 2 \<le> n"

definition role_is_writable_primary :: "member_row list \<Rightarrow> string \<Rightarrow> bool" where
  "role_is_writable_primary ms self =
     (if ms = [] then False
      else if reachable_count ms * 2 \<le> length ms then False
      else (case own_row ms self of None \<Rightarrow> False
            | Some m \<Rightarrow> m_state m = ''ONLINE'' \<and> m_role m = ''PRIMARY''))"

interpretation view: majority_test has_majority
  by unfold_locales (simp add: has_majority_def)

lemma writable_primary_majority:
  "role_is_writable_primary ms self \<Longrightarrow> has_majority (reachable_count ms) (length ms)"
  by (auto simp: role_is_writable_primary_def has_majority_def split: if_splits)

lemma online_le_reachable: "online_count ms \<le> reachable_count ms"
  by (induction ms) (auto simp: online_count_def reachable_count_def)

lemma reachable_le_length: "reachable_count ms \<le> length ms"
  by (simp add: reachable_count_def)

section \<open>SQL helpers\<close>

text \<open>
  \<open>sql_string_literal\<close>: double every backslash, then escape every quote, then quote.
  The two replacements are the two passes of the source.
\<close>

definition backslash :: char where "backslash = char_of (92::nat)"
definition squote :: char where "squote = char_of (39::nat)"

definition replace_char :: "char \<Rightarrow> string \<Rightarrow> string \<Rightarrow> string" where
  "replace_char c r s = concat (map (\<lambda>x. if x = c then r else [x]) s)"

definition sql_string_literal :: "string \<Rightarrow> string" where
  "sql_string_literal s =
     squote # replace_char squote [backslash, squote] (replace_char backslash [backslash, backslash] s)
       @ [squote]"

text \<open>
  How the server reads a literal's inside: a backslash takes the next character verbatim,
  a bare quote ends the literal. \<open>read_literal\<close> is the specification the escaping is
  checked against, for the two characters the program escapes.
\<close>

fun read_inside :: "string \<Rightarrow> (string \<times> string) option" where
  "read_inside [] = None"
| "read_inside (c # s) =
     (if c = squote then Some ([], s)
      else if c = backslash then
        (case s of [] \<Rightarrow> None | d # r \<Rightarrow> map_option (\<lambda>(v, t). (d # v, t)) (read_inside r))
      else map_option (\<lambda>(v, t). (c # v, t)) (read_inside s))"

fun read_literal :: "string \<Rightarrow> (string \<times> string) option" where
  "read_literal [] = None"
| "read_literal (c # s) = (if c = squote then read_inside s else None)"

lemma backslash_noteq_squote [simp]: "backslash \<noteq> squote" "squote \<noteq> backslash"
  by (simp_all add: backslash_def squote_def)

lemma replace_char_Nil [simp]: "replace_char c r [] = []"
  and replace_char_Cons: "replace_char c r (x # s) = (if x = c then r else [x]) @ replace_char c r s"
  by (simp_all add: replace_char_def)

lemma replace_char_append: "replace_char c r (s @ t) = replace_char c r s @ replace_char c r t"
  by (simp add: replace_char_def)

lemma read_inside_escaped:
  "read_inside (replace_char squote [backslash, squote]
      (replace_char backslash [backslash, backslash] s) @ squote # rest) = Some (s, rest)"
  by (induction s) (auto simp: replace_char_Cons replace_char_append)

text \<open>\<open>verified_peer_block_size\<close>.\<close>

definition verified_peer_block_size ::
  "string \<Rightarrow> string \<Rightarrow> u64 \<Rightarrow> string \<Rightarrow> string \<Rightarrow> string \<Rightarrow> u64 option" where
  "verified_peer_block_size uuid grp bsize state expected_uuid expected_group =
     (if state = ''ONLINE'' \<and> bsize > 0 \<and> unat bsize \<le> 2 ^ 63 - 1 \<and> expected_uuid \<noteq> []
         \<and> expected_group \<noteq> [] \<and> eq_ic uuid expected_uuid \<and> eq_ic grp expected_group
      then Some bsize else None)"

text \<open>\<open>credentials::group_healthy\<close>.\<close>

definition group_healthy :: "member_row list \<Rightarrow> bool" where
  "group_healthy ms \<longleftrightarrow> ms \<noteq> [] \<and> list_all (\<lambda>m. m_state m = ''ONLINE'') ms"

section \<open>Reading the peers' answers\<close>

text \<open>
  \<open>gr.rs\<close> reads the answers of one round, a list of (host, answer) in declared order.
\<close>

type_synonym answers = "(string \<times> peer_answer) list"

definition group_seen :: "answers \<Rightarrow> bool" where
  "group_seen as \<longleftrightarrow> list_ex (\<lambda>(h, a). is_active a) as"

definition group_active_from :: "string option \<Rightarrow> member_row list \<Rightarrow> bool" where
  "group_active_from st ms =
     (if st = Some ''ONLINE'' then True
      else if st = Some ''RECOVERING'' then list_ex (\<lambda>m. m_state m = ''ONLINE'') ms
      else False)"

definition block_size_to_adopt :: "u64 option \<Rightarrow> answers \<Rightarrow> u64 option" where
  "block_size_to_adopt mine as =
     (case find_map (\<lambda>(h, a). case active_state a of Some s \<Rightarrow> block_size s | None \<Rightarrow> None) as of
        None \<Rightarrow> None
      | Some g \<Rightarrow> if mine = Some g then None else Some g)"

definition uuid_collision_peer :: "string \<Rightarrow> answers \<Rightarrow> string option" where
  "uuid_collision_peer my_uuid as =
     find_map (\<lambda>(h, a). case active_state a of
         Some s \<Rightarrow> (case server_uuid s of Some u \<Rightarrow> if eq_ic u my_uuid then Some h else None | None \<Rightarrow> None)
       | None \<Rightarrow> None) as"

definition live_primary_gtid :: "answers \<Rightarrow> string option" where
  "live_primary_gtid as =
     find_map (\<lambda>(h, a). case active_state a of
         Some s \<Rightarrow> if member_role s = Some ''PRIMARY'' then gtid_executed s else None
       | None \<Rightarrow> None) as"

definition live_identity :: "answers \<Rightarrow> (string \<times> u64) option" where
  "live_identity as =
     find_map (\<lambda>(h, a). case active_state a of
         Some s \<Rightarrow> map_option (\<lambda>n. (n, waiver_generation s)) (group_name s)
       | None \<Rightarrow> None) as"

definition donors :: "answers \<Rightarrow> (string \<times> string option) list" where
  "donors as = List.map_filter (\<lambda>(h, a). map_option (\<lambda>s. (h, member_role s)) (active_state a)) as"

definition cmp_primary :: "string \<times> string option \<Rightarrow> string \<times> string option \<Rightarrow> ordering" where
  "cmp_primary x y = cmp_lin (snd x = Some ''PRIMARY'') (snd y = Some ''PRIMARY'')"

definition pick_donor :: "answers \<Rightarrow> string option" where
  "pick_donor as = map_option fst (max_by cmp_primary (donors as))"

text \<open>\<open>GroupPreGtidPicture\<close> and the fold that builds it.\<close>

record pre_gtid_picture =
  carries_pre_gtid_data :: bool
  unknown_peers :: "string list"
  live_peers :: "string list"

definition picture_add :: "pre_gtid_picture \<Rightarrow> string \<times> peer_answer \<Rightarrow> pre_gtid_picture" where
  "picture_add p ha =
     (case active_state (snd ha) of
        None \<Rightarrow> p
      | Some s \<Rightarrow>
          let p' = p\<lparr>live_peers := live_peers p @ [fst ha]\<rparr> in
          if pre_gtid_data s then p'\<lparr>carries_pre_gtid_data := True\<rparr>
          else if pre_gtid_data_unknown s then p'\<lparr>unknown_peers := unknown_peers p' @ [fst ha]\<rparr>
          else p')"

definition empty_picture :: pre_gtid_picture where
  "empty_picture = \<lparr>carries_pre_gtid_data = False, unknown_peers = [], live_peers = []\<rparr>"

definition group_pre_gtid_picture :: "answers \<Rightarrow> pre_gtid_picture" where
  "group_pre_gtid_picture as = foldl picture_add empty_picture as"

datatype adopted_verdict =
    NotApplicable
  | GroupCarriesIt
  | Incomplete "string list"
  | Refuse "string list"

definition adopted_data_verdict :: "bool \<Rightarrow> bool \<Rightarrow> pre_gtid_picture \<Rightarrow> adopted_verdict" where
  "adopted_data_verdict i_hold been_member p =
     (if \<not> i_hold \<or> been_member then NotApplicable
      else if carries_pre_gtid_data p then GroupCarriesIt
      else if unknown_peers p \<noteq> [] then Incomplete (unknown_peers p)
      else Refuse (live_peers p))"

section \<open>Facts about the answers\<close>

lemma group_seen_iff: "group_seen as \<longleftrightarrow> (\<exists>h s. (h, State s) \<in> set as \<and> group_active s)"
  by (auto simp: group_seen_def list_ex_iff active_state_Some)

lemma set_donors: "(h, r) \<in> set (donors as) \<longleftrightarrow>
    (\<exists>s. (h, State s) \<in> set as \<and> group_active s \<and> member_role s = r)"
  by (induction as)
     (auto simp: donors_def List.map_filter_simps active_state_Some split: option.splits,
      auto simp: active_state_def split: peer_answer.splits if_splits)

lemma pick_donor_active:
  assumes "pick_donor as = Some h"
  shows "\<exists>s. (h, State s) \<in> set as \<and> group_active s"
proof -
  from assms obtain r where "max_by cmp_primary (donors as) = Some (h, r)"
    by (auto simp: pick_donor_def)
  then have "(h, r) \<in> set (donors as)"
    by (rule max_by_in)
  then show ?thesis
    by (auto simp: set_donors)
qed

lemma pick_donor_None: "pick_donor as = None \<longleftrightarrow> \<not> group_seen as"
  by (auto simp: pick_donor_def donors_def map_filter_def group_seen_def list_ex_iff filter_empty_conv)

lemma pick_donor_primary:
  assumes "(h, State s) \<in> set as" and "group_active s" and "member_role s = Some ''PRIMARY''"
    and "pick_donor as = Some d"
  shows "\<exists>s'. (d, State s') \<in> set as \<and> group_active s' \<and> member_role s' = Some ''PRIMARY''"
proof -
  let ?k = "\<lambda>x :: string \<times> string option. snd x = Some ''PRIMARY''"
  from assms(4) obtain r where m: "max_by cmp_primary (donors as) = Some (d, r)"
    by (auto simp: pick_donor_def)
  have "(h, Some ''PRIMARY'') \<in> set (donors as)"
    using assms(1-3) by (auto simp: set_donors)
  then have "?k (h, Some ''PRIMARY'') \<le> ?k (d, r)"
    by (rule max_by_key_max [OF m, rotated]) (auto simp: cmp_primary_def cmp_lin_def)
  then have "r = Some ''PRIMARY''" by simp
  then show ?thesis
    using max_by_in [OF m] by (auto simp: set_donors)
qed

lemma picture_add_carries: "carries_pre_gtid_data (picture_add p (h, a)) \<longleftrightarrow>
    carries_pre_gtid_data p \<or> (\<exists>s. a = State s \<and> group_active s \<and> pre_gtid_data s)"
  by (auto simp: picture_add_def active_state_def Let_def split: peer_answer.splits)

lemma picture_add_unknown: "set (unknown_peers (picture_add p (h, a))) = set (unknown_peers p) \<union>
    {h'. h' = h \<and> (\<exists>s. a = State s \<and> group_active s \<and> \<not> pre_gtid_data s \<and> pre_gtid_data_unknown s)}"
  by (auto simp: picture_add_def active_state_def Let_def split: peer_answer.splits)

lemma picture_add_live: "set (live_peers (picture_add p (h, a))) = set (live_peers p) \<union>
    {h'. h' = h \<and> (\<exists>s. a = State s \<and> group_active s)}"
  by (auto simp: picture_add_def active_state_def Let_def split: peer_answer.splits)

lemma picture_fold:
  "carries_pre_gtid_data (foldl picture_add p as) \<longleftrightarrow> carries_pre_gtid_data p \<or>
     (\<exists>h s. (h, State s) \<in> set as \<and> group_active s \<and> pre_gtid_data s)"
  "set (unknown_peers (foldl picture_add p as)) = set (unknown_peers p) \<union>
     {h. \<exists>s. (h, State s) \<in> set as \<and> group_active s \<and> \<not> pre_gtid_data s \<and> pre_gtid_data_unknown s}"
  "set (live_peers (foldl picture_add p as)) = set (live_peers p) \<union>
     {h. \<exists>s. (h, State s) \<in> set as \<and> group_active s}"
proof (induction as arbitrary: p)
  case (Cons ha as)
  obtain h a where [simp]: "ha = (h, a)" by (cases ha)
  {
    case 1
    show ?case by (simp add: Cons.IH picture_add_carries) blast
  next
    case 2
    show ?case by (simp add: Cons.IH picture_add_unknown) blast
  next
    case 3
    show ?case by (simp add: Cons.IH picture_add_live) blast
  }
qed simp_all

lemma picture_carries: "carries_pre_gtid_data (group_pre_gtid_picture as) \<longleftrightarrow>
     (\<exists>h s. (h, State s) \<in> set as \<and> group_active s \<and> pre_gtid_data s)"
  by (simp add: group_pre_gtid_picture_def picture_fold empty_picture_def)

lemma picture_unknown: "set (unknown_peers (group_pre_gtid_picture as)) =
     {h. \<exists>s. (h, State s) \<in> set as \<and> group_active s \<and> \<not> pre_gtid_data s \<and> pre_gtid_data_unknown s}"
  by (simp add: group_pre_gtid_picture_def picture_fold empty_picture_def)

lemma picture_live: "set (live_peers (group_pre_gtid_picture as)) =
     {h. \<exists>s. (h, State s) \<in> set as \<and> group_active s}"
  by (simp add: group_pre_gtid_picture_def picture_fold empty_picture_def)

end
