(* ===== verification/Config.thy ===== *)
theory Config
  imports Peers
begin

text \<open>
  \<open>config.rs\<close>: the wrapper's configuration, read once from the environment, with the
  contracts it refuses at boot (\<open>from_env\<close>), the archive contract it only reports,
  and the declared seed list every node ranks its peers by. \<open>common/config.rs\<close>
  supplies the environment accessors.
\<close>

section \<open>Environment accessors (common/src/config.rs)\<close>

text \<open>The process environment; \<open>None\<close> for a variable that is not set.\<close>

type_synonym env = "string \<Rightarrow> string option"

definition env_or :: "env \<Rightarrow> string \<Rightarrow> string \<Rightarrow> string" where
  "env_or e name dflt = (case e name of Some v \<Rightarrow> v | None \<Rightarrow> dflt)"

definition env_bool :: "env \<Rightarrow> string \<Rightarrow> bool \<Rightarrow> bool" where
  "env_bool e name dflt = (case e name of Some v \<Rightarrow> map ascii_lower v = ''true'' | None \<Rightarrow> dflt)"

definition env_parse :: "env \<Rightarrow> (string \<Rightarrow> 'a option) \<Rightarrow> string \<Rightarrow> 'a \<Rightarrow> 'a" where
  "env_parse e parse name dflt =
     (case Option.bind (e name) parse of Some v \<Rightarrow> v | None \<Rightarrow> dflt)"

definition non_empty :: "string option \<Rightarrow> string option" where
  "non_empty v = (case v of Some s \<Rightarrow> if s = [] then None else Some s | None \<Rightarrow> None)"

definition parse_i64 :: "string \<Rightarrow> int option" where
  "parse_i64 s =
     (case s of
        c # r \<Rightarrow>
          if char_code c = 45 then
            (case r of
               d # _ \<Rightarrow> if is_digit d then map_option (\<lambda>n. - int n) (parse_uint (2 ^ 63) r) else None
             | [] \<Rightarrow> None)
          else map_option int (parse_uint (2 ^ 63 - 1) s)
      | [] \<Rightarrow> None)"

section \<open>The configuration\<close>

text \<open>
  \<open>S3Location\<close> of \<open>pitr.rs\<close>, and the fields of \<open>Config\<close>. Durations and
  sizes are \<open>nat\<close> below the bound their parser enforces; instants are nanoseconds since
  the epoch.
\<close>

record s3_location =
  bucket :: string
  access_key :: string
  secret_key :: string
  region :: string
  endpoint :: string
  path :: string

record bucket_vars =
  bv_bucket :: "string option"
  bv_key :: "string option"
  bv_secret :: "string option"
  bv_region :: "string option"
  bv_endpoint :: "string option"
  bv_path :: string

record config =
  mysql_root_password :: string
  mysql_port :: nat
  server_id :: "nat option"
  gr_enabled_flag :: bool
  gr_seeds :: "string option"
  gr_group_name :: "string option"
  gr_replication_password :: "string option"
  health_port :: nat
  health_api_username :: string
  health_api_password :: "string option"
  private_domain :: string
  socket_path :: string
  data_dir :: string
  conf_dir :: string
  peer_query_timeout_ms :: nat
  bootstrap_dwell_seconds :: nat
  innodb_buffer_pool_mb :: "nat option"
  mysql_max_connections :: "nat option"
  demote_timeout_ms :: nat
  peer_gone_dwell_seconds :: nat
  boot_loop_threshold :: nat
  boot_ready_budget_seconds :: nat
  stuck_member_dwell_seconds :: nat
  self_heal_attempt_cap :: nat
  self_heal_backoff_base_seconds :: nat
  test_adoption_detection_delay_ms :: nat
  archive :: bucket_vars
  archive_refusal :: "string option"
  full_backup_interval_seconds :: nat
  rotate_interval_seconds :: nat
  retention_days :: "nat option"
  retention_dry_run :: bool
  retention_min_object_age_seconds :: int
  recover_from :: bucket_vars
  recovery_target_time :: "int option"

definition gr_enabled :: "config \<Rightarrow> bool" where
  "gr_enabled c \<longleftrightarrow> gr_enabled_flag c \<and> gr_seeds c \<noteq> None"

definition archive_configured :: "config \<Rightarrow> bool" where
  "archive_configured c \<longleftrightarrow> bv_bucket (archive c) \<noteq> None"

definition archive_enabled :: "config \<Rightarrow> bool" where
  "archive_enabled c \<longleftrightarrow> archive_configured c \<and> archive_refusal c = None"

definition restore_enabled :: "config \<Rightarrow> bool" where
  "restore_enabled c \<longleftrightarrow> bv_bucket (recover_from c) \<noteq> None"

definition s3_of_vars :: "bucket_vars \<Rightarrow> s3_location option" where
  "s3_of_vars b =
     (case (bv_bucket b, bv_key b, bv_secret b, bv_region b, bv_endpoint b) of
        (Some bu, Some k, Some s, Some r, Some e) \<Rightarrow>
          Some \<lparr>bucket = bu, access_key = k, secret_key = s, region = r, endpoint = e, path = bv_path b\<rparr>
      | _ \<Rightarrow> None)"

definition archive_s3_location :: "config \<Rightarrow> s3_location option" where
  "archive_s3_location c = s3_of_vars (archive c)"

definition restore_s3_location :: "config \<Rightarrow> s3_location option" where
  "restore_s3_location c = s3_of_vars (recover_from c)"

section \<open>The declared seed list\<close>

definition seed_hosts :: "config \<Rightarrow> string list" where
  "seed_hosts c =
     (case gr_seeds c of
        None \<Rightarrow> []
      | Some s \<Rightarrow> filter (\<lambda>h. h \<noteq> []) (map (\<lambda>entry. hd (split_on (CHR '':'') (trim entry))) (split_on (CHR '','') s)))"

definition peer_hosts :: "config \<Rightarrow> string list" where
  "peer_hosts c = filter (\<lambda>h. \<not> eq_ic h (private_domain c)) (seed_hosts c)"

definition seed_rank :: "config \<Rightarrow> string \<Rightarrow> nat option" where
  "seed_rank c host = position (\<lambda>h. eq_ic h host) (seed_hosts c)"

definition my_seed_rank :: "config \<Rightarrow> nat option" where
  "my_seed_rank c = seed_rank c (private_domain c)"

definition is_bootstrap_candidate :: "config \<Rightarrow> bool" where
  "is_bootstrap_candidate c \<longleftrightarrow> my_seed_rank c = Some 0"

text \<open>\<open>unwrap_or(usize::MAX)\<close>: an unlisted host ranks last.\<close>

definition rank_or_last :: "nat option \<Rightarrow> nat" where
  "rank_or_last r = (case r of Some n \<Rightarrow> n | None \<Rightarrow> u64_max)"

lemma eq_ic_refl [simp]: "eq_ic a a"
  by (simp add: eq_ic_def)

lemma eq_ic_sym: "eq_ic a b \<longleftrightarrow> eq_ic b a"
  by (auto simp: eq_ic_def)

lemma eq_ic_trans: "eq_ic a b \<Longrightarrow> eq_ic b c \<Longrightarrow> eq_ic a c"
  by (simp add: eq_ic_def)

lemma seed_rank_inj:
  assumes "seed_rank c a = Some r" and "seed_rank c b = Some r"
  shows "eq_ic a b"
proof -
  have "eq_ic (seed_hosts c ! r) a" and "eq_ic (seed_hosts c ! r) b"
    using assms by (auto simp: seed_rank_def dest: position_Some)
  then show ?thesis by (simp add: eq_ic_def)
qed

lemma seed_rank_less: "seed_rank c a = Some r \<Longrightarrow> r < length (seed_hosts c)"
  by (auto simp: seed_rank_def dest: position_Some)

section \<open>The archive contract\<close>

definition join_with :: "string \<Rightarrow> string list \<Rightarrow> string" where
  "join_with sep ws = (case ws of [] \<Rightarrow> [] | w # r \<Rightarrow> w @ concat (map (\<lambda>x. sep @ x) r))"

definition missing_archive_siblings_refusal :: "string list \<Rightarrow> string" where
  "missing_archive_siblings_refusal missing =
     (let (noun, verb) = (if length missing = 1 then (''is'', ''it'') else (''are'', ''them'')) in
      join_with '' and '' missing @ '' '' @ noun @
      '' not set but BINLOG_ARCHIVE_BUCKET is - set '' @ verb @ '' to enable archiving'')"

text \<open>\<open>str::replace\<close>, for the non-empty pattern it is called with.\<close>

function replace_str :: "string \<Rightarrow> string \<Rightarrow> string \<Rightarrow> string" where
  "replace_str p r s =
     (if p = [] \<or> s = [] then s
      else if starts_with p s then r @ replace_str p r (drop (length p) s)
      else hd s # replace_str p r (tl s))"
  by pat_completeness auto
termination
  by (relation "measure (\<lambda>(p, r, s). length s)") (auto simp: length_greater_0_conv [symmetric] simp del: length_greater_0_conv)

declare replace_str.simps [simp del]

definition check_bucket_shape :: "string \<Rightarrow> string \<Rightarrow> string option" where
  "check_bucket_shape var value =
     (if CHR ''/'' \<in> set value \<or> list_ex is_ws value
      then Some (var @ '' must be a bare bucket name - got '' @ value @
                 '' - a prefix inside the bucket belongs in '' @ replace_str ''_BUCKET'' ''_PATH'' var)
      else None)"

text \<open>
  \<open>{value:?}\<close>: quoted, with backslash and double quote escaped (the printable-ASCII
  part of Rust's escaping).
\<close>

definition debug_quote :: "string \<Rightarrow> string" where
  "debug_quote s = (let dq = char_of (34::nat) in
     dq # replace_char dq [backslash, dq] (replace_char backslash [backslash, backslash] s) @ [dq])"

definition check_endpoint_shape :: "string \<Rightarrow> string \<Rightarrow> string option" where
  "check_endpoint_shape var value =
     (let lower = map ascii_lower value in
      case (case strip_prefix ''https://'' lower of Some r \<Rightarrow> Some r | None \<Rightarrow> strip_prefix ''http://'' lower) of
        None \<Rightarrow> Some (var @ '' must be an absolute http(s) URL - got '' @ value @ '' - set it to https://'' @ value)
      | Some rest \<Rightarrow>
          if hd (split_on (CHR ''/'') rest) = [] then Some (var @ '' has no host, got '' @ debug_quote value) else None)"

definition missing_siblings :: "bucket_vars \<Rightarrow> string list" where
  "missing_siblings b = map fst (filter snd
     [(''BINLOG_ARCHIVE_KEY'', bv_key b = None), (''BINLOG_ARCHIVE_SECRET'', bv_secret b = None),
      (''BINLOG_ARCHIVE_REGION'', bv_region b = None), (''BINLOG_ARCHIVE_ENDPOINT'', bv_endpoint b = None)])"

definition archive_config_refusal :: "config \<Rightarrow> string option" where
  "archive_config_refusal c =
     (case bv_bucket (archive c) of
        None \<Rightarrow> None
      | Some bu \<Rightarrow>
          let missing = missing_siblings (archive c) in
          if missing \<noteq> [] then Some (missing_archive_siblings_refusal missing)
          else (case check_bucket_shape ''BINLOG_ARCHIVE_BUCKET'' bu of
                  Some e \<Rightarrow> Some e
                | None \<Rightarrow>
                    (case bv_endpoint (archive c) of
                       Some e \<Rightarrow> check_endpoint_shape ''BINLOG_ARCHIVE_ENDPOINT'' e
                     | None \<Rightarrow> None)))"

section \<open>Reading the environment\<close>

datatype config_error =
    RootPasswordRequired
  | ReplicationPasswordRequired
  | RecoverPairRequired
  | RecoverSiblingsRequired
  | BadTargetTime string

definition bucket_vars_from_env :: "env \<Rightarrow> string \<Rightarrow> bucket_vars" where
  "bucket_vars_from_env e prefix =
     \<lparr>bv_bucket = non_empty (e (prefix @ ''_BUCKET'')), bv_key = non_empty (e (prefix @ ''_KEY'')),
      bv_secret = non_empty (e (prefix @ ''_SECRET'')), bv_region = non_empty (e (prefix @ ''_REGION'')),
      bv_endpoint = non_empty (e (prefix @ ''_ENDPOINT'')),
      bv_path = env_or e (prefix @ ''_PATH'') ''/binlog''\<rparr>"

definition default_retention_days :: nat where "default_retention_days = 7"

definition retention_days_from_env :: "env \<Rightarrow> nat option" where
  "retention_days_from_env e =
     (case non_empty (e ''BINLOG_RETENTION_DAYS'') of
        None \<Rightarrow> Some default_retention_days
      | Some raw \<Rightarrow>
          (case parse_uint u64_max raw of
             Some d \<Rightarrow> if d = 0 then None else Some d
           | None \<Rightarrow> Some default_retention_days))"

text \<open>
  The record \<open>from_env\<close> builds before its checks. \<open>target\<close> is the parsed
  \<open>MYSQL_RECOVERY_TARGET_TIME\<close>.
\<close>

definition config_of_env :: "env \<Rightarrow> int option \<Rightarrow> config" where
  "config_of_env e target =
     \<lparr>mysql_root_password = env_or e ''MYSQL_ROOT_PASSWORD'' [],
      mysql_port = env_parse e (parse_uint u16_max) ''MYSQL_PORT'' 3306,
      server_id = Option.bind (non_empty (e ''SERVER_ID'')) (parse_uint u32_max),
      gr_enabled_flag = (case e ''GR_ENABLED'' of None \<Rightarrow> True | Some v \<Rightarrow> v \<noteq> ''false''),
      gr_seeds = non_empty (e ''GR_SEEDS''),
      gr_group_name = non_empty (e ''GR_GROUP_NAME''),
      gr_replication_password = non_empty (e ''GR_REPLICATION_PASSWORD''),
      health_port = env_parse e (parse_uint u16_max) ''HEALTH_PORT'' 8080,
      health_api_username = env_or e ''HEALTH_API_USERNAME'' ''railway'',
      health_api_password = non_empty (e ''HEALTH_API_PASSWORD''),
      private_domain = env_or e ''RAILWAY_PRIVATE_DOMAIN'' ''localhost'',
      socket_path = env_or e ''MYSQL_SOCKET'' ''/var/run/mysqld/mysqld.sock'',
      data_dir = (case non_empty (e ''DATA_DIR'') of Some d \<Rightarrow> d | None \<Rightarrow>
                   (case non_empty (e ''RAILWAY_VOLUME_MOUNT_PATH'') of Some d \<Rightarrow> d
                    | None \<Rightarrow> ''/var/lib/mysql'')),
      conf_dir = env_or e ''MYSQL_CONF_DIR'' ''/etc/mysql/conf.d'',
      peer_query_timeout_ms = env_parse e (parse_uint u64_max) ''PEER_QUERY_TIMEOUT_MS'' 2000,
      bootstrap_dwell_seconds = env_parse e (parse_uint u64_max) ''BOOTSTRAP_DWELL_SECONDS'' 15,
      innodb_buffer_pool_mb = Option.bind (non_empty (e ''INNODB_BUFFER_POOL_MB'')) (parse_uint u64_max),
      mysql_max_connections = Option.bind (non_empty (e ''MYSQL_MAX_CONNECTIONS'')) (parse_uint u64_max),
      demote_timeout_ms = env_parse e (parse_uint u64_max) ''DEMOTE_TIMEOUT_MS'' 20000,
      peer_gone_dwell_seconds = env_parse e (parse_uint u64_max) ''PEER_GONE_DWELL_SECONDS'' 1800,
      boot_loop_threshold = env_parse e (parse_uint u32_max) ''BOOT_LOOP_THRESHOLD'' 3,
      boot_ready_budget_seconds = env_parse e (parse_uint u64_max) ''BOOT_READY_BUDGET_SECONDS'' 900,
      stuck_member_dwell_seconds = env_parse e (parse_uint u64_max) ''STUCK_MEMBER_DWELL_SECONDS'' 900,
      self_heal_attempt_cap = env_parse e (parse_uint u32_max) ''SELF_HEAL_ATTEMPT_CAP'' 5,
      self_heal_backoff_base_seconds = env_parse e (parse_uint u64_max) ''SELF_HEAL_BACKOFF_BASE_SECONDS'' 60,
      test_adoption_detection_delay_ms =
        env_parse e (parse_uint u64_max) ''RAILWAY_TEST_ADOPTION_DETECTION_DELAY_MS'' 0,
      archive = bucket_vars_from_env e ''BINLOG_ARCHIVE'',
      archive_refusal = None,
      full_backup_interval_seconds =
        env_parse e (parse_uint u64_max) ''BINLOG_FULL_BACKUP_INTERVAL_SECONDS'' 86400,
      rotate_interval_seconds = env_parse e (parse_uint u64_max) ''BINLOG_ROTATE_INTERVAL_SECONDS'' 60,
      retention_days = retention_days_from_env e,
      retention_dry_run = env_bool e ''BINLOG_RETENTION_DRY_RUN'' False,
      retention_min_object_age_seconds =
        env_parse e parse_i64 ''RAILWAY_TEST_RETENTION_MIN_OBJECT_AGE_SECONDS'' 3600,
      recover_from = bucket_vars_from_env e ''BINLOG_RECOVER_FROM'',
      recovery_target_time = target\<rparr>"

text \<open>
  \<open>from_env\<close>. \<open>parse_time\<close> is chrono's RFC 3339 parser,
  \<open>initialized\<close> says whether the data directory holds the \<open>mysql\<close> schema.
\<close>

definition from_env :: "(string \<Rightarrow> int option) \<Rightarrow> bool \<Rightarrow> env \<Rightarrow> config_error + config" where
  "from_env parse_time initialized e =
     (let raw = non_empty (e ''MYSQL_RECOVERY_TARGET_TIME'');
          target = Option.bind raw parse_time in
      if raw \<noteq> None \<and> target = None then Inl (BadTargetTime (the raw))
      else
        let c = config_of_env e target in
        if mysql_root_password c = [] \<and> \<not> initialized then Inl RootPasswordRequired
        else if gr_enabled c \<and> gr_replication_password c = None \<and> \<not> initialized
          then Inl ReplicationPasswordRequired
        else
          let c' = c\<lparr>archive_refusal := archive_config_refusal c\<rparr> in
          if (bv_bucket (recover_from c') \<noteq> None) \<noteq> (recovery_target_time c' \<noteq> None)
            then Inl RecoverPairRequired
          else if bv_bucket (recover_from c') \<noteq> None \<and>
              (bv_key (recover_from c') = None \<or> bv_secret (recover_from c') = None \<or>
               bv_region (recover_from c') = None \<or> bv_endpoint (recover_from c') = None)
            then Inl RecoverSiblingsRequired
          else Inr c')"

section \<open>What a configuration that booted guarantees\<close>

lemma archive_config_refusal_ignores [simp]:
  "archive_config_refusal (c\<lparr>archive_refusal := r\<rparr>) = archive_config_refusal c"
  by (simp add: archive_config_refusal_def Let_def split: option.split)

lemma from_env_refusal:
  "from_env pt ini e = Inr c \<Longrightarrow> archive_refusal c = archive_config_refusal c"
  by (auto simp: from_env_def Let_def split: if_splits)

lemma from_env_recover:
  assumes "from_env pt ini e = Inr c" and "restore_enabled c"
  shows "recovery_target_time c \<noteq> None \<and> restore_s3_location c \<noteq> None"
  using assms
  by (auto simp: from_env_def Let_def restore_enabled_def restore_s3_location_def s3_of_vars_def
      split: if_splits)

lemma archive_enabled_location:
  assumes "archive_refusal c = archive_config_refusal c" and "archive_enabled c"
  shows "archive_s3_location c \<noteq> None"
proof -
  obtain bu where "bv_bucket (archive c) = Some bu"
    using assms(2) by (auto simp: archive_enabled_def archive_configured_def)
  then have "missing_siblings (archive c) = []"
    using assms by (auto simp: archive_config_refusal_def Let_def archive_enabled_def split: if_splits)
  then show ?thesis
    using \<open>bv_bucket (archive c) = Some bu\<close>
    by (auto simp: missing_siblings_def archive_s3_location_def s3_of_vars_def split: if_splits)
qed

end
