(* ===== verification/Volume.thy ===== *)
theory Volume
  imports Config
begin

text \<open>
  The markers the wrapper keeps on the volume (\<open>gr.rs\<close>): the group name, the
  pre-GTID-data flag, the waiver generation, the membership high water and the member
  marker, each with its reader and its writer. \<open>self_heal.rs\<close> and
  \<open>password_pin.rs\<close> keep theirs in the same record. Every writer is write-to-temp,
  sync, rename, so a write either happens whole or leaves the old content: \<open>io\<close> says
  which.
\<close>

text \<open>What \<open>read_to_string\<close> finds: nothing, something it cannot read, or a text.\<close>

datatype file_read = Missing | Unreadable | Content string

record volume =
  group_name_file :: file_read
  pre_gtid_file :: bool
  waiver_file :: file_read
  high_water_file :: file_read
  member_file :: bool
  boot_file :: file_read
  ledger_file :: file_read
  pin_file :: file_read
  auto_cnf_file :: bool
  mysql_dir :: bool
  other_entries :: bool

definition read_text :: "file_read \<Rightarrow> string option" where
  "read_text f = (case f of Content s \<Rightarrow> Some s | _ \<Rightarrow> None)"

definition line :: "string \<Rightarrow> file_read" where
  "line s = Content (s @ [newline])"

definition read_member_marker :: "volume \<Rightarrow> bool" where
  "read_member_marker v = member_file v"

definition note_membership :: "bool \<Rightarrow> volume \<Rightarrow> volume" where
  "note_membership io v = (if member_file v then v else if io then v\<lparr>member_file := True\<rparr> else v)"

text \<open>
  \<open>has_been_group_member\<close>: the marker, or an executed GTID set that names the group.
  \<open>gtid\<close> is the server's answer.
\<close>

definition has_been_group_member :: "string option \<Rightarrow> volume \<Rightarrow> string \<Rightarrow> bool" where
  "has_been_group_member gtid v gname =
     (if read_member_marker v then True
      else (case gtid of Some g \<Rightarrow> contains_str (gname @ '':'') g | None \<Rightarrow> False))"

text \<open>\<open>is_uuid\<close> is \<open>Uuid::parse_str\<close> succeeding.\<close>

definition read_group_name_marker :: "(string \<Rightarrow> bool) \<Rightarrow> volume \<Rightarrow> string option" where
  "read_group_name_marker is_uuid v =
     (case read_text (group_name_file v) of
        None \<Rightarrow> None
      | Some content \<Rightarrow>
          let trimmed = trim content in
          if trimmed = [] then None
          else if \<not> is_uuid trimmed then None
          else Some trimmed)"

definition persist_group_name :: "bool \<Rightarrow> string \<Rightarrow> volume \<Rightarrow> volume" where
  "persist_group_name io gname v =
     (if (case read_text (group_name_file v) of Some t \<Rightarrow> trim t = gname | None \<Rightarrow> False) then v
      else if io then v\<lparr>group_name_file := line gname\<rparr> else v)"

definition resolve_group_name :: "(string \<Rightarrow> bool) \<Rightarrow> string \<Rightarrow> config \<Rightarrow> volume \<Rightarrow> string" where
  "resolve_group_name is_uuid derived c v =
     (case gr_group_name c of Some n \<Rightarrow> n
      | None \<Rightarrow> (case read_group_name_marker is_uuid v of Some n \<Rightarrow> n | None \<Rightarrow> derived))"

definition read_waiver_generation :: "volume \<Rightarrow> u64" where
  "read_waiver_generation v =
     (case Option.bind (read_text (waiver_file v)) (\<lambda>s. parse_uint u64_max (trim s)) of
        Some n \<Rightarrow> word_of_nat n | None \<Rightarrow> 0)"

definition persist_waiver_generation :: "bool \<Rightarrow> u64 \<Rightarrow> volume \<Rightarrow> volume" where
  "persist_waiver_generation io g v =
     (if io then v\<lparr>waiver_file := line (show_nat (unat g))\<rparr> else v)"

text \<open>
  \<open>None\<close> is the marker that is there and cannot be read or parsed; a missing file is
  \<open>Some 0\<close>.
\<close>

definition read_membership_high_water :: "volume \<Rightarrow> nat option" where
  "read_membership_high_water v =
     (case high_water_file v of
        Content raw \<Rightarrow> parse_uint u64_max (trim raw)
      | Missing \<Rightarrow> Some 0
      | Unreadable \<Rightarrow> None)"

definition persist_membership_high_water :: "bool \<Rightarrow> nat \<Rightarrow> volume \<Rightarrow> volume" where
  "persist_membership_high_water io n v =
     (if io then v\<lparr>high_water_file := line (show_nat n)\<rparr> else v)"

definition has_pre_gtid_data :: "volume \<Rightarrow> bool" where
  "has_pre_gtid_data v = pre_gtid_file v"

definition persist_pre_gtid :: "bool \<Rightarrow> volume \<Rightarrow> volume" where
  "persist_pre_gtid io v = (if io then v\<lparr>pre_gtid_file := True\<rparr> else v)"

section \<open>Reading back what was written\<close>

lemma read_text_line [simp]: "read_text (line s) = Some (s @ [newline])"
  by (simp add: read_text_def line_def)

lemma unat_le_u64_max [simp]: "unat (g :: u64) \<le> u64_max"
proof -
  have "unat g < 2 ^ LENGTH(64)" by (rule unsigned_less)
  then show ?thesis by (simp add: u64_max_def)
qed

interpretation waiver_marker: volume_marker read_waiver_generation "persist_waiver_generation True"
  "\<lambda>g. g" "\<lambda>_. True"
  by unfold_locales (simp add: read_waiver_generation_def persist_waiver_generation_def)

interpretation high_water_marker: volume_marker read_membership_high_water
  "persist_membership_high_water True" Some "\<lambda>n. n \<le> u64_max"
  by unfold_locales (simp add: read_membership_high_water_def persist_membership_high_water_def line_def)

definition plain_line :: "string \<Rightarrow> bool" where
  "plain_line s \<longleftrightarrow> s \<noteq> [] \<and> list_all (\<lambda>c. \<not> is_ws c) s"

lemma trim_plain_line [simp]: "plain_line s \<Longrightarrow> trim (s @ [newline]) = s"
  by (simp add: plain_line_def trim_line)

lemma group_name_read_back:
  assumes "plain_line n" and "is_uuid n"
  shows "read_group_name_marker is_uuid (persist_group_name True n v) = Some n"
  using assms
  by (auto simp: read_group_name_marker_def persist_group_name_def Let_def plain_line_def trim_line
      split: option.splits)

interpretation group_name_marker: volume_marker "read_group_name_marker is_uuid"
  "persist_group_name True" Some "\<lambda>n. plain_line n \<and> is_uuid n" for is_uuid
  by unfold_locales (simp add: group_name_read_back)

lemmas marker_read_back [marker_simps] =
  waiver_marker.get_put high_water_marker.get_put group_name_marker.get_put

text \<open>A write to one marker leaves the others alone.\<close>

lemma marker_frame [marker_simps]:
  "read_waiver_generation (persist_group_name io n v) = read_waiver_generation v"
  "pre_gtid_file (persist_group_name io n v) = pre_gtid_file v"
  "member_file (persist_group_name io n v) = member_file v"
  "pre_gtid_file (persist_waiver_generation io g v) = pre_gtid_file v"
  "member_file (persist_waiver_generation io g v) = member_file v"
  "group_name_file (persist_waiver_generation io g v) = group_name_file v"
  "pre_gtid_file (note_membership io v) = pre_gtid_file v"
  "high_water_file (note_membership io v) = high_water_file v"
  "group_name_file (note_membership io v) = group_name_file v"
  "waiver_file (note_membership io v) = waiver_file v"
  "group_name_file (persist_membership_high_water io k v) = group_name_file v"
  by (simp_all add: persist_group_name_def persist_waiver_generation_def note_membership_def
      read_waiver_generation_def persist_membership_high_water_def split: option.splits)

lemma read_group_name_marker_cong:
  "group_name_file v = group_name_file w \<Longrightarrow>
   read_group_name_marker is_uuid v = read_group_name_marker is_uuid w"
  by (simp add: read_group_name_marker_def)

lemma read_group_name_marker_uuid:
  "read_group_name_marker is_uuid v = Some n \<Longrightarrow> is_uuid n \<and> n \<noteq> []"
  by (auto simp: read_group_name_marker_def Let_def split: option.splits if_splits)

section \<open>Examples\<close>

text \<open>The configuration and the volume the examples of the components start from.\<close>

definition sample_config :: "string \<Rightarrow> config" where
  "sample_config d = (config_of_env (\<lambda>_. None) None)
     \<lparr>gr_seeds := Some ''a:3306,b:3306,c:3306'', private_domain := d\<rparr>"

definition sample_volume :: "bool \<Rightarrow> volume" where
  "sample_volume pre = \<lparr>group_name_file = Missing, pre_gtid_file = pre, waiver_file = Missing,
     high_water_file = Missing, member_file = False, boot_file = Missing, ledger_file = Missing,
     pin_file = Missing, auto_cnf_file = True, mysql_dir = True, other_entries = True\<rparr>"

lemma sample_config_simps [simp]:
  "seed_hosts (sample_config d) = [''a'', ''b'', ''c'']" "peer_gone_dwell_seconds (sample_config d) = 1800"
  "private_domain (sample_config d) = d" "gr_seeds (sample_config d) = Some ''a:3306,b:3306,c:3306''"
  "boot_loop_threshold (sample_config d) = 3" "self_heal_attempt_cap (sample_config d) = 5"
  "self_heal_backoff_base_seconds (sample_config d) = 60" "stuck_member_dwell_seconds (sample_config d) = 900"
  "bootstrap_dwell_seconds (sample_config d) = 15" "gr_group_name (sample_config d) = None"
  by (simp_all add: seed_hosts_def sample_config_def config_of_env_def env_parse_def non_empty_def
      trim_def trim_end_by_def is_ws_def char_code_def)

lemma sample_peers [simp]: "peer_hosts (sample_config ''a'') = [''b'', ''c'']"
  by (simp add: peer_hosts_def eq_ic_def ascii_lower_def char_code_def)

end
