(* ===== verification/Bootstrap_Guard.thy ===== *)
theory Bootstrap_Guard
  imports Volume
begin

text \<open>
  The bootstrap decision of \<open>gr.rs\<close>: a node's own state as it advertises it
  (\<open>local_gr_state\<close>), how one peer's dataset relates to this node's, and the verdict
  of one round (\<open>classify_round\<close>, \<open>decide\<close>). MySQL's \<open>GTID_SUBSET\<close> is
  the parameter \<open>sub\<close>; \<open>ok p\<close> says that the comparison query against the set
  \<open>p\<close> was answered.
\<close>

section \<open>What a node advertises\<close>

text \<open>
  The SQL answers \<open>local_gr_state\<close> reads. \<open>pre_flag\<close> is the replicated pre-GTID
  flag: the row, or \<open>None\<close> when it could not be read.
\<close>

record sql_view =
  q_uuid :: "string option"
  q_members :: "member_row list option"
  q_gtid :: "string option"
  q_pre_flag :: "bool option"
  q_block_size :: "u64 option"

definition pre_gtid_report :: "volume \<Rightarrow> bool option \<Rightarrow> bool \<times> bool" where
  "pre_gtid_report v pre_flag =
     (if has_pre_gtid_data v then (True, False)
      else (case pre_flag of Some b \<Rightarrow> (b, False) | None \<Rightarrow> (False, True)))"

definition local_gr_state ::
  "(string \<Rightarrow> bool) \<Rightarrow> bool \<Rightarrow> sql_view \<Rightarrow> volume \<Rightarrow> volume \<times> gr_state option" where
  "local_gr_state is_uuid io q v =
     (case (q_uuid q, q_members q, q_gtid q) of
        (Some uuid, Some ms, Some gtid) \<Rightarrow>
          let me = own_row ms uuid;
              st = map_option m_state me;
              v' = (if st = Some ''ONLINE'' then note_membership io v else v);
              (pre, unknown) = pre_gtid_report v' (q_pre_flag q)
          in (v', Some \<lparr>group_active = group_active_from st ms,
                member_state = st,
                member_role = map_option m_role me,
                gtid_executed = Some gtid,
                members_total = length ms,
                members_reachable = reachable_count ms,
                pre_gtid_data = pre,
                pre_gtid_data_unknown = unknown,
                server_uuid = Some uuid,
                group_name = read_group_name_marker is_uuid v',
                block_size = q_block_size q,
                waiver_generation = read_waiver_generation v'\<rparr>)
      | _ \<Rightarrow> (v, None))"

section \<open>The round's verdict\<close>

datatype relation = Behind | EqualTo bool | Ahead | Diverged | Unknown

record standing =
  st_host :: string
  st_rank :: nat
  st_relation :: relation

datatype verdict =
    JoinExistingGroup
  | SafeToBootstrap
  | PeerIsMoreAdvanced string
  | DeferToPeer string
  | DivergedFrom string
  | Undecidable

definition diverged_peer_wins :: "u64 \<Rightarrow> nat \<Rightarrow> u64 \<Rightarrow> nat \<Rightarrow> bool" where
  "diverged_peer_wins my_gen my_rank peer_gen peer_rank =
     (case cmp_lin peer_gen my_gen of
        Greater \<Rightarrow> True | Less \<Rightarrow> False | Equal \<Rightarrow> peer_rank < my_rank)"

text \<open>\<open>gtid_compare\<close>: (peer inside mine, mine inside peer), one query.\<close>

definition gtid_compare ::
  "(string \<Rightarrow> string \<Rightarrow> bool) \<Rightarrow> (string \<Rightarrow> bool) \<Rightarrow> string \<Rightarrow> string \<Rightarrow> (bool \<times> bool) option" where
  "gtid_compare sub ok mine peer = (if ok peer then Some (sub peer mine, sub mine peer) else None)"

definition relation_to ::
  "(string \<Rightarrow> string \<Rightarrow> bool) \<Rightarrow> (string \<Rightarrow> bool) \<Rightarrow> config \<Rightarrow> u64 \<Rightarrow> nat \<Rightarrow> string \<Rightarrow>
     string \<times> peer_answer \<Rightarrow> relation option" where
  "relation_to sub ok c my_gen my_rank my_gtid ha =
     (case snd ha of
        State s \<Rightarrow>
          (case gtid_executed s of
             Some peer_gtid \<Rightarrow>
               (case gtid_compare sub ok my_gtid peer_gtid of
                  None \<Rightarrow> None
                | Some (True, True) \<Rightarrow> Some (EqualTo (pre_gtid_data s))
                | Some (True, False) \<Rightarrow> Some Behind
                | Some (False, True) \<Rightarrow> Some Ahead
                | Some (False, False) \<Rightarrow>
                    Some (if diverged_peer_wins my_gen my_rank (waiver_generation s)
                               (rank_or_last (seed_rank c (fst ha)))
                          then Ahead else Behind))
           | None \<Rightarrow> Some Unknown)
      | NotReady \<Rightarrow> Some Unknown
      | Unreachable \<Rightarrow> Some Unknown)"

fun standings ::
  "(string \<Rightarrow> string \<Rightarrow> bool) \<Rightarrow> (string \<Rightarrow> bool) \<Rightarrow> config \<Rightarrow> u64 \<Rightarrow> nat \<Rightarrow> string \<Rightarrow> answers \<Rightarrow>
     standing list option" where
  "standings sub ok c my_gen my_rank my_gtid [] = Some []"
| "standings sub ok c my_gen my_rank my_gtid (ha # as) =
     (case relation_to sub ok c my_gen my_rank my_gtid ha of
        None \<Rightarrow> None
      | Some r \<Rightarrow>
          (case standings sub ok c my_gen my_rank my_gtid as of
             None \<Rightarrow> None
           | Some ps \<Rightarrow> Some (\<lparr>st_host = fst ha, st_rank = rank_or_last (seed_rank c (fst ha)),
                              st_relation = r\<rparr> # ps)))"

definition tie_peer_wins :: "bool \<Rightarrow> nat \<Rightarrow> bool \<Rightarrow> nat \<Rightarrow> bool" where
  "tie_peer_wins my_pre my_rank peer_pre peer_rank =
     (case (peer_pre, my_pre) of
        (True, False) \<Rightarrow> True
      | (False, True) \<Rightarrow> False
      | _ \<Rightarrow> peer_rank < my_rank)"

definition wins_tie :: "bool \<Rightarrow> nat \<Rightarrow> standing \<Rightarrow> bool" where
  "wins_tie my_pre my_rank p =
     (case st_relation p of EqualTo pre \<Rightarrow> tie_peer_wins my_pre my_rank pre (st_rank p) | _ \<Rightarrow> False)"

definition decide :: "bool \<Rightarrow> nat \<Rightarrow> standing list \<Rightarrow> verdict" where
  "decide my_pre my_rank ps =
     (if list_ex (\<lambda>p. st_relation p = Unknown) ps then Undecidable
      else (case find (\<lambda>p. st_relation p = Diverged) ps of
        Some p \<Rightarrow> DivergedFrom (st_host p)
      | None \<Rightarrow> (case find (\<lambda>p. st_relation p = Ahead) ps of
          Some p \<Rightarrow> PeerIsMoreAdvanced (st_host p)
        | None \<Rightarrow> (case find (wins_tie my_pre my_rank) ps of
            Some p \<Rightarrow> DeferToPeer (st_host p)
          | None \<Rightarrow> SafeToBootstrap))))"

definition classify_round ::
  "(string \<Rightarrow> string \<Rightarrow> bool) \<Rightarrow> (string \<Rightarrow> bool) \<Rightarrow> config \<Rightarrow> volume \<Rightarrow> string \<Rightarrow> answers \<Rightarrow> verdict option" where
  "classify_round sub ok c v my_gtid as =
     (if group_seen as then Some JoinExistingGroup
      else
        let my_gen = read_waiver_generation v; my_rank = rank_or_last (my_seed_rank c) in
        map_option (decide (has_pre_gtid_data v) my_rank)
          (standings sub ok c my_gen my_rank my_gtid as))"

section \<open>When the verdict is to bootstrap\<close>

definition stands_in_way :: "bool \<Rightarrow> nat \<Rightarrow> standing \<Rightarrow> bool" where
  "stands_in_way my_pre my_rank p \<longleftrightarrow>
     st_relation p \<in> {Unknown, Diverged, Ahead} \<or> wins_tie my_pre my_rank p"

lemma decide_Safe_iff: "decide pre r ps = SafeToBootstrap \<longleftrightarrow> (\<forall>p \<in> set ps. \<not> stands_in_way pre r p)"
  by (auto simp: decide_def stands_in_way_def list_ex_iff find_None_iff split: option.splits
      dest: find_Some_in)

lemma standings_map:
  "standings sub ok c g r m as = Some ps \<Longrightarrow>
   set ps = {\<lparr>st_host = h, st_rank = rank_or_last (seed_rank c h), st_relation = rel\<rparr> | h a rel.
     (h, a) \<in> set as \<and> relation_to sub ok c g r m (h, a) = Some rel}"
proof (induction as arbitrary: ps)
  case (Cons ha as)
  obtain rel qs where rel: "relation_to sub ok c g r m ha = Some rel"
    and qs: "standings sub ok c g r m as = Some qs"
    and ps: "ps = \<lparr>st_host = fst ha, st_rank = rank_or_last (seed_rank c (fst ha)), st_relation = rel\<rparr> # qs"
    using Cons.prems by (auto split: option.splits)
  show ?case
    unfolding ps by (cases ha) (use rel Cons.IH [OF qs] in auto)
qed simp

lemma standings_Some:
  "(\<And>ha. ha \<in> set as \<Longrightarrow> relation_to sub ok c g r m ha \<noteq> None) \<Longrightarrow>
   \<exists>ps. standings sub ok c g r m as = Some ps"
proof (induction as)
  case (Cons ha as)
  then obtain ps where "standings sub ok c g r m as = Some ps" by fastforce
  moreover obtain rel where "relation_to sub ok c g r m ha = Some rel"
    using Cons.prems by fastforce
  ultimately show ?case by simp
qed simp

lemma standings_in:
  assumes "standings sub ok c g r m as = Some ps" and "(h, a) \<in> set as"
  obtains rel where "relation_to sub ok c g r m (h, a) = Some rel"
    and "\<lparr>st_host = h, st_rank = rank_or_last (seed_rank c h), st_relation = rel\<rparr> \<in> set ps"
proof -
  have "\<exists>rel. relation_to sub ok c g r m (h, a) = Some rel"
    using assms by (induction as arbitrary: ps) (auto split: option.splits)
  then show thesis
    using that standings_map [OF assms(1)] assms(2) by blast
qed

text \<open>
  Every peer of a round that ends in \<open>SafeToBootstrap\<close> answered with its state and its
  GTID set, and holds nothing that outranks this node.
\<close>

definition yields :: "(string \<Rightarrow> string \<Rightarrow> bool) \<Rightarrow> config \<Rightarrow> volume \<Rightarrow> string \<Rightarrow> string \<Rightarrow> gr_state \<Rightarrow> string \<Rightarrow> bool" where
  "yields sub c v my_gtid h s peer_gtid \<longleftrightarrow>
     (sub peer_gtid my_gtid \<or> \<not> sub my_gtid peer_gtid \<and>
        \<not> diverged_peer_wins (read_waiver_generation v) (rank_or_last (my_seed_rank c))
           (waiver_generation s) (rank_or_last (seed_rank c h))) \<and>
     (sub peer_gtid my_gtid \<and> sub my_gtid peer_gtid \<longrightarrow>
        \<not> tie_peer_wins (has_pre_gtid_data v) (rank_or_last (my_seed_rank c)) (pre_gtid_data s)
           (rank_or_last (seed_rank c h)))"

lemma classify_Safe_peer:
  assumes "classify_round sub ok c v m as = Some SafeToBootstrap" and "(h, a) \<in> set as"
  shows "\<exists>s peer_gtid. a = State s \<and> \<not> group_active s \<and> gtid_executed s = Some peer_gtid \<and>
    yields sub c v m h s peer_gtid"
proof -
  let ?g = "read_waiver_generation v" and ?r = "rank_or_last (my_seed_rank c)"
  obtain ps where seen: "\<not> group_seen as" and ps: "standings sub ok c ?g ?r m as = Some ps"
    and safe: "decide (has_pre_gtid_data v) ?r ps = SafeToBootstrap"
    using assms(1) by (auto simp: classify_round_def Let_def split: if_splits)
  obtain rel where rel: "relation_to sub ok c ?g ?r m (h, a) = Some rel"
    and mem: "\<lparr>st_host = h, st_rank = rank_or_last (seed_rank c h), st_relation = rel\<rparr> \<in> set ps"
    using standings_in [OF ps assms(2)] by blast
  have free: "\<not> stands_in_way (has_pre_gtid_data v) ?r
      \<lparr>st_host = h, st_rank = rank_or_last (seed_rank c h), st_relation = rel\<rparr>"
    using safe mem by (auto simp: decide_Safe_iff)
  have inactive: "a = State s \<Longrightarrow> \<not> group_active s" for s
    using seen assms(2) by (auto simp: group_seen_iff)
  show ?thesis
    using rel free inactive
    by (auto simp: relation_to_def stands_in_way_def wins_tie_def gtid_compare_def yields_def
        split: peer_answer.splits option.splits if_splits bool.splits)
qed

lemma classify_Safe_intro:
  assumes "\<not> group_seen as"
    and "\<And>h a. (h, a) \<in> set as \<Longrightarrow> \<exists>s peer_gtid. a = State s \<and> gtid_executed s = Some peer_gtid \<and>
      ok peer_gtid \<and> yields sub c v m h s peer_gtid"
  shows "classify_round sub ok c v m as = Some SafeToBootstrap"
proof -
  let ?g = "read_waiver_generation v" and ?r = "rank_or_last (my_seed_rank c)"
  have rel: "\<exists>rel. relation_to sub ok c ?g ?r m (h, a) = Some rel \<and> \<not> stands_in_way (has_pre_gtid_data v) ?r
      \<lparr>st_host = h, st_rank = rank_or_last (seed_rank c h), st_relation = rel\<rparr>"
    if ha: "(h, a) \<in> set as" for h a
  proof -
    obtain s p where s: "a = State s" "gtid_executed s = Some p" "ok p" "yields sub c v m h s p"
      using assms(2) [OF ha] by blast
    then show ?thesis
      by (cases "sub p m"; cases "sub m p")
         (auto simp: relation_to_def stands_in_way_def wins_tie_def gtid_compare_def yields_def)
  qed
  then obtain ps where ps: "standings sub ok c ?g ?r m as = Some ps"
    using standings_Some [of as sub ok c ?g ?r m] by force
  have "\<not> stands_in_way (has_pre_gtid_data v) ?r p" if p: "p \<in> set ps" for p
  proof -
    obtain h a r where "(h, a) \<in> set as" and "relation_to sub ok c ?g ?r m (h, a) = Some r"
      and "p = \<lparr>st_host = h, st_rank = rank_or_last (seed_rank c h), st_relation = r\<rparr>"
      using p standings_map [OF ps] by blast
    then show ?thesis using rel by fastforce
  qed
  then show ?thesis
    using assms(1) ps by (simp add: classify_round_def Let_def decide_Safe_iff)
qed

lemma diverged_antisym: "r \<noteq> r' \<Longrightarrow> diverged_peer_wins g r g' r' \<longleftrightarrow> \<not> diverged_peer_wins g' r' g r"
  by (auto simp: diverged_peer_wins_def cmp_lin_def)

end
