(* ===== verification/Cluster.thy ===== *)
theory Cluster
  imports Bootstrap_Guard
begin

text \<open>
  What the nodes of one cluster conclude from each other. A node is its configuration, its
  volume and its SQL answers; it advertises what \<open>local_gr_state\<close> returns and decides
  with \<open>classify_round\<close> on what it hears. The theorems are the guard's promises over
  all nodes at once: never two bootstraps, a winner when the histories are comparable, and
  the two situations in which every node waits for another.
\<close>

record node =
  n_cfg :: config
  n_vol :: volume
  n_sql :: sql_view

definition advert :: "(string \<Rightarrow> bool) \<Rightarrow> node \<Rightarrow> gr_state option" where
  "advert is_uuid n = snd (local_gr_state is_uuid False (n_sql n) (n_vol n))"

definition rank_of :: "node \<Rightarrow> nat" where
  "rank_of n = rank_or_last (my_seed_rank (n_cfg n))"

definition verdict_of ::
  "(string \<Rightarrow> string \<Rightarrow> bool) \<Rightarrow> (string \<Rightarrow> bool) \<Rightarrow> node \<Rightarrow> answers \<Rightarrow> verdict option" where
  "verdict_of sub ok n as =
     (case q_gtid (n_sql n) of Some g \<Rightarrow> classify_round sub ok (n_cfg n) (n_vol n) g as | None \<Rightarrow> None)"

text \<open>\<open>hears_from\<close>: the answer of \<open>m\<close> as \<open>n\<close> records it.\<close>

definition hears_from :: "(string \<Rightarrow> bool) \<Rightarrow> node \<Rightarrow> string \<times> peer_answer \<Rightarrow> bool" where
  "hears_from is_uuid m ha \<longleftrightarrow> eq_ic (fst ha) (private_domain (n_cfg m)) \<and>
     (case snd ha of State s \<Rightarrow> advert is_uuid m = Some s | _ \<Rightarrow> False)"

lemma seed_rank_eq_ic: "eq_ic h k \<Longrightarrow> seed_rank c h = seed_rank c k"
  by (simp add: seed_rank_def eq_ic_def)

lemma seed_rank_seeds: "gr_seeds c = gr_seeds d \<Longrightarrow> seed_rank c h = seed_rank d h"
  by (simp add: seed_rank_def seed_hosts_def)

lemma heard_rank:
  assumes "hears_from is_uuid m (h, a)" and "gr_seeds (n_cfg n) = gr_seeds (n_cfg m)"
  shows "rank_or_last (seed_rank (n_cfg n) h) = rank_of m"
  using assms seed_rank_eq_ic [of h "private_domain (n_cfg m)" "n_cfg n"]
    seed_rank_seeds [of "n_cfg n" "n_cfg m" "private_domain (n_cfg m)"]
  by (simp add: hears_from_def rank_of_def my_seed_rank_def)

lemma waiver_note [simp]: "read_waiver_generation (note_membership io v) = read_waiver_generation v"
  by (simp add: read_waiver_generation_def marker_frame)

lemma has_pre_note [simp]: "has_pre_gtid_data (note_membership io v) = has_pre_gtid_data v"
  by (simp add: has_pre_gtid_data_def marker_frame)

lemma advert_fields:
  assumes "advert is_uuid n = Some s"
  shows "gtid_executed s = q_gtid (n_sql n)"
    and "waiver_generation s = read_waiver_generation (n_vol n)"
    and "pre_gtid_data s \<longleftrightarrow> has_pre_gtid_data (n_vol n) \<or> q_pre_flag (n_sql n) = Some True"
    and "q_gtid (n_sql n) \<noteq> None"
  using assms
  by (auto simp: advert_def local_gr_state_def Let_def pre_gtid_report_def
      split: option.splits if_splits)

lemma heard_State:
  assumes "hears_from is_uuid m (h, a)"
  obtains s where "a = State s" and "advert is_uuid m = Some s"
  using assms by (cases a) (auto simp: hears_from_def)

section \<open>Who outranks whom\<close>

text \<open>
  \<open>free_of n m\<close>: nothing \<open>m\<close> advertises keeps \<open>n\<close> from bootstrapping.
\<close>

definition free_of :: "(string \<Rightarrow> string \<Rightarrow> bool) \<Rightarrow> node \<Rightarrow> node \<Rightarrow> bool" where
  "free_of sub n m =
     (case (q_gtid (n_sql n), q_gtid (n_sql m)) of
        (Some g, Some h) \<Rightarrow>
          (if sub h g then
             sub g h \<longrightarrow> \<not> tie_peer_wins (has_pre_gtid_data (n_vol n)) (rank_of n)
               (has_pre_gtid_data (n_vol m) \<or> q_pre_flag (n_sql m) = Some True) (rank_of m)
           else \<not> sub g h \<and> \<not> diverged_peer_wins (read_waiver_generation (n_vol n)) (rank_of n)
               (read_waiver_generation (n_vol m)) (rank_of m))
      | _ \<Rightarrow> False)"

lemma yields_free_of:
  assumes "hears_from is_uuid m (h, State s)" and "gr_seeds (n_cfg n) = gr_seeds (n_cfg m)"
    and "q_gtid (n_sql n) = Some g" and "gtid_executed s = Some p"
  shows "yields sub (n_cfg n) (n_vol n) g h s p \<longleftrightarrow> free_of sub n m"
  using assms heard_rank [OF assms(1,2)]
  by (auto simp: yields_def free_of_def rank_of_def hears_from_def advert_fields)

lemma Safe_free_of:
  assumes "verdict_of sub ok n as = Some SafeToBootstrap" and "ha \<in> set as"
    and "hears_from is_uuid m ha" and "gr_seeds (n_cfg n) = gr_seeds (n_cfg m)"
  shows "free_of sub n m"
proof -
  obtain h a where ha: "ha = (h, a)" by (cases ha)
  obtain g where g: "q_gtid (n_sql n) = Some g"
    and v: "classify_round sub ok (n_cfg n) (n_vol n) g as = Some SafeToBootstrap"
    using assms(1) by (auto simp: verdict_of_def split: option.splits)
  obtain s p where "a = State s" "gtid_executed s = Some p" "yields sub (n_cfg n) (n_vol n) g h s p"
    using classify_Safe_peer [OF v, of h a] assms(2) ha by auto
  then show ?thesis
    using yields_free_of [of is_uuid m h s n g p sub] assms(3,4) ha g by simp
qed

lemma free_of_antisym:
  assumes "free_of sub n m" and "rank_of n \<noteq> rank_of m"
  shows "\<not> free_of sub m n"
  using assms diverged_antisym [OF assms(2)]
  by (auto simp: free_of_def tie_peer_wins_def split: option.splits if_splits bool.splits)

text \<open>
  C1: Two nodes of one cluster never both conclude that bootstrapping is safe. Each of the
  two hears what the other advertises (its GTID set, its waiver generation, its pre-GTID
  report), both read the same declared seed list, where they have different places, and the
  GTID comparison is any relation at all; what either hears from further nodes is arbitrary.
\<close>

theorem at_most_one_bootstrap:
  assumes "gr_seeds (n_cfg n) = gr_seeds (n_cfg m)" and "rank_of n \<noteq> rank_of m"
    and "x \<in> set as" and "hears_from is_uuid m x"
    and "y \<in> set bs" and "hears_from is_uuid n y"
    and "verdict_of sub ok n as = Some SafeToBootstrap"
  shows "verdict_of sub ok' m bs \<noteq> Some SafeToBootstrap"
proof
  assume m: "verdict_of sub ok' m bs = Some SafeToBootstrap"
  have "free_of sub n m" and "free_of sub m n"
    using Safe_free_of [OF assms(7,3,4,1)] Safe_free_of [OF m assms(5,6) assms(1) [symmetric]]
    by simp_all
  then show False using free_of_antisym assms(2) by blast
qed

section \<open>A winner exists\<close>

definition hears_all :: "(string \<Rightarrow> bool) \<Rightarrow> node set \<Rightarrow> node \<Rightarrow> answers \<Rightarrow> bool" where
  "hears_all is_uuid N n as \<longleftrightarrow>
     (\<forall>ha \<in> set as. \<exists>m \<in> N. m \<noteq> n \<and> hears_from is_uuid m ha) \<and>
     (\<forall>m \<in> N. m \<noteq> n \<longrightarrow> (\<exists>ha \<in> set as. hears_from is_uuid m ha))"

text \<open>
  A cluster after a full restart: one seed list, distinct places on it, every node answering
  and none of them in a live group.
\<close>

definition cluster_at_rest :: "(string \<Rightarrow> bool) \<Rightarrow> node set \<Rightarrow> bool" where
  "cluster_at_rest is_uuid N \<longleftrightarrow> finite N \<and> N \<noteq> {} \<and>
     (\<forall>n \<in> N. \<forall>m \<in> N. gr_seeds (n_cfg n) = gr_seeds (n_cfg m)) \<and>
     (\<forall>n \<in> N. \<forall>m \<in> N. rank_of n = rank_of m \<longrightarrow> n = m) \<and>
     (\<forall>n \<in> N. \<exists>s. advert is_uuid n = Some s \<and> \<not> group_active s)"

definition gtid_of :: "node \<Rightarrow> string" where
  "gtid_of n = (case q_gtid (n_sql n) of Some g \<Rightarrow> g | None \<Rightarrow> [])"

text \<open>The GTID sets of the cluster form a chain: no two histories have diverged.\<close>

definition comparable :: "(string \<Rightarrow> string \<Rightarrow> bool) \<Rightarrow> node set \<Rightarrow> bool" where
  "comparable sub N \<longleftrightarrow>
     (\<forall>n \<in> N. \<forall>m \<in> N. sub (gtid_of n) (gtid_of m) \<or> sub (gtid_of m) (gtid_of n)) \<and>
     (\<forall>k \<in> N. \<forall>n \<in> N. \<forall>m \<in> N. sub (gtid_of k) (gtid_of n) \<longrightarrow> sub (gtid_of n) (gtid_of m)
        \<longrightarrow> sub (gtid_of k) (gtid_of m))"

text \<open>What a node reports about pre-GTID data is what its own tie-break reads.\<close>

definition flag_is_file :: "node set \<Rightarrow> bool" where
  "flag_is_file N \<longleftrightarrow> (\<forall>n \<in> N. q_pre_flag (n_sql n) = Some True \<longrightarrow> has_pre_gtid_data (n_vol n))"

lemma at_restD:
  assumes "cluster_at_rest is_uuid N"
  shows "finite N" and "N \<noteq> {}"
    and "n \<in> N \<Longrightarrow> m \<in> N \<Longrightarrow> gr_seeds (n_cfg n) = gr_seeds (n_cfg m)"
    and "n \<in> N \<Longrightarrow> m \<in> N \<Longrightarrow> rank_of n = rank_of m \<Longrightarrow> n = m"
    and "n \<in> N \<Longrightarrow> \<exists>s. advert is_uuid n = Some s \<and> \<not> group_active s"
  using assms unfolding cluster_at_rest_def by blast+

lemma hears_allD:
  assumes "hears_all is_uuid N n as"
  shows "ha \<in> set as \<Longrightarrow> \<exists>m \<in> N. m \<noteq> n \<and> hears_from is_uuid m ha"
    and "m \<in> N \<Longrightarrow> m \<noteq> n \<Longrightarrow> \<exists>ha \<in> set as. hears_from is_uuid m ha"
  using assms unfolding hears_all_def by blast+

lemma comparableD:
  assumes "comparable sub N"
  shows "n \<in> N \<Longrightarrow> m \<in> N \<Longrightarrow> sub (gtid_of n) (gtid_of m) \<or> sub (gtid_of m) (gtid_of n)"
    and "k \<in> N \<Longrightarrow> n \<in> N \<Longrightarrow> m \<in> N \<Longrightarrow> sub (gtid_of k) (gtid_of n) \<Longrightarrow>
      sub (gtid_of n) (gtid_of m) \<Longrightarrow> sub (gtid_of k) (gtid_of m)"
  using assms unfolding comparable_def by blast+

lemma at_rest_gtid:
  assumes "cluster_at_rest is_uuid N" and "n \<in> N"
  shows "q_gtid (n_sql n) = Some (gtid_of n)"
proof -
  obtain s where "advert is_uuid n = Some s"
    using at_restD(5) [OF assms] by blast
  from advert_fields(4) [OF this] show ?thesis
    by (cases "q_gtid (n_sql n)") (simp_all add: gtid_of_def)
qed

lemma heard_inactive:
  assumes "cluster_at_rest is_uuid N" and "hears_all is_uuid N n as"
  shows "\<not> group_seen as"
proof
  assume "group_seen as"
  then obtain h s where hs: "(h, State s) \<in> set as" "group_active s"
    unfolding group_seen_iff by blast
  then obtain m where m: "m \<in> N" "hears_from is_uuid m (h, State s)"
    using hears_allD(1) [OF assms(2) hs(1)] by blast
  then show False
    using at_restD(5) [OF assms(1) m(1)] hs(2) by (auto simp: hears_from_def)
qed

lemma Safe_of_free:
  assumes "cluster_at_rest is_uuid N" and "n \<in> N" and "hears_all is_uuid N n as"
    and "\<And>m. m \<in> N \<Longrightarrow> m \<noteq> n \<Longrightarrow> free_of sub n m"
  shows "verdict_of sub (\<lambda>_. True) n as = Some SafeToBootstrap"
proof -
  have "\<exists>s p. a = State s \<and> gtid_executed s = Some p \<and> True \<and> yields sub (n_cfg n) (n_vol n) (gtid_of n) h s p"
    if ha: "(h, a) \<in> set as" for h a
  proof -
    obtain m where m: "m \<in> N" "m \<noteq> n" "hears_from is_uuid m (h, a)"
      using hears_allD(1) [OF assms(3) ha] by blast
    obtain s where s: "a = State s" "advert is_uuid m = Some s"
      using heard_State [OF m(3)] by blast
    have seeds: "gr_seeds (n_cfg n) = gr_seeds (n_cfg m)"
      by (rule at_restD(3) [OF assms(1,2) m(1)])
    have "gtid_executed s = Some (gtid_of m)"
      using advert_fields(1) [OF s(2)] at_rest_gtid [OF assms(1) m(1)] by simp
    moreover have "yields sub (n_cfg n) (n_vol n) (gtid_of n) h s (gtid_of m)"
      using yields_free_of [OF m(3) [unfolded s(1)] seeds at_rest_gtid [OF assms(1,2)] calculation]
        assms(4) [OF m(1,2)] by simp
    ultimately show ?thesis using s(1) by blast
  qed
  then have "classify_round sub (\<lambda>_. True) (n_cfg n) (n_vol n) (gtid_of n) as = Some SafeToBootstrap"
    by (rule classify_Safe_intro [OF heard_inactive [OF assms(1,3)]]) blast
  then show ?thesis
    using at_rest_gtid [OF assms(1,2)] by (simp add: verdict_of_def)
qed

lemma total_trans_winner:
  assumes "finite S" and "S \<noteq> {}"
    and "\<And>a b. a \<in> S \<Longrightarrow> b \<in> S \<Longrightarrow> a \<noteq> b \<Longrightarrow> R a b \<or> R b a"
    and "\<And>a b c. a \<in> S \<Longrightarrow> b \<in> S \<Longrightarrow> c \<in> S \<Longrightarrow> a \<noteq> c \<Longrightarrow> R a b \<Longrightarrow> R b c \<Longrightarrow> R a c"
  shows "\<exists>w \<in> S. \<forall>x \<in> S. x \<noteq> w \<longrightarrow> R w x"
  using assms
proof (induction S rule: finite_ne_induct)
  case (insert y F)
  have "\<exists>w \<in> F. \<forall>x \<in> F. x \<noteq> w \<longrightarrow> R w x"
  proof (rule insert.IH)
    fix a b assume "a \<in> F" "b \<in> F" "a \<noteq> b"
    then show "R a b \<or> R b a" by (intro insert.prems(1)) simp_all
  next
    fix a b c assume "a \<in> F" "b \<in> F" "c \<in> F" "a \<noteq> c" "R a b" "R b c"
    then show "R a c" by (intro insert.prems(2) [of a b c]) simp_all
  qed
  then obtain w where w: "w \<in> F" "\<forall>x \<in> F. x \<noteq> w \<longrightarrow> R w x" by blast
  show ?case
  proof (cases "R w y")
    case True
    with w show ?thesis by auto
  next
    case False
    then have yw: "R y w"
      using insert.prems(1) [of w y] w(1) insert.hyps(3) by auto
    have "R y x" if "x \<in> F" for x
      using yw w insert.prems(2) [of y w x] that insert.hyps(3) by (cases "x = w") auto
    then show ?thesis by auto
  qed
next
  case (singleton x)
  show ?case by simp
qed

lemma free_of_at_rest:
  assumes "cluster_at_rest is_uuid N" and "comparable sub N" and "flag_is_file N"
    and "n \<in> N" and "m \<in> N"
  shows "free_of sub n m \<longleftrightarrow> sub (gtid_of m) (gtid_of n) \<and> (sub (gtid_of n) (gtid_of m) \<longrightarrow>
       \<not> tie_peer_wins (has_pre_gtid_data (n_vol n)) (rank_of n) (has_pre_gtid_data (n_vol m)) (rank_of m))"
proof -
  have "q_pre_flag (n_sql m) = Some True \<Longrightarrow> has_pre_gtid_data (n_vol m)"
    using assms(3,5) unfolding flag_is_file_def by blast
  then show ?thesis
    using comparableD(1) [OF assms(2,4,5)] at_rest_gtid [OF assms(1,4)] at_rest_gtid [OF assms(1,5)]
    by (cases "q_pre_flag (n_sql m) = Some True") (auto simp add: free_of_def)
qed

lemma tie_total: "r \<noteq> r' \<Longrightarrow> \<not> tie_peer_wins p r p' r' \<or> \<not> tie_peer_wins p' r' p r"
  by (cases p; cases p') (auto simp: tie_peer_wins_def)

lemma tie_trans: "\<not> tie_peer_wins p r p' r' \<Longrightarrow> \<not> tie_peer_wins p' r' p'' r'' \<Longrightarrow> \<not> tie_peer_wins p r p'' r''"
  by (cases p; cases p'; cases p'') (auto simp: tie_peer_wins_def)

text \<open>
  C33: When the histories of a restarted cluster are comparable and every node's report of
  pre-GTID data is its own marker, some node reaches \<open>SafeToBootstrap\<close>: the guard does
  not wait for ever.
\<close>

theorem some_node_may_bootstrap:
  assumes "cluster_at_rest is_uuid N" and "comparable sub N" and "flag_is_file N"
  shows "\<exists>n \<in> N. \<forall>as. hears_all is_uuid N n as \<longrightarrow>
    verdict_of sub (\<lambda>_. True) n as = Some SafeToBootstrap"
proof -
  note free = free_of_at_rest [OF assms]
  have "\<exists>w \<in> N. \<forall>x \<in> N. x \<noteq> w \<longrightarrow> free_of sub w x"
  proof (rule total_trans_winner)
    show "finite N" and "N \<noteq> {}"
      using at_restD(1,2) [OF assms(1)] by blast+
  next
    fix n m assume nm: "n \<in> N" "m \<in> N" "n \<noteq> m"
    then have "rank_of n \<noteq> rank_of m"
      using at_restD(4) [OF assms(1)] by blast
    from tie_total [OF this] show "free_of sub n m \<or> free_of sub m n"
      using comparableD(1) [OF assms(2) nm(1,2)] free [OF nm(1,2)] free [OF nm(2,1)] by blast
  next
    fix k n m assume knm: "k \<in> N" "n \<in> N" "m \<in> N" "free_of sub k n" "free_of sub n m"
    show "free_of sub k m"
      using knm(4,5) free [OF knm(1,2)] free [OF knm(2,3)] free [OF knm(1,3)]
        comparableD(2) [OF assms(2) knm(3,2,1)] comparableD(2) [OF assms(2) knm(1,3,2)]
        comparableD(2) [OF assms(2) knm(2,1,3)]
        tie_trans [of "has_pre_gtid_data (n_vol k)" "rank_of k" "has_pre_gtid_data (n_vol n)" "rank_of n"
          "has_pre_gtid_data (n_vol m)" "rank_of m"]
      by blast
  qed
  then show ?thesis
    using Safe_of_free [OF assms(1)] by blast
qed

section \<open>Nobody bootstraps\<close>

lemma decide_Defer:
  assumes "\<And>p. p \<in> set ps \<Longrightarrow> \<exists>b. st_relation p = EqualTo b"
    and "p \<in> set ps" and "wins_tie pre r p"
  shows "\<exists>h. decide pre r ps = DeferToPeer h"
proof -
  have eq: "st_relation q \<noteq> Unknown" "st_relation q \<noteq> Diverged" "st_relation q \<noteq> Ahead"
    if "q \<in> set ps" for q
    using assms(1) [OF that] by auto
  then have "find (\<lambda>p. st_relation p = Diverged) ps = None" and "find (\<lambda>p. st_relation p = Ahead) ps = None"
    and "\<not> list_ex (\<lambda>p. st_relation p = Unknown) ps"
    unfolding find_None_iff list_ex_iff by blast+
  moreover have "find (wins_tie pre r) ps \<noteq> None"
    using assms(2,3) by (auto simp: find_None_iff)
  ultimately show ?thesis by (auto simp: decide_def)
qed

lemma heard_relation:
  assumes "cluster_at_rest is_uuid N" and "n \<in> N" and "m \<in> N" and "hears_from is_uuid m (h, a)"
    and "sub (gtid_of n) (gtid_of m)" and "sub (gtid_of m) (gtid_of n)"
  shows "relation_to sub (\<lambda>_. True) (n_cfg n) g r (gtid_of n) (h, a) =
    Some (EqualTo (has_pre_gtid_data (n_vol m) \<or> q_pre_flag (n_sql m) = Some True))"
proof -
  obtain s where s: "a = State s" "advert is_uuid m = Some s"
    using heard_State [OF assms(4)] by blast
  then show ?thesis
    using at_rest_gtid [OF assms(1,3)] advert_fields [OF s(2)] assms(5,6)
    by (simp add: relation_to_def gtid_compare_def)
qed

text \<open>
  The tie-break can stall a whole cluster. The first group replicates the pre-GTID flag
  to every member, so after a full restart with identical GTID sets every node reports the
  flag; but each node's own side of the tie is its marker file, which only the adopting node
  has. Unless the lowest-ranked node holds that file, every node defers to a peer and none
  ever bootstraps, whatever the order of the answers.
\<close>

theorem pre_gtid_tie_stalls:
  assumes "cluster_at_rest is_uuid N" and "n \<in> N" and "hears_all is_uuid N n as"
    and "\<And>a b. a \<in> N \<Longrightarrow> b \<in> N \<Longrightarrow> sub (gtid_of a) (gtid_of b)"
    and "\<And>a. a \<in> N \<Longrightarrow> q_pre_flag (n_sql a) = Some True"
    and "w \<in> N" and "\<not> has_pre_gtid_data (n_vol w)"
    and "\<And>a. a \<in> N \<Longrightarrow> rank_of w \<le> rank_of a" and "z \<in> N" and "z \<noteq> w"
  shows "\<exists>h. verdict_of sub (\<lambda>_. True) n as = Some (DeferToPeer h)"
proof -
  let ?g = "read_waiver_generation (n_vol n)" and ?p = "has_pre_gtid_data (n_vol n)"
  have rel: "relation_to sub (\<lambda>_. True) (n_cfg n) ?g (rank_of n) (gtid_of n) (h, a) = Some (EqualTo True)"
    if "m \<in> N" "hears_from is_uuid m (h, a)" for m h a
    using heard_relation [OF assms(1,2) that assms(4) [OF assms(2) that(1)] assms(4) [OF that(1) assms(2)]]
      assms(5) [OF that(1)] by simp
  have all: "relation_to sub (\<lambda>_. True) (n_cfg n) ?g (rank_of n) (gtid_of n) (h, a) = Some (EqualTo True)"
    if "(h, a) \<in> set as" for h a
    using hears_allD(1) [OF assms(3) that] rel by blast
  obtain ps where ps: "standings sub (\<lambda>_. True) (n_cfg n) ?g (rank_of n) (gtid_of n) as = Some ps"
    using standings_Some [of as sub "\<lambda>_. True" "n_cfg n" ?g "rank_of n" "gtid_of n"] all
    by (metis option.distinct(1) surj_pair)
  have eq: "\<exists>b. st_relation p = EqualTo b" if "p \<in> set ps" for p
    using standings_map [OF ps] that all by auto
  obtain m where m: "m \<in> N" "m \<noteq> n" "?p \<longrightarrow> m = w \<and> rank_of m < rank_of n"
  proof (cases "n = w")
    case True
    then show thesis using that [of z] assms(7,9,10) by simp
  next
    case False
    then have "rank_of w \<noteq> rank_of n"
      using at_restD(4) [OF assms(1,6,2)] by blast
    then show thesis using that [of w] assms(6) assms(8) [OF assms(2)] False by simp
  qed
  then obtain h a where ha: "(h, a) \<in> set as" "hears_from is_uuid m (h, a)"
    using hears_allD(2) [OF assms(3) m(1,2)] by force
  obtain q where q: "q \<in> set ps" "st_relation q = EqualTo True" "st_rank q = rank_or_last (seed_rank (n_cfg n) h)"
    by (rule standings_in [OF ps ha(1)]) (use all [OF ha(1)] in auto)
  have "st_rank q = rank_of m"
    using q(3) heard_rank [OF ha(2) at_restD(3) [OF assms(1,2) m(1)]] by simp
  then have "wins_tie ?p (rank_of n) q"
    using m q(2) by (cases ?p) (auto simp: wins_tie_def tie_peer_wins_def)
  from decide_Defer [OF eq q(1) this] show ?thesis
    using ps heard_inactive [OF assms(1,3)] at_rest_gtid [OF assms(1,2)]
    by (auto simp: verdict_of_def classify_round_def rank_of_def Let_def)
qed

lemma decide_Ahead:
  assumes "\<And>p. p \<in> set ps \<Longrightarrow> st_relation p \<noteq> Unknown \<and> st_relation p \<noteq> Diverged"
    and "p \<in> set ps" and "st_relation p = Ahead"
  shows "\<exists>h. decide pre r ps = PeerIsMoreAdvanced h"
proof -
  have "find (\<lambda>p. st_relation p = Diverged) ps = None" and "\<not> list_ex (\<lambda>p. st_relation p = Unknown) ps"
    using assms(1) unfolding find_None_iff list_ex_iff by blast+
  moreover have "find (\<lambda>p. st_relation p = Ahead) ps \<noteq> None"
    using assms(2,3) unfolding find_None_iff by blast
  ultimately show ?thesis by (auto simp: decide_def)
qed

lemma relation_to_settled:
  "relation_to sub ok c g r m ha = Some rel \<Longrightarrow> rel \<noteq> Diverged"
  by (auto simp: relation_to_def split: peer_answer.splits option.splits bool.splits if_splits)

text \<open>\<open>m\<close> is ahead of \<open>n\<close>: strictly larger, or diverged and authoritative.\<close>

definition outranks :: "(string \<Rightarrow> string \<Rightarrow> bool) \<Rightarrow> node \<Rightarrow> node \<Rightarrow> bool" where
  "outranks sub m n \<longleftrightarrow> \<not> sub (gtid_of m) (gtid_of n) \<and>
     (sub (gtid_of n) (gtid_of m) \<or>
      diverged_peer_wins (read_waiver_generation (n_vol n)) (rank_of n)
        (read_waiver_generation (n_vol m)) (rank_of m))"

lemma heard_relation_known:
  assumes "cluster_at_rest is_uuid N" and "n \<in> N" and "m \<in> N" and "hears_from is_uuid m (h, a)"
  shows "\<exists>rel. relation_to sub (\<lambda>_. True) (n_cfg n) (read_waiver_generation (n_vol n)) (rank_of n)
      (gtid_of n) (h, a) = Some rel \<and> rel \<noteq> Unknown \<and> (outranks sub m n \<longrightarrow> rel = Ahead)"
proof -
  obtain s where s: "a = State s" "advert is_uuid m = Some s"
    using heard_State [OF assms(4)] by blast
  then show ?thesis
    using at_rest_gtid [OF assms(1,3)] advert_fields [OF s(2)]
      heard_rank [OF assms(4) at_restD(3) [OF assms(1,2,3)]]
    by (cases "sub (gtid_of n) (gtid_of m)"; cases "sub (gtid_of m) (gtid_of n)")
       (simp_all add: relation_to_def gtid_compare_def outranks_def)
qed

text \<open>
  Divergence is decided pair by pair, and the pairs can form a cycle. When every node of
  a restarted cluster is outranked by another (the second example below: the third seed is
  a strict successor of the first and both have diverged from the second), every node waits
  for a more advanced peer and none bootstraps.
\<close>

theorem outranked_cycle_stalls:
  assumes "cluster_at_rest is_uuid N" and "n \<in> N" and "hears_all is_uuid N n as"
    and "\<And>a. a \<in> N \<Longrightarrow> \<exists>b \<in> N. b \<noteq> a \<and> outranks sub b a"
  shows "\<exists>h. verdict_of sub (\<lambda>_. True) n as = Some (PeerIsMoreAdvanced h)"
proof -
  let ?g = "read_waiver_generation (n_vol n)"
  let ?rel = "relation_to sub (\<lambda>_. True) (n_cfg n) ?g (rank_of n) (gtid_of n)"
  have known: "\<exists>rel. ?rel (h, a) = Some rel \<and> rel \<noteq> Unknown" if "(h, a) \<in> set as" for h a
    using hears_allD(1) [OF assms(3) that] heard_relation_known [OF assms(1,2)] by blast
  obtain ps where ps: "standings sub (\<lambda>_. True) (n_cfg n) ?g (rank_of n) (gtid_of n) as = Some ps"
    using standings_Some [of as sub "\<lambda>_. True" "n_cfg n" ?g "rank_of n" "gtid_of n"] known
    by (metis option.distinct(1) surj_pair)
  have settled: "st_relation p \<noteq> Unknown \<and> st_relation p \<noteq> Diverged" if "p \<in> set ps" for p
  proof -
    obtain h a rel where "(h, a) \<in> set as" "?rel (h, a) = Some rel" "st_relation p = rel"
      using standings_map [OF ps] \<open>p \<in> set ps\<close> by auto
    then show ?thesis using known [of h a] relation_to_settled by (metis option.sel)
  qed
  obtain m where m: "m \<in> N" "m \<noteq> n" "outranks sub m n"
    using assms(4) [OF assms(2)] by blast
  then obtain h a where ha: "(h, a) \<in> set as" "hears_from is_uuid m (h, a)"
    using hears_allD(2) [OF assms(3) m(1,2)] by force
  obtain q where q: "q \<in> set ps" "st_relation q = Ahead"
    by (rule standings_in [OF ps ha(1)])
       (use heard_relation_known [OF assms(1,2) m(1) ha(2)] m(3) in force)
  from decide_Ahead [OF settled q] show ?thesis
    using ps heard_inactive [OF assms(1,3)] at_rest_gtid [OF assms(1,2)]
    by (auto simp: verdict_of_def classify_round_def rank_of_def Let_def)
qed

section \<open>Examples\<close>

text \<open>
  Small clusters on which the theorems apply: GTID sets are sets of letters, the nodes are
  the seeds \<open>a\<close>, \<open>b\<close>, \<open>c\<close>.
\<close>

definition sample_node :: "string \<Rightarrow> bool \<Rightarrow> string \<Rightarrow> bool \<Rightarrow> node" where
  "sample_node d pre gtid flag = \<lparr>n_cfg = sample_config d, n_vol = sample_volume pre,
     n_sql = \<lparr>q_uuid = Some d, q_members = Some [], q_gtid = Some gtid, q_pre_flag = Some flag,
       q_block_size = None\<rparr>\<rparr>"

definition sample_sub :: "string \<Rightarrow> string \<Rightarrow> bool" where
  "sample_sub a b \<longleftrightarrow> set a \<subseteq> set b"

definition sample_advert :: "string \<Rightarrow> bool \<Rightarrow> string \<Rightarrow> bool \<Rightarrow> gr_state" where
  "sample_advert d pre gtid flag = \<lparr>group_active = False, member_state = None, member_role = None,
     gtid_executed = Some gtid, members_total = 0, members_reachable = 0,
     pre_gtid_data = pre \<or> flag, pre_gtid_data_unknown = False, server_uuid = Some d,
     group_name = None, block_size = None, waiver_generation = 0\<rparr>"

lemma sample_waiver [simp]: "read_waiver_generation (sample_volume pre) = 0"
  by (simp add: read_waiver_generation_def read_text_def sample_volume_def)

lemma sample_advert [simp]:
  "advert is_uuid (sample_node d pre gtid flag) = Some (sample_advert d pre gtid flag)"
  by (simp add: advert_def local_gr_state_def sample_node_def own_row_def group_active_from_def
      reachable_count_def pre_gtid_report_def has_pre_gtid_data_def sample_advert_def
      read_group_name_marker_def read_text_def)
     (simp add: sample_volume_def)

lemma sample_seeds [simp]: "gr_seeds (n_cfg (sample_node d pre gtid flag)) = Some ''a:3306,b:3306,c:3306''"
  by (simp add: sample_node_def sample_config_def)

lemma sample_domain [simp]: "private_domain (n_cfg (sample_node d pre gtid flag)) = d"
  by (simp add: sample_node_def sample_config_def)

lemma sample_gtid [simp]: "gtid_of (sample_node d pre gtid flag) = gtid"
  by (simp add: sample_node_def gtid_of_def)

lemma sample_flag [simp]: "q_pre_flag (n_sql (sample_node d pre gtid flag)) = Some flag"
  "q_gtid (n_sql (sample_node d pre gtid flag)) = Some gtid"
  "n_vol (sample_node d pre gtid flag) = sample_volume pre"
  by (simp_all add: sample_node_def)

lemma sample_pre [simp]: "has_pre_gtid_data (sample_volume pre) = pre"
  by (simp add: sample_volume_def has_pre_gtid_data_def)

lemma sample_hosts: "seed_hosts (n_cfg (sample_node d pre gtid flag)) = [''a'', ''b'', ''c'']"
  by (simp add: sample_node_def)

lemma sample_rank [simp]:
  "rank_of (sample_node ''a'' p g f) = 0" "rank_of (sample_node ''b'' p g f) = 1"
  "rank_of (sample_node ''c'' p g f) = 2"
  by (simp_all add: rank_of_def my_seed_rank_def seed_rank_def sample_hosts eq_ic_def
      ascii_lower_def char_code_def rank_or_last_def)

lemma sample_hears [simp]:
  "hears_from is_uuid (sample_node d p g f) (h, State s) \<longleftrightarrow> eq_ic h d \<and> s = sample_advert d p g f"
  by (auto simp: hears_from_def)

lemma sample_at_rest:
  "cluster_at_rest is_uuid {sample_node ''a'' p g f, sample_node ''b'' p' g' f'}"
  "cluster_at_rest is_uuid {sample_node ''a'' p g f, sample_node ''b'' p' g' f', sample_node ''c'' p'' g'' f''}"
  unfolding cluster_at_rest_def
  by (auto simp: sample_advert_def
      dest: arg_cong [of "sample_node ''b'' x y z" _ rank_of for x y z]
        arg_cong [of "sample_node ''a'' x y z" _ rank_of for x y z]
        arg_cong [of "sample_node ''c'' x y z" _ rank_of for x y z])

lemma sample_distinct [simp]:
  "sample_node ''a'' p g f \<noteq> sample_node ''b'' p' g' f'" "sample_node ''b'' p g f \<noteq> sample_node ''a'' p' g' f'"
  "sample_node ''a'' p g f \<noteq> sample_node ''c'' p' g' f'" "sample_node ''c'' p g f \<noteq> sample_node ''a'' p' g' f'"
  "sample_node ''b'' p g f \<noteq> sample_node ''c'' p' g' f'" "sample_node ''c'' p g f \<noteq> sample_node ''b'' p' g' f'"
  by (auto dest: arg_cong [of "sample_node ''b'' x y z" _ rank_of for x y z]
        arg_cong [of "sample_node ''a'' x y z" _ rank_of for x y z]
        arg_cong [of "sample_node ''c'' x y z" _ rank_of for x y z])

abbreviation sample_heard :: "string \<Rightarrow> bool \<Rightarrow> string \<Rightarrow> bool \<Rightarrow> string \<times> peer_answer" where
  "sample_heard d pre gtid flag \<equiv> (d, State (sample_advert d pre gtid flag))"

lemma sample_verdict_a:
  "verdict_of sample_sub (\<lambda>_. True) (sample_node ''a'' False ''xy'' False)
     [sample_heard ''b'' False ''x'' False] = Some SafeToBootstrap"
  by (rule Safe_of_free [OF sample_at_rest(1)])
     (auto simp: hears_all_def free_of_def sample_sub_def eq_ic_def ascii_lower_def char_code_def)

lemma at_most_one_bootstrap_witness:
  "verdict_of sample_sub (\<lambda>_. True) (sample_node ''b'' False ''x'' False)
     [sample_heard ''a'' False ''xy'' False] \<noteq> Some SafeToBootstrap"
  by (rule at_most_one_bootstrap [of "sample_node ''a'' False ''xy'' False"
        "sample_node ''b'' False ''x'' False" "sample_heard ''b'' False ''x'' False"
        "[sample_heard ''b'' False ''x'' False]" "\<lambda>_. True" "sample_heard ''a'' False ''xy'' False"])
     (simp_all, rule sample_verdict_a)

lemma some_node_may_bootstrap_witness:
  "\<exists>n \<in> {sample_node ''a'' False ''x'' False, sample_node ''b'' True ''x'' False}.
     \<forall>as. hears_all (\<lambda>_. True) {sample_node ''a'' False ''x'' False, sample_node ''b'' True ''x'' False} n as
       \<longrightarrow> verdict_of sample_sub (\<lambda>_. True) n as = Some SafeToBootstrap"
  by (rule some_node_may_bootstrap [OF sample_at_rest(1)])
     (simp_all add: comparable_def flag_is_file_def sample_sub_def)

lemma pre_gtid_tie_stalls_witness:
  "(\<exists>h. verdict_of sample_sub (\<lambda>_. True) (sample_node ''a'' False ''x'' True)
     [sample_heard ''b'' True ''x'' True] = Some (DeferToPeer h)) \<and>
   (\<exists>h. verdict_of sample_sub (\<lambda>_. True) (sample_node ''b'' True ''x'' True)
     [sample_heard ''a'' False ''x'' True] = Some (DeferToPeer h))"
proof -
  let ?a = "sample_node ''a'' False ''x'' True" and ?b = "sample_node ''b'' True ''x'' True"
  have "\<exists>h. verdict_of sample_sub (\<lambda>_. True) n as = Some (DeferToPeer h)"
    if n: "n \<in> {?a, ?b}" and as: "hears_all (\<lambda>_. True) {?a, ?b} n as" for n as
    by (rule pre_gtid_tie_stalls [OF sample_at_rest(1) n as, of sample_sub ?a ?b])
       (auto simp: sample_sub_def)
  then show ?thesis by (simp add: hears_all_def)
qed

lemma outranked_cycle_stalls_witness:
  "(\<exists>h. verdict_of sample_sub (\<lambda>_. True) (sample_node ''a'' False ''x'' False)
     [sample_heard ''b'' False ''z'' False, sample_heard ''c'' False ''xy'' False]
       = Some (PeerIsMoreAdvanced h)) \<and>
   (\<exists>h. verdict_of sample_sub (\<lambda>_. True) (sample_node ''b'' False ''z'' False)
     [sample_heard ''a'' False ''x'' False, sample_heard ''c'' False ''xy'' False]
       = Some (PeerIsMoreAdvanced h)) \<and>
   (\<exists>h. verdict_of sample_sub (\<lambda>_. True) (sample_node ''c'' False ''xy'' False)
     [sample_heard ''a'' False ''x'' False, sample_heard ''b'' False ''z'' False]
       = Some (PeerIsMoreAdvanced h))"
proof -
  let ?N = "{sample_node ''a'' False ''x'' False, sample_node ''b'' False ''z'' False,
      sample_node ''c'' False ''xy'' False}"
  have "\<exists>h. verdict_of sample_sub (\<lambda>_. True) n as = Some (PeerIsMoreAdvanced h)"
    if n: "n \<in> ?N" and as: "hears_all (\<lambda>_. True) ?N n as" for n as
    by (rule outranked_cycle_stalls [OF sample_at_rest(2) n as])
       (auto simp: outranks_def sample_sub_def diverged_peer_wins_def cmp_lin_def)
  then show ?thesis
    by (intro conjI)
       (simp_all add: hears_all_def eq_ic_def ascii_lower_def char_code_def)
qed

end
