(* ===== verification/Gone_Tracker.thy ===== *)
theory Gone_Tracker
  imports Config
begin

text \<open>
  When a peer's name is provably gone: the DNS probe of \<open>dns_probe.rs\<close> (the question it
  encodes, the only reply it accepts, the verdict) and the tracker of \<open>gr.rs\<close> that
  demands the verdict for a whole dwell. Bytes are \<open>8 word\<close>; parsing an address
  (\<open>IpAddr\<close>) is the parameter \<open>parse_ip\<close>; the datagrams that arrive before the
  deadline are an argument.
\<close>

section \<open>The probe\<close>

datatype name_verdict = Gone | ExistsOrUnknown

datatype probe_detail = IpLiteral | NoResolver | Timeout | Rcode byte

definition bytes_of :: "string \<Rightarrow> byte list" where
  "bytes_of s = map (\<lambda>c. word_of_nat (char_code c)) s"

definition be16 :: "u16 \<Rightarrow> byte list" where
  "be16 w = [ucast (w div 256), ucast w]"

definition nameserver_line :: "(string \<Rightarrow> 'ip option) \<Rightarrow> string \<Rightarrow> 'ip option" where
  "nameserver_line parse_ip l =
     (case split_ws l of
        kw # addr # _ \<Rightarrow> if kw = ''nameserver'' then parse_ip addr else None
      | _ \<Rightarrow> None)"

definition first_nameserver :: "(string \<Rightarrow> 'ip option) \<Rightarrow> string \<Rightarrow> 'ip option" where
  "first_nameserver parse_ip conf =
     find_map (nameserver_line parse_ip)
       (filter (\<lambda>l. \<not> starts_with ''#'' l \<and> \<not> starts_with '';'' l) (map trim (split_on newline conf)))"

definition label_ok :: "string \<Rightarrow> bool" where
  "label_ok l \<longleftrightarrow> l \<noteq> [] \<and> length l \<le> 63"

definition encode_label :: "string \<Rightarrow> byte list" where
  "encode_label l = word_of_nat (length l) # bytes_of l"

definition dns_name :: "string \<Rightarrow> string" where
  "dns_name raw = (case strip_suffix ''.'' raw of Some n \<Rightarrow> n | None \<Rightarrow> raw)"

definition encode_query :: "u16 \<Rightarrow> string \<Rightarrow> byte list option" where
  "encode_query qid raw =
     (let name = dns_name raw in
      if name = [] \<or> length name > 255 then None
      else if \<not> list_all label_ok (split_on (CHR ''.'') name) then None
      else Some (be16 qid @ [0x01, 0x00, 0x00, 0x01, 0x00, 0x00, 0x00, 0x00, 0x00, 0x00]
             @ concat (map encode_label (split_on (CHR ''.'') name))
             @ [0] @ [0x00, 0x1c] @ [0x00, 0x01]))"

definition decode_rcode :: "u16 \<Rightarrow> byte list \<Rightarrow> byte option" where
  "decode_rcode qid reply =
     (if length reply < 12 then None
      else if take 2 reply \<noteq> be16 qid then None
      else if and (reply ! 2) 0x80 = 0 then None
      else Some (and (reply ! 3) 0x0F))"

definition query_rcode :: "u16 \<Rightarrow> string \<Rightarrow> byte list list \<Rightarrow> byte option" where
  "query_rcode qid name replies =
     (case encode_query qid name of
        None \<Rightarrow> None
      | Some packet \<Rightarrow> find_map (\<lambda>r. decode_rcode qid (take 512 r)) replies)"

definition probe_name_detailed ::
  "(string \<Rightarrow> 'ip option) \<Rightarrow> string \<Rightarrow> u16 \<Rightarrow> string \<Rightarrow> byte list list \<Rightarrow> name_verdict \<times> probe_detail" where
  "probe_name_detailed parse_ip conf qid name replies =
     (if parse_ip name \<noteq> None then (ExistsOrUnknown, IpLiteral)
      else (case first_nameserver parse_ip conf of
        None \<Rightarrow> (ExistsOrUnknown, NoResolver)
      | Some ns \<Rightarrow>
          (case query_rcode qid name replies of
             Some rc \<Rightarrow> (if rc = 3 then Gone else ExistsOrUnknown, Rcode rc)
           | None \<Rightarrow> (ExistsOrUnknown, Timeout))))"

lemma decode_rcode_Some:
  "decode_rcode qid r = Some rc \<longleftrightarrow> 12 \<le> length r \<and> take 2 r = be16 qid \<and> and (r ! 2) 0x80 \<noteq> 0 \<and>
     rc = and (r ! 3) 0x0F"
  by (auto simp: decode_rcode_def)

lemma query_rcode_Some:
  "query_rcode qid name replies = Some rc \<longleftrightarrow> encode_query qid name \<noteq> None \<and>
     (\<exists>before r after. replies = before @ r # after \<and> decode_rcode qid (take 512 r) = Some rc \<and>
        (\<forall>x \<in> set before. decode_rcode qid (take 512 x) = None))"
  unfolding query_rcode_def find_map_first [symmetric] by (auto split: option.splits)

text \<open>
  A name is only ever reported gone on an authoritative NXDOMAIN: the name is not an
  address literal, a resolver is configured, and the first datagram that carries the query's
  own id and the response bit has RCODE 3. Every other outcome (a timeout, SERVFAIL, a
  foreign or truncated reply, an unencodable name) reads as unknown.
\<close>

theorem probe_Gone_iff:
  "fst (probe_name_detailed parse_ip conf qid name replies) = Gone \<longleftrightarrow>
     parse_ip name = None \<and> first_nameserver parse_ip conf \<noteq> None \<and> encode_query qid name \<noteq> None \<and>
     (\<exists>before r after. replies = before @ r # after \<and>
        decode_rcode qid (take 512 r) = Some 3 \<and>
        (\<forall>x \<in> set before. decode_rcode qid (take 512 x) = None))"
  unfolding probe_name_detailed_def query_rcode_Some [symmetric] by (auto split: option.splits)

lemma probe_Gone_iff_witness:
  "fst (probe_name_detailed (\<lambda>s. if s = ''fd12::10'' then Some () else None) ''nameserver fd12::10'' 7 ''b''
     [[0, 9, 0x81, 3, 0, 1, 0, 0, 0, 0, 0, 0], [0, 7, 0x81, 0x83, 0, 1, 0, 0, 0, 0, 0, 0]]) = Gone"
  unfolding probe_Gone_iff
proof (intro conjI)
  let ?skip = "[0, 9, 0x81, 3, 0, 1, 0, 0, 0, 0, 0, 0] :: byte list"
  let ?hit = "[0, 7, 0x81, 0x83, 0, 1, 0, 0, 0, 0, 0, 0] :: byte list"
  have "decode_rcode 7 (take 512 ?skip) = None" and "decode_rcode 7 (take 512 ?hit) = Some 3"
    by (simp_all add: decode_rcode_def be16_def)
  then show "\<exists>before r after. [?skip, ?hit] = before @ r # after \<and> decode_rcode 7 (take 512 r) = Some 3 \<and>
      (\<forall>x \<in> set before. decode_rcode 7 (take 512 x) = None)"
    by (intro exI [of _ "[?skip]"] exI [of _ ?hit] exI [of _ "[]"]) simp
  show "first_nameserver (\<lambda>s. if s = ''fd12::10'' then Some () else None) ''nameserver fd12::10'' \<noteq> None"
    by (simp add: first_nameserver_def nameserver_line_def trim_def trim_end_by_def is_ws_def char_code_def
        split_ws_def newline_char starts_with_def)
  show "encode_query 7 ''b'' \<noteq> None"
    by (simp add: encode_query_def dns_name_def strip_suffix_def label_ok_def)
qed simp

section \<open>What the question says\<close>

text \<open>
  The specification of the name encoding: read labels up to the root label.
\<close>

fun read_name :: "nat \<Rightarrow> byte list \<Rightarrow> (byte list list \<times> byte list) option" where
  "read_name 0 bs = None"
| "read_name (Suc fuel) [] = None"
| "read_name (Suc fuel) (n # bs) =
     (if n = 0 then Some ([], bs)
      else if length bs < unat n then None
      else map_option (\<lambda>(ls, rest). (take (unat n) bs # ls, rest)) (read_name fuel (drop (unat n) bs)))"

lemma length_bytes_of [simp]: "length (bytes_of s) = length s"
  by (simp add: bytes_of_def)

lemma label_len: "label_ok l \<Longrightarrow> unat (word_of_nat (length l) :: byte) = length l"
  by (simp add: label_ok_def unat_of_nat)

lemma label_len_pos: "label_ok l \<Longrightarrow> (word_of_nat (length l) :: byte) \<noteq> 0"
  using label_len [of l] by (auto simp: label_ok_def)

lemma read_name_encoded:
  "list_all label_ok ls \<Longrightarrow> length ls < fuel \<Longrightarrow>
   read_name fuel (concat (map encode_label ls) @ 0 # rest) = Some (map bytes_of ls, rest)"
proof (induction ls arbitrary: fuel)
  case Nil
  then show ?case by (cases fuel) simp_all
next
  case (Cons l ls)
  then obtain f where "fuel = Suc f" by (cases fuel) simp_all
  then show ?case
    using Cons label_len [of l] label_len_pos [of l] by (simp add: encode_label_def)
qed

text \<open>
  The query asks exactly for the declared name: after the twelve-byte header (the id, a
  single question, recursion desired), reading the labels of any packet the encoder builds
  gives the name's dot-separated labels back, followed by QTYPE AAAA and QCLASS IN.
\<close>

theorem encode_query_reads_back:
  assumes "encode_query qid name = Some packet" and "n = length packet"
  shows "take 2 packet = be16 qid \<and> length (split_on (CHR ''.'') (dns_name name)) < n \<and>
    read_name n (drop 12 packet) =
      Some (map bytes_of (split_on (CHR ''.'') (dns_name name)),
            [0x00, 0x1c, 0x00, 0x01])"
proof -
  let ?ls = "split_on (CHR ''.'') (dns_name name)"
  have ok: "list_all label_ok ?ls"
    and p: "packet = be16 qid @ [0x01, 0x00, 0x00, 0x01, 0x00, 0x00, 0x00, 0x00, 0x00, 0x00]
             @ concat (map encode_label ?ls) @ [0] @ [0x00, 0x1c] @ [0x00, 0x01]"
    using assms(1) by (auto simp: encode_query_def Let_def split: if_splits)
  have "length (concat (map encode_label ls)) \<ge> length ls" for ls
    by (induction ls) (auto simp: encode_label_def)
  from this [of ?ls] have n: "length ?ls < n"
    unfolding assms(2) p by (simp add: be16_def)
  have body: "drop 12 packet = concat (map encode_label ?ls) @ 0 # [0x00, 0x1c, 0x00, 0x01]"
    unfolding p by (simp add: be16_def)
  have "take 2 packet = be16 qid"
    unfolding p by (simp add: be16_def)
  then show ?thesis
    using n read_name_encoded [OF ok n, of "[0x00, 0x1c, 0x00, 0x01]"] unfolding body by simp
qed

lemma encode_query_reads_back_witness:
  "encode_query 7 ''a.b.'' = Some [0, 7, 1, 0, 0, 1, 0, 0, 0, 0, 0, 0, 1, 97, 1, 98, 0, 0, 0x1c, 0, 1] \<and>
   read_name 21 [1, 97, 1, 98, 0, 0, 0x1c, 0, 1] =
     Some (map bytes_of (split_on (CHR ''.'') (dns_name ''a.b.'')), [0x00, 0x1c, 0x00, 0x01])"
proof -
  have e: "encode_query 7 ''a.b.'' = Some [0, 7, 1, 0, 0, 1, 0, 0, 0, 0, 0, 0, 1, 97, 1, 98, 0, 0, 0x1c, 0, 1]"
    by (simp add: encode_query_def dns_name_def strip_suffix_def be16_def encode_label_def bytes_of_def
        label_ok_def char_code_def)
  have n: "21 = length [0, 7, 1, 0, 0, 1, 0, 0, 0, 0, 0, 0, 1, 97, 1, 98, 0, 0, 0x1c, 0, 1 :: byte]" by simp
  have d: "drop 12 [0, 7, 1, 0, 0, 1, 0, 0, 0, 0, 0, 0, 1, 97, 1, 98, 0, 0, 0x1c, 0, 1 :: byte] =
      [1, 97, 1, 98, 0, 0, 0x1c, 0, 1]" by simp
  from encode_query_reads_back [OF e n] show ?thesis
    unfolding d e by blast
qed

section \<open>The tracker\<close>

type_synonym gone_tracker = "string \<Rightarrow> nat option"

definition new_tracker :: gone_tracker where
  "new_tracker = (\<lambda>_. None)"

definition observe :: "gone_tracker \<Rightarrow> string \<Rightarrow> name_verdict \<Rightarrow> nat \<Rightarrow> gone_tracker" where
  "observe g host v now =
     (case v of
        Gone \<Rightarrow> (case g host of None \<Rightarrow> g(host \<mapsto> now) | Some _ \<Rightarrow> g)
      | ExistsOrUnknown \<Rightarrow> g(host := None))"

definition observe_reachable :: "gone_tracker \<Rightarrow> string \<Rightarrow> gone_tracker" where
  "observe_reachable g host = g(host := None)"

definition is_waived :: "gone_tracker \<Rightarrow> string \<Rightarrow> nat \<Rightarrow> nat \<Rightarrow> bool" where
  "is_waived g host now dwell = (case g host of Some since \<Rightarrow> now - since \<ge> dwell | None \<Rightarrow> False)"

datatype observation = Probed string name_verdict nat | Reached string nat

fun observe_step :: "gone_tracker \<Rightarrow> observation \<Rightarrow> gone_tracker" where
  "observe_step g (Probed h v now) = observe g h v now"
| "observe_step g (Reached h now) = observe_reachable g h"

fun obs_time :: "observation \<Rightarrow> nat" where
  "obs_time (Probed h v now) = now"
| "obs_time (Reached h now) = now"

text \<open>\<open>consistent h e\<close>: the observation does not show \<open>h\<close> present or unproven.\<close>

fun consistent_gone :: "string \<Rightarrow> observation \<Rightarrow> bool" where
  "consistent_gone h (Probed h' v now) = (h' = h \<longrightarrow> v = Gone)"
| "consistent_gone h (Reached h' now) = (h' \<noteq> h)"

interpretation gone_clock: dwell_clock observe_step "\<lambda>g. g host" obs_time
  "\<lambda>g. consistent_gone host" "\<lambda>g. consistent_gone host" for host
proof
  fix g e t
  assume "observe_step g e host = Some t"
  then show "consistent_gone host e \<and> g host = Some t \<or> consistent_gone host e \<and> t = obs_time e"
    by (cases e) (auto simp: observe_def observe_reachable_def
        split: name_verdict.splits option.splits if_splits)
qed

text \<open>
  A peer is only waived after its name has been gone for the whole dwell: some
  observation started the clock at least the dwell ago, and from there on no observation
  showed the peer reachable or its name in any other state.
\<close>

theorem waived_only_after_dwell:
  assumes "is_waived (foldl observe_step new_tracker es) host now dwell"
  shows "\<exists>i < length es. dwell \<le> now - obs_time (es ! i) \<and> (\<forall>j. i \<le> j \<and> j < length es \<longrightarrow> consistent_gone host (es ! j))"
proof -
  obtain t where t: "foldl observe_step new_tracker es host = Some t" "now - t \<ge> dwell"
    using assms by (auto simp: is_waived_def split: option.splits)
  have "new_tracker host = None" by (simp add: new_tracker_def)
  from gone_clock.origin [OF this t(1)] obtain i where i: "i < length es" "obs_time (es ! i) = t"
    "consistent_gone host (es ! i)" "\<forall>j. i < j \<and> j < length es \<longrightarrow> consistent_gone host (es ! j)" by blast
  then show ?thesis
    using t(2) by (intro exI [of _ i]) (auto simp: le_less)
qed

lemma waived_only_after_dwell_witness:
  "\<exists>i < length [Probed ''b'' Gone 10, Reached ''c'' 20, Probed ''b'' Gone 50]. 30 \<le> 50 - obs_time ([Probed ''b'' Gone 10, Reached ''c'' 20, Probed ''b'' Gone 50] ! i) \<and>
    (\<forall>j. i \<le> j \<and> j < length [Probed ''b'' Gone 10, Reached ''c'' 20, Probed ''b'' Gone 50] \<longrightarrow>
       consistent_gone ''b'' ([Probed ''b'' Gone 10, Reached ''c'' 20, Probed ''b'' Gone 50] ! j))"
  by (rule waived_only_after_dwell)
     (simp add: is_waived_def observe_def observe_reachable_def new_tracker_def)

end
