(* ===== verification/Majority_Watch.thy ===== *)
theory Majority_Watch
  imports Cluster Gone_Tracker
begin

text \<open>
  \<open>majority_watch\<close> of \<open>gr.rs\<close>, the watcher an active member runs for life: the
  membership write fence, the recovery of a lone survivor whose peers provably left, and
  one round of the loop as a step on the watcher's state. A round's inputs are the answers
  of the database, of the peers and of the resolver, and whether each command succeeds;
  the commands issued are listed in order. The log-once texts are not modelled.
\<close>

section \<open>The majority-loss verdict\<close>

datatype hold_reason =
    SeveralReachable nat
  | OwnIdentityUnreadable
  | ReportsActive string
  | OtherIdentity string
  | ServerNotReady string
  | NotAnswering string

datatype majority_verdict = Healthy | Hold hold_reason | Force

definition mid_rejoin :: "string \<Rightarrow> gr_state \<Rightarrow> bool" where
  "mid_rejoin gname s \<longleftrightarrow> group_active s \<and> member_state s = Some ''RECOVERING'' \<and>
     members_total s \<le> 1 \<and> group_name s = Some gname"

definition departure_doubt :: "string \<Rightarrow> answers \<Rightarrow> member_row \<Rightarrow> hold_reason option" where
  "departure_doubt gname as m =
     (case map_option snd (find (\<lambda>(h, _). h = m_host m) as) of
        Some (State s) \<Rightarrow>
          if mid_rejoin gname s then None
          else if group_active s then Some (ReportsActive (m_host m))
          else if group_name s = Some gname then None
          else Some (OtherIdentity (m_host m))
      | Some NotReady \<Rightarrow> Some (ServerNotReady (m_host m))
      | Some Unreachable \<Rightarrow> Some (NotAnswering (m_host m))
      | None \<Rightarrow> Some (NotAnswering (m_host m)))"

definition is_unreachable :: "member_row \<Rightarrow> bool" where
  "is_unreachable m \<longleftrightarrow> m_state m = ''UNREACHABLE''"

definition majority_loss_recovery_verdict ::
  "string option \<Rightarrow> member_row list \<Rightarrow> answers \<Rightarrow> majority_verdict" where
  "majority_loss_recovery_verdict gname ms as =
     (if length ms < 2 then Healthy
      else if reachable_count ms * 2 > length ms then Healthy
      else if reachable_count ms \<noteq> 1 then Hold (SeveralReachable (reachable_count ms))
      else (case gname of
        None \<Rightarrow> Hold OwnIdentityUnreadable
      | Some n \<Rightarrow> (case find_map (departure_doubt n as) (filter is_unreachable ms) of
          Some r \<Rightarrow> Hold r
        | None \<Rightarrow> Force)))"

section \<open>The membership fence\<close>

definition membership_fence_wanted :: "nat \<Rightarrow> nat \<Rightarrow> bool \<Rightarrow> bool" where
  "membership_fence_wanted online effective armed \<longleftrightarrow> armed \<and> online * 2 \<le> max effective 1"

definition force_dwell_rounds :: nat where "force_dwell_rounds = 15"
definition force_max_attempts :: nat where "force_max_attempts = 3"

record watch =
  fenced :: bool
  high_water :: nat
  marker_unreadable :: bool
  seed_gone :: gone_tracker
  consecutive_force :: nat
  force_attempts :: nat

record watch_input =
  w_members :: "member_row list option"
  w_uuid :: "string option"
  w_now :: nat
  w_probe :: "string \<Rightarrow> name_verdict"
  w_peer :: "string \<Rightarrow> peer_answer"
  w_gtid :: "string option"
  w_sub :: "string \<Rightarrow> string \<Rightarrow> bool"
  w_compare_ok :: "string \<Rightarrow> bool"
  w_marker_io :: bool
  w_lift_ok :: bool
  w_stop_ok :: bool
  w_bootstrap_ok :: bool

datatype watch_report =
    FenceEngaged nat nat
  | ForceRefused force_block
  | StopFailed
  | BootstrapFailed
and force_block =
    StoppedAnswering string
  | NoGtidSet string
  | HoldsMore string
  | CompareFailed string

datatype watch_action =
    Impose_read_only
  | Lift_read_only
  | Stop_group
  | Bootstrap_group
  | Shutdown_server
  | Report_watch watch_report

definition configured_members :: "config \<Rightarrow> nat" where
  "configured_members c = max (length (seed_hosts c)) 1"

definition watch_start :: "volume \<Rightarrow> bool \<Rightarrow> watch" where
  "watch_start v flag =
     (let (hw, unreadable) =
        (case read_membership_high_water v of Some n \<Rightarrow> (n, False) | None \<Rightarrow> (0, True)) in
      \<lparr>fenced = flag, high_water = hw, marker_unreadable = unreadable, seed_gone = new_tracker,
       consecutive_force = 0, force_attempts = 0\<rparr>)"

definition is_me :: "string \<Rightarrow> member_row \<Rightarrow> bool" where
  "is_me uuid m \<longleftrightarrow> eq_ic (member_id m) uuid"

definition i_am_online :: "member_row list \<Rightarrow> string \<Rightarrow> bool" where
  "i_am_online ms uuid = list_ex (\<lambda>m. is_me uuid m \<and> m_state m = ''ONLINE'') ms"

definition i_am_primary :: "member_row list \<Rightarrow> string \<Rightarrow> bool" where
  "i_am_primary ms uuid =
     list_ex (\<lambda>m. is_me uuid m \<and> m_state m = ''ONLINE'' \<and> m_role m = ''PRIMARY'') ms"

definition raise_high_water :: "bool \<Rightarrow> nat \<Rightarrow> volume \<Rightarrow> watch \<Rightarrow> volume \<times> watch" where
  "raise_high_water io online v w =
     (if online > high_water w
      then (persist_membership_high_water io online v, w\<lparr>high_water := online\<rparr>)
      else (v, w))"

definition armed :: "config \<Rightarrow> watch \<Rightarrow> bool" where
  "armed c w \<longleftrightarrow> marker_unreadable w \<or> sat_nat (high_water w * 2) > configured_members c"

definition probe_seed ::
  "watch_input \<Rightarrow> member_row list \<Rightarrow> nat \<Rightarrow> gone_tracker \<times> nat \<Rightarrow> string \<Rightarrow> gone_tracker \<times> nat" where
  "probe_seed i ms dwell ge seed =
     (if list_ex (\<lambda>m. m_state m = ''ONLINE'' \<and> eq_ic (m_host m) seed) ms
      then (observe_reachable (fst ge) seed, snd ge)
      else let g = observe (fst ge) seed (w_probe i seed) (w_now i) in
        (g, if is_waived g seed (w_now i) dwell then snd ge - 1 else snd ge))"

definition effective_members :: "config \<Rightarrow> watch_input \<Rightarrow> member_row list \<Rightarrow> watch \<Rightarrow> gone_tracker \<times> nat" where
  "effective_members c i ms w =
     (if armed c w \<and> online_count ms * 2 \<le> configured_members c
      then foldl (probe_seed i ms (peer_gone_dwell_seconds c)) (seed_gone w, configured_members c) (seed_hosts c)
      else (seed_gone w, configured_members c))"

text \<open>
  The fence part of a round; the last component says that the round goes on to the
  majority check (a failed lift ends it).
\<close>

definition fence_part ::
  "config \<Rightarrow> watch_input \<Rightarrow> member_row list \<Rightarrow> string \<Rightarrow> watch \<Rightarrow> watch \<times> watch_action list \<times> bool" where
  "fence_part c i ms uuid w =
     (let (g, effective) = effective_members c i ms w;
          w' = w\<lparr>seed_gone := g\<rparr>;
          online = online_count ms in
      if membership_fence_wanted online effective (armed c w) then
        (w'\<lparr>fenced := True\<rparr>,
         (if fenced w then [] else [Report_watch (FenceEngaged online effective)]) @ [Impose_read_only], True)
      else if fenced w then
        (if i_am_primary ms uuid then
           (if w_lift_ok i then (w'\<lparr>fenced := False\<rparr>, [Lift_read_only], True)
            else (w'\<lparr>fenced := True\<rparr>, [Lift_read_only], False))
         else (w'\<lparr>fenced := False\<rparr>, [], True))
      else (w', [], True))"

definition blocked_by_peer :: "watch_input \<Rightarrow> string \<Rightarrow> string \<times> peer_answer \<Rightarrow> force_block option" where
  "blocked_by_peer i mine ha =
     (case snd ha of
        State s \<Rightarrow> (case gtid_executed s of
            None \<Rightarrow> Some (NoGtidSet (fst ha))
          | Some p \<Rightarrow> (case gtid_compare (w_sub i) (w_compare_ok i) mine p of
              Some (peer_sub_mine, _) \<Rightarrow> if peer_sub_mine then None else Some (HoldsMore (fst ha))
            | None \<Rightarrow> Some (CompareFailed (fst ha))))
      | _ \<Rightarrow> Some (StoppedAnswering (fst ha)))"

definition unreachable_answers :: "watch_input \<Rightarrow> member_row list \<Rightarrow> answers" where
  "unreachable_answers i ms = map (\<lambda>m. (m_host m, w_peer i (m_host m))) (filter is_unreachable ms)"

text \<open>The branch of a \<open>Force\<close> verdict.\<close>

definition force_part :: "watch_input \<Rightarrow> answers \<Rightarrow> watch \<Rightarrow> watch \<times> watch_action list" where
  "force_part i as w0 =
     (let w = w0\<lparr>consecutive_force := consecutive_force w0 + 1\<rparr> in
      if consecutive_force w < force_dwell_rounds then (w, [])
      else (case w_gtid i of
        None \<Rightarrow> (w\<lparr>consecutive_force := 0\<rparr>, [])
      | Some mine \<Rightarrow> (case find_map (blocked_by_peer i mine) as of
          Some r \<Rightarrow> (w\<lparr>consecutive_force := 0\<rparr>, [Report_watch (ForceRefused r)])
        | None \<Rightarrow>
            if force_attempts w \<ge> force_max_attempts then (w, [])
            else let w' = w\<lparr>force_attempts := force_attempts w + 1, consecutive_force := 0\<rparr> in
              if \<not> w_stop_ok i then (w', [Stop_group, Report_watch StopFailed])
              else if w_bootstrap_ok i then
                (w', [Stop_group, Bootstrap_group] @ (if fenced w then [Impose_read_only] else []))
              else (w', [Stop_group, Bootstrap_group, Report_watch BootstrapFailed, Shutdown_server]))))"

definition majority_part ::
  "watch_input \<Rightarrow> volume \<Rightarrow> (string \<Rightarrow> bool) \<Rightarrow> member_row list \<Rightarrow> watch \<Rightarrow> watch \<times> watch_action list" where
  "majority_part i v is_uuid ms w =
     (if reachable_count ms * 2 > length ms then (w\<lparr>consecutive_force := 0\<rparr>, [])
      else
        let as = unreachable_answers i ms in
        case majority_loss_recovery_verdict (read_group_name_marker is_uuid v) ms as of
          Healthy \<Rightarrow> (w\<lparr>consecutive_force := 0\<rparr>, [])
        | Hold r \<Rightarrow> (w\<lparr>consecutive_force := 0\<rparr>, [])
        | Force \<Rightarrow> force_part i as w)"

definition watch_round ::
  "(string \<Rightarrow> bool) \<Rightarrow> config \<Rightarrow> volume \<times> watch \<Rightarrow> watch_input \<Rightarrow> (volume \<times> watch) \<times> watch_action list" where
  "watch_round is_uuid c vw i =
     (let v = fst vw; w = snd vw in
      case (w_members i, w_uuid i) of
        (Some ms, Some uuid) \<Rightarrow>
          if \<not> i_am_online ms uuid then ((v, w\<lparr>consecutive_force := 0\<rparr>), [])
          else
            let v1 = note_membership (w_marker_io i) v;
                (v2, w1) = raise_high_water (w_marker_io i) (online_count ms) v1 w;
                (w2, acts, goes_on) = fence_part c i ms uuid w1 in
            if \<not> goes_on then ((v2, w2), acts)
            else let (w3, acts') = majority_part i v2 is_uuid ms w2 in ((v2, w3), acts @ acts')
      | _ \<Rightarrow> ((v, w\<lparr>consecutive_force := 0\<rparr>), []))"

fun watch_run ::
  "(string \<Rightarrow> bool) \<Rightarrow> config \<Rightarrow> volume \<times> watch \<Rightarrow> watch_input list \<Rightarrow> (volume \<times> watch) \<times> watch_action list list" where
  "watch_run is_uuid c vw [] = (vw, [])"
| "watch_run is_uuid c vw (i # is) =
     (let (vw', acts) = watch_round is_uuid c vw i; (vw'', rest) = watch_run is_uuid c vw' is in
      (vw'', acts # rest))"

section \<open>When the group is re-formed\<close>

definition departed :: "string \<Rightarrow> answers \<Rightarrow> member_row \<Rightarrow> bool" where
  "departed gname as m \<longleftrightarrow>
     (\<exists>s. map_option snd (find (\<lambda>(h, _). h = m_host m) as) = Some (State s) \<and>
          group_name s = Some gname \<and> (\<not> group_active s \<or> mid_rejoin gname s))"

lemma departure_doubt_None: "departure_doubt gname as m = None \<longleftrightarrow> departed gname as m"
  by (auto simp: departure_doubt_def departed_def mid_rejoin_def split: option.splits peer_answer.splits)

lemma force_verdict:
  "majority_loss_recovery_verdict g ms as = Force \<longleftrightarrow>
     2 \<le> length ms \<and> reachable_count ms = 1 \<and>
     (\<exists>n. g = Some n \<and> (\<forall>m \<in> set ms. is_unreachable m \<longrightarrow> departed n as m))"
  by (auto simp: majority_loss_recovery_verdict_def find_map_None departure_doubt_None [symmetric]
      dest!: find_map_Some split: option.splits)

text \<open>
  The verdict is to re-form the group exactly when this node is the only reachable member
  of a view of at least two, knows its own group name, and every unreachable member's wrapper
  answers under that name that it is in no operating group. One peer that is silent, not
  ready, active or of another identity keeps the fence up.
\<close>

theorem force_verdict_iff:
  "majority_loss_recovery_verdict g ms as = Force \<longleftrightarrow>
     2 \<le> length ms \<and> reachable_count ms = 1 \<and>
     (\<exists>n. g = Some n \<and> (\<forall>m \<in> set ms. is_unreachable m \<longrightarrow> departed n as m))"
  by (rule force_verdict)

lemma departed_not_operating:
  "departed n as m \<Longrightarrow> \<exists>s. (m_host m, State s) \<in> set as \<and> group_name s = Some n \<and>
     (group_active s \<longrightarrow> member_state s = Some ''RECOVERING'' \<and> members_total s \<le> 1)"
  by (auto simp: departed_def mid_rejoin_def dest!: find_Some_in)

section \<open>The budget of forced re-formations\<close>

lemma fence_part_keeps:
  assumes "fence_part c i ms uuid w = (w', acts, g)"
  shows "force_attempts w' = force_attempts w" and "consecutive_force w' = consecutive_force w"
    and "high_water w' = high_water w" and "Stop_group \<notin> set acts" and "Bootstrap_group \<notin> set acts"
  using assms by (auto simp: fence_part_def Let_def split: prod.splits if_splits)

lemma raise_high_water_keeps:
  assumes "raise_high_water io n v w = (v', w')"
  shows "force_attempts w' = force_attempts w" and "consecutive_force w' = consecutive_force w"
    and "fenced w' = fenced w" and "seed_gone w' = seed_gone w"
    and "marker_unreadable w' = marker_unreadable w" and "high_water w' = max (high_water w) n"
  using assms by (auto simp: raise_high_water_def split: if_splits)

text \<open>What a round judged: the proof was there, was not, or the round ended before.\<close>

datatype judgement = Proven | NotProven | NotReached

definition judge :: "(string \<Rightarrow> bool) \<Rightarrow> config \<Rightarrow> volume \<times> watch \<Rightarrow> watch_input \<Rightarrow> judgement" where
  "judge is_uuid c vw i =
     (case (w_members i, w_uuid i) of
        (Some ms, Some uuid) \<Rightarrow>
          if \<not> i_am_online ms uuid then NotProven
          else
            let v1 = note_membership (w_marker_io i) (fst vw);
                (v2, w1) = raise_high_water (w_marker_io i) (online_count ms) v1 (snd vw);
                (w2, acts, goes_on) = fence_part c i ms uuid w1 in
            if \<not> goes_on then NotReached
            else if majority_loss_recovery_verdict (read_group_name_marker is_uuid v2) ms
                (unreachable_answers i ms) = Force then Proven
            else NotProven
      | _ \<Rightarrow> NotProven)"

definition streak_step :: "nat \<Rightarrow> judgement \<Rightarrow> nat" where
  "streak_step k j = (case j of Proven \<Rightarrow> Suc k | NotProven \<Rightarrow> 0 | NotReached \<Rightarrow> k)"

lemma force_part_counts:
  assumes "force_part i as w = (w', acts)"
  shows "consecutive_force w' \<le> Suc (consecutive_force w)"
    and "force_attempts w \<le> force_attempts w'"
    and "Stop_group \<in> set acts \<Longrightarrow> force_attempts w < force_max_attempts \<and>
      force_attempts w < force_attempts w' \<and> force_dwell_rounds \<le> Suc (consecutive_force w) \<and>
      (\<exists>mine. w_gtid i = Some mine \<and> (\<forall>ha \<in> set as. blocked_by_peer i mine ha = None))"
    and "Bootstrap_group \<in> set acts \<Longrightarrow> Stop_group \<in> set acts"
  using assms
  by (auto simp: force_part_def Let_def find_map_None split: option.splits if_splits)

lemma majority_part_counts:
  assumes "majority_part i v is_uuid ms w = (w', acts)"
  defines "f \<equiv> majority_loss_recovery_verdict (read_group_name_marker is_uuid v) ms (unreachable_answers i ms) = Force"
  shows "consecutive_force w' \<le> (if f then Suc (consecutive_force w) else 0)"
    and "force_attempts w \<le> force_attempts w'"
    and "Stop_group \<in> set acts \<Longrightarrow> f \<and> force_attempts w < force_max_attempts \<and>
      force_attempts w < force_attempts w' \<and> force_dwell_rounds \<le> Suc (consecutive_force w) \<and>
      (\<exists>mine. w_gtid i = Some mine \<and> (\<forall>ha \<in> set (unreachable_answers i ms). blocked_by_peer i mine ha = None))"
    and "Bootstrap_group \<in> set acts \<Longrightarrow> Stop_group \<in> set acts"
  using assms(1) force_part_counts [of i "unreachable_answers i ms" w w' acts]
  by (auto simp: majority_part_def f_def force_verdict Let_def split: if_splits majority_verdict.splits)

lemma watch_round_cases:
  assumes "watch_round is_uuid c vw i = (vw', acts)"
  obtains
    (blind) "acts = []" and "snd vw' = (snd vw)\<lparr>consecutive_force := 0\<rparr>"
      and "judge is_uuid c vw i = NotProven"
      and "\<And>ms uuid. w_members i = Some ms \<Longrightarrow> w_uuid i = Some uuid \<Longrightarrow> \<not> i_am_online ms uuid"
  | (fence_only) ms uuid w1 where "w_members i = Some ms" and "w_uuid i = Some uuid" and "i_am_online ms uuid"
      and "raise_high_water (w_marker_io i) (online_count ms) (note_membership (w_marker_io i) (fst vw)) (snd vw)
        = (fst vw', w1)"
      and "fence_part c i ms uuid w1 = (snd vw', acts, False)" and "judge is_uuid c vw i = NotReached"
  | (whole) ms uuid w1 w2 acts1 acts2 where "w_members i = Some ms" and "w_uuid i = Some uuid"
      and "i_am_online ms uuid"
      and "raise_high_water (w_marker_io i) (online_count ms) (note_membership (w_marker_io i) (fst vw)) (snd vw)
        = (fst vw', w1)"
      and "fence_part c i ms uuid w1 = (w2, acts1, True)"
      and "majority_part i (fst vw') is_uuid ms w2 = (snd vw', acts2)" and "acts = acts1 @ acts2"
      and "judge is_uuid c vw i = (if majority_loss_recovery_verdict (read_group_name_marker is_uuid (fst vw')) ms
        (unreachable_answers i ms) = Force then Proven else NotProven)"
proof (cases "w_members i = None \<or> w_uuid i = None \<or> \<not> i_am_online (the (w_members i)) (the (w_uuid i))")
  case True
  then show thesis
    using assms by (intro blind) (auto simp: watch_round_def judge_def Let_def split: option.splits)
next
  case False
  then obtain ms uuid where mu: "w_members i = Some ms" "w_uuid i = Some uuid" "i_am_online ms uuid" by auto
  obtain v2 w1 where r: "raise_high_water (w_marker_io i) (online_count ms)
      (note_membership (w_marker_io i) (fst vw)) (snd vw) = (v2, w1)" by fastforce
  obtain w2 acts1 g where f: "fence_part c i ms uuid w1 = (w2, acts1, g)" by (metis prod_cases3)
  obtain w3 acts2 where m: "majority_part i v2 is_uuid ms w2 = (w3, acts2)" by fastforce
  show thesis
  proof (cases g)
    case True
    have "vw' = (v2, w3)" and "acts = acts1 @ acts2"
      using assms mu r f m True by (simp_all add: watch_round_def)
    then show thesis
      using whole [OF mu, of w1 w2 acts1 acts2] mu r f m True by (simp add: judge_def)
  next
    case False
    have "vw' = (v2, w2)" and "acts = acts1"
      using assms mu r f False by (simp_all add: watch_round_def)
    then show thesis
      using fence_only [OF mu, of w1] mu r f False by (simp add: judge_def)
  qed
qed

lemma watch_round_counts:
  assumes "watch_round is_uuid c vw i = (vw', acts)"
  shows "consecutive_force (snd vw') \<le> streak_step (consecutive_force (snd vw)) (judge is_uuid c vw i)"
    and "force_attempts (snd vw) \<le> force_attempts (snd vw')"
    and "Stop_group \<in> set acts \<Longrightarrow> judge is_uuid c vw i = Proven \<and>
      force_attempts (snd vw) < force_max_attempts \<and> force_attempts (snd vw) < force_attempts (snd vw') \<and>
      force_dwell_rounds \<le> Suc (consecutive_force (snd vw)) \<and>
      (\<exists>ms mine. w_members i = Some ms \<and> w_gtid i = Some mine \<and>
         (\<forall>ha \<in> set (unreachable_answers i ms). blocked_by_peer i mine ha = None))"
    and "Bootstrap_group \<in> set acts \<Longrightarrow> Stop_group \<in> set acts"
proof -
  have "consecutive_force (snd vw') \<le> streak_step (consecutive_force (snd vw)) (judge is_uuid c vw i) \<and>
    force_attempts (snd vw) \<le> force_attempts (snd vw') \<and>
    (Stop_group \<in> set acts \<longrightarrow> judge is_uuid c vw i = Proven \<and>
      force_attempts (snd vw) < force_max_attempts \<and> force_attempts (snd vw) < force_attempts (snd vw') \<and>
      force_dwell_rounds \<le> Suc (consecutive_force (snd vw)) \<and>
      (\<exists>ms mine. w_members i = Some ms \<and> w_gtid i = Some mine \<and>
         (\<forall>ha \<in> set (unreachable_answers i ms). blocked_by_peer i mine ha = None))) \<and>
    (Bootstrap_group \<in> set acts \<longrightarrow> Stop_group \<in> set acts)"
    using assms
  proof (cases rule: watch_round_cases)
    case blind
    then show ?thesis by simp
  next
    case (fence_only ms uuid w1)
    then show ?thesis
      using fence_part_keeps [OF fence_only(5)] raise_high_water_keeps [OF fence_only(4)]
      by (simp add: streak_step_def)
  next
    case (whole ms uuid w1 w2 acts1 acts2)
    then show ?thesis
      using majority_part_counts [OF whole(6)] fence_part_keeps [OF whole(5)] raise_high_water_keeps [OF whole(4)]
      by (auto simp: streak_step_def split: if_splits)
  qed
  then show "consecutive_force (snd vw') \<le> streak_step (consecutive_force (snd vw)) (judge is_uuid c vw i)"
    and "force_attempts (snd vw) \<le> force_attempts (snd vw')"
    and "Stop_group \<in> set acts \<Longrightarrow> judge is_uuid c vw i = Proven \<and>
      force_attempts (snd vw) < force_max_attempts \<and> force_attempts (snd vw) < force_attempts (snd vw') \<and>
      force_dwell_rounds \<le> Suc (consecutive_force (snd vw)) \<and>
      (\<exists>ms mine. w_members i = Some ms \<and> w_gtid i = Some mine \<and>
         (\<forall>ha \<in> set (unreachable_answers i ms). blocked_by_peer i mine ha = None))"
    and "Bootstrap_group \<in> set acts \<Longrightarrow> Stop_group \<in> set acts"
    by blast+
qed

interpretation force_budget: attempt_budget
  "\<lambda>vw i. fst (watch_round is_uuid c vw i)" "\<lambda>vw i. Stop_group \<in> set (snd (watch_round is_uuid c vw i))"
  "\<lambda>vw. force_attempts (snd vw)" force_max_attempts "\<lambda>_ _. True" for is_uuid c
  by unfold_locales (use watch_round_counts [OF prod.collapse [symmetric]] in blast)+

lemma force_budget_ok: "force_budget.all_ok is_uuid c vw is"
  by (induction "is" arbitrary: vw) simp_all

lemma force_budget_run:
  "force_budget.attempts is_uuid c vw is =
     length (filter (\<lambda>acts. Stop_group \<in> set acts) (snd (watch_run is_uuid c vw is)))"
  by (induction "is" arbitrary: vw) (simp_all add: case_prod_unfold Let_def)

text \<open>
  Whatever the network, the peers and the database answer, over the whole life of a
  watcher the group is stopped for a forced re-formation at most three times.
\<close>

theorem forced_at_most_three:
  "length (filter (\<lambda>acts. Stop_group \<in> set acts) (snd (watch_run is_uuid c (v, watch_start v flag) is))) \<le> 3"
  using force_budget.attempts_le [OF force_budget_ok, of is_uuid c "(v, watch_start v flag)" "is"]
  by (simp add: force_budget_run force_max_attempts_def)

fun judgements :: "(string \<Rightarrow> bool) \<Rightarrow> config \<Rightarrow> volume \<times> watch \<Rightarrow> watch_input list \<Rightarrow> judgement list" where
  "judgements is_uuid c vw [] = []"
| "judgements is_uuid c vw (i # is) =
     judge is_uuid c vw i # judgements is_uuid c (fst (watch_round is_uuid c vw i)) is"

lemma streak_mono: "k \<le> l \<Longrightarrow> foldl streak_step k js \<le> foldl streak_step l js"
proof (induction js arbitrary: k l)
  case (Cons j js)
  have "streak_step k j \<le> streak_step l j"
    using Cons.prems by (cases j) (simp_all add: streak_step_def)
  then show ?case by (simp add: Cons.IH)
qed simp

lemma consecutive_le_streak:
  "consecutive_force (snd (fst (watch_run is_uuid c vw is))) \<le>
     foldl streak_step (consecutive_force (snd vw)) (judgements is_uuid c vw is)"
proof (induction "is" arbitrary: vw)
  case (Cons i "is")
  let ?r = "watch_round is_uuid c vw i"
  have "consecutive_force (snd (fst ?r)) \<le> streak_step (consecutive_force (snd vw)) (judge is_uuid c vw i)"
    by (rule watch_round_counts(1) [OF prod.collapse [symmetric]])
  from streak_mono [OF this] show ?case
    using Cons.IH [of "fst ?r"] by (simp add: case_prod_unfold Let_def) (meson le_trans)
qed simp

text \<open>
  C9: A forced re-formation follows at least fifteen proofs in a row: counting back from the
  round that stops the group, every round that reached the verdict found it proven, no
  round found it unproven, and there are at least fifteen proven ones, the acting round
  among them. In that round the node read its own GTID set and every unreachable member
  answered with a set this node covers.
\<close>

theorem force_needs_fifteen_proofs:
  assumes "watch_run is_uuid c (v, watch_start v flag) is = (vw, trace)"
    and "Stop_group \<in> set (snd (watch_round is_uuid c vw i))"
  shows "15 \<le> foldl streak_step 0 (judgements is_uuid c (v, watch_start v flag) is @ [judge is_uuid c vw i]) \<and>
    judge is_uuid c vw i = Proven \<and>
    (\<exists>ms mine. w_members i = Some ms \<and> w_gtid i = Some mine \<and>
       (\<forall>ha \<in> set (unreachable_answers i ms). \<exists>s p. snd ha = State s \<and> gtid_executed s = Some p \<and> w_sub i p mine))"
proof -
  have start: "consecutive_force (watch_start v flag) = 0"
    by (simp add: watch_start_def split: option.split)
  obtain vw' acts where r: "watch_round is_uuid c vw i = (vw', acts)" by fastforce
  from watch_round_counts(3) [OF r] assms(2) r
  have now: "judge is_uuid c vw i = Proven" "15 \<le> Suc (consecutive_force (snd vw))"
    and unblocked: "\<exists>ms mine. w_members i = Some ms \<and> w_gtid i = Some mine \<and>
         (\<forall>ha \<in> set (unreachable_answers i ms). blocked_by_peer i mine ha = None)"
    by (auto simp: force_dwell_rounds_def)
  have "blocked_by_peer i mine ha = None \<Longrightarrow>
      \<exists>s p. snd ha = State s \<and> gtid_executed s = Some p \<and> w_sub i p mine" for mine ha
    by (auto simp: blocked_by_peer_def gtid_compare_def split: peer_answer.splits option.splits if_splits)
  moreover have "consecutive_force (snd vw) \<le>
      foldl streak_step 0 (judgements is_uuid c (v, watch_start v flag) is)"
    using consecutive_le_streak [of is_uuid c "(v, watch_start v flag)" "is"] assms(1) start by simp
  ultimately show ?thesis
    using now unblocked by (simp add: streak_step_def) blast
qed

section \<open>The fence\<close>

definition seed_online :: "member_row list \<Rightarrow> string \<Rightarrow> bool" where
  "seed_online ms seed \<longleftrightarrow> list_ex (\<lambda>m. m_state m = ''ONLINE'' \<and> eq_ic (m_host m) seed) ms"

definition gone_now :: "config \<Rightarrow> watch_input \<Rightarrow> member_row list \<Rightarrow> nat" where
  "gone_now c i ms = length (filter (\<lambda>s. \<not> seed_online ms s \<and> w_probe i s = Gone) (seed_hosts c))"

lemma probe_seed_effective:
  "snd ge - length (filter (\<lambda>s. \<not> seed_online ms s \<and> w_probe i s = Gone) seeds)
     \<le> snd (foldl (probe_seed i ms d) ge seeds)"
proof (induction seeds arbitrary: ge)
  case (Cons s seeds)
  have "snd ge - (if \<not> seed_online ms s \<and> w_probe i s = Gone then 1 else 0) \<le> snd (probe_seed i ms d ge s)"
    by (auto simp: probe_seed_def seed_online_def Let_def observe_def is_waived_def
        split: name_verdict.splits)
  then show ?case
    using Cons.IH [of "probe_seed i ms d ge s"] by (auto split: if_splits)
qed simp

lemma effective_members_ge:
  "configured_members c - gone_now c i ms \<le> snd (effective_members c i ms w)"
  using probe_seed_effective [of "(seed_gone w, configured_members c)" ms i "seed_hosts c"]
  by (auto simp: effective_members_def gone_now_def)

lemma armed_raise: "raise_high_water io n v w = (v', w') \<Longrightarrow> armed c w \<Longrightarrow> armed c w'"
  using raise_high_water_keeps(5,6) [of io n v w v' w']
  by (cases "marker_unreadable w") (auto simp: armed_def sat_nat_def max_def split: if_splits)

text \<open>
  C10: Below a majority of the declared members, the fence is up. Once the group has reached
  a majority (the high-water mark, or a marker that cannot be read), a round in which this
  node is ONLINE and the ONLINE members are at most half of the declared ones, those whose
  names answer NXDOMAIN in this round discounted, ends with the shared fence flag raised and
  has imposed \<open>super_read_only\<close>. The order in which the peers left makes no difference.
\<close>

theorem below_majority_is_fenced:
  assumes "watch_round is_uuid c (v, w) i = ((v', w'), acts)" and "w_members i = Some ms"
    and "w_uuid i = Some uuid" and "i_am_online ms uuid" and "armed c w"
    and "2 * online_count ms \<le> configured_members c - gone_now c i ms"
  shows "fenced w' \<and> Impose_read_only \<in> set acts"
proof -
  have wanted: "membership_fence_wanted (online_count ms) (snd (effective_members c i ms w1)) True" for w1
    using assms(6) effective_members_ge [of c i ms w1] by (auto simp: membership_fence_wanted_def)
  have part: "fenced w2 \<and> g \<and> Impose_read_only \<in> set a"
    if "fence_part c i ms uuid w1 = (w2, a, g)" "armed c w1" for w1 w2 a g
    using that wanted [of w1] by (auto simp: fence_part_def Let_def split: prod.splits)
  have keep: "majority_part i u is_uuid ms w2 = (w3, a) \<Longrightarrow> fenced w3 = fenced w2" for u w2 w3 a
    by (auto simp: majority_part_def force_part_def Let_def
        split: if_splits majority_verdict.splits option.splits)
  show ?thesis
    using assms(1)
  proof (cases rule: watch_round_cases)
    case blind
    then show ?thesis using assms(2-4) by blast
  next
    case (fence_only ms' uuid' w1)
    then show ?thesis using part assms armed_raise [OF fence_only(4)] by auto
  next
    case (whole ms' uuid' w1 w2 acts1 acts2)
    then show ?thesis using part [of w1 w2 acts1 True] keep assms armed_raise [OF whole(4)] by auto
  qed
qed

section \<open>Examples\<close>

definition sample_row :: "string \<Rightarrow> string \<Rightarrow> member_row" where
  "sample_row h st = \<lparr>member_id = h, m_host = h, m_state = st, m_role = (if h = ''a'' then ''PRIMARY'' else ''SECONDARY'')\<rparr>"

definition sample_input :: "nat \<Rightarrow> member_row list \<Rightarrow> (string \<Rightarrow> name_verdict) \<Rightarrow> peer_answer \<Rightarrow> watch_input" where
  "sample_input now ms probe peer = \<lparr>w_members = Some ms, w_uuid = Some ''a'', w_now = now, w_probe = probe,
     w_peer = (\<lambda>_. peer), w_gtid = Some ''x'', w_sub = sample_sub, w_compare_ok = (\<lambda>_. True), w_marker_io = True,
     w_lift_ok = True, w_stop_ok = True, w_bootstrap_ok = True\<rparr>"

abbreviation all_online :: "member_row list" where
  "all_online \<equiv> [sample_row ''a'' ''ONLINE'', sample_row ''b'' ''ONLINE'', sample_row ''c'' ''ONLINE'']"

abbreviation alone :: "member_row list" where
  "alone \<equiv> [sample_row ''a'' ''ONLINE'']"

lemma sample_members [simp]:
  "i_am_online alone ''a''" "i_am_online all_online ''a''" "i_am_primary alone ''a''" "i_am_primary all_online ''a''"
  "online_count alone = 1" "online_count all_online = 3" "reachable_count alone = 1" "reachable_count all_online = 3"
  "configured_members (sample_config d) = 3"
  by (simp_all add: i_am_online_def i_am_primary_def sample_row_def is_me_def online_count_def reachable_count_def
      configured_members_def)

lemma sample_seed_online [simp]:
  "seed_online alone ''a''" "\<not> seed_online alone ''b''" "\<not> seed_online alone ''c''"
  by (simp_all add: seed_online_def sample_row_def eq_ic_def ascii_lower_def char_code_def)

lemma sample_input_fields [simp]:
  "w_members (sample_input n ms pr p) = Some ms" "w_uuid (sample_input n ms pr p) = Some ''a''"
  "w_now (sample_input n ms pr p) = n" "w_probe (sample_input n ms pr p) = pr"
  "w_marker_io (sample_input n ms pr p) = True" "w_lift_ok (sample_input n ms pr p) = True"
  by (simp_all add: sample_input_def)

lemma sample_all_round:
  assumes "\<not> marker_unreadable w" and "high_water w \<le> 3"
  shows "let w' = snd (fst (watch_round isu (sample_config ''a'') (v, w) (sample_input n all_online pr p))) in
    \<not> fenced w' \<and> high_water w' = 3 \<and> \<not> marker_unreadable w' \<and> seed_gone w' = seed_gone w"
  using assms
  by (simp add: watch_round_def raise_high_water_def fence_part_def effective_members_def
      membership_fence_wanted_def majority_part_def case_prod_unfold Let_def split: if_split)

lemma sample_alone_round:
  assumes "\<not> marker_unreadable w" and "high_water w = 3"
  shows "let w' = snd (fst (watch_round isu (sample_config ''a'') (v, w) (sample_input n alone pr p))) in
    high_water w' = 3 \<and> \<not> marker_unreadable w' \<and>
    (seed_gone w', fenced w') = (let (g, e) = foldl (probe_seed (sample_input n alone pr p) alone 1800)
        (seed_gone w, 3) [''a'', ''b'', ''c''] in (g, 2 \<le> e))"
  using assms
  by (simp add: watch_round_def raise_high_water_def fence_part_def effective_members_def armed_def sat_nat_def u64_max_def
      membership_fence_wanted_def majority_part_def case_prod_unfold Let_def max_def split: if_split)

lemma sample_probe:
  "fst (probe_seed (sample_input n alone pr p) alone d ge ''a'') = (fst ge)(''a'' := None)"
  "snd (probe_seed (sample_input n alone pr p) alone d ge ''a'') = snd ge"
  by (simp_all add: probe_seed_def observe_reachable_def seed_online_def [symmetric])

lemma watch_run_fst: "fst (watch_run isu c vw (i # is)) = fst (watch_run isu c (fst (watch_round isu c vw i)) is)"
  by (simp add: case_prod_unfold Let_def)

text \<open>
  The proof of a deletion need not be continuous. A round that sees a majority ONLINE
  probes nothing and clears no clock, so a clock started by one NXDOMAIN during an outage
  survives the members' return: with all three members ONLINE in between, the first
  NXDOMAIN answers of a later outage waive both peers at once and the lone member is not
  fenced, while without the earlier outage the same round fences it.
\<close>

theorem stale_clock_drops_fence:
  "\<not> fenced (snd (fst (watch_run (\<lambda>_. True) (sample_config ''a'')
      (sample_volume False, watch_start (sample_volume False) False)
      [sample_input 0 all_online (\<lambda>_. ExistsOrUnknown) Unreachable,
       sample_input 2 alone (\<lambda>_. Gone) Unreachable,
       sample_input 4 all_online (\<lambda>_. ExistsOrUnknown) Unreachable,
       sample_input 1802 alone (\<lambda>_. Gone) Unreachable]))) \<and>
   fenced (snd (fst (watch_run (\<lambda>_. True) (sample_config ''a'')
      (sample_volume False, watch_start (sample_volume False) False)
      [sample_input 0 all_online (\<lambda>_. ExistsOrUnknown) Unreachable,
       sample_input 4 all_online (\<lambda>_. ExistsOrUnknown) Unreachable,
       sample_input 1802 alone (\<lambda>_. Gone) Unreachable])))"
proof -
  let ?round = "watch_round (\<lambda>_. True) (sample_config ''a'')"
  let ?up = "\<lambda>n. sample_input n all_online (\<lambda>_. ExistsOrUnknown) Unreachable"
  let ?out = "\<lambda>n. sample_input n alone (\<lambda>_. Gone) Unreachable"
  have up: "\<not> fenced (snd vw') \<and> high_water (snd vw') = 3 \<and> \<not> marker_unreadable (snd vw') \<and> seed_gone (snd vw') = seed_gone (snd vw)"
    if "vw' = fst (?round vw (?up n))" "\<not> marker_unreadable (snd vw)" "high_water (snd vw) \<le> 3" for vw vw' n
    using sample_all_round [of "snd vw" "\<lambda>_. True" "fst vw" n "\<lambda>_. ExistsOrUnknown" Unreachable] that
    by (simp add: Let_def)
  have out: "high_water (snd vw') = 3 \<and> \<not> marker_unreadable (snd vw') \<and>
      seed_gone (snd vw') ''b'' = Some (case seed_gone (snd vw) ''b'' of Some t \<Rightarrow> t | None \<Rightarrow> n) \<and>
      seed_gone (snd vw') ''c'' = Some (case seed_gone (snd vw) ''c'' of Some t \<Rightarrow> t | None \<Rightarrow> n) \<and>
      (fenced (snd vw') \<longleftrightarrow> \<not> (is_waived (seed_gone (snd vw')) ''b'' n 1800 \<and> is_waived (seed_gone (snd vw')) ''c'' n 1800))"
    if "vw' = fst (?round vw (?out n))" "\<not> marker_unreadable (snd vw)" "high_water (snd vw) = 3" for vw vw' n
    using sample_alone_round [of "snd vw" "\<lambda>_. True" "fst vw" n "\<lambda>_. Gone" Unreachable] that
    by (auto simp add: Let_def probe_seed_def observe_reachable_def seed_online_def [symmetric] observe_def is_waived_def
        split: option.splits if_splits)
  let ?s0 = "(sample_volume False, watch_start (sample_volume False) False)"
  have init: "\<not> marker_unreadable (snd ?s0)" "high_water (snd ?s0) \<le> 3" "seed_gone (snd ?s0) = new_tracker"
    by (simp_all add: watch_start_def read_membership_high_water_def sample_volume_def)
  define s1 where "s1 = fst (?round ?s0 (?up 0))"
  define s2 where "s2 = fst (?round s1 (?out 2))"
  define s3 where "s3 = fst (?round s2 (?up 4))"
  define s4 where "s4 = fst (?round s3 (?out 1802))"
  define t3 where "t3 = fst (?round s1 (?up 4))"
  define t4 where "t4 = fst (?round t3 (?out 1802))"
  note u1 = up [OF s1_def init(1,2)]
  note o2 = out [OF s2_def]
  note u3 = up [OF s3_def]
  note o4 = out [OF s4_def]
  note v3 = up [OF t3_def]
  note p4 = out [OF t4_def]
  have "\<not> fenced (snd s4)" and "fenced (snd t4)"
    using u1 o2 u3 o4 v3 p4 init(3) by (simp_all add: new_tracker_def is_waived_def)
  then show ?thesis
    unfolding watch_run_fst s1_def s2_def s3_def s4_def t3_def t4_def by simp
qed

lemma below_majority_is_fenced_witness:
  "fenced (snd (fst (watch_round (\<lambda>_. True) (sample_config ''a'') (sample_volume False,
     (watch_start (sample_volume False) False)\<lparr>high_water := 3\<rparr>) (sample_input 5 alone (\<lambda>_. ExistsOrUnknown) Unreachable)))) \<and>
   Impose_read_only \<in> set (snd (watch_round (\<lambda>_. True) (sample_config ''a'') (sample_volume False,
     (watch_start (sample_volume False) False)\<lparr>high_water := 3\<rparr>) (sample_input 5 alone (\<lambda>_. ExistsOrUnknown) Unreachable)))"
proof -
  let ?i = "sample_input 5 alone (\<lambda>_. ExistsOrUnknown) Unreachable"
  let ?w = "(watch_start (sample_volume False) False)\<lparr>high_water := 3\<rparr>"
  obtain v' w' acts where r: "watch_round (\<lambda>_. True) (sample_config ''a'') (sample_volume False, ?w) ?i = ((v', w'), acts)"
    by (metis prod.collapse)
  have "fenced w' \<and> Impose_read_only \<in> set acts"
    by (rule below_majority_is_fenced [OF r, of alone "''a''"])
       (simp_all add: gone_now_def armed_def sat_nat_def u64_max_def)
  then show ?thesis unfolding r by simp
qed

lemma force_verdict_iff_witness:
  "majority_loss_recovery_verdict (Some ''g'') [sample_row ''a'' ''ONLINE'', sample_row ''b'' ''UNREACHABLE'']
     [(''b'', State ((sample_advert ''b'' False ''x'' False)\<lparr>group_name := Some ''g''\<rparr>))] = Force"
  unfolding force_verdict_iff
  by (simp add: reachable_count_def sample_row_def is_unreachable_def departed_def sample_advert_def)

text \<open>Fifteen rounds of proof on a two-member view.\<close>

definition sample_survivor :: watch_input where
  "sample_survivor = sample_input 0 [sample_row ''a'' ''ONLINE'', sample_row ''b'' ''UNREACHABLE'']
     (\<lambda>_. ExistsOrUnknown) (State ((sample_advert ''b'' False ''x'' False)\<lparr>group_name := Some ''g''\<rparr>))"

definition sample_dwelling :: "nat \<Rightarrow> volume \<times> watch \<Rightarrow> bool" where
  "sample_dwelling k vw \<longleftrightarrow> consecutive_force (snd vw) = k \<and> force_attempts (snd vw) = 0 \<and> \<not> fenced (snd vw) \<and>
     \<not> marker_unreadable (snd vw) \<and> high_water (snd vw) \<le> 1 \<and> read_group_name_marker (\<lambda>_. True) (fst vw) = Some ''g''"

lemma marker_note [simp]: "read_group_name_marker u (note_membership io v) = read_group_name_marker u v"
  by (rule read_group_name_marker_cong) (simp add: marker_frame)

lemma marker_high_water [simp]:
  "read_group_name_marker u (persist_membership_high_water io k v) = read_group_name_marker u v"
  by (rule read_group_name_marker_cong) (simp add: marker_frame)

lemma sample_survivor_round:
  assumes "sample_dwelling k vw"
  shows "k < 14 \<Longrightarrow> sample_dwelling (Suc k) (fst (watch_round (\<lambda>_. True) (sample_config ''a'') vw sample_survivor))"
    and "k = 14 \<Longrightarrow> Stop_group \<in> set (snd (watch_round (\<lambda>_. True) (sample_config ''a'') vw sample_survivor))"
proof -
  let ?ms = "[sample_row ''a'' ''ONLINE'', sample_row ''b'' ''UNREACHABLE'']"
  have ms: "i_am_online ?ms ''a''" "online_count ?ms = 1" "reachable_count ?ms = 1"
    by (simp_all add: i_am_online_def sample_row_def is_me_def online_count_def reachable_count_def)
  have f: "majority_loss_recovery_verdict (Some ''g'') ?ms (unreachable_answers sample_survivor ?ms) = Force"
    by (simp add: force_verdict reachable_count_def sample_row_def is_unreachable_def departed_def sample_advert_def
        unreachable_answers_def sample_survivor_def sample_input_def)
  have b: "find_map (blocked_by_peer sample_survivor ''x'') (unreachable_answers sample_survivor ?ms) = None"
    by (simp add: unreachable_answers_def blocked_by_peer_def gtid_compare_def sample_row_def is_unreachable_def
        sample_advert_def sample_survivor_def sample_input_def sample_sub_def)
  have i: "w_members sample_survivor = Some ?ms" "w_uuid sample_survivor = Some ''a''" "w_marker_io sample_survivor = True"
    "w_gtid sample_survivor = Some ''x''"
    by (simp_all add: sample_survivor_def sample_input_def)
  show "k < 14 \<Longrightarrow> sample_dwelling (Suc k) (fst (watch_round (\<lambda>_. True) (sample_config ''a'') vw sample_survivor))"
    "k = 14 \<Longrightarrow> Stop_group \<in> set (snd (watch_round (\<lambda>_. True) (sample_config ''a'') vw sample_survivor))"
    using assms ms f b i
    by (auto simp: watch_round_def raise_high_water_def fence_part_def effective_members_def armed_def sat_nat_def
        u64_max_def membership_fence_wanted_def majority_part_def force_part_def sample_dwelling_def
        force_dwell_rounds_def force_max_attempts_def case_prod_unfold Let_def)
qed

lemma force_needs_fifteen_proofs_witness:
  "\<exists>vw. sample_dwelling 14 vw \<and>
     15 \<le> foldl streak_step 0 (judgements (\<lambda>_. True) (sample_config ''a'')
       ((sample_volume False)\<lparr>group_name_file := line ''g''\<rparr>, watch_start ((sample_volume False)\<lparr>group_name_file := line ''g''\<rparr>) False)
       (replicate 14 sample_survivor) @ [judge (\<lambda>_. True) (sample_config ''a'') vw sample_survivor])"
proof -
  let ?v = "(sample_volume False)\<lparr>group_name_file := line ''g''\<rparr>"
  let ?s = "(?v, watch_start ?v False)"
  let ?run = "\<lambda>n vw. fst (watch_run (\<lambda>_. True) (sample_config ''a'') vw (replicate n sample_survivor))"
  have "trim [CHR ''g'', newline] = ''g''"
    using trim_plain_line [of "''g''"] by (simp add: plain_line_def is_ws_def char_code_def)
  then have start: "sample_dwelling 0 ?s"
    by (simp add: sample_dwelling_def watch_start_def read_membership_high_water_def sample_volume_def
        read_group_name_marker_def Let_def)
  have dwell: "sample_dwelling k vw \<Longrightarrow> k + n \<le> 14 \<Longrightarrow> sample_dwelling (k + n) (?run n vw)" for k n vw
  proof (induction n arbitrary: k vw)
    case (Suc n)
    from sample_survivor_round(1) [OF Suc.prems(1)] Suc.prems(2) Suc.IH [of "Suc k"] show ?case
      by (simp add: case_prod_unfold Let_def)
  qed simp
  let ?vw = "?run 14 ?s"
  have "sample_dwelling 14 ?vw" using dwell [OF start, of 14] by simp
  moreover from this have "Stop_group \<in> set (snd (watch_round (\<lambda>_. True) (sample_config ''a'') ?vw sample_survivor))"
    by (rule sample_survivor_round(2)) simp
  from force_needs_fifteen_proofs [OF prod.collapse [symmetric] this]
  have "15 \<le> foldl streak_step 0 (judgements (\<lambda>_. True) (sample_config ''a'') ?s (replicate 14 sample_survivor)
      @ [judge (\<lambda>_. True) (sample_config ''a'') ?vw sample_survivor])" by blast
  ultimately show ?thesis by blast
qed

end
