(* ===== verification/Self_Heal.thy ===== *)
theory Self_Heal
  imports Volume
begin

text \<open>
  \<open>self_heal.rs\<close>: the boot-loop accounting and the discard of a datadir that cannot
  boot, the watch over a boot, and the watchdog over a stuck member. The attempt counters
  are \<open>u32\<close>, the instants of the ledger \<open>u64\<close>, with the saturating arithmetic of
  the source. What peers, clock, file system and database answer are arguments.
\<close>

type_synonym u32 = "32 word"

section \<open>The markers\<close>

definition read_boot_attempts :: "volume \<Rightarrow> u32" where
  "read_boot_attempts v =
     (case Option.bind (read_text (boot_file v)) (\<lambda>s. parse_uint u32_max (trim s)) of
        Some n \<Rightarrow> word_of_nat n | None \<Rightarrow> 0)"

definition persist_boot_attempts :: "bool \<Rightarrow> u32 \<Rightarrow> volume \<Rightarrow> volume" where
  "persist_boot_attempts io n v = (if io then v\<lparr>boot_file := line (show_nat (unat n))\<rparr> else v)"

record heal_ledger =
  attempts :: u32
  last_unix :: u64

definition default_ledger :: heal_ledger where
  "default_ledger = \<lparr>attempts = 0, last_unix = 0\<rparr>"

definition bump :: "heal_ledger \<Rightarrow> u64 \<Rightarrow> heal_ledger" where
  "bump l now = \<lparr>attempts = sat_add (attempts l) 1, last_unix = now\<rparr>"

definition spent_ledger :: "u64 \<Rightarrow> heal_ledger" where
  "spent_ledger now = \<lparr>attempts = - 1, last_unix = now\<rparr>"

definition read_ledger :: "u64 \<Rightarrow> volume \<Rightarrow> heal_ledger" where
  "read_ledger now v =
     (case ledger_file v of
        Missing \<Rightarrow> default_ledger
      | Unreadable \<Rightarrow> spent_ledger now
      | Content raw \<Rightarrow>
          (case split_ws raw of
             a # l # _ \<Rightarrow> (case (parse_uint u32_max a, parse_uint u64_max l) of
                 (Some n, Some t) \<Rightarrow> \<lparr>attempts = word_of_nat n, last_unix = word_of_nat t\<rparr>
               | _ \<Rightarrow> spent_ledger now)
           | _ \<Rightarrow> spent_ledger now))"

definition persist_ledger :: "bool \<Rightarrow> heal_ledger \<Rightarrow> volume \<Rightarrow> volume" where
  "persist_ledger io l v =
     (if io then v\<lparr>ledger_file := line (show_nat (unat (attempts l)) @ '' '' @ show_nat (unat (last_unix l)))\<rparr>
      else v)"

section \<open>The gate\<close>

definition backoff_gap_seconds :: "u64 \<Rightarrow> u32 \<Rightarrow> u64" where
  "backoff_gap_seconds base n =
     (if n = 0 then 0 else sat_mul base (push_bit (unat (min (n - 1) 16)) 1))"

datatype heal_go = Go | CapReached | BackingOff

definition heal_gate :: "heal_ledger \<Rightarrow> u32 \<Rightarrow> u64 \<Rightarrow> u64 \<Rightarrow> heal_go" where
  "heal_gate l cap base now =
     (if attempts l \<ge> cap then CapReached
      else if now < sat_add (last_unix l) (backoff_gap_seconds base (attempts l)) then BackingOff
      else Go)"

text \<open>\<open>role_ok h\<close>: the peer's \<open>/role\<close> answers with a success status.\<close>

definition quorum_confirmed_peer :: "(string \<Rightarrow> bool) \<Rightarrow> string list \<Rightarrow> string option" where
  "quorum_confirmed_peer role_ok hosts = find role_ok hosts"

definition cap_of :: "config \<Rightarrow> u32" where "cap_of c = word_of_nat (self_heal_attempt_cap c)"
definition base_of :: "config \<Rightarrow> u64" where "base_of c = word_of_nat (self_heal_backoff_base_seconds c)"

section \<open>Before mysqld starts\<close>

definition emptied :: "volume \<Rightarrow> volume" where
  "emptied v = \<lparr>group_name_file = Missing, pre_gtid_file = False, waiver_file = Missing,
     high_water_file = Missing, member_file = False, boot_file = Missing, ledger_file = Missing,
     pin_file = Missing, auto_cnf_file = False, mysql_dir = False, other_entries = False\<rparr>"

text \<open>
  \<open>wipe_datadir\<close>: removes every entry, or fails part-way and leaves \<open>left\<close>.
\<close>

definition wipe_datadir :: "bool \<Rightarrow> volume \<Rightarrow> volume \<Rightarrow> volume" where
  "wipe_datadir io left v = (if io then emptied v else left)"

definition init_could_succeed :: "bool \<Rightarrow> volume \<Rightarrow> bool" where
  "init_could_succeed listed v =
     (if \<not> listed then True
      else group_name_file v = Missing \<and> \<not> pre_gtid_file v \<and> waiver_file v = Missing \<and>
        high_water_file v = Missing \<and> \<not> member_file v \<and> boot_file v = Missing \<and>
        ledger_file v = Missing \<and> pin_file v = Missing \<and> \<not> auto_cnf_file v \<and> \<not> mysql_dir v \<and>
        \<not> other_entries v)"

record preboot_input =
  p_listed :: bool
  p_now :: u64
  p_role_ok :: "string \<Rightarrow> bool"
  p_wipe_ok :: bool
  p_wipe_left :: volume
  p_count_io :: bool

datatype heal_report =
    WipeWithoutPassword u32
  | BootCapReached u32
  | BootBackingOff
  | NoQuorumPeer
  | Discarding string u32
  | DiscardFailed

definition wedged :: "config \<Rightarrow> volume \<Rightarrow> bool" where
  "wedged c v \<longleftrightarrow> unat (read_boot_attempts v) \<ge> boot_loop_threshold c"

text \<open>
  \<open>preboot\<close>: the volume it leaves, the pending ledger of a discard, the reports.
\<close>

definition preboot :: "config \<Rightarrow> preboot_input \<Rightarrow> volume \<Rightarrow> volume \<times> heal_ledger option \<times> heal_report list" where
  "preboot c i v =
     (if init_could_succeed (p_listed i) v then (v, None, [])
      else
        let failed = read_boot_attempts v;
            ledger = read_ledger (p_now i) v;
            count = persist_boot_attempts (p_count_io i) (sat_add failed 1) in
        if \<not> wedged c v then (count v, None, [])
        else if mysql_root_password c = [] then (count v, None, [WipeWithoutPassword failed])
        else (case heal_gate ledger (cap_of c) (base_of c) (p_now i) of
            CapReached \<Rightarrow> (count v, None, [BootCapReached (attempts ledger)])
          | BackingOff \<Rightarrow> (count v, None, [BootBackingOff])
          | Go \<Rightarrow> (case quorum_confirmed_peer (p_role_ok i) (peer_hosts c) of
              None \<Rightarrow> (count v, None, [NoQuorumPeer])
            | Some primary \<Rightarrow>
                if p_wipe_ok i then (wipe_datadir True (p_wipe_left i) v, Some (bump ledger (p_now i)),
                   [Discarding primary (attempts ledger + 1)])
                else (count (wipe_datadir False (p_wipe_left i) v), None,
                   [Discarding primary (attempts ledger + 1), DiscardFailed]))))"

section \<open>Watching the boot\<close>

datatype init_probe = InitServer | Serving | Refused | Silent

definition boot_answered :: "init_probe \<Rightarrow> bool" where
  "boot_answered r = (case r of Serving \<Rightarrow> True | InitServer \<Rightarrow> False | Refused \<Rightarrow> True | Silent \<Rightarrow> False)"

record boot_input =
  b_initialized :: bool
  b_ledger_io :: bool
  b_probe :: init_probe
  b_reset_io :: bool
  b_elapsed :: nat
  b_role_ok :: "string \<Rightarrow> bool"

datatype boot_outcome = KeepWatching | Ready | ExitForRestart

definition boot_watch_pass ::
  "config \<Rightarrow> boot_input \<Rightarrow> volume \<times> heal_ledger option \<Rightarrow> (volume \<times> heal_ledger option) \<times> boot_outcome" where
  "boot_watch_pass c i s =
     (let (v, pending) =
        (case snd s of
           Some l \<Rightarrow> if b_initialized i \<and> b_ledger_io i then (persist_ledger True l (fst s), None) else s
         | None \<Rightarrow> s) in
      if boot_answered (b_probe i) then
        (let v1 = persist_boot_attempts (b_reset_io i) 0 v;
             v2 = (case pending of Some l \<Rightarrow> persist_ledger (b_ledger_io i) l v1 | None \<Rightarrow> v1) in
         ((v2, pending), Ready))
      else if b_elapsed i \<ge> boot_ready_budget_seconds c \<and>
          quorum_confirmed_peer (b_role_ok i) (peer_hosts c) \<noteq> None then ((v, pending), ExitForRestart)
      else ((v, pending), KeepWatching))"

definition note_planned_shutdown :: "bool \<Rightarrow> bool \<Rightarrow> volume \<Rightarrow> volume" where
  "note_planned_shutdown io ready v =
     (if ready then v
      else let n = read_boot_attempts v in if n > 0 then persist_boot_attempts io (n - 1) v else v)"

section \<open>The watchdog over a stuck member\<close>

record stuck =
  stuck_since :: "nat option"
  last_sig :: string
  online_since :: "nat option"
  mid_heal :: "heal_ledger option"
  healing :: bool
  refusal_reported :: bool

datatype clone_result = Cloned | CredentialRefused | CloneFailed

text \<open>
  One pass's inputs. \<open>k_state\<close>: \<open>None\<close> when the database did not answer, otherwise
  this member's state, if it is listed at all.
\<close>

record stuck_input =
  k_state :: "string option option"
  k_now :: nat
  k_unix :: u64
  k_sig :: "string option"
  k_role_ok :: "string \<Rightarrow> bool"
  k_answers :: answers
  k_reset_io :: bool
  k_count_io :: bool
  k_stop_ok :: bool
  k_clone :: clone_result
  k_recount_io :: bool

datatype stuck_action = Stop_plugin | Clone_from string | Report_refused | Report_cap u32 | Report_stuck string u32

definition stuck_start :: stuck where
  "stuck_start = \<lparr>stuck_since = None, last_sig = [], online_since = None, mid_heal = None,
     healing = False, refusal_reported = False\<rparr>"

definition healthy_ledger_reset :: nat where "healthy_ledger_reset = 3600"

definition or_now :: "nat option \<Rightarrow> nat \<Rightarrow> nat option" where
  "or_now t now = (case t of Some s \<Rightarrow> Some s | None \<Rightarrow> Some now)"

text \<open>
  The state dispatch of a pass; \<open>None\<close> is the \<open>continue\<close> of the source.
\<close>

definition progress_sig :: "stuck_input \<Rightarrow> string" where
  "progress_sig i = (case k_sig i of Some s \<Rightarrow> s | None \<Rightarrow> ''unreadable'')"

definition online_pass :: "stuck_input \<Rightarrow> volume \<times> stuck \<Rightarrow> volume \<times> stuck" where
  "online_pass i vk =
     (let k = (snd vk)\<lparr>stuck_since := None, last_sig := [], mid_heal := None, healing := False,
                online_since := or_now (online_since (snd vk)) (k_now i)\<rparr>;
          v = fst vk in
      (if k_now i - the (online_since k) \<ge> healthy_ledger_reset \<and> read_ledger (k_unix i) v \<noteq> default_ledger
       then persist_ledger (k_reset_io i) default_ledger v else v, k))"

definition stuck_dispatch :: "stuck_input \<Rightarrow> stuck \<Rightarrow> stuck \<times> bool" where
  "stuck_dispatch i k =
     (case k_state i of
        None \<Rightarrow> (k\<lparr>stuck_since := None, online_since := None\<rparr>, False)
      | Some st \<Rightarrow>
          if st = Some ''ERROR'' then
            (k\<lparr>online_since := None, mid_heal := None, stuck_since := or_now (stuck_since k) (k_now i)\<rparr>, True)
          else if st = Some ''RECOVERING'' then
            (if progress_sig i \<noteq> last_sig k
             then (k\<lparr>online_since := None, mid_heal := None, last_sig := progress_sig i, stuck_since := Some (k_now i)\<rparr>, True)
             else (k\<lparr>online_since := None, mid_heal := None, stuck_since := or_now (stuck_since k) (k_now i)\<rparr>, True))
          else if mid_heal k = None then
            (k\<lparr>online_since := None, stuck_since := None, healing := False\<rparr>, False)
          else (k\<lparr>online_since := None\<rparr>, True))"

text \<open>The dwell and the budget, skipped while a heal of ours is under way.\<close>

definition stuck_gate :: "config \<Rightarrow> stuck_input \<Rightarrow> volume \<Rightarrow> stuck \<Rightarrow> bool \<times> stuck_action list" where
  "stuck_gate c i v k =
     (if mid_heal k \<noteq> None then (True, [])
      else (case stuck_since k of
        None \<Rightarrow> (False, [])
      | Some since \<Rightarrow>
          if k_now i - since < stuck_member_dwell_seconds c then (False, [])
          else let l = read_ledger (k_unix i) v in
            (case heal_gate l (cap_of c) (base_of c) (k_unix i) of
               CapReached \<Rightarrow> (False, [Report_cap (attempts l)])
             | BackingOff \<Rightarrow> (False, [])
             | Go \<Rightarrow> (True, []))))"

definition clone_step :: "stuck_input \<Rightarrow> string \<Rightarrow> heal_ledger \<Rightarrow> volume \<times> stuck \<Rightarrow> (volume \<times> stuck) \<times> stuck_action list" where
  "clone_step i donor counted vk =
     (let v' = persist_ledger (k_recount_io i) counted (fst vk); k = snd vk in
      case k_clone i of
        Cloned \<Rightarrow> ((v', k\<lparr>refusal_reported := False\<rparr>), [Clone_from donor])
      | CredentialRefused \<Rightarrow> ((v', k\<lparr>refusal_reported := True\<rparr>),
          Clone_from donor # (if refusal_reported k then [] else [Report_refused]))
      | CloneFailed \<Rightarrow> ((v', k\<lparr>refusal_reported := False\<rparr>), [Clone_from donor]))"

definition heal_step :: "config \<Rightarrow> stuck_input \<Rightarrow> volume \<times> stuck \<Rightarrow> (volume \<times> stuck) \<times> stuck_action list" where
  "heal_step c i vk =
     (let v = fst vk; k = snd vk in
      case quorum_confirmed_peer (k_role_ok i) (peer_hosts c) of
        None \<Rightarrow> ((v, k\<lparr>healing := False\<rparr>), [])
      | Some primary \<Rightarrow>
          let k = k\<lparr>healing := True\<rparr> in
          (case pick_donor (k_answers i) of
             None \<Rightarrow> ((v, k), [])
           | Some donor \<Rightarrow>
               (case mid_heal k of
                  Some counted \<Rightarrow> clone_step i donor counted (v, k)
                | None \<Rightarrow>
                    let bumped = bump (read_ledger (k_unix i) v) (k_unix i);
                        v' = persist_ledger (k_count_io i) bumped v;
                        report = Report_stuck donor (attempts bumped) in
                    if \<not> k_stop_ok i then ((v', k), [report, Stop_plugin])
                    else let (vk', acts) = clone_step i donor bumped (v', k\<lparr>mid_heal := Some bumped\<rparr>) in
                      (vk', [report, Stop_plugin] @ acts))))"

definition stuck_pass :: "config \<Rightarrow> volume \<times> stuck \<Rightarrow> stuck_input \<Rightarrow> (volume \<times> stuck) \<times> stuck_action list" where
  "stuck_pass c vk i =
     (if k_state i = Some (Some ''ONLINE'') then (online_pass i vk, [])
      else let (k, goes_on) = stuck_dispatch i (snd vk) in
        if \<not> goes_on then ((fst vk, k), [])
        else let (go, acts) = stuck_gate c i (fst vk) k in
          if \<not> go then ((fst vk, k), acts)
          else let (vk', acts') = heal_step c i (fst vk, k) in (vk', acts @ acts'))"

section \<open>The markers read back\<close>

lemma unat_le_u32_max [simp]: "unat (g :: u32) \<le> u32_max"
proof -
  have "unat g < 2 ^ LENGTH(32)" by (rule unsigned_less)
  then show ?thesis by (simp add: u32_max_def)
qed

interpretation boot_marker: volume_marker read_boot_attempts "persist_boot_attempts True" "\<lambda>n. n" "\<lambda>_. True"
  by unfold_locales (simp add: read_boot_attempts_def persist_boot_attempts_def)

lemma split_ws_go_word: "list_all (\<lambda>c. \<not> is_ws c) w \<Longrightarrow> split_ws_go acc (w @ s) = split_ws_go (rev w @ acc) s"
  by (induction w arbitrary: acc) auto

lemma split_ws_two:
  assumes "list_all (\<lambda>c. \<not> is_ws c) a" and "a \<noteq> []" and "list_all (\<lambda>c. \<not> is_ws c) b" and "b \<noteq> []"
  shows "split_ws (a @ '' '' @ b @ [newline]) = [a, b]"
proof -
  have "is_ws (CHR '' '')" by (simp add: is_ws_def char_code_def)
  then show ?thesis
    using assms by (simp add: split_ws_def split_ws_go_word)
qed

lemma read_persist_ledger: "read_ledger now (persist_ledger True l v) = l"
  using split_ws_two [OF show_nat_no_ws show_nat_not_Nil show_nat_no_ws show_nat_not_Nil]
  by (simp add: read_ledger_def persist_ledger_def line_def)

interpretation ledger_marker: volume_marker "read_ledger now" "persist_ledger True" "\<lambda>l. l" "\<lambda>_. True" for now
  by unfold_locales (rule read_persist_ledger)

lemma ledger_frame [marker_simps]:
  "ledger_file (persist_boot_attempts io n v) = ledger_file v"
  "boot_file (persist_ledger io l v) = boot_file v"
  "read_ledger now (persist_boot_attempts io n v) = read_ledger now v"
  by (simp_all add: persist_boot_attempts_def persist_ledger_def read_ledger_def)

text \<open>
  The attempt ledger and the boot counter survive the volume: after a successful write
  the reader returns exactly the value written, for every \<open>u32\<close> count and every
  \<open>u64\<close> instant. A ledger that is present reads as an unused budget only if it says so:
  either its first two words parse as the numbers it returns, or it closes the gate.
\<close>

theorem ledger_reads_back:
  "read_ledger now (persist_ledger True l v) = l \<and>
   read_boot_attempts (persist_boot_attempts True n v) = n \<and>
   heal_gate (read_ledger now (v\<lparr>ledger_file := Unreadable\<rparr>)) cap base now' = CapReached \<and>
   (heal_gate (read_ledger now (v\<lparr>ledger_file := Content raw\<rparr>)) cap base now' = CapReached \<or>
    (\<exists>a t rest m k. split_ws raw = a # t # rest \<and> parse_uint u32_max a = Some m \<and> parse_uint u64_max t = Some k \<and>
       read_ledger now (v\<lparr>ledger_file := Content raw\<rparr>) = \<lparr>attempts = word_of_nat m, last_unix = word_of_nat k\<rparr>))"
proof -
  have spent: "heal_gate (spent_ledger n) cap base now' = CapReached" for n
    by (simp add: heal_gate_def spent_ledger_def)
  have "read_ledger now (v\<lparr>ledger_file := Content raw\<rparr>) = spent_ledger now \<or>
    (\<exists>a t rest m k. split_ws raw = a # t # rest \<and> parse_uint u32_max a = Some m \<and> parse_uint u64_max t = Some k \<and>
       read_ledger now (v\<lparr>ledger_file := Content raw\<rparr>) = \<lparr>attempts = word_of_nat m, last_unix = word_of_nat k\<rparr>)"
    by (auto simp: read_ledger_def split: list.splits option.splits)
  moreover have "read_ledger now (v\<lparr>ledger_file := Unreadable\<rparr>) = spent_ledger now"
    by (simp add: read_ledger_def)
  ultimately show ?thesis
    using spent by (auto simp: ledger_marker.get_put boot_marker.get_put)
qed

section \<open>Pacing\<close>

lemma unat_of_nat_take: "unat (word_of_nat n :: u64) = take_bit 64 n"
  by (simp add: unsigned_of_nat)

text \<open>
  The gap after the \<open>n\<close>-th attempt is \<open>base\<close> doubled \<open>n - 1\<close> times, at most sixteen
  times, and cut off at the largest \<open>u64\<close> instead of wrapping: no ledger content, however
  corrupt, turns it into a shorter wait than the uncut value or the maximum.
\<close>

theorem backoff_gap_exact:
  "unat (backoff_gap_seconds base n) =
     (if n = 0 then 0 else min (unat base * 2 ^ min (unat n - 1) 16) u64_max)"
proof (cases "n = 0")
  case True
  then show ?thesis by (simp add: backoff_gap_seconds_def)
next
  case False
  then have n1: "unat (n - 1) = unat n - 1"
    by (simp add: unat_minus_one)
  let ?e = "unat (min (n - 1) 16)"
  have e: "?e = min (unat n - 1) 16"
    using n1 by (auto simp: min_def word_le_nat_alt)
  have "(push_bit ?e 1 :: u64) = 2 ^ ?e" by (simp add: push_bit_eq_mult)
  moreover have "unat (2 ^ ?e :: u64) = 2 ^ ?e"
  proof -
    have "?e < 64" unfolding e by simp
    then have "take_bit 64 ((2::nat) ^ ?e) = 2 ^ ?e" by (simp add: take_bit_nat_eq_self)
    then show ?thesis by (metis of_nat_numeral of_nat_power unat_of_nat_take)
  qed
  ultimately show ?thesis
    using False e by (simp add: backoff_gap_seconds_def unat_sat_mul u64_max_def)
qed

section \<open>When a datadir is discarded\<close>

definition discarding :: "heal_report list \<Rightarrow> bool" where
  "discarding rs \<longleftrightarrow> list_ex (\<lambda>r. case r of Discarding _ _ \<Rightarrow> True | _ \<Rightarrow> False) rs"

lemma quorum_peer_None: "quorum_confirmed_peer ok hs = None \<longleftrightarrow> (\<forall>h \<in> set hs. \<not> ok h)"
  by (auto simp: quorum_confirmed_peer_def find_None_iff)

lemma quorum_peer_Some: "quorum_confirmed_peer ok hs \<noteq> None \<Longrightarrow> \<exists>h \<in> set hs. ok h"
  unfolding quorum_peer_None by blast

lemma preboot_discards:
  "discarding (snd (snd (preboot c i v))) \<longleftrightarrow> \<not> init_could_succeed (p_listed i) v \<and> wedged c v \<and>
     mysql_root_password c \<noteq> [] \<and> heal_gate (read_ledger (p_now i) v) (cap_of c) (base_of c) (p_now i) = Go \<and>
     (\<exists>h \<in> set (peer_hosts c). p_role_ok i h)"
  using quorum_peer_None [of "p_role_ok i" "peer_hosts c"]
  by (auto simp: preboot_def discarding_def Let_def split: heal_go.splits option.splits)

text \<open>
  The wrapper starts to discard the datadir at boot exactly when the volume holds
  something, the failed boots have reached the threshold, a root password to initialise with
  is configured, the attempt budget and the backoff allow it, and some declared peer answers
  \<open>/role\<close> with 200 in this very boot. In every other case the volume is left as it is, up to
  the boot counter.
\<close>

theorem datadir_discarded_iff:
  "(discarding (snd (snd (preboot c i v))) \<longleftrightarrow> \<not> init_could_succeed (p_listed i) v \<and> wedged c v \<and>
     mysql_root_password c \<noteq> [] \<and> heal_gate (read_ledger (p_now i) v) (cap_of c) (base_of c) (p_now i) = Go \<and>
     (\<exists>h \<in> set (peer_hosts c). p_role_ok i h)) \<and>
   (discarding (snd (snd (preboot c i v))) \<or>
     fst (preboot c i v) = v \<or>
     fst (preboot c i v) = persist_boot_attempts (p_count_io i) (sat_add (read_boot_attempts v) 1) v)"
  using preboot_discards [of c i v]
  by (auto simp: preboot_def discarding_def Let_def split: heal_go.splits option.splits if_splits)

text \<open>
  A boot cycle: \<open>preboot\<close>, then the passes of \<open>boot_watch\<close>. The attempt lands when some
  pass finds the system schema created and writes the ledger.
\<close>

definition lands :: "boot_input list \<Rightarrow> bool" where
  "lands bs \<longleftrightarrow> list_ex (\<lambda>b. b_initialized b \<and> b_ledger_io b) bs"

definition boot_watch_run :: "config \<Rightarrow> volume \<times> heal_ledger option \<Rightarrow> boot_input list \<Rightarrow> volume \<times> heal_ledger option" where
  "boot_watch_run c s bs = foldl (\<lambda>s b. fst (boot_watch_pass c b s)) s bs"

definition boot_cycle :: "config \<Rightarrow> volume \<Rightarrow> preboot_input \<times> boot_input list \<Rightarrow> volume" where
  "boot_cycle c v e =
     (let (v1, pending, rs) = preboot c (fst e) v in fst (boot_watch_run c (v1, pending) (snd e)))"

definition spent :: "volume \<Rightarrow> nat" where
  "spent v = unat (attempts (read_ledger 0 v))"

lemma boot_watch_pass_ledger:
  assumes "boot_watch_pass c b (v, p) = ((v', p'), out)"
  shows "p = None \<Longrightarrow> p' = None \<and> ledger_file v' = ledger_file v"
    and "p = Some l \<Longrightarrow> b_initialized b \<and> b_ledger_io b \<Longrightarrow> p' = None \<and> ledger_file v' = ledger_file (persist_ledger True l v)"
    and "p = Some l \<Longrightarrow> p' \<in> {None, Some l} \<and> (p' = None \<longrightarrow> ledger_file v' = ledger_file (persist_ledger True l v))"
  using assms
  by (auto simp: boot_watch_pass_def Let_def marker_simps persist_ledger_def split: if_splits option.splits)

lemma read_ledger_cong: "ledger_file v = ledger_file w \<Longrightarrow> read_ledger now v = read_ledger now w"
  by (simp add: read_ledger_def)

lemma boot_watch_run_ledger:
  assumes "boot_watch_run c (v, p) bs = (v', p')"
  shows "p = None \<Longrightarrow> ledger_file v' = ledger_file v"
    and "p = Some l \<Longrightarrow> lands bs \<Longrightarrow> read_ledger now v' = l"
proof -
  have none: "boot_watch_run c (u, None) cs = (u', p') \<Longrightarrow> ledger_file u' = ledger_file u" for u u' cs p'
  proof (induction cs arbitrary: u)
    case (Cons b cs)
    obtain u1 p1 out where one: "boot_watch_pass c b (u, None) = ((u1, p1), out)" by (metis prod.collapse)
    from boot_watch_pass_ledger(1) [OF one] Cons show ?case
      by (simp add: boot_watch_run_def one)
  qed (simp add: boot_watch_run_def)
  show "p = None \<Longrightarrow> ledger_file v' = ledger_file v" using assms none by blast
  have "boot_watch_run c (v, Some l) bs = (v', p') \<Longrightarrow> lands bs \<Longrightarrow> ledger_file v' = ledger_file (persist_ledger True l v')"
  proof (induction bs arbitrary: v)
    case (Cons b bs)
    obtain v1 p1 out where one: "boot_watch_pass c b (v, Some l) = ((v1, p1), out)" by (metis prod.collapse)
    then have run: "boot_watch_run c (v1, p1) bs = (v', p')"
      using Cons.prems(1) by (simp add: boot_watch_run_def)
    have written: "ledger_file (persist_ledger True l x) = ledger_file (persist_ledger True l y)" for x y
      by (simp add: persist_ledger_def)
    consider "p1 = None" "ledger_file v1 = ledger_file (persist_ledger True l v)"
      | "p1 = Some l" "\<not> (b_initialized b \<and> b_ledger_io b)"
      using boot_watch_pass_ledger(2,3) [OF one] by blast
    then show ?case
    proof cases
      case 1
      then show ?thesis using none [of v1 bs v' p'] run written by metis
    next
      case 2
      then show ?thesis using Cons run by (auto simp: lands_def)
    qed
  qed (simp add: lands_def)
  then show "read_ledger now v' = l" if "p = Some l" "lands bs"
    using assms that read_ledger_cong [of v' "persist_ledger True l v'" now] read_persist_ledger by metis
qed

text \<open>
  A cycle counts honestly when its discard, if it makes one, empties the volume and lands in
  the same boot.
\<close>

definition honest_cycle :: "config \<Rightarrow> volume \<Rightarrow> preboot_input \<times> boot_input list \<Rightarrow> bool" where
  "honest_cycle c v e \<longleftrightarrow> discarding (snd (snd (preboot c (fst e) v))) \<longrightarrow> p_wipe_ok (fst e) \<and> lands (snd e)"

lemma gate_Go_below: "heal_gate l cap base now = Go \<Longrightarrow> unat (attempts l) < unat cap"
  by (auto simp: heal_gate_def word_less_nat_alt word_le_nat_alt split: if_splits)

lemma spent_now: "ledger_file v \<noteq> Missing \<or> True \<Longrightarrow> attempts (read_ledger n v) = attempts (read_ledger m v)"
  by (simp add: read_ledger_def spent_ledger_def split: file_read.splits list.splits option.splits)

lemma preboot_pending:
  "preboot c i v = (v1, pending, rs) \<Longrightarrow> \<not> discarding rs \<Longrightarrow> pending = None \<and> ledger_file v1 = ledger_file v"
  by (auto simp: preboot_def discarding_def Let_def ledger_frame split: heal_go.splits option.splits if_splits)

lemma preboot_discard_pending:
  "preboot c i v = (v1, pending, rs) \<Longrightarrow> discarding rs \<Longrightarrow> p_wipe_ok i \<Longrightarrow>
   pending = Some (bump (read_ledger (p_now i) v) (p_now i))"
  by (auto simp: preboot_def discarding_def Let_def split: heal_go.splits option.splits if_splits)

lemma boot_cycle_spent:
  assumes "honest_cycle c v e"
  shows "discarding (snd (snd (preboot c (fst e) v))) \<Longrightarrow> spent v < unat (cap_of c) \<and> spent (boot_cycle c v e) = Suc (spent v)"
    and "\<not> discarding (snd (snd (preboot c (fst e) v))) \<Longrightarrow> spent (boot_cycle c v e) = spent v"
proof -
  obtain v1 pending rs where pre: "preboot c (fst e) v = (v1, pending, rs)" by (metis prod_cases3)
  obtain v' p' where run: "boot_watch_run c (v1, pending) (snd e) = (v', p')" by fastforce
  have cyc: "boot_cycle c v e = v'" by (simp add: boot_cycle_def pre run)
  show "spent (boot_cycle c v e) = spent v" if "\<not> discarding (snd (snd (preboot c (fst e) v)))"
    using preboot_pending [OF pre] that pre boot_watch_run_ledger(1) [OF run] cyc read_ledger_cong
    by (metis snd_conv spent_def)
  show "spent v < unat (cap_of c) \<and> spent (boot_cycle c v e) = Suc (spent v)"
    if d: "discarding (snd (snd (preboot c (fst e) v)))"
  proof -
    let ?l = "read_ledger (p_now (fst e)) v"
    have "unat (attempts ?l) < unat (cap_of c)"
      using d by (auto simp: preboot_discards dest: gate_Go_below)
    moreover have "attempts ?l = attempts (read_ledger 0 v)" by (rule spent_now) simp
    ultimately have below: "spent v < unat (cap_of c)" and same: "unat (attempts ?l) = spent v"
      by (simp_all add: spent_def)
    have hon: "p_wipe_ok (fst e)" "lands (snd e)"
      using assms d by (auto simp: honest_cycle_def)
    have "pending = Some (bump ?l (p_now (fst e)))"
      by (rule preboot_discard_pending [OF pre _ hon(1)]) (use d pre in simp)
    from boot_watch_run_ledger(2) [OF run this hon(2)]
    have "read_ledger 0 v' = bump ?l (p_now (fst e))" .
    then have "spent v' = min (unat (attempts ?l) + 1) (2 ^ 32 - 1)"
      by (simp add: spent_def bump_def unat_sat_add)
    moreover have "unat (cap_of c) \<le> u32_max" by simp
    ultimately show ?thesis
      using below same cyc by (simp add: u32_max_def)
  qed
qed

interpretation discard_budget: attempt_budget "boot_cycle c"
  "\<lambda>v e. discarding (snd (snd (preboot c (fst e) v)))" spent "unat (cap_of c)" "honest_cycle c" for c
proof
  fix v e
  assume h: "honest_cycle c v e"
  show "discarding (snd (snd (preboot c (fst e) v))) \<Longrightarrow> spent v < unat (cap_of c)"
    "discarding (snd (snd (preboot c (fst e) v))) \<Longrightarrow> spent v < spent (boot_cycle c v e)"
    "spent v \<le> spent (boot_cycle c v e)"
    using boot_cycle_spent [OF h] by (cases "discarding (snd (snd (preboot c (fst e) v)))"; simp)+
qed


text \<open>
  A discard that fails part-way escapes the cap. When removing the entries keeps failing
  after the ledger is gone (a sick volume, with the rest of the datadir left in place), the
  attempt is not counted and the count so far is lost: with the backoff at its default and
  one healthy peer, every one of any number of boots in a row starts another discard.
\<close>

theorem failed_discards_unbounded:
  assumes "mysql_root_password c \<noteq> []" and "h \<in> set (peer_hosts c)" and "0 < self_heal_attempt_cap c"
    and "self_heal_attempt_cap c \<le> u32_max" and "boot_loop_threshold c \<le> u32_max"
    and "wedged c v" and "mysql_dir v" and "ledger_file v = Missing"
    and "i = \<lparr>p_listed = True, p_now = now, p_role_ok = (\<lambda>x. x = h), p_wipe_ok = False, p_wipe_left = v, p_count_io = True\<rparr>"
  shows "\<forall>k. discarding (snd (snd (preboot c i (((\<lambda>u. fst (preboot c (i\<lparr>p_wipe_left := u\<rparr>) u)) ^^ k) v))))"
proof
  fix k
  let ?step = "\<lambda>u. fst (preboot c (i\<lparr>p_wipe_left := u\<rparr>) u)"
  let ?inv = "\<lambda>u. wedged c u \<and> mysql_dir u \<and> ledger_file u = Missing"
  have cap: "cap_of c \<noteq> 0"
  proof -
    have "unat (cap_of c) = self_heal_attempt_cap c"
      using assms(4) by (simp add: cap_of_def u32_max_def unsigned_of_nat take_bit_nat_eq_self)
    then show ?thesis using assms(3) by auto
  qed
  have go: "heal_gate default_ledger (cap_of c) b n = Go" for b n
    using cap by (simp add: heal_gate_def default_ledger_def backoff_gap_seconds_def sat_add_def word_le_nat_alt unat_eq_0)
  have disc: "discarding (snd (snd (preboot c (i\<lparr>p_wipe_left := w\<rparr>) u)))" if "?inv u" for u w
    unfolding preboot_discards using that go assms(1,2) by (auto simp: assms(9) init_could_succeed_def read_ledger_def)
  have step: "?inv (?step u)" if u: "?inv u" for u
  proof -
    have failed: "?step u = persist_boot_attempts True (sat_add (read_boot_attempts u) 1) u"
      using disc [OF u, of u] u
      by (auto simp: preboot_def discarding_def Let_def wipe_datadir_def assms(9)
          split: heal_go.splits option.splits if_splits)
    have "unat (sat_add (read_boot_attempts u) 1) \<ge> boot_loop_threshold c"
      using u assms(5) by (auto simp: unat_sat_add wedged_def u32_max_def min_def)
    then show ?thesis
      using u unfolding failed by (simp add: wedged_def boot_marker.get_put ledger_frame persist_boot_attempts_def)
         (simp add: read_boot_attempts_def)
  qed
  have "?inv ((?step ^^ k) v)" by (induction k) (use assms(6-8) step in auto)
  from disc [OF this, of v] show "discarding (snd (snd (preboot c i ((?step ^^ k) v))))"
    by (simp add: assms(9))
qed

section \<open>Boot accounting\<close>

text \<open>
  A boot that was interrupted by a planned stop costs nothing: preboot counts the boot
  as failed, and noting the shutdown before the server was ready takes exactly that count
  back; a boot whose server answered leaves the counter at zero.
\<close>

theorem planned_shutdown_uncounts:
  assumes "preboot c i v = (v', None, rs)" and "\<not> discarding rs" and "p_count_io i"
    and "\<not> init_could_succeed (p_listed i) v" and "read_boot_attempts v \<noteq> - 1"
  shows "read_boot_attempts v' = read_boot_attempts v + 1 \<and>
    read_boot_attempts (note_planned_shutdown True False v') = read_boot_attempts v \<and>
    (boot_answered (b_probe b) \<and> b_reset_io b \<longrightarrow>
       read_boot_attempts (fst (fst (boot_watch_pass c b (v', None)))) = 0)"
proof -
  let ?n = "read_boot_attempts v"
  have "unat ?n \<noteq> unat (- 1 :: u32)"
    using assms(5) by (metis word_eq_iff_unsigned)
  then have "unat ?n \<noteq> 2 ^ 32 - 1"
    using unat_max [where 'a = 32] by simp
  moreover have "unat ?n < 2 ^ 32" using unsigned_less [of ?n] by simp
  ultimately have inc: "sat_add ?n 1 = ?n + 1" "unat ?n + 1 < 2 ^ 32"
    by (simp_all add: sat_add_def)
  have v': "v' = persist_boot_attempts True (sat_add ?n 1) v"
    using assms(1-4) by (auto simp: preboot_def discarding_def Let_def split: heal_go.splits option.splits if_splits)
  then have r: "read_boot_attempts v' = ?n + 1" by (simp add: boot_marker.get_put inc(1))
  moreover have "?n + 1 \<noteq> 0"
  proof -
    have "unat (?n + 1) = unat ?n + 1"
      using inc(2) unat_add_lem [of ?n 1] by simp
    then show ?thesis by (metis add_is_0 unat_0 zero_neq_one)
  qed
  ultimately show ?thesis
    by (simp add: note_planned_shutdown_def Let_def boot_marker.get_put word_neq_0_conv boot_watch_pass_def)
qed

section \<open>When a stuck member is recloned\<close>

definition stuck_step :: "config \<Rightarrow> volume \<times> stuck \<Rightarrow> stuck_input \<Rightarrow> volume \<times> stuck" where
  "stuck_step c vk i = fst (stuck_pass c vk i)"

text \<open>
  The pass shows the member wedged: in ERROR, RECOVERING without progress since the last
  observation, or put OFFLINE by a heal of ours.
\<close>

definition still_stuck :: "volume \<times> stuck \<Rightarrow> stuck_input \<Rightarrow> bool" where
  "still_stuck vk i \<longleftrightarrow> (\<exists>st. k_state i = Some st \<and> st \<noteq> Some ''ONLINE'' \<and>
     (st = Some ''RECOVERING'' \<longrightarrow> progress_sig i = last_sig (snd vk)) \<and>
     (st \<noteq> Some ''ERROR'' \<and> st \<noteq> Some ''RECOVERING'' \<longrightarrow> mid_heal (snd vk) \<noteq> None))"

definition shows_trouble :: "volume \<times> stuck \<Rightarrow> stuck_input \<Rightarrow> bool" where
  "shows_trouble vk i \<longleftrightarrow> k_state i = Some (Some ''ERROR'') \<or> k_state i = Some (Some ''RECOVERING'')"

lemma clone_step_effects:
  assumes "clone_step i d l vk = (vk', acts)"
  shows "stuck_since (snd vk') = stuck_since (snd vk)" and "healing (snd vk') = healing (snd vk)"
    and "Clone_from x \<in> set acts \<Longrightarrow> x = d" and "Stop_plugin \<notin> set acts"
  using assms by (auto simp: clone_step_def Let_def split: clone_result.splits if_splits)

lemma heal_step_cases:
  assumes "heal_step c i vk = (vk', acts)"
  obtains
    (alone) "acts = []" "vk' = (fst vk, (snd vk)\<lparr>healing := False\<rparr>)"
  | (no_donor) "acts = []" "vk' = (fst vk, (snd vk)\<lparr>healing := True\<rparr>)"
  | (resumed) d l where "quorum_confirmed_peer (k_role_ok i) (peer_hosts c) \<noteq> None" "pick_donor (k_answers i) = Some d"
      "mid_heal (snd vk) = Some l" "clone_step i d l (fst vk, (snd vk)\<lparr>healing := True\<rparr>) = (vk', acts)"
  | (unstopped) d v n where "quorum_confirmed_peer (k_role_ok i) (peer_hosts c) \<noteq> None" "mid_heal (snd vk) = None"
      "vk' = (v, (snd vk)\<lparr>healing := True\<rparr>)" "acts = [Report_stuck d n, Stop_plugin]"
  | (begun) d l v n acts2 where "quorum_confirmed_peer (k_role_ok i) (peer_hosts c) \<noteq> None"
      "pick_donor (k_answers i) = Some d" "mid_heal (snd vk) = None" "acts = [Report_stuck d n, Stop_plugin] @ acts2"
      "clone_step i d l (v, (snd vk)\<lparr>healing := True, mid_heal := Some l\<rparr>) = (vk', acts2)"
proof (cases "quorum_confirmed_peer (k_role_ok i) (peer_hosts c)")
  case None
  then show thesis using assms alone by (simp add: heal_step_def)
next
  case q: (Some p)
  show thesis
  proof (cases "pick_donor (k_answers i)")
    case None
    then show thesis using assms q no_donor by (simp add: heal_step_def)
  next
    case d: (Some d)
    show thesis
    proof (cases "mid_heal (snd vk)")
      case (Some l)
      then show thesis using assms q d resumed by (simp add: heal_step_def)
    next
      case None
      let ?l = "bump (read_ledger (k_unix i) (fst vk)) (k_unix i)"
      let ?v = "persist_ledger (k_count_io i) ?l (fst vk)"
      obtain vk2 acts2 where cl: "clone_step i d ?l (?v, (snd vk)\<lparr>healing := True, mid_heal := Some ?l\<rparr>) = (vk2, acts2)"
        by fastforce
      show thesis
        using assms q d None cl unstopped [of ?v d "attempts ?l"] begun [of d "attempts ?l" acts2 ?l ?v]
        by (cases "k_stop_ok i") (simp_all add: heal_step_def Let_def)
    qed
  qed
qed

lemma heal_step_effects:
  assumes "heal_step c i vk = (vk', acts)"
  shows "stuck_since (snd vk') = stuck_since (snd vk)"
    and "Clone_from d \<in> set acts \<Longrightarrow> (\<exists>h \<in> set (peer_hosts c). k_role_ok i h) \<and>
      pick_donor (k_answers i) = Some d \<and> healing (snd vk')"
    and "Stop_plugin \<in> set acts \<Longrightarrow> mid_heal (snd vk) = None \<and> (\<exists>h \<in> set (peer_hosts c). k_role_ok i h) \<and>
      healing (snd vk')"
proof -
  have "stuck_since (snd vk') = stuck_since (snd vk) \<and>
    (Clone_from d \<in> set acts \<longrightarrow> (\<exists>h \<in> set (peer_hosts c). k_role_ok i h) \<and>
      pick_donor (k_answers i) = Some d \<and> healing (snd vk')) \<and>
    (Stop_plugin \<in> set acts \<longrightarrow> mid_heal (snd vk) = None \<and> (\<exists>h \<in> set (peer_hosts c). k_role_ok i h) \<and>
      healing (snd vk'))"
    using assms
  proof (cases rule: heal_step_cases)
    case (resumed d' l)
    then show ?thesis
      using clone_step_effects(1,2,4) [OF resumed(4)] clone_step_effects(3) [OF resumed(4), of d]
        quorum_peer_Some [OF resumed(1)] by auto
  next
    case (unstopped d' v n)
    then show ?thesis using quorum_peer_Some [OF unstopped(1)] by simp
  next
    case (begun d' l v n acts2)
    then show ?thesis
      using clone_step_effects(1,2,4) [OF begun(5)] clone_step_effects(3) [OF begun(5), of d]
        quorum_peer_Some [OF begun(1)] by auto
  qed simp_all
  then show "stuck_since (snd vk') = stuck_since (snd vk)"
    and "Clone_from d \<in> set acts \<Longrightarrow> (\<exists>h \<in> set (peer_hosts c). k_role_ok i h) \<and>
      pick_donor (k_answers i) = Some d \<and> healing (snd vk')"
    and "Stop_plugin \<in> set acts \<Longrightarrow> mid_heal (snd vk) = None \<and> (\<exists>h \<in> set (peer_hosts c). k_role_ok i h) \<and>
      healing (snd vk')"
    by blast+
qed

lemma stuck_gate_effects:
  assumes "stuck_gate c i v k = (go, acts)"
  shows "Clone_from d \<notin> set acts" and "Stop_plugin \<notin> set acts"
    and "go \<Longrightarrow> mid_heal k \<noteq> None \<or> (\<exists>t. stuck_since k = Some t \<and> stuck_member_dwell_seconds c \<le> k_now i - t \<and>
      heal_gate (read_ledger (k_unix i) v) (cap_of c) (base_of c) (k_unix i) = Go)"
  using assms by (auto simp: stuck_gate_def Let_def split: option.splits if_splits heal_go.splits)

lemma stuck_pass_cases:
  assumes "stuck_pass c vk i = (vk', acts)"
  obtains
    (online) "k_state i = Some (Some ''ONLINE'')" "vk' = online_pass i vk" "acts = []"
  | (left) k where "stuck_dispatch i (snd vk) = (k, False)" "vk' = (fst vk, k)" "acts = []"
      "k_state i \<noteq> Some (Some ''ONLINE'')"
  | (gated) k where "stuck_dispatch i (snd vk) = (k, True)" "stuck_gate c i (fst vk) k = (False, acts)"
      "vk' = (fst vk, k)" "k_state i \<noteq> Some (Some ''ONLINE'')"
  | (healed) k acts1 acts2 where "stuck_dispatch i (snd vk) = (k, True)" "stuck_gate c i (fst vk) k = (True, acts1)"
      "heal_step c i (fst vk, k) = (vk', acts2)" "acts = acts1 @ acts2" "k_state i \<noteq> Some (Some ''ONLINE'')"
proof (cases "k_state i = Some (Some ''ONLINE'')")
  case True
  then show thesis using assms online by (simp add: stuck_pass_def)
next
  case False
  obtain k g where d: "stuck_dispatch i (snd vk) = (k, g)" by fastforce
  obtain go acts1 where ga: "stuck_gate c i (fst vk) k = (go, acts1)" by fastforce
  obtain vk2 acts2 where he: "heal_step c i (fst vk, k) = (vk2, acts2)" by fastforce
  show thesis
    using assms False d ga he left gated healed
    by (cases g; cases go) (simp_all add: stuck_pass_def)
qed

lemma stuck_dispatch_since:
  assumes "stuck_dispatch i k = (k', g)" and "stuck_since k' = Some t" and "k_state i \<noteq> Some (Some ''ONLINE'')"
  shows "still_stuck (v, k) i \<and> stuck_since k = Some t \<or> shows_trouble (v, k) i \<and> t = k_now i"
  using assms
  by (auto simp: stuck_dispatch_def still_stuck_def shows_trouble_def or_now_def split: option.splits if_splits)

interpretation stuck_clock: dwell_clock "stuck_step c" "\<lambda>vk. stuck_since (snd vk)" k_now
  shows_trouble still_stuck for c
proof
  fix vk i t
  assume a: "stuck_since (snd (stuck_step c vk i)) = Some t"
  obtain vk' acts where p: "stuck_pass c vk i = (vk', acts)" by fastforce
  then have t: "stuck_since (snd vk') = Some t" using a by (simp add: stuck_step_def)
  show "still_stuck vk i \<and> stuck_since (snd vk) = Some t \<or> shows_trouble vk i \<and> t = k_now i"
    using p
  proof (cases rule: stuck_pass_cases)
    case online
    then show ?thesis using t by (simp add: online_pass_def Let_def)
  next
    case (left k)
    then show ?thesis using t stuck_dispatch_since [of i "snd vk" k False t "fst vk"] by simp
  next
    case (gated k)
    then show ?thesis using t stuck_dispatch_since [of i "snd vk" k True t "fst vk"] by simp
  next
    case (healed k acts1 acts2)
    then show ?thesis
      using t stuck_dispatch_since [of i "snd vk" k True t "fst vk"] heal_step_effects(1) [OF healed(3)] by simp
  qed
qed

text \<open>
  A member is only taken out of the group to be recloned after a whole dwell of proof.
  When a pass stops the plugin, an earlier or this pass saw the member in ERROR or
  RECOVERING at least the dwell ago, every pass since then found it still stuck (in ERROR,
  RECOVERING without progress, or OFFLINE by our own heal), the attempt budget and backoff
  allowed it, and a declared peer answered \<open>/role\<close> with 200 in this pass; the join retries
  are paused when the pass ends.
\<close>

theorem plugin_stopped_after_dwell:
  assumes "vk = foldl (stuck_step c) (v, stuck_start) es" and "stuck_pass c vk i = (vk', acts)"
    and "Stop_plugin \<in> set acts"
  shows "\<exists>j < length (es @ [i]). stuck_member_dwell_seconds c \<le> k_now i - k_now ((es @ [i]) ! j) \<and>
     shows_trouble (foldl (stuck_step c) (v, stuck_start) (take j (es @ [i]))) ((es @ [i]) ! j) \<and>
     (\<forall>l. j < l \<and> l < length (es @ [i]) \<longrightarrow>
        still_stuck (foldl (stuck_step c) (v, stuck_start) (take l (es @ [i]))) ((es @ [i]) ! l)) \<and>
     heal_gate (read_ledger (k_unix i) (fst vk)) (cap_of c) (base_of c) (k_unix i) = Go \<and>
     (\<exists>h \<in> set (peer_hosts c). k_role_ok i h) \<and> healing (snd vk')"
  using assms(2)
proof (cases rule: stuck_pass_cases)
  case (healed k acts1 acts2)
  have stop: "Stop_plugin \<in> set acts2"
    using assms(3) healed(4) stuck_gate_effects(2) [OF healed(2)] by auto
  note h = heal_step_effects(3) [OF healed(3) stop]
  obtain t where t: "stuck_since k = Some t" "stuck_member_dwell_seconds c \<le> k_now i - t"
    "heal_gate (read_ledger (k_unix i) (fst vk)) (cap_of c) (base_of c) (k_unix i) = Go"
    using stuck_gate_effects(3) [OF healed(2)] h by auto
  have "stuck_since (snd (foldl (stuck_step c) (v, stuck_start) (es @ [i]))) = Some t"
    using t(1) heal_step_effects(1) [OF healed(3)] assms(1,2) by (simp add: stuck_step_def)
  moreover have "stuck_since (snd (v, stuck_start)) = None" by (simp add: stuck_start_def)
  ultimately show ?thesis
    using stuck_clock.origin [of "(v, stuck_start)" c "es @ [i]" t] t h by metis
qed (use assms(3) stuck_gate_effects(2) in auto)

text \<open>
  Every reclone is gated in the pass that issues it: some declared peer answered
  \<open>/role\<close> with 200, the donor is a member of a live group in this pass's answers (the primary
  when it answered), the member is not ONLINE, and the join retries are paused.
\<close>

theorem reclone_needs_live_group:
  assumes "stuck_pass c vk i = (vk', acts)" and "Clone_from d \<in> set acts"
  shows "(\<exists>h \<in> set (peer_hosts c). k_role_ok i h) \<and> healing (snd vk') \<and> k_state i \<noteq> Some (Some ''ONLINE'') \<and>
     k_state i \<noteq> None \<and> (\<exists>s. (d, State s) \<in> set (k_answers i) \<and> group_active s \<and>
       (live_primary_gtid (k_answers i) \<noteq> None \<longrightarrow> (\<exists>s'. (d, State s') \<in> set (k_answers i) \<and> group_active s' \<and>
          member_role s' = Some ''PRIMARY'')))"
  using assms(1)
proof (cases rule: stuck_pass_cases)
  case (healed k acts1 acts2)
  have "Clone_from d \<in> set acts2"
    using assms(2) healed(4) stuck_gate_effects(1) [OF healed(2)] by auto
  note h = heal_step_effects(2) [OF healed(3) this]
  have st: "k_state i \<noteq> None"
    using healed(1) by (cases "k_state i") (auto simp: stuck_dispatch_def)
  obtain s where s: "(d, State s) \<in> set (k_answers i)" "group_active s"
    using pick_donor_active h by blast
  have "\<exists>s'. (d, State s') \<in> set (k_answers i) \<and> group_active s' \<and> member_role s' = Some ''PRIMARY''"
    if live: "live_primary_gtid (k_answers i) \<noteq> None"
  proof -
    obtain x a s0 where "(x, a) \<in> set (k_answers i)" "active_state a = Some s0" "member_role s0 = Some ''PRIMARY''"
      using live unfolding live_primary_gtid_def
      by (force dest!: find_map_Some split: option.splits if_splits)
    then show ?thesis using pick_donor_primary h by (auto simp: active_state_Some)
  qed
  then show ?thesis using h healed(5) st s by blast
qed (use assms(2) stuck_gate_effects(1) in auto)

section \<open>Examples\<close>

definition healing_config :: config where
  "healing_config = (sample_config ''a'')\<lparr>mysql_root_password := ''pw''\<rparr>"

lemma healing_config_simps [simp]:
  "mysql_root_password healing_config = ''pw''" "peer_hosts healing_config = [''b'', ''c'']"
  "boot_loop_threshold healing_config = 3" "self_heal_attempt_cap healing_config = 5"
  "cap_of healing_config = 5" "base_of healing_config = 60" "stuck_member_dwell_seconds healing_config = 900"
  using sample_peers
  by (simp_all add: healing_config_def cap_of_def base_of_def peer_hosts_def seed_hosts_def)

definition wedged_volume :: volume where
  "wedged_volume = persist_boot_attempts True 3 (sample_volume False)"

definition discard_input :: preboot_input where
  "discard_input = \<lparr>p_listed = True, p_now = 100, p_role_ok = (\<lambda>h. h = ''c''), p_wipe_ok = True,
     p_wipe_left = sample_volume False, p_count_io = True\<rparr>"

definition landing_pass :: boot_input where
  "landing_pass = \<lparr>b_initialized = True, b_ledger_io = True, b_probe = Silent, b_reset_io = True,
     b_elapsed = 3, b_role_ok = (\<lambda>_. False)\<rparr>"

lemma wedged_volume_simps [simp]:
  "read_boot_attempts wedged_volume = 3" "ledger_file wedged_volume = Missing" "mysql_dir wedged_volume"
  "wedged healing_config wedged_volume" "read_ledger n wedged_volume = default_ledger"
  by (simp_all add: wedged_volume_def boot_marker.get_put wedged_def ledger_frame read_ledger_def)
     (simp_all add: sample_volume_def persist_boot_attempts_def)

lemma gate_open [simp]: "heal_gate default_ledger 5 60 n = Go"
  by (simp add: heal_gate_def default_ledger_def backoff_gap_seconds_def sat_add_def)

lemma discards_once: "discarding (snd (snd (preboot healing_config discard_input wedged_volume)))"
  by (auto simp: preboot_discards discard_input_def init_could_succeed_def)


lemma failed_discards_unbounded_witness:
  "\<exists>i. p_wipe_left i = wedged_volume \<and> discarding (snd (snd (preboot healing_config i
     (((\<lambda>u. fst (preboot healing_config (i\<lparr>p_wipe_left := u\<rparr>) u)) ^^ 100) wedged_volume))))"
  using failed_discards_unbounded [of healing_config "''c''" wedged_volume _ 100, OF _ _ _ _ _ _ _ _ refl]
  by (intro exI [of _ "\<lparr>p_listed = True, p_now = 100, p_role_ok = (\<lambda>x. x = ''c''), p_wipe_ok = False,
       p_wipe_left = wedged_volume, p_count_io = True\<rparr>"]) (simp add: u32_max_def)

definition counting_input :: preboot_input where
  "counting_input = discard_input\<lparr>p_role_ok := (\<lambda>_. False)\<rparr>"

lemma planned_shutdown_uncounts_witness:
  "read_boot_attempts (note_planned_shutdown True False (fst (preboot healing_config counting_input wedged_volume))) = 3"
proof -
  have q: "quorum_confirmed_peer (\<lambda>_. False) hs = None" for hs by (simp add: quorum_peer_None)
  have p: "preboot healing_config counting_input wedged_volume =
      (persist_boot_attempts True 4 wedged_volume, None, [NoQuorumPeer])"
    by (simp add: preboot_def counting_input_def discard_input_def init_could_succeed_def q sat_add_def)
  have "\<not> discarding [NoQuorumPeer]" "p_count_io counting_input"
    "\<not> init_could_succeed (p_listed counting_input) wedged_volume" "read_boot_attempts wedged_volume \<noteq> - 1"
    by (simp_all add: discarding_def counting_input_def discard_input_def init_could_succeed_def)
  from planned_shutdown_uncounts [OF p this, of landing_pass] show ?thesis
    unfolding p by simp
qed

definition error_pass :: "nat \<Rightarrow> stuck_input" where
  "error_pass t = \<lparr>k_state = Some (Some ''ERROR''), k_now = t, k_unix = 2000, k_sig = None, k_role_ok = (\<lambda>h. h = ''c''),
     k_answers = [(''c'', State \<lparr>group_active = True, member_state = Some ''ONLINE'', member_role = Some ''PRIMARY'',
       gtid_executed = Some ''x'', members_total = 2, members_reachable = 2, pre_gtid_data = False,
       pre_gtid_data_unknown = False, server_uuid = None, group_name = None, block_size = None, waiver_generation = 0\<rparr>)],
     k_reset_io = True, k_count_io = True, k_stop_ok = True, k_clone = Cloned, k_recount_io = True\<rparr>"

lemma error_first: "stuck_pass healing_config (wedged_volume, stuck_start) (error_pass 0) =
    ((wedged_volume, stuck_start\<lparr>stuck_since := Some 0\<rparr>), [])"
  by (simp add: stuck_pass_def error_pass_def stuck_dispatch_def stuck_gate_def stuck_start_def or_now_def)

lemma error_donor: "pick_donor (k_answers (error_pass t)) = Some ''c''"
  by (simp add: error_pass_def pick_donor_def donors_def List.map_filter_def active_state_def)

lemma error_quorum: "quorum_confirmed_peer (k_role_ok (error_pass t)) [''b'', ''c''] = Some ''c''"
  by (simp add: error_pass_def quorum_confirmed_peer_def)

lemma error_second:
  "\<exists>vk' n. stuck_pass healing_config (wedged_volume, stuck_start\<lparr>stuck_since := Some 0\<rparr>) (error_pass 900) =
    (vk', [Report_stuck ''c'' n, Stop_plugin, Clone_from ''c''])"
proof -
  have d: "stuck_dispatch (error_pass 900) (stuck_start\<lparr>stuck_since := Some 0\<rparr>) = (stuck_start\<lparr>stuck_since := Some 0\<rparr>, True)"
    by (simp add: stuck_dispatch_def error_pass_def stuck_start_def or_now_def)
  have g: "stuck_gate healing_config (error_pass 900) wedged_volume (stuck_start\<lparr>stuck_since := Some 0\<rparr>) = (True, [])"
    by (simp add: stuck_gate_def error_pass_def stuck_start_def)
  have m: "mid_heal (stuck_start\<lparr>stuck_since := Some 0\<rparr>) = None" and s: "k_stop_ok (error_pass 900)"
    and cl: "k_clone (error_pass 900) = Cloned" and st: "k_state (error_pass 900) \<noteq> Some (Some ''ONLINE'')"
    by (simp_all add: stuck_start_def error_pass_def)
  show ?thesis
    using d g m s cl st error_donor [of 900] error_quorum [of 900]
    by (simp add: stuck_pass_def heal_step_def clone_step_def Let_def)
qed

lemma plugin_stopped_after_dwell_witness:
  "\<exists>vk' acts. stuck_pass healing_config (foldl (stuck_step healing_config) (wedged_volume, stuck_start) [error_pass 0]) (error_pass 900)
     = (vk', acts) \<and> Stop_plugin \<in> set acts \<and> healing (snd vk')"
proof -
  have one: "foldl (stuck_step healing_config) (wedged_volume, stuck_start) [error_pass 0] =
      (wedged_volume, stuck_start\<lparr>stuck_since := Some 0\<rparr>)"
    by (simp add: stuck_step_def error_first)
  obtain vk' n where two: "stuck_pass healing_config (wedged_volume, stuck_start\<lparr>stuck_since := Some 0\<rparr>) (error_pass 900) =
    (vk', [Report_stuck ''c'' n, Stop_plugin, Clone_from ''c''])" using error_second by blast
  from plugin_stopped_after_dwell [OF one [symmetric] two] show ?thesis
    unfolding one using two by auto
qed

lemma reclone_needs_live_group_witness:
  "\<exists>vk' acts. stuck_pass healing_config (wedged_volume, stuck_start\<lparr>stuck_since := Some 0\<rparr>) (error_pass 900) = (vk', acts) \<and>
     Clone_from ''c'' \<in> set acts \<and> healing (snd vk')"
proof -
  obtain vk' n where two: "stuck_pass healing_config (wedged_volume, stuck_start\<lparr>stuck_since := Some 0\<rparr>) (error_pass 900) =
    (vk', [Report_stuck ''c'' n, Stop_plugin, Clone_from ''c''])" using error_second by blast
  from reclone_needs_live_group [OF two, of "''c''"] show ?thesis
    using two by auto
qed
end
