(* ===== verification/Orchestrate.thy ===== *)
theory Orchestrate
  imports Self_Heal Gone_Tracker Cluster
begin

text \<open>
  \<open>orchestrate\<close> of \<open>gr.rs\<close>: one pass of the loop that joins a live group or, when
  that is provably safe, forms a new one. A pass is a chain of stages, each of which may end
  the pass (the source's \<open>continue\<close>); a stage takes and returns the volume and the loop's
  own variables and lists the commands it issues. The inputs of a pass are everything it
  asks the database, the peers and the resolver. The boot phase before the loop is at the
  end. The log-once texts are not modelled.
\<close>

section \<open>State, inputs and commands\<close>

record orch =
  o_group_name :: string
  safe_since :: "nat option"
  gone_tracker :: gone_tracker
  adopted_refusal_reported :: bool
  clone_refusal_reported :: bool

record pass_input =
  i_healing :: bool
  i_now :: nat
  i_local :: sql_view
  i_peer :: "string \<Rightarrow> peer_answer"
  i_probe :: "string \<Rightarrow> name_verdict"
  i_member_gtid :: "string option"
  i_member_gtid_again :: "string option"
  i_uuid :: "string option"
  i_cnf_removed :: bool
  i_name_set :: bool
  i_gtid :: "string option"
  i_sub :: "string \<Rightarrow> string \<Rightarrow> bool"
  i_compare_ok :: "string \<Rightarrow> bool"
  i_clone :: clone_result
  i_peer_block :: "string \<Rightarrow> string \<Rightarrow> string \<Rightarrow> u64 option"
  i_block_size :: "u64 option"
  i_block_set :: bool
  i_joined :: bool
  i_after_join :: sql_view
  i_fresh_uuid :: string
  i_formed :: bool
  i_post_ok :: bool
  i_flag_ok :: "nat \<Rightarrow> bool"
  i_marker_io :: bool

datatype orch_report =
    CnfNotRemoved
  | DivergedFromGroup
  | RecoveryCredentialRefused
  | AdoptedRefused "string list"
  | WaiverBootstrap string u64
  | PostBootstrapFailed
  | FlagNotSet
  | BecamePrimary
  | BootstrapGroupFailed

datatype command =
    Start_watch
  | Remove_auto_cnf
  | Stop_mysqld
  | Set_group_name string
  | Clone string
  | Set_block_size u64
  | Join_group
  | Leave_group
  | Form_group
  | Set_pre_gtid_flag
  | Report_orch orch_report

type_synonym node_state = "volume \<times> orch"

text \<open>A stage: the state it leaves, its commands, and whether the pass goes on.\<close>

type_synonym staged = "node_state \<times> command list \<times> bool"

definition and_then :: "staged \<Rightarrow> (node_state \<Rightarrow> staged) \<Rightarrow> staged" where
  "and_then r f =
     (case r of (s, cmds, goes_on) \<Rightarrow>
        if \<not> goes_on then r
        else (case f s of (s', cmds', g) \<Rightarrow> (s', cmds @ cmds', g)))"

definition proceed :: "node_state \<Rightarrow> staged" where "proceed s = (s, [], True)"
definition finish :: "node_state \<Rightarrow> command list \<Rightarrow> staged" where "finish s cmds = (s, cmds, False)"

definition peer_answers :: "config \<Rightarrow> pass_input \<Rightarrow> answers" where
  "peer_answers c i = map (\<lambda>h. (h, i_peer i h)) (peer_hosts c)"

section \<open>Deleted peers\<close>

definition may_waive :: "pass_input \<Rightarrow> node_state \<Rightarrow> bool" where
  "may_waive i s \<longleftrightarrow> has_been_group_member (i_member_gtid i) (fst s) (o_group_name (snd s)) \<or> has_pre_gtid_data (fst s)"

definition track_peer :: "pass_input \<Rightarrow> gone_tracker \<Rightarrow> string \<times> peer_answer \<Rightarrow> gone_tracker" where
  "track_peer i g ha =
     (case snd ha of
        Unreachable \<Rightarrow> observe g (fst ha) (i_probe i (fst ha)) (i_now i)
      | _ \<Rightarrow> observe_reachable g (fst ha))"

definition waives :: "config \<Rightarrow> pass_input \<Rightarrow> bool \<Rightarrow> gone_tracker \<Rightarrow> string \<times> peer_answer \<Rightarrow> bool" where
  "waives c i may g ha \<longleftrightarrow> may \<and> snd ha = Unreachable \<and>
     is_waived g (fst ha) (i_now i) (peer_gone_dwell_seconds c)"

section \<open>Joining a live group\<close>

definition collision_stage :: "pass_input \<Rightarrow> answers \<Rightarrow> node_state \<Rightarrow> staged" where
  "collision_stage i as s =
     (case i_uuid i of
        None \<Rightarrow> finish s []
      | Some my_uuid \<Rightarrow>
          (case uuid_collision_peer my_uuid as of
             None \<Rightarrow> proceed s
           | Some peer \<Rightarrow>
               if \<not> i_cnf_removed i then finish s [Remove_auto_cnf, Report_orch CnfNotRemoved]
               else finish ((fst s)\<lparr>auto_cnf_file := False\<rparr>, snd s) [Remove_auto_cnf, Stop_mysqld]))"

definition adopt_identity :: "bool \<Rightarrow> string \<Rightarrow> u64 \<Rightarrow> node_state \<Rightarrow> node_state" where
  "adopt_identity io n g s =
     (let v = persist_group_name io n (fst s);
          v' = (if g > read_waiver_generation v then persist_waiver_generation io g v else v) in
      (v', (snd s)\<lparr>o_group_name := n\<rparr>))"

definition identity_stage :: "config \<Rightarrow> pass_input \<Rightarrow> answers \<Rightarrow> node_state \<Rightarrow> staged" where
  "identity_stage c i as s =
     (case live_identity as of
        None \<Rightarrow> proceed s
      | Some (n, g) \<Rightarrow>
          if n = o_group_name (snd s) then proceed s
          else if gr_group_name c \<noteq> None then finish s []
          else if i_name_set i then (adopt_identity (i_marker_io i) n g s, [Set_group_name n], True)
          else finish s [Set_group_name n])"

definition note_clone :: "pass_input \<Rightarrow> node_state \<Rightarrow> node_state \<times> command list" where
  "note_clone i s =
     (case i_clone i of
        CredentialRefused \<Rightarrow>
          ((fst s, (snd s)\<lparr>clone_refusal_reported := True\<rparr>),
           if clone_refusal_reported (snd s) then [] else [Report_orch RecoveryCredentialRefused])
      | _ \<Rightarrow> ((fst s, (snd s)\<lparr>clone_refusal_reported := False\<rparr>), []))"

definition clone_from_group :: "pass_input \<Rightarrow> string option \<Rightarrow> command list \<Rightarrow> node_state \<Rightarrow> staged" where
  "clone_from_group i donor pre s =
     (case donor of
        None \<Rightarrow> finish s pre
      | Some d \<Rightarrow> (case note_clone i s of (s', cmds) \<Rightarrow> finish s' (pre @ [Clone d] @ cmds)))"

definition my_gtid_now :: "pass_input \<Rightarrow> string" where
  "my_gtid_now i = (case i_gtid i of Some g \<Rightarrow> g | None \<Rightarrow> [])"

definition divergence_stage :: "pass_input \<Rightarrow> answers \<Rightarrow> node_state \<Rightarrow> staged" where
  "divergence_stage i as s =
     (if my_gtid_now i = [] then proceed s
      else (case live_primary_gtid as of
        None \<Rightarrow> proceed s
      | Some peer_gtid \<Rightarrow>
          (case gtid_compare (i_sub i) (i_compare_ok i) (my_gtid_now i) peer_gtid of
             None \<Rightarrow> finish s []
           | Some (_, mine_sub_peer) \<Rightarrow>
               if \<not> mine_sub_peer then clone_from_group i (pick_donor as) [Report_orch DivergedFromGroup] s
               else proceed s)))"

definition been_member_now :: "pass_input \<Rightarrow> bool \<Rightarrow> node_state \<Rightarrow> bool" where
  "been_member_now i been s \<longleftrightarrow> been \<or> has_been_group_member (i_member_gtid_again i) (fst s) (o_group_name (snd s))"

definition adopted_stage :: "pass_input \<Rightarrow> bool \<Rightarrow> answers \<Rightarrow> node_state \<Rightarrow> staged" where
  "adopted_stage i been as s =
     (case adopted_data_verdict (has_pre_gtid_data (fst s)) (been_member_now i been s) (group_pre_gtid_picture as) of
        NotApplicable \<Rightarrow> proceed (fst s, (snd s)\<lparr>adopted_refusal_reported := False\<rparr>)
      | GroupCarriesIt \<Rightarrow> proceed (fst s, (snd s)\<lparr>adopted_refusal_reported := False\<rparr>)
      | Incomplete u \<Rightarrow> finish s []
      | Refuse live \<Rightarrow>
          finish (fst s, (snd s)\<lparr>adopted_refusal_reported := True\<rparr>)
            (if adopted_refusal_reported (snd s) then [] else [Report_orch (AdoptedRefused live)]))"

definition unknown_flag_stage :: "pass_input \<Rightarrow> answers \<Rightarrow> node_state \<Rightarrow> staged" where
  "unknown_flag_stage i as s =
     (let p = group_pre_gtid_picture as in
      if \<not> has_pre_gtid_data (fst s) \<and> my_gtid_now i = [] \<and> \<not> carries_pre_gtid_data p \<and> unknown_peers p \<noteq> []
      then finish s [] else proceed s)"

definition clone_first_stage :: "pass_input \<Rightarrow> answers \<Rightarrow> node_state \<Rightarrow> staged" where
  "clone_first_stage i as s =
     (if carries_pre_gtid_data (group_pre_gtid_picture as) \<and> \<not> has_pre_gtid_data (fst s) \<and> my_gtid_now i = []
         \<and> pick_donor as \<noteq> None
      then clone_from_group i (pick_donor as) [] s
      else proceed s)"

fun fill_block_size :: "(string \<Rightarrow> string \<Rightarrow> string \<Rightarrow> u64 option) \<Rightarrow> answers \<Rightarrow> answers option" where
  "fill_block_size ask [] = None"
| "fill_block_size ask ((h, a) # as) =
     (case active_state a of
        None \<Rightarrow> map_option (\<lambda>r. (h, a) # r) (fill_block_size ask as)
      | Some s \<Rightarrow>
          (case (server_uuid s, group_name s) of
             (Some u, Some g) \<Rightarrow>
               (case ask h u g of
                  Some n \<Rightarrow> Some ((h, State (s\<lparr>block_size := Some n\<rparr>)) # as)
                | None \<Rightarrow> map_option (\<lambda>r. (h, a) # r) (fill_block_size ask as))
           | _ \<Rightarrow> map_option (\<lambda>r. (h, a) # r) (fill_block_size ask as)))"

definition resolve_peer_block_sizes :: "(string \<Rightarrow> string \<Rightarrow> string \<Rightarrow> u64 option) \<Rightarrow> answers \<Rightarrow> answers option" where
  "resolve_peer_block_sizes ask as =
     (if list_ex (\<lambda>(h, a). case active_state a of Some s \<Rightarrow> block_size s \<noteq> None | None \<Rightarrow> False) as
      then Some as else fill_block_size ask as)"

definition block_size_stage :: "pass_input \<Rightarrow> answers \<Rightarrow> node_state \<Rightarrow> staged" where
  "block_size_stage i as s =
     (case resolve_peer_block_sizes (i_peer_block i) as of
        None \<Rightarrow> finish s []
      | Some as' \<Rightarrow>
          (case block_size_to_adopt (i_block_size i) as' of
             None \<Rightarrow> proceed s
           | Some n \<Rightarrow> if i_block_set i then (s, [Set_block_size n], True) else finish s [Set_block_size n]))"

text \<open>\<open>is_uuid\<close> and the second reading of the local state after a failed join.\<close>

definition join_stage :: "(string \<Rightarrow> bool) \<Rightarrow> pass_input \<Rightarrow> node_state \<Rightarrow> staged" where
  "join_stage is_uuid i s =
     (if i_joined i then finish s [Join_group]
      else (case local_gr_state is_uuid (i_marker_io i) (i_after_join i) (fst s) of
        (v, Some st) \<Rightarrow> finish (v, snd s)
           (Join_group # (if member_state st = Some ''RECOVERING'' then [Leave_group] else []))
      | (v, None) \<Rightarrow> finish (v, snd s) [Join_group]))"

definition joining_pass :: "(string \<Rightarrow> bool) \<Rightarrow> config \<Rightarrow> pass_input \<Rightarrow> bool \<Rightarrow> answers \<Rightarrow> node_state \<Rightarrow> staged" where
  "joining_pass is_uuid c i been as s =
     and_then (and_then (and_then (and_then (and_then (and_then (and_then
       (collision_stage i as s)
       (identity_stage c i as))
       (divergence_stage i as))
       (adopted_stage i been as))
       (unknown_flag_stage i as))
       (clone_first_stage i as))
       (block_size_stage i as))
       (join_stage is_uuid i)"

section \<open>Forming a new group\<close>

definition peer_generations :: "answers \<Rightarrow> u64 list" where
  "peer_generations as = List.map_filter (\<lambda>(h, a). case a of State s \<Rightarrow> Some (waiver_generation s) | _ \<Rightarrow> None) as"

definition max_or_zero :: "u64 list \<Rightarrow> u64" where
  "max_or_zero gs = (case max_by cmp_lin gs of Some g \<Rightarrow> g | None \<Rightarrow> 0)"

definition next_generation :: "volume \<Rightarrow> answers \<Rightarrow> u64" where
  "next_generation v as = max (read_waiver_generation v) (max_or_zero (peer_generations as)) + 1"

definition fence_identity :: "pass_input \<Rightarrow> answers \<Rightarrow> node_state \<Rightarrow> staged" where
  "fence_identity i considered s =
     (let n = i_fresh_uuid i; g = next_generation (fst s) considered in
      if i_name_set i then
        ((persist_waiver_generation (i_marker_io i) g (persist_group_name (i_marker_io i) n (fst s)),
          (snd s)\<lparr>o_group_name := n\<rparr>),
         [Set_group_name n, Report_orch (WaiverBootstrap n g)], True)
      else finish (fst s, (snd s)\<lparr>safe_since := None\<rparr>) [Set_group_name n])"

text \<open>The replicated flag is written up to five times, until one write succeeds.\<close>

fun flag_writes :: "(nat \<Rightarrow> bool) \<Rightarrow> nat \<Rightarrow> nat \<Rightarrow> command list" where
  "flag_writes ok k 0 = [Report_orch FlagNotSet]"
| "flag_writes ok k (Suc left) =
     Set_pre_gtid_flag # (if ok k then [] else flag_writes ok (Suc k) left)"

definition form_stage :: "pass_input \<Rightarrow> node_state \<Rightarrow> staged" where
  "form_stage i s =
     (if i_formed i then
        finish s (Form_group #
          (if \<not> i_post_ok i then [Report_orch PostBootstrapFailed]
           else if has_pre_gtid_data (fst s) then flag_writes (i_flag_ok i) 0 5
           else []) @ [Report_orch BecamePrimary])
      else finish (fst s, (snd s)\<lparr>safe_since := None\<rparr>) [Form_group, Report_orch BootstrapGroupFailed])"

definition safe_stage :: "config \<Rightarrow> pass_input \<Rightarrow> bool \<Rightarrow> answers \<Rightarrow> node_state \<Rightarrow> staged" where
  "safe_stage c i any_waived considered s0 =
     (let since = (case safe_since (snd s0) of Some t \<Rightarrow> t | None \<Rightarrow> i_now i);
          s = (fst s0, (snd s0)\<lparr>safe_since := Some since\<rparr>) in
      if i_now i - since < bootstrap_dwell_seconds c then finish s []
      else and_then (if any_waived then fence_identity i considered s else proceed s) (form_stage i))"

definition guard_stage :: "config \<Rightarrow> pass_input \<Rightarrow> bool \<Rightarrow> answers \<Rightarrow> node_state \<Rightarrow> staged" where
  "guard_stage c i any_waived considered s =
     (case i_gtid i of
        None \<Rightarrow> finish s []
      | Some my_gtid \<Rightarrow>
          (case classify_round (i_sub i) (i_compare_ok i) c (fst s) my_gtid considered of
             Some SafeToBootstrap \<Rightarrow> safe_stage c i any_waived considered s
           | _ \<Rightarrow> finish (fst s, (snd s)\<lparr>safe_since := None\<rparr>) []))"

section \<open>One pass\<close>

definition tracked :: "config \<Rightarrow> pass_input \<Rightarrow> gone_tracker \<Rightarrow> gone_tracker" where
  "tracked c i g = foldl (track_peer i) g (peer_answers c i)"

definition deciding_pass :: "(string \<Rightarrow> bool) \<Rightarrow> config \<Rightarrow> pass_input \<Rightarrow> node_state \<Rightarrow> staged" where
  "deciding_pass is_uuid c i s0 =
     (let as = peer_answers c i;
          been = has_been_group_member (i_member_gtid i) (fst s0) (o_group_name (snd s0));
          may = been \<or> has_pre_gtid_data (fst s0);
          g = tracked c i (gone_tracker (snd s0));
          s = (fst s0, (snd s0)\<lparr>gone_tracker := g\<rparr>) in
      if group_seen as
      then joining_pass is_uuid c i been as (fst s, (snd s)\<lparr>safe_since := None\<rparr>)
      else guard_stage c i (list_ex (waives c i may g) as) (filter (\<lambda>ha. \<not> waives c i may g ha) as) s)"

text \<open>
  The whole body of the loop; the last component says that the loop goes round again. The
  first reading of the local state may write the member marker.
\<close>

definition orchestrate_pass :: "(string \<Rightarrow> bool) \<Rightarrow> config \<Rightarrow> node_state \<Rightarrow> pass_input \<Rightarrow> node_state \<times> command list \<times> bool" where
  "orchestrate_pass is_uuid c s i =
     (if i_healing i then (s, [], True)
      else (case local_gr_state is_uuid (i_marker_io i) (i_local i) (fst s) of
        (v, None) \<Rightarrow> ((v, snd s), [], True)
      | (v, Some st) \<Rightarrow>
          if group_active st then ((v, snd s), [Start_watch], False)
          else (case deciding_pass is_uuid c i (v, snd s) of (s', cmds, _) \<Rightarrow> (s', cmds, True))))"

definition orchestrate_start :: "string \<Rightarrow> orch" where
  "orchestrate_start n = \<lparr>o_group_name = n, safe_since = None, gone_tracker = new_tracker,
     adopted_refusal_reported = False, clone_refusal_reported = False\<rparr>"

section \<open>What each stage leaves alone\<close>

definition cmds_of :: "staged \<Rightarrow> command set" where
  "cmds_of r = set (fst (snd r))"

lemma cmds_of_simps [simp]:
  "cmds_of (s, cs, g) = set cs" "cmds_of (proceed s) = {}" "cmds_of (finish s cs) = set cs"
  by (simp_all add: cmds_of_def proceed_def finish_def)

text \<open>A command of a chain comes from its head, or its head went on.\<close>

lemma emitted_by:
  assumes "x \<in> cmds_of (and_then r f)"
  shows "x \<in> cmds_of r \<or> (\<exists>s cs. r = (s, cs, True) \<and> x \<in> cmds_of (f s))"
  using assms by (cases r) (auto simp: and_then_def split: if_splits prod.splits)

lemma absent_and_then: "x \<notin> cmds_of r \<Longrightarrow> (\<And>s. x \<notin> cmds_of (f s)) \<Longrightarrow> x \<notin> cmds_of (and_then r f)"
  using emitted_by by blast

lemma went_on:
  assumes "and_then r f = (s', cs, True)"
  shows "\<exists>s c1 c2. r = (s, c1, True) \<and> f s = (s', c2, True)"
  using assms by (cases r) (auto simp: and_then_def split: if_splits prod.splits)

lemma note_clone_frame: "note_clone i s = (s', cmds) \<Longrightarrow> fst s' = fst s \<and>
    safe_since (snd s') = safe_since (snd s) \<and> o_group_name (snd s') = o_group_name (snd s) \<and>
    gone_tracker (snd s') = gone_tracker (snd s) \<and> (\<forall>x \<in> set cmds. x = Report_orch RecoveryCredentialRefused)"
  by (auto simp: note_clone_def split: clone_result.splits if_splits)

definition keeps_clock :: "node_state \<Rightarrow> staged \<Rightarrow> bool" where
  "keeps_clock s r \<longleftrightarrow> safe_since (snd (fst r)) = safe_since (snd s)"

lemma keeps_and_then:
  assumes "keeps_clock s r" and "\<And>s'. keeps_clock s' (f s')"
  shows "keeps_clock s (and_then r f)"
proof -
  obtain s1 c1 g1 where r: "r = (s1, c1, g1)" by (metis prod_cases3)
  obtain s2 c2 g2 where f: "f s1 = (s2, c2, g2)" by (metis prod_cases3)
  show ?thesis using assms(1) assms(2) [of s1] by (simp add: keeps_clock_def and_then_def r f)
qed

lemma stage_clocks [step_simps]:
  "keeps_clock s (collision_stage i as s)" "keeps_clock s (identity_stage c i as s)"
  "keeps_clock s (divergence_stage i as s)" "keeps_clock s (adopted_stage i been as s)"
  "keeps_clock s (unknown_flag_stage i as s)" "keeps_clock s (clone_first_stage i as s)"
  "keeps_clock s (block_size_stage i as s)" "keeps_clock s (join_stage u i s)"
proof -
  have clone: "keeps_clock s (clone_from_group i d pre s)" for d pre
    by (cases d) (auto simp: keeps_clock_def clone_from_group_def finish_def dest!: note_clone_frame split: prod.splits)
  show "keeps_clock s (divergence_stage i as s)" "keeps_clock s (clone_first_stage i as s)"
    using clone by (auto simp: divergence_stage_def clone_first_stage_def keeps_clock_def proceed_def finish_def
        split: option.splits prod.splits)
qed (auto simp: keeps_clock_def collision_stage_def identity_stage_def adopt_identity_def adopted_stage_def
      unknown_flag_stage_def block_size_stage_def join_stage_def proceed_def finish_def Let_def
      split: option.splits prod.splits adopted_verdict.splits)

lemma joining_clock: "keeps_clock s (joining_pass u c i been as s)"
  unfolding joining_pass_def by (intro keeps_and_then stage_clocks)

section \<open>The verdict of a pass\<close>

definition round_verdict :: "(string \<Rightarrow> bool) \<Rightarrow> config \<Rightarrow> node_state \<Rightarrow> pass_input \<Rightarrow> verdict option option" where
  "round_verdict is_uuid c s i =
     (if i_healing i then None
      else (case local_gr_state is_uuid (i_marker_io i) (i_local i) (fst s) of
        (v, None) \<Rightarrow> None
      | (v, Some st) \<Rightarrow>
          if group_active st then None
          else if group_seen (peer_answers c i) then Some (Some JoinExistingGroup)
          else (case i_gtid i of None \<Rightarrow> None
            | Some g \<Rightarrow> Some (classify_round (i_sub i) (i_compare_ok i) c v g
                (filter (\<lambda>ha. \<not> waives c i (may_waive i (v, snd s)) (tracked c i (gone_tracker (snd s))) ha)
                   (peer_answers c i))))))"

definition orch_step :: "(string \<Rightarrow> bool) \<Rightarrow> config \<Rightarrow> node_state \<Rightarrow> pass_input \<Rightarrow> node_state" where
  "orch_step is_uuid c s i = fst (orchestrate_pass is_uuid c s i)"

abbreviation judged_safe :: "(string \<Rightarrow> bool) \<Rightarrow> config \<Rightarrow> node_state \<Rightarrow> pass_input \<Rightarrow> bool" where
  "judged_safe is_uuid c s i \<equiv> round_verdict is_uuid c s i = Some (Some SafeToBootstrap)"

definition not_contradicted :: "(string \<Rightarrow> bool) \<Rightarrow> config \<Rightarrow> node_state \<Rightarrow> pass_input \<Rightarrow> bool" where
  "not_contradicted is_uuid c s i \<longleftrightarrow> judged_safe is_uuid c s i \<or> round_verdict is_uuid c s i = None"

lemma safe_stage_clock:
  "safe_since (snd (fst (safe_stage c i w as s))) \<in>
     {None, Some (case safe_since (snd s) of Some t \<Rightarrow> t | None \<Rightarrow> i_now i)}"
  by (auto simp: safe_stage_def Let_def and_then_def fence_identity_def form_stage_def proceed_def finish_def
      split: option.splits if_splits)

text \<open>How a pass unfolds: it decides, or it ends before.\<close>

lemma pass_cases:
  obtains
    (early) "round_verdict u c s i = None" "safe_since (snd (orch_step u c s i)) = safe_since (snd s)"
      "cmds_of (orchestrate_pass u c s i) \<subseteq> {Start_watch}"
  | (joins) v st where "round_verdict u c s i = Some (Some JoinExistingGroup)"
      "\<not> i_healing i" "local_gr_state u (i_marker_io i) (i_local i) (fst s) = (v, Some st)" "\<not> group_active st"
      "group_seen (peer_answers c i)" "safe_since (snd (orch_step u c s i)) = None"
      "cmds_of (orchestrate_pass u c s i) = cmds_of (joining_pass u c i
        (has_been_group_member (i_member_gtid i) v (o_group_name (snd s))) (peer_answers c i)
        (v, (snd s)\<lparr>gone_tracker := tracked c i (gone_tracker (snd s)), safe_since := None\<rparr>))"
  | (decides) v st g considered where "\<not> i_healing i"
      "local_gr_state u (i_marker_io i) (i_local i) (fst s) = (v, Some st)" "\<not> group_active st"
      "\<not> group_seen (peer_answers c i)" "i_gtid i = Some g"
      "considered = filter (\<lambda>ha. \<not> waives c i (may_waive i (v, snd s)) (tracked c i (gone_tracker (snd s))) ha) (peer_answers c i)"
      "round_verdict u c s i = Some (classify_round (i_sub i) (i_compare_ok i) c v g considered)"
      "orch_step u c s i = fst (guard_stage c i (considered \<noteq> peer_answers c i) considered
         (v, (snd s)\<lparr>gone_tracker := tracked c i (gone_tracker (snd s))\<rparr>))"
      "cmds_of (orchestrate_pass u c s i) = cmds_of (guard_stage c i (considered \<noteq> peer_answers c i) considered
         (v, (snd s)\<lparr>gone_tracker := tracked c i (gone_tracker (snd s))\<rparr>))"
proof (cases "i_healing i")
  case True
  then show thesis by (intro early) (simp_all add: round_verdict_def orch_step_def orchestrate_pass_def)
next
  case nh: False
  obtain v ost where loc: "local_gr_state u (i_marker_io i) (i_local i) (fst s) = (v, ost)" by fastforce
  show thesis
  proof (cases "ost = None \<or> group_active (the ost) \<or> \<not> group_seen (peer_answers c i) \<and> i_gtid i = None")
    case True
    then show thesis
      by (intro early)
         (auto simp: nh loc round_verdict_def orch_step_def orchestrate_pass_def deciding_pass_def Let_def
            guard_stage_def finish_def split: option.splits)
  next
    case False
    then obtain st where st: "ost = Some st" "\<not> group_active st" by auto
    let ?s = "(v, (snd s)\<lparr>gone_tracker := tracked c i (gone_tracker (snd s))\<rparr>)"
    let ?w = "waives c i (may_waive i (v, snd s)) (tracked c i (gone_tracker (snd s)))"
    show thesis
    proof (cases "group_seen (peer_answers c i)")
      case True
      let ?been = "has_been_group_member (i_member_gtid i) v (o_group_name (snd s))"
      let ?j = "joining_pass u c i ?been (peer_answers c i) (v, (snd s)\<lparr>gone_tracker := tracked c i (gone_tracker (snd s)), safe_since := None\<rparr>)"
      have j: "fst (orchestrate_pass u c s i) = fst ?j" "cmds_of (orchestrate_pass u c s i) = cmds_of ?j"
        using True nh loc st by (auto simp: orchestrate_pass_def deciding_pass_def Let_def cmds_of_def split: prod.splits)
      show thesis
        using joining_clock [of _ u c i ?been "peer_answers c i"] True nh loc st j
        by (intro joins [of v st]) (auto simp: round_verdict_def orch_step_def keeps_clock_def)
    next
      case False
      then obtain g where g: "i_gtid i = Some g"
        using st \<open>\<not> (ost = None \<or> group_active (the ost) \<or> \<not> group_seen (peer_answers c i) \<and> i_gtid i = None)\<close> by auto
      have any: "list_ex ?w (peer_answers c i) \<longleftrightarrow> filter (\<lambda>ha. \<not> ?w ha) (peer_answers c i) \<noteq> peer_answers c i"
        by (auto simp: list_ex_iff filter_id_conv)
      have d: "deciding_pass u c i (v, snd s) =
          guard_stage c i (list_ex ?w (peer_answers c i)) (filter (\<lambda>ha. \<not> ?w ha) (peer_answers c i)) ?s"
        using False by (simp add: deciding_pass_def Let_def may_waive_def)
      show thesis
        using False nh loc st g d unfolding any
        by (intro decides [of v st g "filter (\<lambda>ha. \<not> ?w ha) (peer_answers c i)"])
           (auto simp: round_verdict_def orch_step_def orchestrate_pass_def cmds_of_def split: prod.splits)
    qed
  qed
qed

section \<open>When a group is formed\<close>

lemma stage_forms_nothing:
  "Form_group \<notin> cmds_of (collision_stage i as s)" "Form_group \<notin> cmds_of (identity_stage c i as s)"
  "Form_group \<notin> cmds_of (divergence_stage i as s)" "Form_group \<notin> cmds_of (adopted_stage i been as s)"
  "Form_group \<notin> cmds_of (unknown_flag_stage i as s)" "Form_group \<notin> cmds_of (clone_first_stage i as s)"
  "Form_group \<notin> cmds_of (block_size_stage i as s)" "Form_group \<notin> cmds_of (join_stage u i s)"
proof -
  have clone: "Form_group \<notin> cmds_of (clone_from_group i d pre s)" if "Form_group \<notin> set pre" for d pre
    using that by (cases d) (auto simp: clone_from_group_def dest!: note_clone_frame split: prod.splits)
  show "Form_group \<notin> cmds_of (divergence_stage i as s)" "Form_group \<notin> cmds_of (clone_first_stage i as s)"
    using clone by (auto simp: divergence_stage_def clone_first_stage_def split: option.splits prod.splits)
qed (auto simp: collision_stage_def identity_stage_def adopted_stage_def Let_def
      unknown_flag_stage_def block_size_stage_def join_stage_def
      split: option.splits prod.splits adopted_verdict.splits if_splits)

lemma joining_forms_nothing: "Form_group \<notin> cmds_of (joining_pass u c i been as s)"
  unfolding joining_pass_def by (intro absent_and_then stage_forms_nothing)

lemma no_form_in_flags: "Form_group \<notin> set (flag_writes ok k n)"
  by (induction n arbitrary: k) auto

lemma fence_identity_forms_nothing: "Form_group \<notin> cmds_of (fence_identity i as s)"
  by (simp add: fence_identity_def Let_def)

lemma guard_forms:
  assumes "Form_group \<in> cmds_of (guard_stage c i w as s)"
  shows "\<exists>g. i_gtid i = Some g \<and> classify_round (i_sub i) (i_compare_ok i) c (fst s) g as = Some SafeToBootstrap"
    and "bootstrap_dwell_seconds c \<le> i_now i - (case safe_since (snd s) of Some t \<Rightarrow> t | None \<Rightarrow> i_now i)"
    and "w \<Longrightarrow> i_name_set i"
  using assms fence_identity_forms_nothing
  by (auto simp: guard_stage_def safe_stage_def Let_def fence_identity_def proceed_def finish_def and_then_def
      split: option.splits verdict.splits if_splits prod.splits)

interpretation safe_clock: dwell_clock "orch_step u c" "\<lambda>s. safe_since (snd s)" i_now
  "judged_safe u c" "not_contradicted u c" for u c
proof
  fix s i t
  assume t: "safe_since (snd (orch_step u c s i)) = Some t"
  show "not_contradicted u c s i \<and> safe_since (snd s) = Some t \<or> judged_safe u c s i \<and> t = i_now i"
  proof (cases rule: pass_cases [of u c s i])
    case early
    then show ?thesis using t by (simp add: not_contradicted_def)
  next
    case joins
    then show ?thesis using t by simp
  next
    case (decides v st g considered)
    let ?s = "(v, (snd s)\<lparr>gone_tracker := tracked c i (gone_tracker (snd s))\<rparr>)"
    show ?thesis
    proof (cases "classify_round (i_sub i) (i_compare_ok i) c v g considered = Some SafeToBootstrap")
      case True
      then have "safe_since (snd (orch_step u c s i)) \<in>
          {None, Some (case safe_since (snd s) of Some t \<Rightarrow> t | None \<Rightarrow> i_now i)}"
        using decides(5,8) safe_stage_clock [of c i _ considered ?s] by (simp add: guard_stage_def)
      then show ?thesis
        using t decides(7) True by (cases "safe_since (snd s)") (auto simp: not_contradicted_def)
    next
      case False
      then have "safe_since (snd (orch_step u c s i)) = None"
        using decides(5,8) by (auto simp: guard_stage_def finish_def split: option.splits verdict.splits)
      then show ?thesis using t by simp
    qed
  qed
qed

abbreviation before_pass :: "(string \<Rightarrow> bool) \<Rightarrow> config \<Rightarrow> node_state \<Rightarrow> pass_input list \<Rightarrow> nat \<Rightarrow> node_state" where
  "before_pass u c s0 is k \<equiv> foldl (orch_step u c) s0 (take k is)"

text \<open>
  C4: A group is only formed after the dwell. When a pass forms a group, that pass judged it
  safe, and so did an earlier pass at least the dwell ago (or this one, if the dwell is
  zero); no pass in between came to any other verdict. A pass that could not decide (a
  reclone under way, an unreadable local state or GTID set) does not restart the clock.
\<close>

theorem group_formed_after_dwell:
  assumes "s = foldl (orch_step u c) (v, orchestrate_start n) is"
    and "Form_group \<in> cmds_of (orchestrate_pass u c s i)"
  shows "judged_safe u c s i \<and>
    (\<exists>k \<le> length is. bootstrap_dwell_seconds c \<le> i_now i - i_now ((is @ [i]) ! k) \<and>
       judged_safe u c (before_pass u c (v, orchestrate_start n) (is @ [i]) k) ((is @ [i]) ! k) \<and>
       (\<forall>l. k < l \<and> l \<le> length is \<longrightarrow>
          not_contradicted u c (before_pass u c (v, orchestrate_start n) (is @ [i]) l) ((is @ [i]) ! l)))"
proof -
  have now: "judged_safe u c s i \<and> bootstrap_dwell_seconds c \<le>
      i_now i - (case safe_since (snd s) of Some t \<Rightarrow> t | None \<Rightarrow> i_now i)"
  proof (cases rule: pass_cases [of u c s i])
    case early
    then show ?thesis using assms(2) by auto
  next
    case joins
    then show ?thesis using assms(2) joining_forms_nothing by simp
  next
    case (decides v' st g considered)
    then show ?thesis using guard_forms(1,2) [OF assms(2) [unfolded decides(9)]] by simp
  qed
  show ?thesis
  proof (cases "safe_since (snd s)")
    case None
    then show ?thesis
      using now assms(1) by (intro conjI exI [of _ "length is"]) (auto simp: nth_append)
  next
    case (Some t)
    have "safe_since (snd (v, orchestrate_start n)) = None" by (simp add: orchestrate_start_def)
    from safe_clock.origin [OF this, of u c "is" t] Some assms(1) obtain k where
      k: "k < length is" "i_now (is ! k) = t" "judged_safe u c (before_pass u c (v, orchestrate_start n) is k) (is ! k)"
      "\<forall>l. k < l \<and> l < length is \<longrightarrow> not_contradicted u c (before_pass u c (v, orchestrate_start n) is l) (is ! l)"
      by auto
    have last: "not_contradicted u c s i" using now by (simp add: not_contradicted_def)
    show ?thesis
      using k now Some last assms(1)
      by (intro conjI exI [of _ k]) (auto simp: nth_append le_less)
  qed
qed

text \<open>
  C3: A node never forms a group past a peer it cannot account for. When a pass forms a
  group, every declared peer has either answered with its state and GTID set, being in no
  live group, or is waived: unreachable, its name gone for the whole dwell, and this node has
  been a group member or holds data of its own. A fresh node that never met anyone waits for
  all of them.
\<close>

theorem every_peer_accounted_for:
  assumes "Form_group \<in> cmds_of (orchestrate_pass u c s i)" and "h \<in> set (peer_hosts c)"
  shows "(\<exists>st gtid. i_peer i h = State st \<and> \<not> group_active st \<and> gtid_executed st = Some gtid) \<or>
    (i_peer i h = Unreachable \<and>
     is_waived (tracked c i (gone_tracker (snd s))) h (i_now i) (peer_gone_dwell_seconds c) \<and>
     (\<exists>v. fst (local_gr_state u (i_marker_io i) (i_local i) (fst s)) = v \<and> may_waive i (v, snd s)))"
proof (cases rule: pass_cases [of u c s i])
  case early
  then show ?thesis using assms(1) by auto
next
  case joins
  then show ?thesis using assms(1) joining_forms_nothing by simp
next
  case (decides v st g considered)
  have safe: "classify_round (i_sub i) (i_compare_ok i) c v g considered = Some SafeToBootstrap"
    using guard_forms(1) [OF assms(1) [unfolded decides(9)]] decides(5) by simp
  have mem: "(h, i_peer i h) \<in> set (peer_answers c i)"
    using assms(2) by (simp add: peer_answers_def)
  show ?thesis
  proof (cases "(h, i_peer i h) \<in> set considered")
    case True
    then show ?thesis using classify_Safe_peer [OF safe] by blast
  next
    case False
    then have "waives c i (may_waive i (v, snd s)) (tracked c i (gone_tracker (snd s))) (h, i_peer i h)"
      using mem decides(6) by auto
    then show ?thesis using decides(2) by (auto simp: waives_def)
  qed
qed

lemma max_or_zero_ge: "g \<in> set gs \<Longrightarrow> g \<le> max_or_zero gs"
  using max_by_key_max [of cmp_lin gs _ "\<lambda>x. x" g]
  by (cases "max_by cmp_lin gs") (auto simp: max_or_zero_def cmp_lin_iff)

lemma next_generation_greater:
  assumes "max (read_waiver_generation v) (max_or_zero (peer_generations as)) \<noteq> - 1"
  shows "read_waiver_generation v < next_generation v as"
    and "(h, State st) \<in> set as \<Longrightarrow> waiver_generation st < next_generation v as"
proof -
  have m: "max (read_waiver_generation v) (max_or_zero (peer_generations as)) < next_generation v as"
    using word_less_inc [OF assms] by (simp add: next_generation_def)
  show "read_waiver_generation v < next_generation v as"
    by (rule le_less_trans [OF max.cobounded1 m])
  assume "(h, State st) \<in> set as"
  then have "waiver_generation st \<in> set (peer_generations as)"
    by (force simp: peer_generations_def List.map_filter_def)
  then have "waiver_generation st \<le> max (read_waiver_generation v) (max_or_zero (peer_generations as))"
    by (simp add: max_or_zero_ge le_max_iff_disj)
  then show "waiver_generation st < next_generation v as"
    by (rule le_less_trans [OF _ m])
qed

lemma fresh_name_written:
  assumes "plain_line n" and "u n"
  shows "read_group_name_marker u (persist_waiver_generation True g (persist_group_name True n v)) = Some n"
  using group_name_read_back [of n u v, OF assms]
  by (simp add: read_group_name_marker_def marker_frame)

lemma form_stage_frame:
  "fst (fst (form_stage i z)) = fst z" "o_group_name (snd (fst (form_stage i z))) = o_group_name (snd z)"
  "Set_group_name x \<notin> cmds_of (form_stage i z)"
proof -
  have "Set_group_name x \<notin> set (flag_writes ok k n)" for ok k n
    by (induction n arbitrary: k) auto
  then show "fst (fst (form_stage i z)) = fst z" "o_group_name (snd (fst (form_stage i z))) = o_group_name (snd z)"
    "Set_group_name x \<notin> cmds_of (form_stage i z)"
    by (simp_all add: form_stage_def finish_def)
qed

lemma and_then_state:
  "fst (and_then (s, cs, True) f) = fst (f s)" "cmds_of (and_then (s, cs, True) f) = set cs \<union> cmds_of (f s)"
  by (simp_all add: and_then_def cmds_of_def split: prod.splits)

lemma safe_stage_forms:
  assumes "Form_group \<in> cmds_of (safe_stage c i w as s)"
  shows "w \<Longrightarrow> {x. Set_group_name x \<in> cmds_of (safe_stage c i w as s)} = {i_fresh_uuid i} \<and>
      o_group_name (snd (fst (safe_stage c i w as s))) = i_fresh_uuid i \<and>
      fst (fst (safe_stage c i w as s)) =
        persist_waiver_generation (i_marker_io i) (next_generation (fst s) as)
          (persist_group_name (i_marker_io i) (i_fresh_uuid i) (fst s))"
    and "\<not> w \<Longrightarrow> {x. Set_group_name x \<in> cmds_of (safe_stage c i w as s)} = {} \<and>
      o_group_name (snd (fst (safe_stage c i w as s))) = o_group_name (snd s) \<and>
      fst (fst (safe_stage c i w as s)) = fst s"
proof -
  let ?z = "(fst s, (snd s)\<lparr>safe_since := Some (case safe_since (snd s) of Some t \<Rightarrow> t | None \<Rightarrow> i_now i)\<rparr>)"
  have dwell: "\<not> i_now i - (case safe_since (snd s) of Some t \<Rightarrow> t | None \<Rightarrow> i_now i) < bootstrap_dwell_seconds c"
    using assms by (auto simp: safe_stage_def Let_def finish_def)
  {
    assume "\<not> w"
    then have "safe_stage c i w as s = and_then (?z, [], True) (form_stage i)"
      using dwell by (simp add: safe_stage_def Let_def proceed_def)
    then show "{x. Set_group_name x \<in> cmds_of (safe_stage c i w as s)} = {} \<and>
      o_group_name (snd (fst (safe_stage c i w as s))) = o_group_name (snd s) \<and>
      fst (fst (safe_stage c i w as s)) = fst s"
      by (simp add: and_then_state form_stage_frame)
  next
    assume w
    then have eq: "safe_stage c i w as s = and_then (fence_identity i as ?z) (form_stage i)"
      using dwell by (simp add: safe_stage_def Let_def)
    have "i_name_set i"
      using assms unfolding eq by (auto simp: fence_identity_def Let_def finish_def and_then_def split: if_splits)
    then have "fence_identity i as ?z =
        ((persist_waiver_generation (i_marker_io i) (next_generation (fst s) as)
            (persist_group_name (i_marker_io i) (i_fresh_uuid i) (fst s)),
          (snd ?z)\<lparr>o_group_name := i_fresh_uuid i\<rparr>),
         [Set_group_name (i_fresh_uuid i), Report_orch (WaiverBootstrap (i_fresh_uuid i) (next_generation (fst s) as))], True)"
      by (simp add: fence_identity_def Let_def)
    then show "{x. Set_group_name x \<in> cmds_of (safe_stage c i w as s)} = {i_fresh_uuid i} \<and>
      o_group_name (snd (fst (safe_stage c i w as s))) = i_fresh_uuid i \<and>
      fst (fst (safe_stage c i w as s)) =
        persist_waiver_generation (i_marker_io i) (next_generation (fst s) as)
          (persist_group_name (i_marker_io i) (i_fresh_uuid i) (fst s))"
      unfolding eq by (simp add: and_then_state form_stage_frame)
  }
qed

lemma local_gr_state_frame:
  assumes "local_gr_state u io q v = (v', r)"
  shows "waiver_file v' = waiver_file v" "pre_gtid_file v' = pre_gtid_file v"
    "group_name_file v' = group_name_file v"
    and "r = Some st \<Longrightarrow> \<not> group_active st \<Longrightarrow> v' = v"
proof -
  have "v' = v \<or> v' = note_membership io v"
    using assms by (auto simp: local_gr_state_def Let_def split: option.splits prod.splits if_splits)
  then show "waiver_file v' = waiver_file v" "pre_gtid_file v' = pre_gtid_file v"
    "group_name_file v' = group_name_file v" by (auto simp: marker_frame)
  assume "r = Some st" "\<not> group_active st"
  with assms show "v' = v"
    by (auto simp: local_gr_state_def group_active_from_def Let_def split: option.splits prod.splits if_splits)
qed

lemma max_or_zero_in: "max_or_zero gs \<in> insert 0 (set gs)"
  using max_by_in [of cmp_lin gs] by (cases "max_by cmp_lin gs") (auto simp: max_or_zero_def)

lemma mem_peer_generations: "g \<in> set (peer_generations as) \<longleftrightarrow> (\<exists>h st. (h, State st) \<in> set as \<and> g = waiver_generation st)"
proof (induction as)
  case (Cons ha as)
  obtain h a where [simp]: "ha = (h, a)" by (cases ha)
  show ?case
    using Cons by (cases a) (auto simp: peer_generations_def List.map_filter_simps)
qed (simp add: peer_generations_def List.map_filter_simps)

lemma next_generation_above:
  assumes "read_waiver_generation v \<noteq> - 1" and "\<And>h st. (h, State st) \<in> set as \<Longrightarrow> waiver_generation st \<noteq> - 1"
  shows "read_waiver_generation v < next_generation v as"
    and "(h, State st) \<in> set as \<Longrightarrow> waiver_generation st < next_generation v as"
proof -
  have "max_or_zero (peer_generations as) \<noteq> - 1"
    using max_or_zero_in [of "peer_generations as"] assms(2) by (auto simp: mem_peer_generations)
  then have m: "max (read_waiver_generation v) (max_or_zero (peer_generations as)) \<noteq> - 1"
    using assms(1) by (simp add: max_def)
  show "read_waiver_generation v < next_generation v as"
    and "(h, State st) \<in> set as \<Longrightarrow> waiver_generation st < next_generation v as"
    by (rule next_generation_greater [OF m], assumption?)+
qed

lemma guard_is_safe:
  "Form_group \<in> cmds_of (guard_stage c i w as s) \<Longrightarrow> guard_stage c i w as s = safe_stage c i w as s"
  by (auto simp: guard_stage_def finish_def split: option.splits verdict.splits)


end
