(* ===== verification/Join.thy ===== *)
theory Join
  imports Orchestrate
begin

text \<open>
  What the joining side of a pass of \<open>orchestrate\<close> guarantees: what holds when a
  stage lets the pass go on, and from that when a node joins, when it clones, and that
  adopted data is neither hidden nor overwritten.
\<close>

section \<open>What a stage that went on has checked\<close>

lemma collision_goes_on:
  "collision_stage i as s = (s', cs, True) \<Longrightarrow>
   s' = s \<and> (\<exists>m. i_uuid i = Some m \<and> uuid_collision_peer m as = None)"
  by (auto simp: collision_stage_def proceed_def finish_def split: option.splits if_splits)

lemma identity_goes_on:
  "identity_stage c i as s = (s', cs, True) \<Longrightarrow>
   pre_gtid_file (fst s') = pre_gtid_file (fst s) \<and> member_file (fst s') = member_file (fst s) \<and>
   o_group_name (snd s') = (case live_identity as of Some (n, g) \<Rightarrow> n | None \<Rightarrow> o_group_name (snd s))"
  by (auto simp: identity_stage_def adopt_identity_def proceed_def finish_def Let_def marker_frame
      split: option.splits if_splits)

lemma divergence_goes_on:
  "divergence_stage i as s = (s', cs, True) \<Longrightarrow>
   s' = s \<and> (my_gtid_now i = [] \<or> live_primary_gtid as = None \<or>
     (\<exists>p. live_primary_gtid as = Some p \<and> i_compare_ok i p \<and> i_sub i (my_gtid_now i) p))"
  by (auto simp: divergence_stage_def gtid_compare_def clone_from_group_def proceed_def finish_def
      split: option.splits if_splits prod.splits)

lemma adopted_goes_on:
  "adopted_stage i been as s = (s', cs, True) \<Longrightarrow>
   fst s' = fst s \<and> o_group_name (snd s') = o_group_name (snd s) \<and>
   adopted_data_verdict (has_pre_gtid_data (fst s)) (been_member_now i been s) (group_pre_gtid_picture as)
     \<in> {NotApplicable, GroupCarriesIt}"
  by (auto simp: adopted_stage_def proceed_def finish_def split: adopted_verdict.splits)

lemma unknown_flag_goes_on:
  "unknown_flag_stage i as s = (s', cs, True) \<Longrightarrow>
   s' = s \<and> (has_pre_gtid_data (fst s) \<or> my_gtid_now i \<noteq> [] \<or>
     carries_pre_gtid_data (group_pre_gtid_picture as) \<or> unknown_peers (group_pre_gtid_picture as) = [])"
  by (auto simp: unknown_flag_stage_def proceed_def finish_def Let_def split: if_splits)

lemma clone_first_goes_on:
  "clone_first_stage i as s = (s', cs, True) \<Longrightarrow>
   s' = s \<and> (\<not> carries_pre_gtid_data (group_pre_gtid_picture as) \<or> has_pre_gtid_data (fst s) \<or>
     my_gtid_now i \<noteq> [] \<or> pick_donor as = None)"
  by (auto simp: clone_first_stage_def clone_from_group_def proceed_def finish_def
      split: option.splits if_splits prod.splits)

lemmas stages_go_on = collision_goes_on identity_goes_on divergence_goes_on adopted_goes_on
  unknown_flag_goes_on clone_first_goes_on

text \<open>A clone comes from one of the two cloning stages only, a join from the last.\<close>

lemma clone_stages:
  "Clone d \<in> cmds_of (clone_from_group i o' pre s) \<Longrightarrow> Clone d \<notin> set pre \<Longrightarrow> o' = Some d"
  by (cases o') (auto simp: clone_from_group_def dest!: note_clone_frame split: prod.splits)

lemma no_clone_elsewhere:
  "Clone d \<notin> cmds_of (collision_stage i as s)" "Clone d \<notin> cmds_of (identity_stage c i as s)"
  "Clone d \<notin> cmds_of (adopted_stage i been as s)" "Clone d \<notin> cmds_of (unknown_flag_stage i as s)"
  "Clone d \<notin> cmds_of (block_size_stage i as s)" "Clone d \<notin> cmds_of (join_stage u i s)"
  by (auto simp: collision_stage_def identity_stage_def adopted_stage_def Let_def unknown_flag_stage_def
      block_size_stage_def join_stage_def
      split: option.splits prod.splits adopted_verdict.splits if_splits)

lemma no_join_elsewhere:
  "Join_group \<notin> cmds_of (collision_stage i as s)" "Join_group \<notin> cmds_of (identity_stage c i as s)"
  "Join_group \<notin> cmds_of (divergence_stage i as s)" "Join_group \<notin> cmds_of (adopted_stage i been as s)"
  "Join_group \<notin> cmds_of (unknown_flag_stage i as s)" "Join_group \<notin> cmds_of (clone_first_stage i as s)"
  "Join_group \<notin> cmds_of (block_size_stage i as s)"
proof -
  have clone: "Join_group \<notin> cmds_of (clone_from_group i d pre s)" if "Join_group \<notin> set pre" for d pre
    using that by (cases d) (auto simp: clone_from_group_def dest!: note_clone_frame split: prod.splits)
  show "Join_group \<notin> cmds_of (divergence_stage i as s)" "Join_group \<notin> cmds_of (clone_first_stage i as s)"
    using clone by (auto simp: divergence_stage_def clone_first_stage_def split: option.splits prod.splits)
qed (auto simp: collision_stage_def identity_stage_def adopted_stage_def Let_def unknown_flag_stage_def
      block_size_stage_def split: option.splits prod.splits adopted_verdict.splits if_splits)

lemma no_clone_or_join_in_guard:
  "Clone d \<notin> cmds_of (guard_stage c i w as s)" "Join_group \<notin> cmds_of (guard_stage c i w as s)"
proof -
  have flags: "Clone d \<notin> set (flag_writes ok k n)" "Join_group \<notin> set (flag_writes ok k n)" for ok k n
    by (induction n arbitrary: k) auto
  have form: "Clone d \<notin> cmds_of (form_stage i z)" "Join_group \<notin> cmds_of (form_stage i z)" for z
    using flags by (auto simp: form_stage_def)
  have fence: "Clone d \<notin> cmds_of (fence_identity i as z)" "Join_group \<notin> cmds_of (fence_identity i as z)" for z
    by (simp_all add: fence_identity_def Let_def)
  have safe: "Clone d \<notin> cmds_of (safe_stage c i w as z)" "Join_group \<notin> cmds_of (safe_stage c i w as z)" for z
    unfolding safe_stage_def Let_def
    by (cases w; simp; intro impI absent_and_then form fence; simp)+
  show "Clone d \<notin> cmds_of (guard_stage c i w as s)" "Join_group \<notin> cmds_of (guard_stage c i w as s)"
    using safe by (auto simp: guard_stage_def split: option.splits verdict.splits)
qed

lemma from_head: "x \<in> cmds_of (and_then r f) \<Longrightarrow> (\<And>s. x \<notin> cmds_of (f s)) \<Longrightarrow> x \<in> cmds_of r"
  using emitted_by by blast

section \<open>How far a joining pass got\<close>

text \<open>The stages up to the adopted-data guard, and the whole chain before the join.\<close>

definition up_to_divergence :: "config \<Rightarrow> pass_input \<Rightarrow> answers \<Rightarrow> node_state \<Rightarrow> staged" where
  "up_to_divergence c i as s = and_then (collision_stage i as s) (identity_stage c i as)"

definition up_to_clone :: "config \<Rightarrow> pass_input \<Rightarrow> bool \<Rightarrow> answers \<Rightarrow> node_state \<Rightarrow> staged" where
  "up_to_clone c i been as s =
     and_then (and_then (and_then (up_to_divergence c i as s) (divergence_stage i as))
       (adopted_stage i been as)) (unknown_flag_stage i as)"

lemma joining_pass_split:
  "joining_pass u c i been as s =
     and_then (and_then (and_then (up_to_clone c i been as s) (clone_first_stage i as))
       (block_size_stage i as)) (join_stage u i)"
  by (simp add: joining_pass_def up_to_clone_def up_to_divergence_def)

definition adopted_name :: "answers \<Rightarrow> orch \<Rightarrow> string" where
  "adopted_name as o' = (case live_identity as of Some (n, g) \<Rightarrow> n | None \<Rightarrow> o_group_name o')"

lemma adopted_name_frame [simp]:
  "adopted_name as (o'\<lparr>gone_tracker := g\<rparr>) = adopted_name as o'"
  "adopted_name as (o'\<lparr>safe_since := t\<rparr>) = adopted_name as o'"
  by (simp_all add: adopted_name_def split: option.splits)

lemma reached_divergence:
  assumes "up_to_divergence c i as s = (s', cs, True)"
  shows "\<exists>m. i_uuid i = Some m \<and> uuid_collision_peer m as = None"
    and "has_pre_gtid_data (fst s') = has_pre_gtid_data (fst s)" "member_file (fst s') = member_file (fst s)"
    and "o_group_name (snd s') = adopted_name as (snd s)"
proof -
  obtain s1 c1 c2 where 1: "collision_stage i as s = (s1, c1, True)" "identity_stage c i as s1 = (s', c2, True)"
    using went_on [OF assms [unfolded up_to_divergence_def]] by blast
  have "s1 = s" and c: "\<exists>m. i_uuid i = Some m \<and> uuid_collision_peer m as = None"
    using collision_goes_on [OF 1(1)] by blast+
  note d = identity_goes_on [OF 1(2) [unfolded \<open>s1 = s\<close>]]
  show "\<exists>m. i_uuid i = Some m \<and> uuid_collision_peer m as = None" by (rule c)
  show "has_pre_gtid_data (fst s') = has_pre_gtid_data (fst s)" "member_file (fst s') = member_file (fst s)"
    "o_group_name (snd s') = adopted_name as (snd s)"
    using d by (simp_all add: has_pre_gtid_data_def adopted_name_def)
qed

definition member_by_name :: "pass_input \<Rightarrow> bool \<Rightarrow> volume \<Rightarrow> string \<Rightarrow> bool" where
  "member_by_name i been v n \<longleftrightarrow> been \<or> has_been_group_member (i_member_gtid_again i) v n"

lemma has_been_cong:
  "member_file v = member_file w \<Longrightarrow> has_been_group_member g v n = has_been_group_member g w n"
  by (simp add: has_been_group_member_def read_member_marker_def)

lemma reached_clone:
  assumes "up_to_clone c i been as s = (s', cs, True)"
  shows "\<exists>m. i_uuid i = Some m \<and> uuid_collision_peer m as = None"
    and "has_pre_gtid_data (fst s') = has_pre_gtid_data (fst s)"
    and "o_group_name (snd s') = adopted_name as (snd s)"
    and "my_gtid_now i = [] \<or> live_primary_gtid as = None \<or>
      (\<exists>p. live_primary_gtid as = Some p \<and> i_compare_ok i p \<and> i_sub i (my_gtid_now i) p)"
    and "adopted_data_verdict (has_pre_gtid_data (fst s))
        (member_by_name i been (fst s) (adopted_name as (snd s))) (group_pre_gtid_picture as)
      \<in> {NotApplicable, GroupCarriesIt}"
    and "has_pre_gtid_data (fst s) \<or> my_gtid_now i \<noteq> [] \<or>
      carries_pre_gtid_data (group_pre_gtid_picture as) \<or> unknown_peers (group_pre_gtid_picture as) = []"
proof -
  obtain s3 c3 d3 where 3: "and_then (and_then (up_to_divergence c i as s) (divergence_stage i as))
      (adopted_stage i been as) = (s3, c3, True)" "unknown_flag_stage i as s3 = (s', d3, True)"
    using went_on [OF assms [unfolded up_to_clone_def]] by blast
  obtain s2 c2 d2 where 2: "and_then (up_to_divergence c i as s) (divergence_stage i as) = (s2, c2, True)"
      "adopted_stage i been as s2 = (s3, d2, True)"
    using went_on [OF 3(1)] by blast
  obtain s1 c1 d1 where 1: "up_to_divergence c i as s = (s1, c1, True)" "divergence_stage i as s1 = (s2, d1, True)"
    using went_on [OF 2(1)] by blast
  note r = reached_divergence [OF 1(1)] divergence_goes_on [OF 1(2)] adopted_goes_on [OF 2(2)]
    unknown_flag_goes_on [OF 3(2)]
  show "\<exists>m. i_uuid i = Some m \<and> uuid_collision_peer m as = None" by (rule r(1))
  have pre: "has_pre_gtid_data (fst s3) = has_pre_gtid_data (fst s)" "has_pre_gtid_data (fst s2) = has_pre_gtid_data (fst s)"
    using r by auto
  show "has_pre_gtid_data (fst s') = has_pre_gtid_data (fst s)" using r pre by simp
  show "o_group_name (snd s') = adopted_name as (snd s)" using r by simp
  show "my_gtid_now i = [] \<or> live_primary_gtid as = None \<or>
      (\<exists>p. live_primary_gtid as = Some p \<and> i_compare_ok i p \<and> i_sub i (my_gtid_now i) p)"
    using r(5) by blast
  have "been_member_now i been s2 = member_by_name i been (fst s) (adopted_name as (snd s))"
    using r(3-5) has_been_cong [of "fst s1" "fst s"] by (simp add: been_member_now_def member_by_name_def)
  then show "adopted_data_verdict (has_pre_gtid_data (fst s))
        (member_by_name i been (fst s) (adopted_name as (snd s))) (group_pre_gtid_picture as)
      \<in> {NotApplicable, GroupCarriesIt}"
    using r(6) pre by simp
  show "has_pre_gtid_data (fst s) \<or> my_gtid_now i \<noteq> [] \<or>
      carries_pre_gtid_data (group_pre_gtid_picture as) \<or> unknown_peers (group_pre_gtid_picture as) = []"
    using r(7) pre by simp
qed

lemma joining_joins:
  assumes "Join_group \<in> cmds_of (joining_pass u c i been as s)"
  shows "\<exists>s' cs. up_to_clone c i been as s = (s', cs, True) \<and>
    (\<not> carries_pre_gtid_data (group_pre_gtid_picture as) \<or> has_pre_gtid_data (fst s') \<or>
     my_gtid_now i \<noteq> [] \<or> pick_donor as = None)"
proof -
  have "Join_group \<notin> cmds_of (and_then (and_then (up_to_clone c i been as s) (clone_first_stage i as)) (block_size_stage i as))"
    unfolding up_to_clone_def up_to_divergence_def by (intro absent_and_then no_join_elsewhere)
  then obtain s1 c1 where "and_then (and_then (up_to_clone c i been as s) (clone_first_stage i as)) (block_size_stage i as) = (s1, c1, True)"
    using emitted_by [OF assms [unfolded joining_pass_split]] by blast
  from went_on [OF this] obtain s2 c2 where "and_then (up_to_clone c i been as s) (clone_first_stage i as) = (s2, c2, True)"
    by blast
  from went_on [OF this] obtain s3 c3 d3 where 3: "up_to_clone c i been as s = (s3, c3, True)"
    "clone_first_stage i as s3 = (s2, d3, True)" by blast
  then show ?thesis using clone_first_goes_on [OF 3(2)] by blast
qed

lemma joining_clones:
  assumes "Clone d \<in> cmds_of (joining_pass u c i been as s)"
  shows "pick_donor as = Some d"
    and "(\<exists>p. my_gtid_now i \<noteq> [] \<and> live_primary_gtid as = Some p \<and> i_compare_ok i p \<and> \<not> i_sub i (my_gtid_now i) p) \<or>
      (\<exists>s' cs. up_to_clone c i been as s = (s', cs, True) \<and> carries_pre_gtid_data (group_pre_gtid_picture as) \<and>
        \<not> has_pre_gtid_data (fst s') \<and> my_gtid_now i = [])"
proof -
  have div: "pick_donor as = Some d \<and> (\<exists>p. my_gtid_now i \<noteq> [] \<and> live_primary_gtid as = Some p \<and>
      i_compare_ok i p \<and> \<not> i_sub i (my_gtid_now i) p)"
    if "Clone d \<in> cmds_of (divergence_stage i as z)" for z
    using that clone_stages by (fastforce simp: divergence_stage_def gtid_compare_def split: option.splits if_splits)
  have first: "pick_donor as = Some d \<and> carries_pre_gtid_data (group_pre_gtid_picture as) \<and>
      \<not> has_pre_gtid_data (fst z) \<and> my_gtid_now i = []"
    if "Clone d \<in> cmds_of (clone_first_stage i as z)" for z
  proof -
    have cond: "carries_pre_gtid_data (group_pre_gtid_picture as) \<and> \<not> has_pre_gtid_data (fst z) \<and> my_gtid_now i = []"
      and "Clone d \<in> cmds_of (clone_from_group i (pick_donor as) [] z)"
      using that by (auto simp: clone_first_stage_def split: if_splits)
    from clone_stages [OF this(2)] show ?thesis using cond by simp
  qed
  have "Clone d \<in> cmds_of (and_then (up_to_clone c i been as s) (clone_first_stage i as))"
    by (rule from_head [OF from_head [OF assms [unfolded joining_pass_split]]]) (rule no_clone_elsewhere)+
  then consider "Clone d \<in> cmds_of (up_to_clone c i been as s)"
    | s' cs where "up_to_clone c i been as s = (s', cs, True)" "Clone d \<in> cmds_of (clone_first_stage i as s')"
    using emitted_by by blast
  then have "pick_donor as = Some d \<and>
     ((\<exists>p. my_gtid_now i \<noteq> [] \<and> live_primary_gtid as = Some p \<and> i_compare_ok i p \<and> \<not> i_sub i (my_gtid_now i) p) \<or>
      (\<exists>s' cs. up_to_clone c i been as s = (s', cs, True) \<and> carries_pre_gtid_data (group_pre_gtid_picture as) \<and>
        \<not> has_pre_gtid_data (fst s') \<and> my_gtid_now i = []))"
  proof cases
    case 1
    then have "Clone d \<in> cmds_of (and_then (up_to_divergence c i as s) (divergence_stage i as))"
      by (intro from_head [OF from_head [OF 1 [unfolded up_to_clone_def]]] no_clone_elsewhere)
    moreover have "Clone d \<notin> cmds_of (up_to_divergence c i as s)"
      unfolding up_to_divergence_def by (intro absent_and_then no_clone_elsewhere)
    ultimately have "\<exists>z. Clone d \<in> cmds_of (divergence_stage i as z)"
      using emitted_by by blast
    then show ?thesis using div by blast
  next
    case 2
    then show ?thesis using first by blast
  qed
  then show "pick_donor as = Some d"
    and "(\<exists>p. my_gtid_now i \<noteq> [] \<and> live_primary_gtid as = Some p \<and> i_compare_ok i p \<and> \<not> i_sub i (my_gtid_now i) p) \<or>
      (\<exists>s' cs. up_to_clone c i been as s = (s', cs, True) \<and> carries_pre_gtid_data (group_pre_gtid_picture as) \<and>
        \<not> has_pre_gtid_data (fst s') \<and> my_gtid_now i = [])"
    by simp_all
qed

section \<open>When a node joins and when it clones\<close>

definition live_peer :: "config \<Rightarrow> pass_input \<Rightarrow> string \<Rightarrow> gr_state \<Rightarrow> bool" where
  "live_peer c i h st \<longleftrightarrow> h \<in> set (peer_hosts c) \<and> i_peer i h = State st \<and> group_active st"

lemma mem_answers: "(h, State st) \<in> set (peer_answers c i) \<longleftrightarrow> h \<in> set (peer_hosts c) \<and> i_peer i h = State st"
  by (auto simp: peer_answers_def)

lemma live_peer_iff: "(h, State st) \<in> set (peer_answers c i) \<and> group_active st \<longleftrightarrow> live_peer c i h st"
  by (auto simp: mem_answers live_peer_def)

lemma uuid_collision_None:
  assumes "uuid_collision_peer m as = None" and "(h, State st) \<in> set as" and "group_active st" and "server_uuid st = Some x"
  shows "\<not> eq_ic x m"
  using assms by (auto simp: uuid_collision_peer_def find_map_None active_state_def split: option.splits if_splits)

lemma carries_iff: "carries_pre_gtid_data (group_pre_gtid_picture (peer_answers c i)) \<longleftrightarrow>
    (\<exists>h st. live_peer c i h st \<and> pre_gtid_data st)"
  by (auto simp: picture_carries live_peer_iff [symmetric])

lemma unknown_iff: "unknown_peers (group_pre_gtid_picture (peer_answers c i)) = [] \<longleftrightarrow>
    (\<forall>h st. live_peer c i h st \<longrightarrow> pre_gtid_data st \<or> \<not> pre_gtid_data_unknown st)"
proof -
  have "unknown_peers (group_pre_gtid_picture (peer_answers c i)) = [] \<longleftrightarrow>
    set (unknown_peers (group_pre_gtid_picture (peer_answers c i))) = {}" by simp
  then show ?thesis unfolding picture_unknown live_peer_iff [symmetric] by blast
qed

lemma adopted_verdict_passes: "adopted_data_verdict hold been p \<in> {NotApplicable, GroupCarriesIt} \<longleftrightarrow>
    \<not> hold \<or> been \<or> carries_pre_gtid_data p"
  by (simp add: adopted_data_verdict_def)

text \<open>
  C6: When a node starts replication towards a live group. A pass that joins does so only
  with a live group in sight and no reclone under way; no live member has this node's server
  UUID; what it executed is inside the live primary's set (when both are known); if it holds
  adopted data and was never a member, a live member carries that data; and if it holds
  nothing at all, every live member said that the group carries no such data, so replaying
  binary logs gives it everything.
\<close>

theorem join_only_when_clear:
  assumes "Join_group \<in> cmds_of (orchestrate_pass u c s i)"
  shows "\<not> i_healing i \<and> (\<exists>h st. live_peer c i h st) \<and>
    (\<exists>m. i_uuid i = Some m \<and>
       (\<forall>h st x. live_peer c i h st \<and> server_uuid st = Some x \<longrightarrow> \<not> eq_ic x m)) \<and>
    (my_gtid_now i = [] \<or> live_primary_gtid (peer_answers c i) = None \<or>
       (\<exists>p. live_primary_gtid (peer_answers c i) = Some p \<and> i_sub i (my_gtid_now i) p)) \<and>
    (if has_pre_gtid_data (fst s)
     then has_been_group_member (i_member_gtid i) (fst s) (o_group_name (snd s)) \<or>
       has_been_group_member (i_member_gtid_again i) (fst s) (adopted_name (peer_answers c i) (snd s)) \<or>
       (\<exists>h st. live_peer c i h st \<and> pre_gtid_data st)
     else my_gtid_now i = [] \<longrightarrow>
       (\<forall>h st. live_peer c i h st \<longrightarrow> \<not> pre_gtid_data st \<and> \<not> pre_gtid_data_unknown st))"
proof (cases rule: pass_cases [of u c s i])
  case early
  then show ?thesis using assms by auto
next
  case (decides v st g considered)
  then show ?thesis using assms no_clone_or_join_in_guard by simp
next
  case (joins v st)
  have v: "v = fst s" using local_gr_state_frame(4) [OF joins(3)] joins(4) by simp
  let ?as = "peer_answers c i" and ?been = "has_been_group_member (i_member_gtid i) (fst s) (o_group_name (snd s))"
  let ?s = "(fst s, (snd s)\<lparr>gone_tracker := tracked c i (gone_tracker (snd s)), safe_since := None\<rparr>)"
  from joining_joins [OF assms [unfolded joins(7) v]] obtain s' cs where
    up: "up_to_clone c i ?been ?as ?s = (s', cs, True)"
    and first: "\<not> carries_pre_gtid_data (group_pre_gtid_picture ?as) \<or> has_pre_gtid_data (fst s') \<or>
      my_gtid_now i \<noteq> [] \<or> pick_donor ?as = None" by blast
  note r = reached_clone [OF up, simplified]
  have live: "\<exists>h st. live_peer c i h st"
    using joins(5) unfolding group_seen_iff live_peer_iff .
  have uuid: "\<exists>m. i_uuid i = Some m \<and> (\<forall>h st x. live_peer c i h st \<and> server_uuid st = Some x \<longrightarrow> \<not> eq_ic x m)"
    using r(1) uuid_collision_None unfolding live_peer_iff [symmetric] by blast
  have donor: "pick_donor ?as \<noteq> None" using joins(5) by (simp add: pick_donor_None)
  have adopted: "has_pre_gtid_data (fst s) \<Longrightarrow> ?been \<or>
       has_been_group_member (i_member_gtid_again i) (fst s) (adopted_name ?as (snd s)) \<or>
       (\<exists>h st. live_peer c i h st \<and> pre_gtid_data st)"
    using reached_clone(5) [OF up] unfolding adopted_verdict_passes carries_iff member_by_name_def by simp
  have fresh: "\<forall>h st. live_peer c i h st \<longrightarrow> \<not> pre_gtid_data st \<and> \<not> pre_gtid_data_unknown st"
    if "\<not> has_pre_gtid_data (fst s)" "my_gtid_now i = []"
  proof -
    have "\<not> carries_pre_gtid_data (group_pre_gtid_picture ?as)"
      using first donor that reached_clone(2) [OF up] by simp
    moreover from this have "unknown_peers (group_pre_gtid_picture ?as) = []"
      using reached_clone(6) [OF up] that by simp
    ultimately show ?thesis unfolding carries_iff unknown_iff by blast
  qed
  have gtid: "my_gtid_now i = [] \<or> live_primary_gtid ?as = None \<or>
       (\<exists>p. live_primary_gtid ?as = Some p \<and> i_sub i (my_gtid_now i) p)"
    using reached_clone(4) [OF up] by blast
  show ?thesis
    using joins(2) live uuid gtid adopted fresh by (cases "has_pre_gtid_data (fst s)") simp_all
qed

lemma set_as_read: "my_gtid_now i = (case i_gtid i of Some g \<Rightarrow> g | None \<Rightarrow> [])"
  by (simp add: my_gtid_now_def)

text \<open>
  C7: When a node throws its data away for a clone while it orchestrates. The donor is a declared
  peer that is in the live group, and its primary whenever one is in sight. Either this node read
  its set of transactions, and it has one that the live primary never executed; or its set is
  empty or could not be read in this pass, it holds no adopted data, and the group carries data
  that no binary log holds. (A node with a history whose set cannot be read is thus cloned in the
  second case too.)
\<close>

theorem clone_only_to_catch_up:
  assumes "Clone d \<in> cmds_of (orchestrate_pass u c s i)"
  shows "\<exists>st. live_peer c i d st \<and>
    ((\<exists>h st'. live_peer c i h st' \<and> member_role st' = Some ''PRIMARY'') = (member_role st = Some ''PRIMARY'')) \<and>
    ((\<exists>g p. i_gtid i = Some g \<and> g \<noteq> [] \<and> live_primary_gtid (peer_answers c i) = Some p \<and> \<not> i_sub i g p) \<or>
     (i_gtid i \<in> {None, Some []} \<and> \<not> has_pre_gtid_data (fst s) \<and> (\<exists>h st'. live_peer c i h st' \<and> pre_gtid_data st')))"
proof (cases rule: pass_cases [of u c s i])
  case early
  then show ?thesis using assms by auto
next
  case (decides v st g considered)
  then show ?thesis using assms no_clone_or_join_in_guard by simp
next
  case (joins v st)
  have v: "v = fst s" using local_gr_state_frame(4) [OF joins(3)] joins(4) by simp
  let ?as = "peer_answers c i"
  note j = joining_clones [OF assms [unfolded joins(7) v]]
  have reason: "(\<exists>p. my_gtid_now i \<noteq> [] \<and> live_primary_gtid ?as = Some p \<and> \<not> i_sub i (my_gtid_now i) p) \<or>
     (my_gtid_now i = [] \<and> \<not> has_pre_gtid_data (fst s) \<and> (\<exists>h st'. live_peer c i h st' \<and> pre_gtid_data st'))"
    using j(2)
  proof
    assume "\<exists>s' cs. up_to_clone c i (has_been_group_member (i_member_gtid i) (fst s) (o_group_name (snd s))) ?as
        (fst s, (snd s)\<lparr>gone_tracker := tracked c i (gone_tracker (snd s)), safe_since := None\<rparr>) = (s', cs, True) \<and>
      carries_pre_gtid_data (group_pre_gtid_picture ?as) \<and> \<not> has_pre_gtid_data (fst s') \<and> my_gtid_now i = []"
    then show ?thesis using reached_clone(2) unfolding carries_iff by fastforce
  qed blast
  obtain st' where st': "live_peer c i d st'"
    using pick_donor_active [OF j(1)] unfolding live_peer_iff by blast
  have uniq: "live_peer c i d x \<Longrightarrow> x = st'" for x using st' by (simp add: live_peer_def)
  have "member_role st' = Some ''PRIMARY''" if "live_peer c i h x" "member_role x = Some ''PRIMARY''" for h x
    using pick_donor_primary [of h x ?as d] that j(1) uniq unfolding live_peer_iff [symmetric] by blast
  moreover have "(\<exists>g p. i_gtid i = Some g \<and> g \<noteq> [] \<and> live_primary_gtid ?as = Some p \<and> \<not> i_sub i g p) \<or>
     (i_gtid i \<in> {None, Some []} \<and> \<not> has_pre_gtid_data (fst s) \<and> (\<exists>h st'. live_peer c i h st' \<and> pre_gtid_data st'))"
    using reason unfolding set_as_read by (cases "i_gtid i") auto
  ultimately show ?thesis using st' by blast
qed

text \<open>
  C8: Adopted data that never ran as a member is neither hidden nor overwritten by a group that
  formed without it. A volume that holds data predating any GTID history, of a node that has no
  membership marker and whose set of transactions is empty or unread in every reading of the pass,
  facing a live group of which no member carries such data: the pass neither joins, nor clones,
  nor forms a group. (With one transaction of its own the node is cloned over:
  \<open>divergence_overrides_adopted_guard\<close>.)
\<close>

theorem adopted_data_kept:
  assumes "has_pre_gtid_data (fst s)" and "\<not> member_file (fst s)"
    and "\<forall>g \<in> {i_gtid i, i_member_gtid i, i_member_gtid_again i}. g \<in> {None, Some []}"
    and "group_seen (peer_answers c i)" and "\<forall>h st. live_peer c i h st \<longrightarrow> \<not> pre_gtid_data st"
  shows "cmds_of (orchestrate_pass u c s i) \<inter> ({Join_group, Form_group} \<union> range Clone) = {}"
proof -
  have gtid: "my_gtid_now i = []" using assms(3) by (auto simp: my_gtid_now_def)
  have never: "\<not> has_been_group_member g (fst s) n" if "g \<in> {None, Some []}" for g n
    using that assms(2) by (auto simp: has_been_group_member_def read_member_marker_def)
  show ?thesis
  proof (cases rule: pass_cases [of u c s i])
    case early
    then show ?thesis by auto
  next
    case (decides v st g considered)
    then show ?thesis using assms(4) by simp
  next
    case (joins v st)
    have v: "v = fst s" using local_gr_state_frame(4) [OF joins(3)] joins(4) by simp
    let ?as = "peer_answers c i"
    have "up_to_clone c i (has_been_group_member (i_member_gtid i) (fst s) (o_group_name (snd s))) ?as
        (fst s, (snd s)\<lparr>gone_tracker := tracked c i (gone_tracker (snd s)), safe_since := None\<rparr>) \<noteq> (s', cs, True)" for s' cs
    proof
      assume "up_to_clone c i (has_been_group_member (i_member_gtid i) (fst s) (o_group_name (snd s))) ?as
        (fst s, (snd s)\<lparr>gone_tracker := tracked c i (gone_tracker (snd s)), safe_since := None\<rparr>) = (s', cs, True)"
      note r = reached_clone(5) [OF this, unfolded adopted_verdict_passes carries_iff member_by_name_def, simplified]
      have g: "i_member_gtid i \<in> {None, Some []}" "i_member_gtid_again i \<in> {None, Some []}"
        using assms(3) by blast+
      show False
        using r assms(1,5) never [OF g(1)] never [OF g(2)] by blast
    qed
    then have "Join_group \<notin> cmds_of (orchestrate_pass u c s i)" "Clone d \<notin> cmds_of (orchestrate_pass u c s i)" for d
      unfolding joins(7) v using joining_joins joining_clones(2) gtid by blast+
    then show ?thesis using joins(7) joining_forms_nothing by auto
  qed
qed

section \<open>Divergence before adoption\<close>

lemma live_primary_member:
  assumes "live_primary_gtid as = Some p"
  shows "group_seen as"
proof -
  from find_map_Some [OF assms [unfolded live_primary_gtid_def]] show ?thesis
    by (fastforce simp: group_seen_def list_ex_iff split: option.splits)
qed

lemma divergence_clones:
  assumes "my_gtid_now i \<noteq> []" and "live_primary_gtid as = Some p" and "i_compare_ok i p"
    and "\<not> i_sub i (my_gtid_now i) p" and "pick_donor as = Some d"
  shows "Clone d \<in> cmds_of (divergence_stage i as z)"
  using assms by (simp add: divergence_stage_def gtid_compare_def clone_from_group_def split: prod.splits)

lemma in_and_then: "x \<in> cmds_of r \<Longrightarrow> x \<in> cmds_of (and_then r f)"
  by (cases r) (auto simp: and_then_def split: prod.splits)

lemma diverged_pass_clones:
  assumes "\<not> i_healing i" and "local_gr_state u (i_marker_io i) (i_local i) (fst s) = (fst s, Some st)"
    and "\<not> group_active st" and "i_uuid i = Some m" and "uuid_collision_peer m (peer_answers c i) = None"
    and "live_identity (peer_answers c i) = Some (o_group_name (snd s), g)"
    and "i_gtid i = Some x" and "x \<noteq> []" and "live_primary_gtid (peer_answers c i) = Some p"
    and "i_compare_ok i p" and "\<not> i_sub i x p"
  obtains d where "Clone d \<in> cmds_of (orchestrate_pass u c s i)"
proof -
  let ?as = "peer_answers c i"
  have seen: "group_seen ?as" using live_primary_member [OF assms(9)] .
  then obtain d where d: "pick_donor ?as = Some d" using pick_donor_None [of ?as] by auto
  let ?s = "(fst s, (snd s)\<lparr>gone_tracker := tracked c i (gone_tracker (snd s)), safe_since := None\<rparr>)"
  let ?been = "has_been_group_member (i_member_gtid i) (fst s) (o_group_name (snd s))"
  have up: "up_to_divergence c i ?as ?s = (?s, [], True)"
    using assms(4-6) by (simp add: up_to_divergence_def collision_stage_def identity_stage_def proceed_def and_then_def)
  have "Clone d \<in> cmds_of (divergence_stage i ?as ?s)"
    using divergence_clones [OF _ assms(9,10) _ d] assms(7,8,11) by (simp add: my_gtid_now_def)
  then have "Clone d \<in> cmds_of (and_then (up_to_divergence c i ?as ?s) (divergence_stage i ?as))"
    by (simp add: up and_then_state)
  then have "Clone d \<in> cmds_of (joining_pass u c i ?been ?as ?s)"
    unfolding joining_pass_split up_to_clone_def
    by (rule in_and_then [OF in_and_then [OF in_and_then [OF in_and_then [OF in_and_then]]]])
  then have "Clone d \<in> cmds_of (orchestrate_pass u c s i)"
    using assms(1-3) seen
    by (auto simp: orchestrate_pass_def deciding_pass_def Let_def cmds_of_def split: prod.splits)
  then show thesis by (rule that)
qed

text \<open>
  The divergence check comes before the adopted-data guard. When this node's executed
  set is not inside the live primary's, the pass clones over the data directory, also when
  the guard of the next stage would have refused to join because the volume holds adopted
  data that the group does not carry. So a single transaction committed on an adopted volume
  between its first detection and the write fence leads to the reclone the guard exists to
  prevent.
\<close>

theorem divergence_overrides_adopted_guard:
  assumes "\<not> i_healing i" and "local_gr_state u (i_marker_io i) (i_local i) (fst s) = (fst s, Some st)"
    and "\<not> group_active st" and "i_uuid i = Some m" and "uuid_collision_peer m (peer_answers c i) = None"
    and "live_identity (peer_answers c i) = Some (o_group_name (snd s), g)"
    and "i_gtid i = Some x" and "x \<noteq> []" and "live_primary_gtid (peer_answers c i) = Some p"
    and "i_compare_ok i p" and "\<not> i_sub i x p"
    and "adopted_data_verdict (has_pre_gtid_data (fst s)) (has_been_group_member (i_member_gtid i) (fst s) (o_group_name (snd s)))
      (group_pre_gtid_picture (peer_answers c i)) = Refuse ls"
  shows "\<exists>d. Clone d \<in> cmds_of (orchestrate_pass u c s i)"
  using diverged_pass_clones [OF assms(1-11)] by blast

section \<open>Examples\<close>

text \<open>
  A node \<open>a\<close> beside \<open>b\<close> and \<open>c\<close>; \<open>p\<close> is what the peers
  answer, \<open>t\<close> the time and \<open>g\<close> this node's executed set. A set is inside another
  when the two are equal or it is empty.
\<close>

definition sample_state :: "bool \<Rightarrow> string \<Rightarrow> string \<Rightarrow> gr_state" where
  "sample_state active u g = \<lparr>group_active = active, member_state = (if active then Some ''ONLINE'' else None),
     member_role = (if active then Some ''PRIMARY'' else None), gtid_executed = Some g,
     members_total = 0, members_reachable = 0, pre_gtid_data = False, pre_gtid_data_unknown = False,
     server_uuid = Some u, group_name = Some ''n'', block_size = Some 1, waiver_generation = 0\<rparr>"

definition sample_pass :: "(string \<Rightarrow> peer_answer) \<Rightarrow> nat \<Rightarrow> string \<Rightarrow> pass_input" where
  "sample_pass p t g = \<lparr>i_healing = False, i_now = t,
     i_local = \<lparr>q_uuid = Some ''u'', q_members = Some [], q_gtid = Some g, q_pre_flag = None, q_block_size = Some 1\<rparr>,
     i_peer = p, i_probe = (\<lambda>_. Gone), i_member_gtid = Some g, i_member_gtid_again = Some g,
     i_uuid = Some ''u'', i_cnf_removed = True, i_name_set = True, i_gtid = Some g,
     i_sub = (\<lambda>x y. x = y \<or> x = []), i_compare_ok = (\<lambda>_. True), i_clone = Cloned,
     i_peer_block = (\<lambda>_ _ _. None), i_block_size = Some 1, i_block_set = True, i_joined = True,
     i_after_join = \<lparr>q_uuid = Some ''u'', q_members = Some [], q_gtid = Some g, q_pre_flag = None, q_block_size = Some 1\<rparr>,
     i_fresh_uuid = ''f'', i_formed = True, i_post_ok = True, i_flag_ok = (\<lambda>_. True), i_marker_io = True\<rparr>"

lemma sample_pass_simps [simp]:
  "i_healing (sample_pass p t g) = False" "i_now (sample_pass p t g) = t" "i_peer (sample_pass p t g) = p"
  "i_probe (sample_pass p t g) = (\<lambda>_. Gone)" "i_member_gtid (sample_pass p t g) = Some g"
  "i_member_gtid_again (sample_pass p t g) = Some g" "i_uuid (sample_pass p t g) = Some ''u''"
  "i_name_set (sample_pass p t g) = True" "i_gtid (sample_pass p t g) = Some g"
  "i_sub (sample_pass p t g) = (\<lambda>x y. x = y \<or> x = [])" "i_compare_ok (sample_pass p t g) = (\<lambda>_. True)"
  "i_clone (sample_pass p t g) = Cloned" "i_block_size (sample_pass p t g) = Some 1" "i_joined (sample_pass p t g) = True"
  "i_fresh_uuid (sample_pass p t g) = ''f''" "i_formed (sample_pass p t g) = True" "i_marker_io (sample_pass p t g) = True"
  "my_gtid_now (sample_pass p t g) = g"
  by (simp_all add: sample_pass_def my_gtid_now_def)

lemma sample_local: "\<exists>st. local_gr_state u io (i_local (sample_pass p t g)) v = (v, Some st) \<and> \<not> group_active st"
  by (simp add: sample_pass_def local_gr_state_def own_row_def group_active_from_def split: prod.splits)

lemma sample_decides:
  "fst (orchestrate_pass u c s (sample_pass p t g)) = fst (deciding_pass u c (sample_pass p t g) s)"
  "cmds_of (orchestrate_pass u c s (sample_pass p t g)) = cmds_of (deciding_pass u c (sample_pass p t g) s)"
  using sample_local [of u "i_marker_io (sample_pass p t g)" p t g "fst s"]
  by (auto simp: orchestrate_pass_def cmds_of_def split: prod.splits)

lemma sample_answers [simp]:
  "peer_answers (sample_config ''a'') (sample_pass p t g) = [(''b'', p ''b''), (''c'', p ''c'')]"
  by (simp add: peer_answers_def)

lemma sample_state_simps [simp]:
  "group_active (sample_state b u g) = b" "gtid_executed (sample_state b u g) = Some g"
  "pre_gtid_data (sample_state b u g) = False" "waiver_generation (sample_state b u g) = 0"
  "server_uuid (sample_state b u g) = Some u" "group_name (sample_state b u g) = Some ''n''"
  "pre_gtid_data_unknown (sample_state b u g) = False" "block_size (sample_state b u g) = Some 1"
  "active_state (State (sample_state b u g)) = (if b then Some (sample_state b u g) else None)"
  "member_role (sample_state b u g) = (if b then Some ''PRIMARY'' else None)"
  by (simp_all add: sample_state_def active_state_def)

text \<open>Both peers are up, idle and hold the same set; nobody is waived.\<close>

abbreviation idle :: "string \<Rightarrow> peer_answer" where
  "idle \<equiv> (\<lambda>_. State (sample_state False ''v'' ''x''))"

lemma idle_not_waived [simp]: "waives c (sample_pass idle t g) m k ha = False" if "snd ha \<noteq> Unreachable"
  using that by (simp add: waives_def)

lemma idle_safe: "classify_round (i_sub (sample_pass idle t ''x'')) (i_compare_ok (sample_pass idle t ''x''))
    (sample_config ''a'') (sample_volume False) ''x'' [(''b'', idle ''b''), (''c'', idle ''c'')] = Some SafeToBootstrap"
  by (simp add: classify_round_def group_seen_def relation_to_def gtid_compare_def decide_def wins_tie_def
      tie_peer_wins_def rank_or_last_def my_seed_rank_def seed_rank_def eq_ic_def ascii_lower_def char_code_def
      has_pre_gtid_data_def sample_volume_def)

lemma idle_decides:
  assumes "fst s = sample_volume False"
  shows "deciding_pass u (sample_config ''a'') (sample_pass idle t ''x'') s =
    safe_stage (sample_config ''a'') (sample_pass idle t ''x'') False [(''b'', idle ''b''), (''c'', idle ''c'')]
      (fst s, (snd s)\<lparr>gone_tracker := tracked (sample_config ''a'') (sample_pass idle t ''x'') (gone_tracker (snd s))\<rparr>)"
  using idle_safe [of t] assms
  by (simp add: deciding_pass_def Let_def group_seen_def guard_stage_def)

lemma idle_first_pass:
  "orch_step u (sample_config ''a'') (sample_volume False, orchestrate_start ''n'') (sample_pass idle 0 ''x'') =
     (sample_volume False, (orchestrate_start ''n'')\<lparr>gone_tracker := tracked (sample_config ''a'') (sample_pass idle 0 ''x'') new_tracker,
        safe_since := Some 0\<rparr>)"
  by (simp add: orch_step_def sample_decides idle_decides safe_stage_def orchestrate_start_def finish_def)

lemma idle_second_pass_forms:
  "Form_group \<in> cmds_of (orchestrate_pass u (sample_config ''a'')
     (foldl (orch_step u (sample_config ''a'')) (sample_volume False, orchestrate_start ''n'') [sample_pass idle 0 ''x''])
     (sample_pass idle 15 ''x''))"
  by (simp add: idle_first_pass sample_decides idle_decides safe_stage_def proceed_def and_then_state form_stage_def)

lemma group_formed_after_dwell_witness:
  "judged_safe (\<lambda>_. True) (sample_config ''a'') (foldl (orch_step (\<lambda>_. True) (sample_config ''a''))
     (sample_volume False, orchestrate_start ''n'') [sample_pass idle 0 ''x'']) (sample_pass idle 15 ''x'')"
  by (rule group_formed_after_dwell [OF refl idle_second_pass_forms, THEN conjunct1])

text \<open>
  The witnesses of the other theorems: \<open>b\<close> is gone with its name for 1800 seconds;
  \<open>b\<close> is the primary of a live group.
\<close>

definition gone_b :: "string \<Rightarrow> peer_answer" where
  "gone_b h = (if h = ''b'' then Unreachable else State (sample_state False ''v'' ''x''))"

definition waiting :: orch where
  "waiting = (orchestrate_start ''n'')\<lparr>safe_since := Some 1700, gone_tracker := [''b'' \<mapsto> 0]\<rparr>"

lemma gone_b_simps [simp]: "gone_b ''b'' = Unreachable" "gone_b ''c'' = State (sample_state False ''v'' ''x'')"
  by (simp_all add: gone_b_def)

lemma gone_b_tracked [simp]:
  "tracked (sample_config ''a'') (sample_pass gone_b t g) [''b'' \<mapsto> 0] = [''b'' \<mapsto> 0]"
  by (simp add: tracked_def track_peer_def observe_def observe_reachable_def fun_eq_iff)

lemma gone_b_waived [simp]:
  "waives (sample_config ''a'') (sample_pass gone_b 1800 g) m [''b'' \<mapsto> 0] (''b'', Unreachable) = m"
  "waives (sample_config ''a'') (sample_pass gone_b 1800 g) m k (''c'', State st) = False"
  by (simp_all add: waives_def is_waived_def)

lemma gone_b_safe: "classify_round (i_sub (sample_pass gone_b t ''x'')) (i_compare_ok (sample_pass gone_b t ''x''))
    (sample_config ''a'') (sample_volume True) ''x'' [(''c'', gone_b ''c'')] = Some SafeToBootstrap"
  by (simp add: classify_round_def group_seen_def relation_to_def gtid_compare_def decide_def wins_tie_def
      tie_peer_wins_def has_pre_gtid_data_def sample_volume_def)

lemma gone_b_forms:
  "Form_group \<in> cmds_of (orchestrate_pass u (sample_config ''a'') (sample_volume True, waiting) (sample_pass gone_b 1800 ''x''))"
proof -
  have "has_pre_gtid_data (sample_volume True)" by (simp add: has_pre_gtid_data_def sample_volume_def)
  then have "deciding_pass u (sample_config ''a'') (sample_pass gone_b 1800 ''x'') (sample_volume True, waiting) =
      safe_stage (sample_config ''a'') (sample_pass gone_b 1800 ''x'') True [(''c'', gone_b ''c'')] (sample_volume True, waiting)"
    using gone_b_safe [of 1800]
    by (simp add: deciding_pass_def Let_def group_seen_def guard_stage_def waiting_def active_state_def)
  then show ?thesis
    by (simp add: sample_decides safe_stage_def waiting_def fence_identity_def Let_def and_then_state form_stage_def)
qed

lemma every_peer_accounted_for_witness:
  "(\<exists>st gtid. gone_b ''b'' = State st \<and> \<not> group_active st \<and> gtid_executed st = Some gtid) \<or>
    (gone_b ''b'' = Unreachable \<and> is_waived [''b'' \<mapsto> 0] ''b'' 1800 1800)"
  using every_peer_accounted_for [OF gone_b_forms, of "''b''"] by (auto simp: waiting_def)


text \<open>\<open>b\<close> is the primary of a live group and holds \<open>x\<close>; \<open>c\<close> is down.\<close>

definition live_b :: "string \<Rightarrow> peer_answer" where
  "live_b h = (if h = ''b'' then State (sample_state True ''v'' ''x'') else Unreachable)"

lemma live_b_simps [simp]: "live_b ''b'' = State (sample_state True ''v'' ''x'')" "live_b ''c'' = Unreachable"
  by (simp_all add: live_b_def)

lemma live_b_peer: "live_peer (sample_config ''a'') (sample_pass live_b t g) h st \<longleftrightarrow> h = ''b'' \<and> st = sample_state True ''v'' ''x''"
  by (auto simp: live_peer_def live_b_def)

lemma live_b_seen [simp]: "group_seen (peer_answers (sample_config ''a'') (sample_pass live_b t g))"
  by (simp add: group_seen_def)

lemma live_b_identity [simp]: "live_identity (peer_answers (sample_config ''a'') (sample_pass live_b t g)) = Some (''n'', 0)"
  "live_primary_gtid (peer_answers (sample_config ''a'') (sample_pass live_b t g)) = Some ''x''"
  "pick_donor (peer_answers (sample_config ''a'') (sample_pass live_b t g)) = Some ''b''"
  "uuid_collision_peer ''u'' (peer_answers (sample_config ''a'') (sample_pass live_b t g)) = None"
  "group_pre_gtid_picture (peer_answers (sample_config ''a'') (sample_pass live_b t g)) =
     \<lparr>carries_pre_gtid_data = False, unknown_peers = [], live_peers = [''b'']\<rparr>"
  by (simp_all add: live_identity_def live_primary_gtid_def pick_donor_def donors_def List.map_filter_def
      uuid_collision_peer_def eq_ic_def ascii_lower_def char_code_def group_pre_gtid_picture_def
      empty_picture_def picture_add_def active_state_def Let_def)

lemma divergence_overrides_adopted_guard_witness:
  "\<exists>d. Clone d \<in> cmds_of (orchestrate_pass (\<lambda>_. True) (sample_config ''a'')
     (sample_volume True, orchestrate_start ''n'') (sample_pass live_b 0 ''y''))"
proof -
  obtain st where st: "local_gr_state (\<lambda>_. True) True (i_local (sample_pass live_b 0 ''y'')) (sample_volume True) =
      (sample_volume True, Some st)" "\<not> group_active st"
    using sample_local by blast
  have never: "\<not> has_been_group_member (Some ''y'') (sample_volume True) ''n''"
    by (simp add: has_been_group_member_def read_member_marker_def sample_volume_def starts_with_def)
  have hold: "has_pre_gtid_data (sample_volume True)" by (simp add: has_pre_gtid_data_def sample_volume_def)
  show ?thesis
    by (rule divergence_overrides_adopted_guard [where st = st and m = "''u''" and g = 0 and x = "''y''" and p = "''x''" and ls = "[''b'']"])
       (simp_all add: st never hold orchestrate_start_def adopted_data_verdict_def del: sample_answers)
qed

lemma live_b_clones:
  obtains d where "Clone d \<in> cmds_of (orchestrate_pass (\<lambda>_. True) (sample_config ''a'')
     (sample_volume True, orchestrate_start ''n'') (sample_pass live_b 0 ''y''))"
proof -
  obtain st where st: "local_gr_state (\<lambda>_. True) True (i_local (sample_pass live_b 0 ''y'')) (sample_volume True) =
      (sample_volume True, Some st)" "\<not> group_active st"
    using sample_local by blast
  show thesis
    by (rule diverged_pass_clones [of "sample_pass live_b 0 ''y''" "\<lambda>_. True" "(sample_volume True, orchestrate_start ''n'')"
          st "''u''" "sample_config ''a''" 0 "''y''" "''x''"])
       (simp_all add: st orchestrate_start_def that del: sample_answers)
qed

lemma clone_only_to_catch_up_witness:
  "\<exists>d st. live_peer (sample_config ''a'') (sample_pass live_b 0 ''y'') d st"
proof (rule live_b_clones)
  fix d
  assume d: "Clone d \<in> cmds_of (orchestrate_pass (\<lambda>_. True) (sample_config ''a'')
     (sample_volume True, orchestrate_start ''n'') (sample_pass live_b 0 ''y''))"
  from clone_only_to_catch_up [OF d] show ?thesis by blast
qed

lemma live_b_joins:
  "Join_group \<in> cmds_of (orchestrate_pass (\<lambda>_. True) (sample_config ''a'')
     (sample_volume False, orchestrate_start ''n'') (sample_pass live_b 0 ''x''))"
proof -
  let ?as = "peer_answers (sample_config ''a'') (sample_pass live_b 0 ''x'')"
  have no: "\<not> has_pre_gtid_data (sample_volume False)" by (simp add: has_pre_gtid_data_def sample_volume_def)
  have block: "resolve_peer_block_sizes q ?as = Some ?as" "block_size_to_adopt (Some 1) ?as = None" for q
    by (simp_all add: resolve_peer_block_sizes_def block_size_to_adopt_def)
  show ?thesis
    by (simp add: sample_decides deciding_pass_def Let_def joining_pass_def collision_stage_def identity_stage_def
        divergence_stage_def gtid_compare_def adopted_stage_def adopted_data_verdict_def no unknown_flag_stage_def
        clone_first_stage_def block_size_stage_def block join_stage_def proceed_def and_then_state
        orchestrate_start_def and_then_def del: sample_answers)
qed

lemma join_only_when_clear_witness:
  "\<not> i_healing (sample_pass live_b 0 ''x'') \<and> (\<exists>h st. live_peer (sample_config ''a'') (sample_pass live_b 0 ''x'') h st)"
  using join_only_when_clear [OF live_b_joins] by blast

lemma adopted_data_kept_witness:
  "cmds_of (orchestrate_pass (\<lambda>_. True) (sample_config ''a'') (sample_volume True, orchestrate_start ''n'')
     (sample_pass live_b 0 [])) \<inter> ({Join_group, Form_group} \<union> range Clone) = {}"
  by (rule adopted_data_kept)
     (auto simp: has_pre_gtid_data_def sample_volume_def live_b_peer simp del: sample_answers)

end
