(* ===== verification/Health.thy ===== *)
theory Health
  imports Volume
begin

text \<open>
  The node's HTTP surface: the write-routing fence \<open>/role\<close> and the other routes of
  \<open>health_server.rs\<close>, the credential of its mutating routes (\<open>health_auth.rs\<close>)
  and the hand-off before a planned stop (\<open>demote_on_shutdown.rs\<close>). What the database
  answers is the record \<open>db\<close>; base64, UTF-8 validation and the constant-time comparison
  are parameters.
\<close>

section \<open>The database as the handlers see it\<close>

datatype ping_result = PingOk | PingDenied | PingFailed

record db =
  d_ping :: ping_result
  d_init_temp :: "bool option"
  d_uuid :: "string option"
  d_members :: "member_row list option"
  d_set_primary :: "string \<Rightarrow> bool"
  d_deadline_met :: bool

text \<open>\<open>AppState\<close>, its shared flags read at the time of the request.\<close>

record app_state =
  standalone :: bool
  standalone_initialized :: bool
  adoption_checked :: bool
  membership_fenced :: bool

definition ping_ok :: "db \<Rightarrow> bool" where
  "ping_ok d \<longleftrightarrow> d_ping d = PingOk"

definition sql_ping_standalone :: "db \<Rightarrow> bool" where
  "sql_ping_standalone d = (case d_ping d of PingDenied \<Rightarrow> True | PingOk \<Rightarrow> True | PingFailed \<Rightarrow> False)"

definition ping_standalone :: "db \<Rightarrow> app_state \<Rightarrow> app_state \<times> bool" where
  "ping_standalone d st =
     (if standalone_initialized st then (st, sql_ping_standalone d)
      else (case d_init_temp d of
        Some False \<Rightarrow> (st\<lparr>standalone_initialized := True\<rparr>, sql_ping_standalone d)
      | _ \<Rightarrow> (st, False)))"

section \<open>The routes that read\<close>

datatype body =
    Text string
  | Role_primary
  | Role_fenced string
  | Role_replica string bool
  | Role_unknown string
  | State_json gr_state

type_synonym response = "nat \<times> body"

definition health :: "db \<Rightarrow> app_state \<Rightarrow> app_state \<times> response" where
  "health d st =
     (let (st', ok) = (if standalone st then ping_standalone d st else (st, ping_ok d)) in
      (st', if ok then (200, Text ''ok'') else (503, Text ''mysqld not answering'')))"

datatype role_answer =
    VPrimary
  | VFenced string
  | VReplica string
  | VUnavailable string

definition role_verdict :: "member_row list \<Rightarrow> string \<Rightarrow> bool \<Rightarrow> role_answer" where
  "role_verdict ms self fenced =
     (let own = own_row ms self;
          st = (case own of None \<Rightarrow> ''OFFLINE'' | Some m \<Rightarrow> m_state m);
          holds = (case own of None \<Rightarrow> False | Some m \<Rightarrow> m_role m = ''PRIMARY'') in
      if role_is_writable_primary ms self then (if fenced then VFenced st else VPrimary)
      else if holds then VFenced st else VReplica st)"

definition ready_replica_states :: "string list" where
  "ready_replica_states = [''ONLINE'']"

definition role_reply :: "role_answer \<Rightarrow> response" where
  "role_reply v =
     (case v of
        VPrimary \<Rightarrow> (200, Role_primary)
      | VFenced s \<Rightarrow> (503, Role_fenced s)
      | VReplica s \<Rightarrow> (503, Role_replica s (s \<in> set ready_replica_states))
      | VUnavailable r \<Rightarrow> (503, Role_unknown r))"

definition role :: "db \<Rightarrow> app_state \<Rightarrow> app_state \<times> response" where
  "role d st =
     (if standalone st then
        (let (st', ok) = ping_standalone d st in
         (st', role_reply (if ok then VPrimary else VUnavailable ''mysqld not answering'')))
      else (st, role_reply (case (d_uuid d, d_members d) of
        (Some uuid, Some ms) \<Rightarrow> role_verdict ms uuid (membership_fenced st)
      | _ \<Rightarrow> VUnavailable ''state unavailable'')))"

text \<open>\<open>answer\<close> is what \<open>local_gr_state\<close> returns when it is called.\<close>

definition gr_state_route :: "gr_state option \<Rightarrow> app_state \<Rightarrow> response" where
  "gr_state_route answer st =
     (if \<not> adoption_checked st then (503, Text ''adoption detection not yet complete'')
      else (case answer of Some s \<Rightarrow> (200, State_json s) | None \<Rightarrow> (503, Text ''state unavailable'')))"

section \<open>Switchover\<close>

text \<open>The commands a handler issues: \<open>group_replication_set_as_primary\<close> of a member.\<close>

definition switchover :: "db \<Rightarrow> app_state \<Rightarrow> (app_state \<times> string list) \<times> response" where
  "switchover d st =
     (if standalone st then
        (let (st', ok) = ping_standalone d st in
         ((st', []), if ok then (200, Text ''already primary (standalone)'') else (503, Text ''mysqld not answering'')))
      else (case (d_uuid d, d_members d) of
        (Some uuid, Some ms) \<Rightarrow>
          if role_is_writable_primary ms uuid then
            ((st, []), if d_deadline_met d then (200, Text ''already primary'') else (503, Text ''switchover timed out''))
          else ((st, [uuid]),
            if \<not> d_deadline_met d then (503, Text ''switchover timed out'')
            else if d_set_primary d uuid then (200, Text ''switchover complete'')
            else (503, Text ''switchover refused''))
      | _ \<Rightarrow> ((st, []), (503, Text (if d_deadline_met d then ''switchover refused'' else ''switchover timed out'')))))"

section \<open>The credential of the mutating routes\<close>

record credential =
  username :: string
  password :: string

definition default_username :: string where "default_username = ''railway''"

definition from_env_values :: "string option \<Rightarrow> string option \<Rightarrow> credential option" where
  "from_env_values user pass =
     (case pass of
        None \<Rightarrow> None
      | Some p \<Rightarrow>
          if trim p = [] then None
          else Some \<lparr>username = (case user of Some u \<Rightarrow> if trim u = [] then default_username else trim u
                                   | None \<Rightarrow> default_username),
                     password = trim p\<rparr>)"

definition split_once :: "char \<Rightarrow> string \<Rightarrow> (string \<times> string) option" where
  "split_once c s = (if c \<in> set s then Some (takeWhile (\<lambda>x. x \<noteq> c) s, tl (dropWhile (\<lambda>x. x \<noteq> c) s)) else None)"

definition parse_basic :: "(string \<Rightarrow> string option) \<Rightarrow> (string \<Rightarrow> bool) \<Rightarrow> string \<Rightarrow> (string \<times> string) option" where
  "parse_basic b64 utf8 header =
     (case split_once (CHR '' '') (trim header) of
        None \<Rightarrow> None
      | Some (scheme, encoded) \<Rightarrow>
          if \<not> eq_ic scheme ''basic'' then None
          else (case b64 (trim encoded) of
            None \<Rightarrow> None
          | Some decoded \<Rightarrow> if utf8 decoded then split_once (CHR '':'') decoded else None))"

definition accepts ::
  "(string \<Rightarrow> string option) \<Rightarrow> (string \<Rightarrow> bool) \<Rightarrow> (string \<Rightarrow> string \<Rightarrow> bool) \<Rightarrow> credential \<Rightarrow> string option \<Rightarrow> bool" where
  "accepts b64 utf8 ct_eq c header =
     (case Option.bind header (parse_basic b64 utf8) of
        None \<Rightarrow> False
      | Some (u, p) \<Rightarrow> ct_eq u (username c) \<and> ct_eq p (password c))"

text \<open>
  \<open>require_credential\<close>: whether the request reaches its handler. \<open>root_env\<close> is the
  raw \<open>MYSQL_ROOT_PASSWORD\<close>, \<open>pin\<close> the pinned root password on the volume.
\<close>

definition live_credential :: "string option \<Rightarrow> string option \<Rightarrow> credential \<Rightarrow> credential" where
  "live_credential root_env pin c =
     (if root_env = Some (password c) then
        (case pin of Some p \<Rightarrow> c\<lparr>password := p\<rparr> | None \<Rightarrow> c)
      else c)"

definition require_credential ::
  "(string \<Rightarrow> string option) \<Rightarrow> (string \<Rightarrow> bool) \<Rightarrow> (string \<Rightarrow> string \<Rightarrow> bool) \<Rightarrow>
     string option \<Rightarrow> string option \<Rightarrow> credential option \<Rightarrow> string option \<Rightarrow> bool" where
  "require_credential b64 utf8 ct_eq root_env pin guard header =
     (case guard of
        None \<Rightarrow> True
      | Some c \<Rightarrow> accepts b64 utf8 ct_eq (live_credential root_env pin c) header)"

datatype route = Get_health | Get_role | Get_gr_state | Get_pitr | Post_rotate | Post_switchover | Post_full_backup

fun mutating :: "route \<Rightarrow> bool" where
  "mutating Post_switchover = True"
| "mutating Post_full_backup = True"
| "mutating _ = False"

text \<open>\<open>app\<close>: does the request get past the router, or is it answered 401?\<close>

definition admitted ::
  "(string \<Rightarrow> string option) \<Rightarrow> (string \<Rightarrow> bool) \<Rightarrow> (string \<Rightarrow> string \<Rightarrow> bool) \<Rightarrow>
     string option \<Rightarrow> string option \<Rightarrow> credential option \<Rightarrow> string option \<Rightarrow> route \<Rightarrow> bool" where
  "admitted b64 utf8 ct_eq root_env pin guard header r \<longleftrightarrow>
     (mutating r \<longrightarrow> require_credential b64 utf8 ct_eq root_env pin guard header)"

section \<open>Handing the primary role off\<close>

definition choose_target :: "member_row list \<Rightarrow> string \<Rightarrow> string option" where
  "choose_target ms self =
     map_option member_id (min_by (\<lambda>a b. cmp_lin (m_host a) (m_host b))
       (filter (\<lambda>m. m_state m = ''ONLINE'' \<and> m_role m = ''SECONDARY'' \<and> \<not> eq_ic (member_id m) self) ms))"

definition drain_timeout_secs :: nat where "drain_timeout_secs = 15"

text \<open>The commands of \<open>demote_if_primary\<close>: at most one hand-off, to the member named.\<close>

definition demote_if_primary :: "db \<Rightarrow> string list" where
  "demote_if_primary d =
     (case (d_uuid d, d_members d) of
        (Some uuid, Some ms) \<Rightarrow>
          if \<not> role_is_writable_primary ms uuid then []
          else (case choose_target ms uuid of None \<Rightarrow> [] | Some t \<Rightarrow> [t])
      | _ \<Rightarrow> [])"

section \<open>What the fence promises\<close>

lemma role_200:
  "fst (snd (role d st)) = 200 \<longleftrightarrow>
     (if standalone st
      then (standalone_initialized st \<or> d_init_temp d = Some False) \<and> d_ping d \<noteq> PingFailed
      else \<not> membership_fenced st \<and>
        (\<exists>uuid ms m. d_uuid d = Some uuid \<and> d_members d = Some ms \<and> own_row ms uuid = Some m \<and>
           m_state m = ''ONLINE'' \<and> m_role m = ''PRIMARY'' \<and> has_majority (reachable_count ms) (length ms)))"
proof -
  have reply: "fst (role_reply v) = 200 \<longleftrightarrow> v = VPrimary" for v
    by (cases v) (simp_all add: role_reply_def)
  have verdict: "role_verdict ms u f = VPrimary \<longleftrightarrow> role_is_writable_primary ms u \<and> \<not> f" for ms u f
    by (simp add: role_verdict_def Let_def)
  have writable: "role_is_writable_primary ms u \<longleftrightarrow>
      (\<exists>m. own_row ms u = Some m \<and> m_state m = ''ONLINE'' \<and> m_role m = ''PRIMARY'' \<and>
         has_majority (reachable_count ms) (length ms))" for ms u
    by (auto simp: role_is_writable_primary_def has_majority_def own_row_def split: option.splits)
  show ?thesis
    by (cases "d_ping d")
       (auto simp: role_def reply verdict writable ping_standalone_def sql_ping_standalone_def
         split: option.splits bool.splits)
qed

text \<open>
  C11: \<open>/role\<close> answers 200, the status HAProxy routes writes on, exactly when the node is a
  standalone server that answers (and, on a fresh volume, has left its initialisation), or
  a group member whose own view makes it the ONLINE PRIMARY with a strict majority of the
  view reachable while the membership fence is down. Every failed read is a 503.
\<close>

theorem role_200_iff:
  "fst (snd (role d st)) = 200 \<longleftrightarrow>
     (if standalone st
      then (standalone_initialized st \<or> d_init_temp d = Some False) \<and> d_ping d \<noteq> PingFailed
      else \<not> membership_fenced st \<and>
        (\<exists>uuid ms m. d_uuid d = Some uuid \<and> d_members d = Some ms \<and> own_row ms uuid = Some m \<and>
           m_state m = ''ONLINE'' \<and> m_role m = ''PRIMARY'' \<and> has_majority (reachable_count ms) (length ms)))"
  by (rule role_200)

lemma role_200_majority:
  assumes "\<not> standalone s" and "d_members d = Some ms" and "fst (snd (role d s)) = 200"
  shows "has_majority (reachable_count ms) (length ms)"
proof (cases "d_uuid d")
  case None
  then show ?thesis using assms by (simp add: role_def role_reply_def)
next
  case (Some u)
  show ?thesis
  proof (cases "role_is_writable_primary ms u")
    case True
    then show ?thesis by (rule writable_primary_majority)
  next
    case False
    then show ?thesis
      using assms Some by (simp add: role_def role_reply_def role_verdict_def Let_def split: if_splits)
  qed
qed

lemma reachable_card:
  assumes "distinct (map member_id ms)"
  shows "reachable_count ms = card {member_id m | m. m \<in> set ms \<and> m_state m \<noteq> ''UNREACHABLE''}"
    and "length ms = card (member_id ` set ms)"
proof -
  have "{member_id m | m. m \<in> set ms \<and> m_state m \<noteq> ''UNREACHABLE''} =
      set (map member_id (filter (\<lambda>m. m_state m \<noteq> ''UNREACHABLE'') ms))" by auto
  moreover have "distinct (map member_id (filter (\<lambda>m. m_state m \<noteq> ''UNREACHABLE'') ms))"
    using assms by (rule distinct_map_filter)
  ultimately show "reachable_count ms = card {member_id m | m. m \<in> set ms \<and> m_state m \<noteq> ''UNREACHABLE''}"
    unfolding reachable_count_def
    using distinct_card [of "map member_id (filter (\<lambda>m. m_state m \<noteq> ''UNREACHABLE'') ms)"] by simp
  show "length ms = card (member_id ` set ms)"
    using distinct_card [OF assms] by simp
qed

text \<open>
  C12: No split brain through \<open>/role\<close>: two group members whose views list the same members
  but which reach disjoint parts of them (a partition) are never both routed to.
\<close>

theorem partition_routes_one_primary:
  assumes "\<not> standalone s1" and "\<not> standalone s2"
    and "d_members d1 = Some ms1" and "d_members d2 = Some ms2"
    and "distinct (map member_id ms1)" and "distinct (map member_id ms2)"
    and "member_id ` set ms1 = member_id ` set ms2"
    and "{member_id m | m. m \<in> set ms1 \<and> m_state m \<noteq> ''UNREACHABLE''} \<inter>
      {member_id m | m. m \<in> set ms2 \<and> m_state m \<noteq> ''UNREACHABLE''} = {}"
    and "fst (snd (role d1 s1)) = 200"
  shows "fst (snd (role d2 s2)) = 503"
proof -
  have "\<not> has_majority (reachable_count ms2) (length ms2)"
    unfolding reachable_card [OF assms(6)]
    by (rule view.exclusive [of "member_id ` set ms2" "{member_id m | m. m \<in> set ms1 \<and> m_state m \<noteq> ''UNREACHABLE''}"])
       (use assms(7,8) role_200_majority [OF assms(1,3,9)] reachable_card [OF assms(5)] in auto)
  then have "fst (snd (role d2 s2)) \<noteq> 200"
    using role_200_majority [OF assms(2,4)] by blast
  then show ?thesis
    using assms(2) by (simp add: role_def role_reply_def split: role_answer.splits)
qed

text \<open>
  \<open>/gr/state\<close>, which the peers' bootstrap guards read, is closed until the adoption
  check has settled what this volume is, and afterwards answers 200 exactly when the
  database could be read.
\<close>

theorem gr_state_waits_for_adoption:
  "fst (gr_state_route answer st) = 200 \<longleftrightarrow> adoption_checked st \<and> answer \<noteq> None"
  by (auto simp: gr_state_route_def split: option.splits)

lemma split_once_Some:
  "split_once c s = Some (u, p) \<longleftrightarrow> s = u @ c # p \<and> c \<notin> set u"
proof
  assume a: "split_once c s = Some (u, p)"
  then have c: "c \<in> set s" and u: "u = takeWhile (\<lambda>x. x \<noteq> c) s" and p: "p = tl (dropWhile (\<lambda>x. x \<noteq> c) s)"
    by (auto simp: split_once_def split: if_splits)
  have ne: "dropWhile (\<lambda>x. x \<noteq> c) s \<noteq> []" using c by (simp add: dropWhile_eq_Nil_conv)
  from hd_dropWhile [OF this] have "hd (dropWhile (\<lambda>x. x \<noteq> c) s) = c" by simp
  then have "dropWhile (\<lambda>x. x \<noteq> c) s = c # p"
    unfolding p using ne by (metis list.collapse)
  then have "s = u @ c # p"
    unfolding u using takeWhile_dropWhile_id [of "\<lambda>x. x \<noteq> c" s] by simp
  moreover have "c \<notin> set u" unfolding u using set_takeWhileD by fastforce
  ultimately show "s = u @ c # p \<and> c \<notin> set u" by simp
next
  assume "s = u @ c # p \<and> c \<notin> set u"
  moreover from this have "takeWhile (\<lambda>x. x \<noteq> c) (u @ c # p) = u" and "dropWhile (\<lambda>x. x \<noteq> c) (u @ c # p) = c # p"
    by (auto simp: takeWhile_append dropWhile_append)
  ultimately show "split_once c s = Some (u, p)" by (auto simp: split_once_def)
qed

text \<open>
  C34: A request that would change the group (the planned switchover and the request for a
  full backup) gets past the router exactly while no password is configured, which leaves
  those routes open, or when its \<open>Authorization\<close> header, read as Basic credentials,
  carries the configured user name and the live password: the pinned root password when the
  configured one is the root variable's, the configured one otherwise. With a password
  configured no header, another scheme, undecodable base64 and a missing colon are all
  refused. The other routes are not behind this check.
\<close>

theorem mutating_needs_credential:
  assumes "\<And>a b. ct_eq a b \<longleftrightarrow> a = b"
  shows "admitted b64 utf8 ct_eq root_env pin guard header r \<longleftrightarrow>
    (r = Post_switchover \<or> r = Post_full_backup \<longrightarrow> (case guard of None \<Rightarrow> True | Some c \<Rightarrow>
       (\<exists>h scheme encoded decoded. header = Some h \<and>
          trim h = scheme @ CHR '' '' # encoded \<and> CHR '' '' \<notin> set scheme \<and> eq_ic scheme ''basic'' \<and>
          b64 (trim encoded) = Some decoded \<and> utf8 decoded \<and>
          (let live = (if root_env = Some (password c) \<and> pin \<noteq> None then the pin else password c) in
           decoded = username c @ CHR '':'' # live \<and> CHR '':'' \<notin> set (username c)))))"
proof -
  have live: "username (live_credential root_env pin c) = username c"
    "password (live_credential root_env pin c) =
      (if root_env = Some (password c) \<and> pin \<noteq> None then the pin else password c)" for c
    by (auto simp: live_credential_def split: option.splits)
  have basic: "parse_basic b64 utf8 h = Some (u, p) \<longleftrightarrow>
      (\<exists>scheme encoded decoded. split_once (CHR '' '') (trim h) = Some (scheme, encoded) \<and>
         eq_ic scheme ''basic'' \<and> b64 (trim encoded) = Some decoded \<and> utf8 decoded \<and>
         split_once (CHR '':'') decoded = Some (u, p))" for h u p
    by (auto simp: parse_basic_def split: option.splits prod.splits if_splits)
  have accepts: "accepts b64 utf8 ct_eq l header \<longleftrightarrow>
      (\<exists>h. header = Some h \<and> parse_basic b64 utf8 h = Some (username l, password l))" for l
    using assms by (cases header) (auto simp: accepts_def split: option.splits)
  have mutating: "mutating r \<longleftrightarrow> r = Post_switchover \<or> r = Post_full_backup"
    by (cases r) simp_all
  show ?thesis
  proof (cases guard)
    case None
    then show ?thesis by (simp add: admitted_def require_credential_def)
  next
    case (Some c)
    have "accepts b64 utf8 ct_eq (live_credential root_env pin c) header \<longleftrightarrow>
      (\<exists>h scheme encoded decoded. header = Some h \<and>
          trim h = scheme @ CHR '' '' # encoded \<and> CHR '' '' \<notin> set scheme \<and> eq_ic scheme ''basic'' \<and>
          b64 (trim encoded) = Some decoded \<and> utf8 decoded \<and>
          (let live = (if root_env = Some (password c) \<and> pin \<noteq> None then the pin else password c) in
           decoded = username c @ CHR '':'' # live \<and> CHR '':'' \<notin> set (username c)))"
      unfolding accepts Let_def live basic split_once_Some by auto
    then show ?thesis
      by (simp only: Some option.case admitted_def require_credential_def mutating)
  qed
qed

lemma mutating_needs_credential_witness:
  "admitted (\<lambda>s. if s = ''cjpw'' then Some ''r:p:w'' else None) (\<lambda>_. True) (=) None None
     (from_env_values (Some ''r'') (Some ''p:w'')) (Some ''basic cjpw'') Post_switchover"
proof -
  have c: "from_env_values (Some ''r'') (Some ''p:w'') = Some \<lparr>username = ''r'', password = ''p:w''\<rparr>"
    and t: "trim ''basic cjpw'' = ''basic cjpw''" "trim ''cjpw'' = ''cjpw''"
    by (simp_all add: from_env_values_def trim_def trim_end_by_def is_ws_def char_code_def)
  show ?thesis
    unfolding c
    by (rule mutating_needs_credential [where ct_eq = "(=)", OF refl, THEN iffD2], unfold option.case,
        rule impI, rule exI [of _ "''basic cjpw''"], rule exI [of _ "''basic''"], rule exI [of _ "''cjpw''"])
       (simp add: t)
qed

lemma choose_target_None:
  "choose_target ms self = None \<longleftrightarrow>
     {m \<in> set ms. m_state m = ''ONLINE'' \<and> m_role m = ''SECONDARY'' \<and> \<not> eq_ic (member_id m) self} = {}"
  by (auto simp: choose_target_def filter_empty_conv)

text \<open>
  Before a planned stop the node hands the primary role off exactly when it is the
  writable primary and some other member is an ONLINE secondary, and then to one with the
  smallest host name among them; a secondary or a fenced node issues no command.
\<close>

theorem demote_hands_off:
  assumes "d_uuid d = Some uuid" and "d_members d = Some ms"
    and "heirs = {m \<in> set ms. m_state m = ''ONLINE'' \<and> m_role m = ''SECONDARY'' \<and> \<not> eq_ic (member_id m) uuid}"
  shows "(demote_if_primary d = [] \<longleftrightarrow> \<not> role_is_writable_primary ms uuid \<or> heirs = {}) \<and>
    (demote_if_primary d \<noteq> [] \<longrightarrow>
      (\<exists>m \<in> heirs. demote_if_primary d = [member_id m] \<and> (\<forall>x \<in> heirs. m_host m \<le> m_host x)))"
proof (intro conjI impI)
  let ?l = "filter (\<lambda>m. m_state m = ''ONLINE'' \<and> m_role m = ''SECONDARY'' \<and> \<not> eq_ic (member_id m) uuid) ms"
  let ?cmp = "\<lambda>a b. cmp_lin (m_host a) (m_host b)"
  have heirs: "heirs = set ?l" by (auto simp: assms(3))
  have none: "heirs = {} \<longleftrightarrow> choose_target ms uuid = None"
    using choose_target_None [of ms uuid] by (simp only: assms(3))
  show "demote_if_primary d = [] \<longleftrightarrow> \<not> role_is_writable_primary ms uuid \<or> heirs = {}"
    unfolding none using assms(1,2) by (simp add: demote_if_primary_def split: option.splits)
  assume "demote_if_primary d \<noteq> []"
  then obtain m where m: "min_by ?cmp ?l = Some m" and d: "demote_if_primary d = [member_id m]"
    using assms(1,2) by (auto simp: demote_if_primary_def choose_target_def split: option.splits if_splits)
  have "m_host m \<le> m_host x" if "x \<in> set ?l" for x
    by (rule min_by_key_min [OF m _ that]) (simp add: cmp_lin_iff)
  then show "\<exists>m \<in> heirs. demote_if_primary d = [member_id m] \<and> (\<forall>x \<in> heirs. m_host m \<le> m_host x)"
    using min_by_in [OF m] d unfolding heirs by blast
qed

section \<open>Examples\<close>

definition view_row :: "string \<Rightarrow> string \<Rightarrow> string \<Rightarrow> member_row" where
  "view_row h st r = \<lparr>member_id = h, m_host = h, m_state = st, m_role = r\<rparr>"

definition sample_db :: "string \<Rightarrow> member_row list \<Rightarrow> db" where
  "sample_db u ms = \<lparr>d_ping = PingOk, d_init_temp = Some False, d_uuid = Some u, d_members = Some ms,
     d_set_primary = (\<lambda>_. True), d_deadline_met = True\<rparr>"

definition grouped :: app_state where
  "grouped = \<lparr>standalone = False, standalone_initialized = False, adoption_checked = True, membership_fenced = False\<rparr>"

abbreviation majority_side :: "member_row list" where
  "majority_side \<equiv> [view_row ''a'' ''UNREACHABLE'' ''PRIMARY'', view_row ''b'' ''ONLINE'' ''PRIMARY'',
     view_row ''c'' ''ONLINE'' ''SECONDARY'']"

abbreviation minority_side :: "member_row list" where
  "minority_side \<equiv> [view_row ''a'' ''ONLINE'' ''PRIMARY'', view_row ''b'' ''UNREACHABLE'' ''SECONDARY'',
     view_row ''c'' ''UNREACHABLE'' ''SECONDARY'']"

lemma sample_db_simps [simp]:
  "d_uuid (sample_db u ms) = Some u" "d_members (sample_db u ms) = Some ms" "\<not> standalone grouped"
  "\<not> membership_fenced grouped"
  by (simp_all add: sample_db_def grouped_def)

lemma majority_side_routes: "fst (snd (role (sample_db ''b'' majority_side) grouped)) = 200"
  by (simp add: role_200 view_row_def own_row_def reachable_count_def has_majority_def eq_ic_def
      ascii_lower_def char_code_def)

lemma role_200_iff_witness: "fst (snd (role (sample_db ''b'' majority_side) grouped)) = 200"
  unfolding role_200_iff
  by (simp add: view_row_def own_row_def reachable_count_def has_majority_def eq_ic_def
      ascii_lower_def char_code_def)

lemma partition_routes_one_primary_witness:
  "fst (snd (role (sample_db ''a'' minority_side) grouped)) = 503"
  by (rule partition_routes_one_primary [of grouped grouped "sample_db ''b'' majority_side" majority_side _ minority_side])
     (simp_all add: majority_side_routes, auto simp: view_row_def)

lemma demote_hands_off_witness:
  "(\<exists>m \<in> {view_row ''c'' ''ONLINE'' ''SECONDARY''}. demote_if_primary (sample_db ''b'' majority_side) = [member_id m]) \<and>
   demote_if_primary (sample_db ''b'' majority_side) \<noteq> []"
proof -
  have heirs: "{view_row ''c'' ''ONLINE'' ''SECONDARY''} = {m \<in> set majority_side. m_state m = ''ONLINE'' \<and>
      m_role m = ''SECONDARY'' \<and> \<not> eq_ic (member_id m) ''b''}"
    by (auto simp: view_row_def eq_ic_def ascii_lower_def char_code_def)
  have w: "role_is_writable_primary majority_side ''b''"
    by (simp add: role_is_writable_primary_def view_row_def own_row_def reachable_count_def eq_ic_def
        ascii_lower_def char_code_def)
  from demote_hands_off [OF sample_db_simps(1,2) heirs] w show ?thesis by blast
qed

end
