(* ===== verification/Boot.thy ===== *)
theory Boot
  imports Orchestrate Health
begin

text \<open>
  What \<open>orchestrate\<close> does once, before its loop (\<open>gr.rs\<close>): settle what the
  volume is, so that \<open>/gr/state\<close> may answer; choose the recovery credential; raise the
  write fence or go down; and, for a node reverted to standalone, retire the recovery
  account. Waiting for the final mysqld and the reports are not modelled.
\<close>

section \<open>Adoption detection\<close>

text \<open>
  One attempt reads the executed set and, when that is empty, writes the marker; the two
  components are the answer and whether the write succeeds. The result is the volume and
  whether the gate of \<open>/gr/state\<close> was opened; the loop ends only by opening it.
\<close>

type_synonym adoption_try = "string option \<times> bool"

fun adoption_detection :: "adoption_try list \<Rightarrow> volume \<Rightarrow> volume \<times> bool" where
  "adoption_detection [] v = (v, False)"
| "adoption_detection ((gtid, io) # later) v =
     (case gtid of
        None \<Rightarrow> adoption_detection later v
      | Some g \<Rightarrow>
          if g = [] then (if io then (persist_pre_gtid io v, True) else adoption_detection later v)
          else (v, True))"

definition settle_identity :: "bool \<Rightarrow> adoption_try list \<Rightarrow> volume \<Rightarrow> volume \<times> bool" where
  "settle_identity fresh_datadir tries v =
     (if fresh_datadir then (v, True)
      else if \<not> has_pre_gtid_data v then adoption_detection tries v
      else (v, True))"

lemma adoption_detection_opens:
  "adoption_detection tries v = (v', True) \<Longrightarrow>
   has_pre_gtid_data v' \<or> (\<exists>g. g \<noteq> [] \<and> Some g \<in> fst ` set tries) \<and> v' = v"
  by (induction tries v rule: adoption_detection.induct)
     (auto simp: persist_pre_gtid_def has_pre_gtid_data_def split: option.splits if_splits)

lemma adoption_detection_ends:
  "t \<in> set tries \<Longrightarrow> fst t \<noteq> None \<Longrightarrow> snd t \<Longrightarrow> snd (adoption_detection tries v)"
  by (induction tries v rule: adoption_detection.induct) (auto split: option.splits)

text \<open>
  \<open>/gr/state\<close> never answers for an adopted volume before the volume says so. When
  the gate is open on a datadir that was not freshly initialised, the pre-GTID marker is on
  the volume, or a read of the server's executed set came back non-empty; and the gate does
  open as soon as one attempt reads the set and can write the marker.
\<close>

theorem gate_opens_on_settled_identity:
  "(snd (settle_identity False tries v) \<longrightarrow>
     has_pre_gtid_data (fst (settle_identity False tries v)) \<or> (\<exists>g. g \<noteq> [] \<and> Some g \<in> fst ` set tries)) \<and>
   ((\<exists>t \<in> set tries. fst t \<noteq> None \<and> snd t) \<longrightarrow> snd (settle_identity False tries v))"
proof (cases "has_pre_gtid_data v")
  case False
  have s: "settle_identity False tries v = adoption_detection tries v"
    using False by (simp add: settle_identity_def)
  show ?thesis
    unfolding s using adoption_detection_opens [of tries v "fst (adoption_detection tries v)"] adoption_detection_ends
    by (metis prod.collapse)
qed (simp add: settle_identity_def)

lemma gate_opens_on_settled_identity_witness:
  "has_pre_gtid_data (fst (settle_identity False [(None, True), (Some [], False), (Some [], True)] (sample_volume False)))"
  using gate_opens_on_settled_identity [of "[(None, True), (Some [], False), (Some [], True)]" "sample_volume False"]
  by auto

section \<open>The recovery credential\<close>

definition recovery_credential :: "string \<Rightarrow> string \<Rightarrow> string \<Rightarrow> string" where
  "recovery_credential env_recovery env_root active_root =
     (if env_recovery = env_root then active_root else env_recovery)"

section \<open>The write fence\<close>

definition FENCE_ATTEMPTS :: nat where "FENCE_ATTEMPTS = 3"

definition fence_should_retry :: "nat \<Rightarrow> nat \<Rightarrow> nat \<Rightarrow> bool" where
  "fence_should_retry attempt now deadline \<longleftrightarrow> attempt < FENCE_ATTEMPTS \<and> now < deadline"

text \<open>
  \<open>att k\<close> is the \<open>k\<close>-th attempt: whether the statement succeeded, and the time
  after it. \<open>Some k\<close> is the attempt that raised the fence.
\<close>

function fence_loop :: "(nat \<Rightarrow> bool \<times> nat) \<Rightarrow> nat \<Rightarrow> nat \<Rightarrow> nat option" where
  "fence_loop att deadline k =
     (let attempt = Suc k in
      if fst (att attempt) then Some attempt
      else if fence_should_retry attempt (snd (att attempt)) deadline then fence_loop att deadline attempt
      else None)"
  by auto
termination by (relation "measure (\<lambda>(att, deadline, k). FENCE_ATTEMPTS - k)") (auto simp: fence_should_retry_def)

declare fence_loop.simps [simp del]

text \<open>
  After a failed fence the node asks mysqld to shut down and watches it go; if it still
  answers when the time is up, the process exits and takes mysqld with it.
\<close>

datatype fence_end = Fenced nat | Shut_down | Exit_process

definition raise_fence :: "(nat \<Rightarrow> bool \<times> nat) \<Rightarrow> nat \<Rightarrow> bool list \<Rightarrow> fence_end" where
  "raise_fence att deadline pings =
     (case fence_loop att deadline 0 of
        Some k \<Rightarrow> Fenced k
      | None \<Rightarrow> if list_ex Not pings then Shut_down else Exit_process)"

lemma fence_loop_Some:
  "fence_loop att d k = Some n \<Longrightarrow> k \<le> FENCE_ATTEMPTS \<Longrightarrow>
   k < n \<and> n \<le> max FENCE_ATTEMPTS (Suc k) \<and> fst (att n) \<and> (\<forall>j. k < j \<and> j < n \<longrightarrow> \<not> fst (att j))"
proof (induction att d k rule: fence_loop.induct)
  case (1 att d k)
  show ?case
  proof (cases "fst (att (Suc k))")
    case True
    then show ?thesis using 1(2) by (auto simp: fence_loop.simps [of att d k])
  next
    case False
    then have r: "fence_should_retry (Suc k) (snd (att (Suc k))) d" and l: "fence_loop att d (Suc k) = Some n"
      using 1(2) by (auto simp: fence_loop.simps [of att d k] Let_def split: if_splits)
    have lt: "Suc k < FENCE_ATTEMPTS" using r by (simp add: fence_should_retry_def)
    have ih: "Suc k < n \<and> n \<le> max FENCE_ATTEMPTS (Suc (Suc k)) \<and> fst (att n) \<and> (\<forall>j. Suc k < j \<and> j < n \<longrightarrow> \<not> fst (att j))"
      using 1(1) [OF refl False r l] lt by simp
    then show ?thesis using False lt by (auto simp: le_max_iff_disj not_less_eq Suc_lessI less_Suc_eq_le)
       (metis Suc_lessI)
  qed
qed

text \<open>
  A node that runs on is fenced. Raising the fence takes at most three attempts and
  always ends; the node goes on exactly when some attempt succeeded, after failures only, and
  otherwise mysqld is going down or the process exits. In particular a success at the first
  attempt is enough, whatever the clock says.
\<close>

theorem no_node_serves_unfenced:
  "(case raise_fence att deadline pings of
      Fenced k \<Rightarrow> 1 \<le> k \<and> k \<le> 3 \<and> fst (att k) \<and> list_all (\<lambda>j. \<not> fst (att j)) [1..<k]
    | Shut_down \<Rightarrow> \<not> fst (att 1) \<and> False \<in> set pings
    | Exit_process \<Rightarrow> \<not> fst (att 1) \<and> False \<notin> set pings)"
proof (cases "fence_loop att deadline 0")
  case None
  then have "\<not> fst (att 1)" by (auto simp: fence_loop.simps [of att deadline 0] Let_def split: if_splits)
  then show ?thesis using None by (auto simp: raise_fence_def list_ex_iff)
next
  case (Some n)
  then show ?thesis
    using fence_loop_Some [OF Some] by (auto simp: raise_fence_def FENCE_ATTEMPTS_def list_all_iff)
qed

section \<open>Retiring the recovery account\<close>

definition RETIRE_RECOVERY_USER_ATTEMPTS :: nat where "RETIRE_RECOVERY_USER_ATTEMPTS = 60"

text \<open>One attempt's three statements; \<open>None\<close> is a failed one.\<close>

record retire_try =
  rt_exists :: "bool option"
  rt_read_only :: "bool option"
  rt_dropped :: bool

datatype retire_end = Nothing_to_do | Dropped | Left_read_only | Gave_up

definition retire_once :: "retire_try \<Rightarrow> retire_end option" where
  "retire_once t =
     (case rt_exists t of
        None \<Rightarrow> None
      | Some False \<Rightarrow> Some Nothing_to_do
      | Some True \<Rightarrow>
          (case rt_read_only t of
             None \<Rightarrow> None
           | Some True \<Rightarrow> Some Left_read_only
           | Some False \<Rightarrow> if rt_dropped t then Some Dropped else None))"

function retire_loop :: "(nat \<Rightarrow> retire_try) \<Rightarrow> nat \<Rightarrow> retire_end \<times> nat" where
  "retire_loop att k =
     (case retire_once (att k) of
        Some e \<Rightarrow> (e, Suc k)
      | None \<Rightarrow> if Suc k \<ge> RETIRE_RECOVERY_USER_ATTEMPTS then (Gave_up, Suc k)
          else retire_loop att (Suc k))"
  by pat_completeness auto
termination by (relation "measure (\<lambda>(att, n). RETIRE_RECOVERY_USER_ATTEMPTS - n)") auto

declare retire_loop.simps [simp del]

lemma retire_loop_end:
  "retire_loop att k = (e, n) \<Longrightarrow> k < RETIRE_RECOVERY_USER_ATTEMPTS \<Longrightarrow>
   k < n \<and> n \<le> RETIRE_RECOVERY_USER_ATTEMPTS \<and>
   (if e = Gave_up then retire_once (att (n - 1)) = None else retire_once (att (n - 1)) = Some e)"
proof (induction att k rule: retire_loop.induct)
  case (1 att k)
  show ?case
  proof (cases "retire_once (att k)")
    case None
    show ?thesis
    proof (cases "Suc k \<ge> RETIRE_RECOVERY_USER_ATTEMPTS")
      case True
      then show ?thesis using 1(2,3) None by (auto simp: retire_loop.simps [of att k])
    next
      case False
      then show ?thesis using 1(1) [OF None False] 1(2) None by (auto simp: retire_loop.simps [of att k])
    qed
  next
    case (Some e')
    then have "e' \<noteq> Gave_up" by (auto simp: retire_once_def split: option.splits bool.splits if_splits)
    then show ?thesis using 1(2,3) Some by (auto simp: retire_loop.simps [of att k])
  qed
qed

text \<open>
  Retiring the recovery account of a standalone server ends within sixty attempts, and
  drops the account only on an attempt that saw it and found the server writable.
\<close>

theorem retire_ends_and_respects_fence:
  "let (e, n) = retire_loop att 0 in 1 \<le> n \<and> n \<le> 60 \<and>
     (e = Dropped \<longrightarrow> rt_exists (att (n - 1)) = Some True \<and> rt_read_only (att (n - 1)) = Some False) \<and>
     (e = Left_read_only \<longrightarrow> rt_read_only (att (n - 1)) = Some True)"
proof -
  obtain e n where r: "retire_loop att 0 = (e, n)" by (cases "retire_loop att 0")
  from retire_loop_end [OF r] show ?thesis
    by (auto simp: r RETIRE_RECOVERY_USER_ATTEMPTS_def retire_once_def split: option.splits bool.splits if_splits)
qed

lemma retire_ends_and_respects_fence_witness:
  "fst (retire_loop (\<lambda>k. \<lparr>rt_exists = Some True, rt_read_only = (if k = 0 then None else Some False), rt_dropped = True\<rparr>) 0) = Dropped \<and>
   snd (retire_loop (\<lambda>k. \<lparr>rt_exists = Some True, rt_read_only = (if k = 0 then None else Some False), rt_dropped = True\<rparr>) 0) \<le> 60"
  using retire_ends_and_respects_fence [of "\<lambda>k. \<lparr>rt_exists = Some True, rt_read_only = (if k = 0 then None else Some False), rt_dropped = True\<rparr>"]
  by (simp add: retire_loop.simps retire_once_def RETIRE_RECOVERY_USER_ATTEMPTS_def)

end
