(* ===== verification/Pitr.thy ===== *)
theory Pitr
  imports Config
begin

text \<open>
  The naming and selection rules of point-in-time recovery (\<open>pitr.rs\<close>): object keys,
  archive ownership, full backups and the choice among them, the recovery-point bound, the
  event header of \<open>mysqlbinlog\<close> and the GTID set of a dump. Instants are nanoseconds
  since the epoch. Chrono's calendar is a parameter: \<open>parse_time\<close>, \<open>fmt\<close> and
  \<open>utc_of\<close> are its RFC 3339 parser, its printer and \<open>with_ymd_and_hms\<close>.
\<close>

section \<open>Object keys\<close>

abbreviation slash :: char where "slash \<equiv> CHR ''/''"

definition trim_matches :: "char \<Rightarrow> string \<Rightarrow> string" where
  "trim_matches c s = trim_end_by (\<lambda>x. x = c) (dropWhile (\<lambda>x. x = c) s)"

definition base_prefix :: "s3_location \<Rightarrow> string" where
  "base_prefix loc = trim_matches slash (path loc)"

definition under_base :: "s3_location \<Rightarrow> string \<Rightarrow> string" where
  "under_base loc leaf = (if base_prefix loc = [] then leaf else base_prefix loc @ [slash] @ leaf)"

definition server_prefix :: "s3_location \<Rightarrow> string \<Rightarrow> string" where
  "server_prefix loc uuid = under_base loc (''server-'' @ uuid)"

definition shared_history_marker_key :: "s3_location \<Rightarrow> string" where
  "shared_history_marker_key loc = under_base loc ''shared-history''"

definition owner_key :: "s3_location \<Rightarrow> string" where
  "owner_key loc = under_base loc ''owner.json''"

definition full_prefix :: "s3_location \<Rightarrow> string \<Rightarrow> string" where
  "full_prefix loc uuid = server_prefix loc uuid @ ''/full''"

definition binlog_prefix :: "s3_location \<Rightarrow> string \<Rightarrow> string" where
  "binlog_prefix loc uuid = server_prefix loc uuid @ ''/binlog''"

definition full_dump_key :: "s3_location \<Rightarrow> string \<Rightarrow> string \<Rightarrow> string" where
  "full_dump_key loc uuid stamp = full_prefix loc uuid @ [slash] @ stamp @ ''.sql.gz''"

definition full_meta_key :: "s3_location \<Rightarrow> string \<Rightarrow> string \<Rightarrow> string" where
  "full_meta_key loc uuid stamp = full_prefix loc uuid @ [slash] @ stamp @ ''.meta.json''"

definition binlog_key :: "s3_location \<Rightarrow> string \<Rightarrow> string \<Rightarrow> string" where
  "binlog_key loc uuid name = binlog_prefix loc uuid @ [slash] @ name"

definition meta_key_for_dump :: "string \<Rightarrow> string" where
  "meta_key_for_dump key = (case strip_suffix ''.sql.gz'' key of Some stem \<Rightarrow> stem | None \<Rightarrow> key) @ ''.meta.json''"

definition server_uuid_from_key :: "s3_location \<Rightarrow> string \<Rightarrow> string option" where
  "server_uuid_from_key loc key =
     (case (if base_prefix loc = [] then Some key
            else Option.bind (strip_prefix (base_prefix loc) key) (strip_prefix [slash])) of
        None \<Rightarrow> None
      | Some rest \<Rightarrow>
          (case strip_prefix ''server-'' rest of
             None \<Rightarrow> None
           | Some r \<Rightarrow> let uuid = hd (split_on slash r) in if uuid = [] then None else Some uuid))"

definition full_taken_at_from_key :: "(string \<Rightarrow> int option) \<Rightarrow> string \<Rightarrow> int option" where
  "full_taken_at_from_key parse_time key =
     (if \<not> contains_str ''/full/'' key then None
      else let name = last (split_on slash key) in
        (case (case strip_suffix ''.meta.json'' name of Some s \<Rightarrow> Some s | None \<Rightarrow> strip_suffix ''.sql.gz'' name) of
           None \<Rightarrow> None
         | Some stem \<Rightarrow> parse_time stem))"

section \<open>Facts about keys\<close>

lemma strip_prefix_append [simp]: "strip_prefix p (p @ s) = Some s"
  by (simp add: strip_prefix_def starts_with_def)

lemma strip_suffix_append [simp]: "strip_suffix p (s @ p) = Some s"
  by (simp add: strip_suffix_def)

lemma hd_split_on: "c \<notin> set s \<Longrightarrow> hd (split_on c (s @ c # r)) = s"
  by (induction s) (auto split: list.splits)

lemma split_on_none: "c \<notin> set s \<Longrightarrow> split_on c s = [s]"
  by (induction s) auto

lemma split_on_append: "split_on c (s @ c # r) = split_on c s @ split_on c r"
  by (induction s) (auto split: list.splits)

lemma last_split_on: "c \<notin> set r \<Longrightarrow> last (split_on c (s @ c # r)) = r"
  by (simp add: split_on_append split_on_none)

lemma contains_str_here: "starts_with p s \<Longrightarrow> contains_str p s"
  by (cases s) (auto simp: starts_with_def)

lemma contains_str_append: "contains_str p (a @ p @ b)"
proof (induction a)
  case Nil
  show ?case using contains_str_here [of p "p @ b"] by (simp add: starts_with_def)
next
  case (Cons c a)
  then show ?case by simp
qed

lemma starts_with_self [simp]: "starts_with p (p @ s)"
  by (simp add: starts_with_def)

lemma uuid_under_server:
  assumes "uuid \<noteq> []" and "slash \<notin> set uuid"
  shows "server_uuid_from_key loc (server_prefix loc uuid @ slash # rest) = Some uuid"
proof -
  have *: "hd (split_on slash (uuid @ slash # rest)) = uuid" by (rule hd_split_on [OF assms(2)])
  show ?thesis
  proof (cases "base_prefix loc = []")
    case True
    have "strip_prefix ''server-'' (''server-'' @ (uuid @ slash # rest)) = Some (uuid @ slash # rest)"
      by (rule strip_prefix_append)
    then show ?thesis
      using True * assms(1) by (simp add: server_uuid_from_key_def server_prefix_def under_base_def Let_def)
  next
    case False
    have "strip_prefix (base_prefix loc) (base_prefix loc @ (slash # ''server-'' @ uuid @ slash # rest)) =
        Some (slash # ''server-'' @ uuid @ slash # rest)" by (rule strip_prefix_append)
    moreover have "strip_prefix [slash] ([slash] @ (''server-'' @ uuid @ slash # rest)) =
        Some (''server-'' @ uuid @ slash # rest)" by (rule strip_prefix_append)
    moreover have "strip_prefix ''server-'' (''server-'' @ (uuid @ slash # rest)) = Some (uuid @ slash # rest)"
      by (rule strip_prefix_append)
    ultimately show ?thesis
      using False * assms(1) by (simp add: server_uuid_from_key_def server_prefix_def under_base_def Let_def)
  qed
qed

section \<open>Instants\<close>

definition ns_per_ms :: int where "ns_per_ms = 1000000"
definition ns_per_s :: int where "ns_per_s = 1000000000"

definition floor_to_millis :: "int \<Rightarrow> int" where
  "floor_to_millis t = t - t mod ns_per_ms"

lemma floor_to_millis_le: "floor_to_millis t \<le> t"
  by (simp add: floor_to_millis_def ns_per_ms_def)

lemma floor_to_millis_mono: "s \<le> t \<Longrightarrow> floor_to_millis s \<le> floor_to_millis t"
proof -
  assume "s \<le> t"
  moreover have "x - x mod ns_per_ms = ns_per_ms * (x div ns_per_ms)" for x :: int
    by (simp add: minus_mod_eq_mult_div)
  ultimately show ?thesis
    by (simp add: floor_to_millis_def ns_per_ms_def zdiv_mono1)
qed

text \<open>
  The keys are read back. From every key the archiver writes for a lineage the lineage
  is recovered, and from the two keys of a full backup the instant its name carries, whatever
  path the archive lives under (for the printer and parser of chrono, which invert each other
  to the millisecond and use no slash).
\<close>

theorem keys_read_back:
  assumes "uuid \<noteq> []" and "slash \<notin> set uuid" and "slash \<notin> set (fmt t)"
    and "parse_time (fmt t) = Some (floor_to_millis t)"
  shows "\<forall>key \<in> {full_dump_key loc uuid (fmt t), full_meta_key loc uuid (fmt t), binlog_key loc uuid name}.
      server_uuid_from_key loc key = Some uuid \<and>
      (key \<noteq> binlog_key loc uuid name \<longrightarrow> full_taken_at_from_key parse_time key = Some (floor_to_millis t))"
proof -
  have lineage: "server_uuid_from_key loc (server_prefix loc uuid @ slash # r) = Some uuid" for r
    by (rule uuid_under_server [OF assms(1,2)])
  have inside: "contains_str ''/full/'' (server_prefix loc uuid @ ''/full/'' @ r)" for r
    by (rule contains_str_append)
  have name: "last (split_on slash ((server_prefix loc uuid @ ''/full'') @ slash # n)) = n" if "slash \<notin> set n" for n
    using that by (rule last_split_on)
  have sql: "strip_suffix ''.meta.json'' (s @ ''.sql.gz'') = None" for s
    by (simp add: strip_suffix_def)
  have meta: "full_taken_at_from_key parse_time (full_meta_key loc uuid (fmt t)) = Some (floor_to_millis t)"
    using inside [of "fmt t @ ''.meta.json''"] name [of "fmt t @ ''.meta.json''"] strip_suffix_append [of "''.meta.json''" "fmt t"] assms(3,4)
    by (simp add: full_taken_at_from_key_def full_meta_key_def full_prefix_def Let_def)
  have dump: "full_taken_at_from_key parse_time (full_dump_key loc uuid (fmt t)) = Some (floor_to_millis t)"
    using inside [of "fmt t @ ''.sql.gz''"] name [of "fmt t @ ''.sql.gz''"] strip_suffix_append [of "''.sql.gz''" "fmt t"] sql [of "fmt t"] assms(3,4)
    by (simp add: full_taken_at_from_key_def full_dump_key_def full_prefix_def Let_def)
  show ?thesis
    using meta dump lineage [of "''full/'' @ fmt t @ ''.sql.gz''"] lineage [of "''full/'' @ fmt t @ ''.meta.json''"]
      lineage [of "''binlog/'' @ name"]
    by (auto simp: full_dump_key_def full_meta_key_def binlog_key_def full_prefix_def binlog_prefix_def)
qed

definition sample_location :: s3_location where
  "sample_location = \<lparr>bucket = ''b'', access_key = ''k'', secret_key = ''s'', region = ''r'', endpoint = ''e'', path = ''/binlog''\<rparr>"

lemma keys_read_back_witness:
  "server_uuid_from_key sample_location (binlog_key sample_location ''u'' ''binlog.000001'') = Some ''u''"
  using keys_read_back [of "''u''" "\<lambda>_. ''t''" 7 "\<lambda>_. Some (floor_to_millis 7)" sample_location "''binlog.000001''"] by simp

section \<open>Who owns an archive root\<close>

record archive_owner =
  ow_environment_id :: string
  ow_history :: string
  ow_service_ids :: "string list"
  ow_claimed_at :: int

record archive_claimant =
  cl_environment_id :: string
  cl_service_id :: string
  cl_history :: string
  cl_group_primary :: bool
  cl_executed :: string

datatype refusal = Other_environment | Other_service

datatype ownership_verdict = Write archive_owner | Keep | Refuse_root refusal

definition trim_start :: "string \<Rightarrow> string" where
  "trim_start s = dropWhile is_ws s"

definition carries_history :: "string \<Rightarrow> string \<Rightarrow> bool" where
  "carries_history executed history \<longleftrightarrow> history \<noteq> [] \<and>
     list_ex (\<lambda>entry. starts_with history (trim_start entry)) (split_on (CHR '','') executed)"

definition record_me :: "archive_owner \<Rightarrow> archive_claimant \<Rightarrow> ownership_verdict" where
  "record_me owner me = Write (owner\<lparr>ow_service_ids := ow_service_ids owner @ [cl_service_id me]\<rparr>)"

definition archive_ownership_verdict :: "archive_owner option \<Rightarrow> archive_claimant \<Rightarrow> int \<Rightarrow> ownership_verdict" where
  "archive_ownership_verdict existing me now =
     (case existing of
        None \<Rightarrow> Write \<lparr>ow_environment_id = cl_environment_id me, ow_history = cl_history me,
                       ow_service_ids = [cl_service_id me], ow_claimed_at = now\<rparr>
      | Some owner \<Rightarrow>
          if ow_environment_id owner \<noteq> cl_environment_id me then Refuse_root Other_environment
          else if list_ex (\<lambda>id. id = cl_service_id me) (ow_service_ids owner) then Keep
          else if cl_group_primary me then record_me owner me
          else if carries_history (cl_executed me) (ow_history owner) then record_me owner me
          else Refuse_root Other_service)"

text \<open>
  One archive root, one environment. A claim is admitted exactly when the root is
  unclaimed, or belongs to the claimant's environment and the claimant is recorded, archives
  as a group's primary, or carries the root's history; a record written always keeps the
  environment, the history, the claim time and every service recorded before; and once it is
  written the same claimant is kept for good, with no further write.
\<close>

theorem ownership_admits_one_environment:
  "(case archive_ownership_verdict existing me now of
      Refuse_root r \<Rightarrow> (\<exists>o'. existing = Some o' \<and>
        (ow_environment_id o' \<noteq> cl_environment_id me \<or>
          (cl_service_id me \<notin> set (ow_service_ids o') \<and> \<not> cl_group_primary me \<and>
           \<not> carries_history (cl_executed me) (ow_history o'))))
    | Keep \<Rightarrow> (\<exists>o'. existing = Some o' \<and> ow_environment_id o' = cl_environment_id me \<and>
        cl_service_id me \<in> set (ow_service_ids o'))
    | Write w \<Rightarrow> ow_environment_id w = cl_environment_id me \<and>
        archive_ownership_verdict (Some w) me later = Keep \<and>
        (case existing of None \<Rightarrow> ow_claimed_at w = now | Some o' \<Rightarrow> ow_history w = ow_history o' \<and>
          ow_claimed_at w = ow_claimed_at o' \<and> set (ow_service_ids w) = insert (cl_service_id me) (set (ow_service_ids o'))))"
  by (cases existing)
     (auto simp: archive_ownership_verdict_def record_me_def list_ex_iff)

definition sample_claimant :: archive_claimant where
  "sample_claimant = \<lparr>cl_environment_id = ''e'', cl_service_id = ''s'', cl_history = ''h'', cl_group_primary = False,
     cl_executed = ''h:1-5''\<rparr>"

lemma ownership_admits_one_environment_witness:
  "archive_ownership_verdict None sample_claimant 3 =
     Write \<lparr>ow_environment_id = ''e'', ow_history = ''h'', ow_service_ids = [''s''], ow_claimed_at = 3\<rparr> \<and>
   archive_ownership_verdict (Some \<lparr>ow_environment_id = ''e'', ow_history = ''h'', ow_service_ids = [''s''], ow_claimed_at = 3\<rparr>)
     sample_claimant 9 = Keep"
proof -
  have w: "archive_ownership_verdict None sample_claimant 3 =
     Write \<lparr>ow_environment_id = ''e'', ow_history = ''h'', ow_service_ids = [''s''], ow_claimed_at = 3\<rparr>"
    by (simp add: archive_ownership_verdict_def sample_claimant_def)
  from ownership_admits_one_environment [where existing = None and me = sample_claimant and now = 3 and later = 9]
  show ?thesis unfolding w by (simp only: ownership_verdict.case)
qed

section \<open>Full backups\<close>

record full_backup_meta =
  taken_at :: int
  binlog_file :: string
  binlog_pos :: u64
  meta_server_uuid :: string
  mysql_version :: string
  gtid_purged :: "string option"
  dump_bytes :: "u64 option"
  datadir_bytes :: "u64 option"

record full_backup_ref =
  lineage_uuid :: string
  dump_key :: string
  meta :: full_backup_meta

abbreviation taken :: "full_backup_ref \<Rightarrow> int" where
  "taken f \<equiv> taken_at (meta f)"

definition qualifies :: "int \<Rightarrow> full_backup_ref \<Rightarrow> bool" where
  "qualifies target f \<longleftrightarrow> floor_to_millis (taken f) \<le> target"

definition cmp_full :: "full_backup_ref \<Rightarrow> full_backup_ref \<Rightarrow> ordering" where
  "cmp_full a b = then_cmp (cmp_lin (taken a) (taken b)) (cmp_lin (lineage_uuid a) (lineage_uuid b))"

definition newest_qualifying_full :: "full_backup_ref list \<Rightarrow> int \<Rightarrow> full_backup_ref option" where
  "newest_qualifying_full fulls target = max_by cmp_full (filter (qualifies target) fulls)"

definition cmp_fallback :: "full_backup_ref \<Rightarrow> full_backup_ref \<Rightarrow> ordering" where
  "cmp_fallback a b = then_cmp (cmp_lin (taken b) (taken a)) (cmp_lin (lineage_uuid a) (lineage_uuid b))"

text \<open>The list the message of \<open>describe_fallback_fulls\<close> is written from.\<close>

definition fallback_fulls :: "full_backup_ref list \<Rightarrow> full_backup_ref \<Rightarrow> full_backup_ref list" where
  "fallback_fulls fulls selected = sort_by cmp_fallback (filter (\<lambda>f. dump_key f \<noteq> dump_key selected) fulls)"

lemma cmp_full_Greater:
  "cmp_full a b = Greater \<longleftrightarrow> (taken b, lineage_uuid b) < (taken a, lineage_uuid a)"
  by (auto simp: cmp_full_def then_cmp_def cmp_lin_def less_prod_def' split: ordering.splits if_splits)

lemma newest_qualifying_full_Some:
  assumes "newest_qualifying_full fulls target = Some f"
  shows "f \<in> set fulls" "qualifies target f"
    and "g \<in> set fulls \<Longrightarrow> qualifies target g \<Longrightarrow> (taken g, lineage_uuid g) \<le> (taken f, lineage_uuid f)"
  using max_by_in [OF assms [unfolded newest_qualifying_full_def]]
    max_by_key_max [OF assms [unfolded newest_qualifying_full_def] cmp_full_Greater, of g]
  by auto

lemma newest_qualifying_full_None: "newest_qualifying_full fulls target = None \<longleftrightarrow> (\<forall>f \<in> set fulls. \<not> qualifies target f)"
  by (auto simp: newest_qualifying_full_def filter_empty_conv)

text \<open>
  The choice of the full to restore from. A full is found exactly when one exists whose
  name carries an instant at or before the target; it is such a full, and no other such full
  was taken later, equal instants going to the greater server UUID, so the choice does not
  depend on the order in which the bucket lists them.
\<close>

theorem newest_qualifying_full_chosen:
  "(case newest_qualifying_full fulls target of
      None \<Rightarrow> list_all (\<lambda>f. target < floor_to_millis (taken f)) fulls
    | Some f \<Rightarrow> f \<in> set fulls \<and> floor_to_millis (taken f) \<le> target \<and>
        list_all (\<lambda>g. target < floor_to_millis (taken g) \<or> taken g < taken f \<or>
           (taken g = taken f \<and> lineage_uuid g \<le> lineage_uuid f)) fulls)"
proof (cases "newest_qualifying_full fulls target")
  case None
  then have "list_all (\<lambda>f. target < floor_to_millis (taken f)) fulls"
    using newest_qualifying_full_None [of fulls target] by (simp add: qualifies_def list_all_iff not_le)
  then show ?thesis using None by simp
next
  case (Some f)
  then show ?thesis
    using newest_qualifying_full_Some [OF Some] by (force simp: qualifies_def list_all_iff not_less)
qed

section \<open>How far a restore may fall short\<close>

definition achieved_lag_bound_seconds :: "u64 \<Rightarrow> u64" where
  "achieved_lag_bound_seconds interval = sat_add (sat_mul interval 2) 60"

text \<open>\<open>num_seconds\<close> truncates towards zero.\<close>

definition num_seconds :: "int \<Rightarrow> int" where
  "num_seconds d = (if d \<ge> 0 then d div ns_per_s else - ((- d) div ns_per_s))"

definition i64_max :: int where "i64_max = 9223372036854775807"

definition achieved_point_within_bound :: "int \<Rightarrow> int \<Rightarrow> u64 \<Rightarrow> bool" where
  "achieved_point_within_bound target achieved bound \<longleftrightarrow>
     num_seconds (target - achieved) \<le> min (uint bound) i64_max"

text \<open>
  The recovery point a restore accepts. With a rotation interval of \<open>r\<close> seconds a
  restore is accepted exactly when it reached the target or missed it by less than
  \<open>2 r + 61\<close> seconds: the sub-second part of the shortfall is dropped before it is
  compared, one second more than the bound the comment gives. The bound itself saturates and
  never wraps.
\<close>

theorem achieved_point_bound:
  assumes "unat r \<le> 2 ^ 61"
  shows "achieved_point_within_bound target achieved (achieved_lag_bound_seconds r) \<longleftrightarrow>
    target - achieved < (2 * uint r + 61) * ns_per_s"
proof -
  have b: "unat (achieved_lag_bound_seconds r) = 2 * unat r + 60"
    using assms by (simp add: achieved_lag_bound_seconds_def unat_sat_add unat_sat_mul)
  have r: "uint x = int (unat x)" for x :: u64 by (rule uint_nat)
  have u: "uint (achieved_lag_bound_seconds r) = 2 * uint r + 60"
    unfolding r b by simp
  from assms have "int (unat r) \<le> int (2 ^ 61)" by (rule of_nat_mono)
  then have "uint r \<le> 2 ^ 61" by simp
  then have m: "min (uint (achieved_lag_bound_seconds r)) i64_max = 2 * uint r + 60"
    unfolding u i64_max_def by simp
  have n: "num_seconds d \<le> k \<longleftrightarrow> d < (k + 1) * ns_per_s" if "0 \<le> k" for d k
    using that by (auto simp: num_seconds_def ns_per_s_def)
  have "0 \<le> 2 * uint r + 60" by simp
  from n [OF this] show ?thesis
    unfolding achieved_point_within_bound_def m by (simp add: algebra_simps)
qed

lemma achieved_point_bound_witness:
  "achieved_point_within_bound (660 * ns_per_s + 999999999) 0 (achieved_lag_bound_seconds 300)"
  using achieved_point_bound [of 300 "660 * ns_per_s + 999999999" 0] by (simp add: ns_per_s_def)

section \<open>Event headers of \<open>mysqlbinlog\<close>\<close>

definition year_of :: "nat \<Rightarrow> nat" where
  "year_of yy = (if yy \<ge> 70 then 1900 + yy else 2000 + yy)"

text \<open>\<open>utc_of\<close> gives the second since the epoch, \<open>None\<close> when there is no such date.\<close>

type_synonym calendar = "nat \<Rightarrow> nat \<Rightarrow> nat \<Rightarrow> nat \<Rightarrow> nat \<Rightarrow> nat \<Rightarrow> int option"

definition parse_hms :: "string \<Rightarrow> (nat \<times> nat \<times> nat) option" where
  "parse_hms time =
     (case split_on (CHR '':'') time of
        [h, m, s] \<Rightarrow>
          (case (parse_uint u32_max h, parse_uint u32_max m, parse_uint u32_max s) of
             (Some hour, Some minute, Some second) \<Rightarrow> Some (hour, minute, second)
           | _ \<Rightarrow> None)
      | _ \<Rightarrow> None)"

definition parse_binlog_event_header_utc :: "calendar \<Rightarrow> string \<Rightarrow> int option" where
  "parse_binlog_event_header_utc utc_of line =
     (case strip_prefix ''#'' line of
        None \<Rightarrow> None
      | Some rest \<Rightarrow>
          if length rest < 6 \<or> \<not> list_all is_digit (take 6 rest) then None
          else
            (case split_ws (drop 6 rest) of
               time # w1 # w2 # _ \<Rightarrow>
                 if w1 \<noteq> ''server'' \<or> w2 \<noteq> ''id'' then None
                 else
                   (let year = year_of (digits_val (take 2 rest));
                        month = digits_val (take 2 (drop 2 rest));
                        day = digits_val (take 2 (drop 4 rest)) in
                    (case parse_hms time of
                       None \<Rightarrow> None
                     | Some (h, m, s) \<Rightarrow>
                         (case utc_of year month day h m s of
                            None \<Rightarrow> None
                          | Some ts \<Rightarrow> if ts > 0 then Some ts else None)))
             | _ \<Rightarrow> None))"

text \<open>
  The header as \<open>mysqlbinlog\<close> prints it: two digits each, the hour padded with a
  blank instead of a zero.
\<close>

definition two :: "nat \<Rightarrow> string" where
  "two n = [digit_char (n div 10), digit_char (n mod 10)]"

definition padded :: "nat \<Rightarrow> string" where
  "padded h = (if h < 10 then [CHR '' '', digit_char h] else two h)"

definition event_header :: "nat \<Rightarrow> nat \<Rightarrow> nat \<Rightarrow> nat \<Rightarrow> nat \<Rightarrow> nat \<Rightarrow> string \<Rightarrow> string" where
  "event_header yy mo da h m s tail =
     ''#'' @ two yy @ two mo @ two da @ [CHR '' ''] @ padded h @ '':'' @ two m @ '':'' @ two s @
       '' server id '' @ tail"

lemma char_code_lit: "char_code CHR '' '' = 32" "char_code CHR '':'' = 58" "char_code CHR ''s'' = 115"
  by (simp_all add: char_code_def)

lemma is_ws_blank [simp]: "is_ws CHR '' ''"
  by (simp add: is_ws_def char_code_def)

lemma split_ws_word:
  "list_all (\<lambda>c. \<not> is_ws c) w \<Longrightarrow> split_ws_go acc (w @ CHR '' '' # s) =
     (if rev w @ acc = [] then [] else [rev acc @ w]) @ split_ws_go [] s"
  by (induction w arbitrary: acc) auto

lemma two_digits: "n < 100 \<Longrightarrow> list_all is_digit (two n) \<and> digits_val (two n) = n \<and> two n \<noteq> [] \<and> length (two n) = 2"
  by (simp add: two_def digits_val_def)

lemma digit_not_colon: "is_digit c \<Longrightarrow> c \<noteq> CHR '':''"
  by (auto simp: is_digit_def char_code_lit)

lemma parse_two: "n < 100 \<Longrightarrow> parse_uint u32_max (two n) = Some n"
  using two_digits [of n] by (simp add: parse_uint_digits u32_max_def)

lemma parse_hms_text:
  assumes "list_all is_digit h" and "h \<noteq> []" and "digits_val h \<le> u32_max" and "m < 100" and "s < 100"
  shows "parse_hms (h @ '':'' @ two m @ '':'' @ two s) = Some (digits_val h, m, s)"
proof -
  have n: "CHR '':'' \<notin> set x" if "list_all is_digit x" for x
    using that digit_not_colon by (auto simp: list_all_iff)
  have "split_on (CHR '':'') (h @ '':'' @ two m @ '':'' @ two s) = [h, two m, two s]"
    using n [OF assms(1)] n [of "two m"] n [of "two s"] two_digits assms(4,5)
    by (simp add: split_on_append split_on_none)
  then show ?thesis
    using assms by (simp add: parse_hms_def parse_two parse_uint_digits)
qed

lemma parse_event_header:
  assumes "yy < 100" and "mo < 100" and "da < 100" and "h < 100" and "m < 100" and "s < 100"
  shows "parse_binlog_event_header_utc utc_of (event_header yy mo da h m s tail) =
    (case utc_of (year_of yy) mo da h m s of Some ts \<Rightarrow> if ts > 0 then Some ts else None | None \<Rightarrow> None)"
proof -
  define hour where "hour = (if h < 10 then [digit_char h] else two h)"
  define rest where "rest = (if h < 10 then '' '' else []) @ (hour @ '':'' @ two m @ '':'' @ two s) @ CHR '' '' # ''server'' @ CHR '' '' # ''id'' @ CHR '' '' # tail"
  have hour: "list_all is_digit hour" "hour \<noteq> []" "digits_val hour = h"
    using assms(4) two_digits [of h] by (auto simp: hour_def)
  have line: "event_header yy mo da h m s tail = ''#'' @ two yy @ two mo @ two da @ CHR '' '' # rest"
    by (simp add: event_header_def rest_def hour_def padded_def)
  have nows: "list_all (\<lambda>c. \<not> is_ws c) (hour @ '':'' @ two m @ '':'' @ two s)"
    using hour(1) two_digits [OF assms(5)] two_digits [OF assms(6)]
    by (auto simp: list_all_iff dest: digit_not_ws) (auto simp: is_ws_def char_code_lit)
  have words: "list_all (\<lambda>c. \<not> is_ws c) ''server''" "list_all (\<lambda>c. \<not> is_ws c) ''id''"
    by (simp_all add: is_ws_def char_code_def)
  have "split_ws_go [] ((hour @ '':'' @ two m @ '':'' @ two s) @ CHR '' '' # ''server'' @ CHR '' '' # ''id'' @ CHR '' '' # tail) =
      (hour @ '':'' @ two m @ '':'' @ two s) # ''server'' # ''id'' # split_ws_go [] tail"
    using split_ws_word [OF nows, of "[]"] split_ws_word [OF words(1), of "[]"] split_ws_word [OF words(2), of "[]"] hour(2) by simp
  then have ws: "split_ws (CHR '' '' # rest) = (hour @ '':'' @ two m @ '':'' @ two s) # ''server'' # ''id'' # split_ws_go [] tail"
    by (simp add: split_ws_def rest_def)
  have hms: "parse_hms (hour @ '':'' @ two m @ '':'' @ two s) = Some (h, m, s)"
    using parse_hms_text [OF hour(1,2) _ assms(5,6)] hour(3) assms(4) by (simp add: u32_max_def)
  have date: "take 6 (two yy @ two mo @ two da @ CHR '' '' # rest) = two yy @ two mo @ two da"
    "drop 6 (two yy @ two mo @ two da @ CHR '' '' # rest) = CHR '' '' # rest"
    "take 2 (two yy @ two mo @ two da @ CHR '' '' # rest) = two yy"
    "take 2 (drop 2 (two yy @ two mo @ two da @ CHR '' '' # rest)) = two mo"
    "take 2 (drop 4 (two yy @ two mo @ two da @ CHR '' '' # rest)) = two da"
    "\<not> length (two yy @ two mo @ two da @ CHR '' '' # rest) < 6"
    by (simp_all add: two_def)
  show ?thesis
    unfolding parse_binlog_event_header_utc_def line strip_prefix_append
    using two_digits [OF assms(1)] two_digits [OF assms(2)] two_digits [OF assms(3)]
    by (simp only: option.case date ws hms list.case prod.case Let_def) simp
qed

text \<open>
  Every event header \<open>mysqlbinlog\<close> prints is read back: the instant is the one the
  calendar gives for the printed fields, the two-digit year read as 1970 to 2069 and the hour
  padded with a blank or not, whatever follows; the zero timestamp of artificial events is no
  instant.
\<close>

theorem event_header_reads_back:
  assumes "yy < 100" and "mo < 100" and "da < 100" and "h < 100" and "m < 100" and "s < 100"
  shows "parse_binlog_event_header_utc utc_of (event_header yy mo da h m s tail) =
    (case utc_of (year_of yy) mo da h m s of Some ts \<Rightarrow> if ts > 0 then Some ts else None | None \<Rightarrow> None)"
  using assms by (rule parse_event_header)

lemma event_header_reads_back_witness:
  "parse_binlog_event_header_utc (\<lambda>y mo d h m s. Some (int y)) (event_header 26 8 13 1 2 3 ''1'') = Some 2026"
  using event_header_reads_back [of 26 8 13 1 2 3 "\<lambda>y mo d h m s. Some (int y)" "''1''"] by (simp add: year_of_def)

section \<open>The GTID set of a dump\<close>

definition gtid_marker :: string where
  "gtid_marker = ''SET @@GLOBAL.GTID_PURGED=''"

fun after_str :: "string \<Rightarrow> string \<Rightarrow> string option" where
  "after_str p [] = strip_prefix p []"
| "after_str p (c # s) = (case strip_prefix p (c # s) of Some r \<Rightarrow> Some r | None \<Rightarrow> after_str p s)"

definition after_char :: "char \<Rightarrow> string \<Rightarrow> string option" where
  "after_char c s = (case dropWhile (\<lambda>x. x \<noteq> c) s of [] \<Rightarrow> None | _ # r \<Rightarrow> Some r)"

definition up_to_char :: "char \<Rightarrow> string \<Rightarrow> string option" where
  "up_to_char c s = (if c \<in> set s then Some (takeWhile (\<lambda>x. x \<noteq> c) s) else None)"

abbreviation apostrophe :: char where "apostrophe \<equiv> CHR 0x27"

definition parse_gtid_purged :: "string \<Rightarrow> string option" where
  "parse_gtid_purged dump_head =
     (case after_str gtid_marker dump_head of
        None \<Rightarrow> None
      | Some rest \<Rightarrow>
          (case after_char apostrophe rest of
             None \<Rightarrow> None
           | Some literal \<Rightarrow>
               (case (case strip_prefix [CHR ''+'', apostrophe] literal of
                        Some after_plus \<Rightarrow> after_char apostrophe after_plus
                      | None \<Rightarrow> Some literal) of
                  None \<Rightarrow> None
                | Some l \<Rightarrow> map_option (\<lambda>g. concat (split_ws g)) (up_to_char apostrophe l))))"

lemma after_char_append: "c \<notin> set a \<Longrightarrow> after_char c (a @ c # r) = Some r"
  by (induction a) (auto simp: after_char_def)

lemma up_to_char_append: "c \<notin> set a \<Longrightarrow> up_to_char c (a @ c # r) = Some a"
  by (auto simp: up_to_char_def takeWhile_append)

lemma after_str_here: "after_str p (p @ r) = Some r"
  using strip_prefix_append [of p r] by (cases "p @ r") simp_all

lemma after_str_first:
  "\<forall>i < length pre. \<not> starts_with p (drop i pre @ p @ r) \<Longrightarrow> after_str p (pre @ p @ r) = Some r"
proof (induction pre)
  case Nil
  show ?case by (simp add: after_str_here)
next
  case (Cons c pre)
  have "\<not> starts_with p ((c # pre) @ p @ r)" using Cons.prems by (auto dest: spec [of _ 0])
  then have "strip_prefix p ((c # pre) @ p @ r) = None" by (simp add: strip_prefix_def)
  moreover have "\<forall>i < length pre. \<not> starts_with p (drop i pre @ p @ r)"
    using Cons.prems by (auto dest: spec [of _ "Suc _"])
  ultimately show ?case using Cons.IH by simp
qed

lemma after_str_None: "after_str p s = None \<longleftrightarrow> \<not> contains_str p s"
  by (induction s) (auto simp: strip_prefix_def starts_with_def split: option.splits if_splits)

text \<open>
  The GTID set a dump embeds is read back, in both spellings \<open>mysqldump\<close> has for it,
  with its line breaks and blanks removed; a dump that sets none has none. (The set's text
  holds no quote and does not begin with a plus sign; the assignment is the first in the
  text.)
\<close>

theorem gtid_purged_reads_back:
  assumes "\<forall>i < length pre. \<not> starts_with gtid_marker (drop i pre @ gtid_marker @ r)"
    and "r = (if gated then ''/*!80000 '' @ [apostrophe, CHR ''+'', apostrophe] @ ''*/ '' else []) @ [apostrophe] @ g @ [apostrophe] @ post"
    and "apostrophe \<notin> set g" and "\<not> starts_with ''+'' g"
  shows "parse_gtid_purged (pre @ gtid_marker @ r) = Some (concat (split_ws g))"
proof -
  have here: "after_str gtid_marker (pre @ gtid_marker @ r) = Some r"
    by (rule after_str_first [OF assms(1)])
  have bare: "strip_prefix [CHR ''+'', apostrophe] (g @ apostrophe # post) = None"
    using assms(4) by (cases g) (auto simp: strip_prefix_def starts_with_def)
  show ?thesis
  proof (cases gated)
    case True
    have "after_char apostrophe r = Some ([CHR ''+'', apostrophe] @ ''*/ '' @ apostrophe # g @ apostrophe # post)"
      using True after_char_append [of apostrophe "''/*!80000 ''"] by (simp add: assms(2))
    moreover have "after_char apostrophe (''*/ '' @ apostrophe # g @ apostrophe # post) = Some (g @ apostrophe # post)"
      by (rule after_char_append) simp
    ultimately show ?thesis
      using up_to_char_append [OF assms(3)] strip_prefix_append [of "[CHR ''+'', apostrophe]"]
      by (simp add: parse_gtid_purged_def here)
  next
    case False
    have "after_char apostrophe r = Some (g @ apostrophe # post)"
      using False after_char_append [of apostrophe "[]"] by (simp add: assms(2))
    then show ?thesis
      using up_to_char_append [OF assms(3)] bare by (simp add: parse_gtid_purged_def here)
  qed
qed

lemma gtid_purged_reads_back_witness:
  "parse_gtid_purged (''--'' @ gtid_marker @ ([apostrophe] @ ''u:1-5, v:1'' @ [apostrophe] @ '';'')) = Some ''u:1-5,v:1''"
proof -
  have "\<forall>i < length ''--''. \<not> starts_with gtid_marker (drop i ''--'' @ gtid_marker @ ([apostrophe] @ ''u:1-5, v:1'' @ [apostrophe] @ '';''))"
    by (auto simp: less_Suc_eq starts_with_def gtid_marker_def)
  from gtid_purged_reads_back [OF this, of False "''u:1-5, v:1''" "'';''"]
  show ?thesis by (simp add: starts_with_def split_ws_def is_ws_def char_code_def)
qed

end
