(* ===== verification/Binlog.thy ===== *)
theory Binlog
  imports Pitr
begin

text \<open>
  Binary log files in \<open>pitr.rs\<close>: the head of a file and the GTID set in it, the order
  of the files, the two rules by which local files are purged, and the plan of files to
  replay. A parse error is \<open>None\<close>.
\<close>

section \<open>The head of a file\<close>

text \<open>\<open>from_le_bytes\<close>: eight bytes are below \<open>2 ^ 64\<close>, four below \<open>2 ^ 32\<close>.\<close>

fun le_nat :: "byte list \<Rightarrow> nat" where
  "le_nat [] = 0"
| "le_nat (b # bs) = unat b + 256 * le_nat bs"

definition take_u64 :: "byte list \<Rightarrow> (nat \<times> byte list) option" where
  "take_u64 bs = (if length bs < 8 then None else Some (le_nat (take 8 bs), drop 8 bs))"

definition hex_digit :: "nat \<Rightarrow> char" where
  "hex_digit d = (if d < 10 then digit_char d else char_of (87 + d))"

definition hex_byte :: "byte \<Rightarrow> string" where
  "hex_byte b = [hex_digit (unat b div 16), hex_digit (unat b mod 16)]"

definition format_binlog_uuid :: "byte list \<Rightarrow> string" where
  "format_binlog_uuid bs =
     (let hex = concat (map hex_byte bs) in
      take 8 hex @ ''-'' @ take 4 (drop 8 hex) @ ''-'' @ take 4 (drop 12 hex) @ ''-'' @
        take 4 (drop 16 hex) @ ''-'' @ take 12 (drop 20 hex))"

definition interval_text :: "nat \<Rightarrow> nat \<Rightarrow> string" where
  "interval_text s e =
     (if e = s + 1 then '':'' @ show_nat s else '':'' @ show_nat s @ ''-'' @ show_nat (e - 1))"

fun read_intervals :: "nat \<Rightarrow> byte list \<Rightarrow> (string \<times> byte list) option" where
  "read_intervals 0 bs = Some ([], bs)"
| "read_intervals (Suc n) bs =
     (case take_u64 bs of
        None \<Rightarrow> None
      | Some (s, r) \<Rightarrow>
          (case take_u64 r of
             None \<Rightarrow> None
           | Some (e, r') \<Rightarrow>
               if \<not> e > s then None
               else map_option (\<lambda>(t, q). (interval_text s e @ t, q)) (read_intervals n r')))"

fun read_sids :: "nat \<Rightarrow> byte list \<Rightarrow> string list option" where
  "read_sids 0 bs = Some []"
| "read_sids (Suc n) bs =
     (if length bs < 16 then None
      else
        (case take_u64 (drop 16 bs) of
           None \<Rightarrow> None
         | Some (k, r) \<Rightarrow>
             (case read_intervals k r of
                None \<Rightarrow> None
              | Some (t, q) \<Rightarrow>
                  map_option (\<lambda>ts. (format_binlog_uuid (take 16 bs) @ t) # ts) (read_sids n q))))"

fun join :: "string \<Rightarrow> string list \<Rightarrow> string" where
  "join d [] = []"
| "join d [x] = x"
| "join d (x # y # xs) = x @ d @ join d (y # xs)"

definition decode_gtid_set :: "byte list \<Rightarrow> string option" where
  "decode_gtid_set payload =
     (case take_u64 payload of
        None \<Rightarrow> None
      | Some (n, r) \<Rightarrow> if n div 2 ^ 56 \<noteq> 0 then None else map_option (join '','') (read_sids n r))"

text \<open>The elements \<open>Vec::with_capacity\<close> reserves before the first one is read.\<close>

definition reserved_sids :: "byte list \<Rightarrow> nat" where
  "reserved_sids payload =
     (case take_u64 payload of None \<Rightarrow> 0 | Some (n, r) \<Rightarrow> if n div 2 ^ 56 \<noteq> 0 then 0 else n)"

record binlog_head =
  created_at :: int
  previous_gtids :: string

definition BINLOG_MAGIC :: "byte list" where "BINLOG_MAGIC = [0xfe, 0x62, 0x69, 0x6e]"
definition BINLOG_EVENT_HEADER_LEN :: nat where "BINLOG_EVENT_HEADER_LEN = 19"
definition FORMAT_DESCRIPTION_EVENT :: byte where "FORMAT_DESCRIPTION_EVENT = 15"
definition PREVIOUS_GTIDS_LOG_EVENT :: byte where "PREVIOUS_GTIDS_LOG_EVENT = 35"
definition BINLOG_HEAD_EVENT_BUDGET :: nat where "BINLOG_HEAD_EVENT_BUDGET = 4"

fun head_events :: "nat \<Rightarrow> byte list \<Rightarrow> int option \<Rightarrow> binlog_head option" where
  "head_events 0 bs created = None"
| "head_events (Suc budget) bs created =
     (if length bs < BINLOG_EVENT_HEADER_LEN then None
      else
        let timestamp = le_nat (take 4 bs); type_code = bs ! 4; event_len = le_nat (take 4 (drop 9 bs)) in
        if event_len < BINLOG_EVENT_HEADER_LEN then None
        else if length bs < event_len then None
        else
          let payload = take (event_len - BINLOG_EVENT_HEADER_LEN) (drop BINLOG_EVENT_HEADER_LEN bs) in
          if type_code = FORMAT_DESCRIPTION_EVENT
          then head_events budget (drop event_len bs) (Some (int timestamp * ns_per_s))
          else if type_code = PREVIOUS_GTIDS_LOG_EVENT
          then (case created of
              None \<Rightarrow> None
            | Some c \<Rightarrow> map_option (\<lambda>g. \<lparr>created_at = c, previous_gtids = g\<rparr>) (decode_gtid_set payload))
          else head_events budget (drop event_len bs) created)"

definition parse_binlog_head :: "byte list \<Rightarrow> binlog_head option" where
  "parse_binlog_head bs =
     (if length bs \<ge> length BINLOG_MAGIC \<and> take (length BINLOG_MAGIC) bs = BINLOG_MAGIC
      then head_events BINLOG_HEAD_EVENT_BUDGET (drop (length BINLOG_MAGIC) bs) None
      else None)"

definition binlog_opened_before_cutoff :: "int \<Rightarrow> int \<Rightarrow> bool" where
  "binlog_opened_before_cutoff created target \<longleftrightarrow> created div ns_per_s < target div ns_per_s"

section \<open>Reading a head back\<close>

text \<open>
  How the server writes a set: the number of UUIDs, then per UUID its sixteen bytes, the
  number of intervals, and each interval's start and exclusive end, all little endian.
\<close>

fun le_bytes :: "nat \<Rightarrow> nat \<Rightarrow> byte list" where
  "le_bytes 0 v = []"
| "le_bytes (Suc n) v = word_of_nat (v mod 256) # le_bytes n (v div 256)"

type_synonym gtid_entry = "byte list \<times> (nat \<times> nat) list"

definition encode_intervals :: "(nat \<times> nat) list \<Rightarrow> byte list" where
  "encode_intervals iv = concat (map (\<lambda>(s, e). le_bytes 8 s @ le_bytes 8 e) iv)"

definition encode_entry :: "gtid_entry \<Rightarrow> byte list" where
  "encode_entry u = fst u @ le_bytes 8 (length (snd u)) @ encode_intervals (snd u)"

definition encode_gtid_set :: "gtid_entry list \<Rightarrow> byte list" where
  "encode_gtid_set gs = le_bytes 8 (length gs) @ concat (map encode_entry gs)"

definition entry_text :: "gtid_entry \<Rightarrow> string" where
  "entry_text u = format_binlog_uuid (fst u) @ concat (map (\<lambda>(s, e). interval_text s e) (snd u))"

definition entry_ok :: "gtid_entry \<Rightarrow> bool" where
  "entry_ok u \<longleftrightarrow> length (fst u) = 16 \<and> length (snd u) < 2 ^ 64 \<and>
     list_all (\<lambda>(s, e). s < e \<and> e < 2 ^ 64) (snd u)"

lemma length_le_bytes [simp]: "length (le_bytes n v) = n"
  by (induction n arbitrary: v) auto

lemma unat_byte: "unat (word_of_nat (v mod 256) :: byte) = v mod 256"
  by (simp add: unat_of_nat take_bit_eq_mod)

lemma le_nat_le_bytes: "v < 256 ^ n \<Longrightarrow> le_nat (le_bytes n v) = v"
proof (induction n arbitrary: v)
  case (Suc n)
  then have "v div 256 < 256 ^ n" by (simp add: less_mult_imp_div_less mult.commute)
  with Suc.IH [of "v div 256"] show ?case by (simp add: unat_byte)
qed simp

lemma take_u64_le [simp]: "v < 2 ^ 64 \<Longrightarrow> take_u64 (le_bytes 8 v @ r) = Some (v, r)"
  using le_nat_le_bytes [of v 8] by (simp add: take_u64_def)

lemma read_intervals_encode:
  "list_all (\<lambda>(s, e). s < e \<and> e < 2 ^ 64) iv \<Longrightarrow>
   read_intervals (length iv) (encode_intervals iv @ r) = Some (concat (map (\<lambda>(s, e). interval_text s e) iv), r)"
  by (induction iv) (auto simp: encode_intervals_def)

lemma read_sids_encode:
  "list_all entry_ok gs \<Longrightarrow>
   read_sids (length gs) (concat (map encode_entry gs) @ r) = Some (map entry_text gs)"
proof (induction gs)
  case (Cons u gs)
  then have u: "entry_ok u" by simp
  have e: "concat (map encode_entry (u # gs)) @ r =
      fst u @ le_bytes 8 (length (snd u)) @ encode_intervals (snd u) @ (concat (map encode_entry gs) @ r)"
    by (simp add: encode_entry_def [of u])
  show ?case
    unfolding e using u Cons read_intervals_encode [of "snd u" "concat (map encode_entry gs) @ r"]
    by (simp add: entry_ok_def entry_text_def [of u])
qed simp

lemma decode_encode:
  assumes "list_all entry_ok gs" and "length gs < 2 ^ 56"
  shows "decode_gtid_set (encode_gtid_set gs @ r) = Some (join '','' (map entry_text gs))"
  using assms by (simp add: decode_gtid_set_def encode_gtid_set_def read_sids_encode)

text \<open>An event: timestamp, type, server, length, next position, flags, payload.\<close>

definition encode_event :: "nat \<Rightarrow> byte \<Rightarrow> byte list \<Rightarrow> byte list \<Rightarrow> byte list \<Rightarrow> byte list" where
  "encode_event ts ty server tail payload =
     le_bytes 4 ts @ [ty] @ server @ le_bytes 4 (19 + length payload) @ tail @ payload"

lemma head_events_encode:
  assumes "length server = 4" and "length tail = 6" and "ts < 2 ^ 32" and "19 + length payload < 2 ^ 32"
  shows "head_events (Suc b) (encode_event ts ty server tail payload @ rest) created =
     (if ty = FORMAT_DESCRIPTION_EVENT then head_events b rest (Some (int ts * ns_per_s))
      else if ty = PREVIOUS_GTIDS_LOG_EVENT
      then (case created of None \<Rightarrow> None
        | Some c \<Rightarrow> map_option (\<lambda>g. \<lparr>created_at = c, previous_gtids = g\<rparr>) (decode_gtid_set payload))
      else head_events b rest created)"
proof -
  have ts: "le_nat (le_bytes 4 ts) = ts" and len: "le_nat (le_bytes 4 (19 + length payload)) = 19 + length payload"
    using assms(3,4) by (simp_all add: le_nat_le_bytes)
  define e where "e = encode_event ts ty server tail payload @ rest"
  have l: "length (encode_event ts ty server tail payload) = 19 + length payload"
    using assms(1,2) by (simp add: encode_event_def)
  have "take 4 e = le_bytes 4 ts" "e ! 4 = ty" "take 4 (drop 9 e) = le_bytes 4 (19 + length payload)"
    "drop 19 e = payload @ rest"
    using assms(1,2) by (simp_all add: e_def encode_event_def nth_append)
  moreover have "length e = 19 + length payload + length rest" "drop (19 + length payload) e = rest"
    by (simp_all add: e_def l)
  ultimately show ?thesis
    unfolding e_def [symmetric] by (simp add: BINLOG_EVENT_HEADER_LEN_def ts len Let_def)
qed

lemma parse_encoded_head:
  assumes "list_all entry_ok gs" and "length gs < 2 ^ 56" and "ts < 2 ^ 32" and "ts' < 2 ^ 32"
    and "length server = 4" and "length tail = 6" and "19 + length fde < 2 ^ 32"
    and "19 + length (encode_gtid_set gs @ crc) < 2 ^ 32"
  shows "parse_binlog_head (BINLOG_MAGIC @ encode_event ts FORMAT_DESCRIPTION_EVENT server tail fde @
      encode_event ts' PREVIOUS_GTIDS_LOG_EVENT server tail (encode_gtid_set gs @ crc) @ rest) =
    Some \<lparr>created_at = int ts * ns_per_s, previous_gtids = join '','' (map entry_text gs)\<rparr>"
proof -
  have b: "BINLOG_HEAD_EVENT_BUDGET = Suc (Suc 2)" by (simp add: BINLOG_HEAD_EVENT_BUDGET_def)
  let ?second = "encode_event ts' PREVIOUS_GTIDS_LOG_EVENT server tail (encode_gtid_set gs @ crc) @ rest"
  have d: "PREVIOUS_GTIDS_LOG_EVENT \<noteq> FORMAT_DESCRIPTION_EVENT"
    by (simp add: FORMAT_DESCRIPTION_EVENT_def PREVIOUS_GTIDS_LOG_EVENT_def)
  have "parse_binlog_head (BINLOG_MAGIC @ encode_event ts FORMAT_DESCRIPTION_EVENT server tail fde @ ?second) =
      head_events BINLOG_HEAD_EVENT_BUDGET (encode_event ts FORMAT_DESCRIPTION_EVENT server tail fde @ ?second) None"
    by (simp add: parse_binlog_head_def BINLOG_MAGIC_def)
  also have "\<dots> = head_events (Suc 2) ?second (Some (int ts * ns_per_s))"
    unfolding b head_events_encode [OF assms(5,6,3,7)] by simp
  also have "\<dots> = Some \<lparr>created_at = int ts * ns_per_s, previous_gtids = join '','' (map entry_text gs)\<rparr>"
    unfolding head_events_encode [OF assms(5,6,4,8)] using d by (simp add: decode_encode [OF assms(1,2)])
  finally show ?thesis .
qed

definition zero_uuid :: "byte list" where
  "zero_uuid = [0, 0, 0, 0, 0, 0, 0, 0, 0, 0, 0, 0, 0, 0, 0, 0]"

lemma length_zero_uuid [simp]: "length zero_uuid = 16"
  by (simp add: zero_uuid_def)

text \<open>
  What a damaged head can make the program reserve. Before it has read a single UUID,
  the decoder reserves room for as many as the first eight bytes claim: for every number
  below \<open>2 ^ 56\<close> there is a set of eight bytes that claims it, and unless it is zero the
  decoding then fails.
\<close>

theorem reservation_is_unchecked:
  assumes "k < 2 ^ 56"
  shows "\<exists>payload. length payload = 8 \<and> reserved_sids payload = k \<and> (k = 0 \<or> decode_gtid_set payload = None)"
proof (intro exI conjI)
  have t: "take_u64 (le_bytes 8 k) = Some (k, [])"
    using take_u64_le [of k "[]"] assms by simp
  show "length (le_bytes 8 k) = 8" by simp
  show "reserved_sids (le_bytes 8 k) = k" using assms by (simp add: reserved_sids_def t)
  show "k = 0 \<or> decode_gtid_set (le_bytes 8 k) = None"
    by (cases k) (use t assms in \<open>simp_all add: decode_gtid_set_def\<close>)
qed

lemma reservation_is_unchecked_witness:
  "\<exists>payload. length payload = 8 \<and> reserved_sids payload = 1099511627776"
  using reservation_is_unchecked [of "1099511627776"] by auto

section \<open>The order of the files\<close>

definition binlog_seq :: "string \<Rightarrow> nat option" where
  "binlog_seq name = parse_uint u64_max (last (split_on (CHR ''.'') name))"

definition binlog_name_cmp :: "string \<Rightarrow> string \<Rightarrow> ordering" where
  "binlog_name_cmp a b =
     (case (binlog_seq a, binlog_seq b) of (Some x, Some y) \<Rightarrow> cmp_lin x y | _ \<Rightarrow> cmp_lin a b)"

definition binlog_is_closed :: "string \<Rightarrow> string \<Rightarrow> bool" where
  "binlog_is_closed name active =
     (case (binlog_seq name, binlog_seq active) of (Some a, Some b) \<Rightarrow> a < b | _ \<Rightarrow> name < active)"

definition seq_of :: "string \<Rightarrow> nat" where
  "seq_of name = the (binlog_seq name)"

definition numbered :: "string list \<Rightarrow> bool" where
  "numbered files \<longleftrightarrow> list_all (\<lambda>f. binlog_seq f \<noteq> None) files"

lemma numbered_seq: "numbered files \<Longrightarrow> f \<in> set files \<Longrightarrow> binlog_seq f = Some (seq_of f)"
  by (auto simp: numbered_def list_all_iff seq_of_def)

text \<open>On numbered names the comparison is the one on sequence numbers.\<close>

lemma sort_numbered: "numbered files \<Longrightarrow> sort_by binlog_name_cmp files = sort_key seq_of files"
  by (rule sort_by_sort_key) (simp add: binlog_name_cmp_def numbered_seq cmp_lin_iff)

text \<open>
  With a stray name among them the comparison of binlog names is not an order: three
  names can each be smaller than the next, which leaves the result of the sort (and, in
  recent versions of the standard library, whether it returns) unspecified.
\<close>

theorem binlog_name_cmp_cycle:
  "\<exists>a b c. binlog_name_cmp a b = Less \<and> binlog_name_cmp b c = Less \<and> binlog_name_cmp c a = Less"
proof (intro exI conjI)
  have seqs: "binlog_seq ''b.9'' = Some 9" "binlog_seq ''b.10'' = Some 10" "binlog_seq ''b.5x'' = None"
    by (simp_all add: binlog_seq_def parse_uint_def digits_val_def digit_val_def is_digit_def char_code_def u64_max_def)
  have strings: "''b.10'' < ''b.5x''" "''b.5x'' < ''b.9''"
    by (simp_all add: less_char_def)
  show "binlog_name_cmp ''b.9'' ''b.10'' = Less" "binlog_name_cmp ''b.10'' ''b.5x'' = Less"
    "binlog_name_cmp ''b.5x'' ''b.9'' = Less"
    using strings by (simp_all add: binlog_name_cmp_def seqs cmp_lin_def)
qed

section \<open>What may be purged locally\<close>

definition purge_cut :: "string list \<Rightarrow> string \<Rightarrow> string set \<Rightarrow> string set \<Rightarrow> string option" where
  "purge_cut files active uploaded lost =
     (case find (\<lambda>f. f = active \<or> (f \<notin> uploaded \<and> f \<notin> lost)) files of
        None \<Rightarrow> None
      | Some b \<Rightarrow> if files \<noteq> [] \<and> hd files = b then None else Some b)"

definition retained :: "string \<Rightarrow> string set \<Rightarrow> string set \<Rightarrow> (string \<Rightarrow> nat option) \<Rightarrow> nat \<Rightarrow> string \<Rightarrow> bool" where
  "retained active uploaded lost age_of min_age name =
     (if name = active then True
      else if name \<in> lost then False
      else if name \<notin> uploaded then True
      else (case age_of name of None \<Rightarrow> True | Some age \<Rightarrow> age < min_age))"

definition purge_cut_retaining_recent ::
  "string list \<Rightarrow> string \<Rightarrow> string set \<Rightarrow> string set \<Rightarrow> (string \<Rightarrow> nat option) \<Rightarrow> nat \<Rightarrow> string option" where
  "purge_cut_retaining_recent files active uploaded lost age_of min_age =
     (case find (retained active uploaded lost age_of min_age) files of
        None \<Rightarrow> None
      | Some b \<Rightarrow> if files \<noteq> [] \<and> hd files = b then None else Some b)"

interpretation standalone_cut: cut_rule "\<lambda>files. purge_cut files active uploaded lost"
  "\<lambda>f. f = active \<or> (f \<notin> uploaded \<and> f \<notin> lost)" for active uploaded lost
  by unfold_locales (simp add: purge_cut_def first_blocking_def)

interpretation primary_cut: cut_rule
  "\<lambda>files. purge_cut_retaining_recent files active uploaded lost age_of min_age"
  "retained active uploaded lost age_of min_age" for active uploaded lost age_of min_age
  by unfold_locales (simp add: purge_cut_retaining_recent_def first_blocking_def)

text \<open>
  Nothing is purged from the volume that the bucket does not hold. Every file before the
  cut is closed and was uploaded, or had been lost before it could be; on a group's primary
  an uploaded file before the cut is also at least as old as the recovery window.
\<close>

theorem purge_keeps_what_is_not_uploaded:
  assumes "purge_cut files active uploaded lost = Some b \<or>
    purge_cut_retaining_recent files active uploaded lost age_of min_age = Some b"
  shows "before b files \<noteq> [] \<and> (\<forall>f \<in> set (before b files). f \<noteq> active \<and> (f \<in> uploaded \<or> f \<in> lost)) \<and>
    (purge_cut_retaining_recent files active uploaded lost age_of min_age = Some b \<longrightarrow>
      (\<forall>f \<in> set (before b files). f \<in> lost \<or> (\<exists>age. age_of f = Some age \<and> min_age \<le> age)))"
proof -
  have r: "\<not> retained active uploaded lost age_of min_age f \<Longrightarrow> f \<noteq> active \<and> (f \<in> uploaded \<or> f \<in> lost) \<and>
      (f \<in> lost \<or> (\<exists>age. age_of f = Some age \<and> min_age \<le> age))" for f
    by (auto simp: retained_def split: if_splits option.splits)
  show ?thesis
    using assms standalone_cut.nothing_blocking_before [of files active uploaded lost b]
      standalone_cut.cut_not_first [of files active uploaded lost b]
      primary_cut.nothing_blocking_before [of files active uploaded lost age_of min_age b]
      primary_cut.cut_not_first [of files active uploaded lost age_of min_age b] r
    by blast
qed

lemma purge_keeps_what_is_not_uploaded_witness:
  "before ''c'' [''a'', ''b'', ''c'', ''d''] \<noteq> []"
  by (rule purge_keeps_what_is_not_uploaded [of _ "''d''" "{''a''}" "{''b''}" _ "\<lambda>_. Some 5" 3, THEN conjunct1])
     (simp add: purge_cut_def)

end
