(* ===== verification/Replay.thy ===== *)
theory Replay
  imports Binlog
begin

text \<open>
  The plan of binary logs to replay onto a full backup (\<open>pitr.rs\<close>): the gap-free run
  from the backup's own coordinate file, the gap that ended it, and, for a shared history,
  the runs past the gap.
\<close>

section \<open>The plan\<close>

record binlog_gap =
  gap_after :: string
  next_present :: string

record binlog_replay_plan =
  replay_run :: "string list"
  replay_gap :: "binlog_gap option"

text \<open>\<open>hole prev name\<close>: both have sequence numbers and they are not consecutive.\<close>

definition hole :: "nat option \<Rightarrow> string \<Rightarrow> bool" where
  "hole prev name =
     (case (prev, binlog_seq name) of (Some p, Some c) \<Rightarrow> c \<noteq> p + 1 | _ \<Rightarrow> False)"

fun replay_from :: "string list \<Rightarrow> string list \<Rightarrow> nat option \<Rightarrow> binlog_replay_plan" where
  "replay_from [] run prev = \<lparr>replay_run = run, replay_gap = None\<rparr>"
| "replay_from (name # later) run prev =
     (if hole prev name
      then \<lparr>replay_run = run,
            replay_gap = Some \<lparr>gap_after = (if run = [] then [] else last run), next_present = name\<rparr>\<rparr>
      else replay_from later (run @ [name]) (binlog_seq name))"

definition past_seq :: "nat \<Rightarrow> string \<Rightarrow> bool" where
  "past_seq s f = (case binlog_seq f of Some x \<Rightarrow> x > s | None \<Rightarrow> False)"

definition binlogs_to_replay :: "string list \<Rightarrow> string \<Rightarrow> binlog_replay_plan" where
  "binlogs_to_replay files0 start_file =
     (let files = sort_by binlog_name_cmp files0 in
      case position (\<lambda>f. f = start_file) files of
        None \<Rightarrow>
          (let next_past_start = Option.bind (binlog_seq start_file) (\<lambda>s. find (past_seq s) files) in
           \<lparr>replay_run = [],
            replay_gap = map_option (\<lambda>n. \<lparr>gap_after = [], next_present = n\<rparr>) next_past_start\<rparr>)
      | Some i \<Rightarrow> replay_from (drop i files) [] None)"

fun split_runs :: "string list \<Rightarrow> string list list \<Rightarrow> nat option \<Rightarrow> string list list" where
  "split_runs [] runs prev = runs"
| "split_runs (name # later) runs prev =
     (if hole prev name \<or> runs = []
      then split_runs later (runs @ [[name]]) (binlog_seq name)
      else split_runs later (butlast runs @ [last runs @ [name]]) (binlog_seq name))"

definition binlog_runs_past_gap :: "string list \<Rightarrow> string \<Rightarrow> string list list" where
  "binlog_runs_past_gap files0 next =
     (let files = sort_by binlog_name_cmp files0 in
      case position (\<lambda>f. f = next) files of
        None \<Rightarrow> []
      | Some i \<Rightarrow> split_runs (drop i files) [] None)"

section \<open>Runs of consecutive sequence numbers\<close>

fun consecutive :: "string list \<Rightarrow> bool" where
  "consecutive [] = True"
| "consecutive [f] = True"
| "consecutive (f # g # fs) = (seq_of g = seq_of f + 1 \<and> consecutive (g # fs))"

lemma consecutive_snoc:
  "consecutive (run @ [f]) \<longleftrightarrow> consecutive run \<and> (run = [] \<or> seq_of f = seq_of (last run) + 1)"
  by (induction run rule: consecutive.induct) auto

lemma consecutive_seqs: "consecutive run \<Longrightarrow> run \<noteq> [] \<Longrightarrow>
    map seq_of run = [seq_of (hd run)..<seq_of (hd run) + length run]"
  by (induction run rule: consecutive.induct) (auto simp: upt_rec)

lemma hole_numbered: "binlog_seq f = Some (seq_of f) \<Longrightarrow> hole (Some p) f \<longleftrightarrow> seq_of f \<noteq> p + 1"
  by (simp add: hole_def)

lemma hole_None [simp]: "hole None f = False"
  by (simp add: hole_def)

definition prev_of :: "string list \<Rightarrow> nat option" where
  "prev_of run = (if run = [] then None else Some (seq_of (last run)))"

text \<open>How a run ended: nothing was left, or the next file does not follow its last.\<close>

definition ends_run :: "string list \<Rightarrow> string list \<Rightarrow> binlog_gap option \<Rightarrow> bool" where
  "ends_run run rest g =
     (case g of
        None \<Rightarrow> rest = []
      | Some g \<Rightarrow> run \<noteq> [] \<and> rest \<noteq> [] \<and> next_present g = hd rest \<and> gap_after g = last run \<and>
          seq_of (hd rest) \<noteq> seq_of (last run) + 1)"

lemma replay_from_run:
  assumes "numbered files" and "consecutive run"
  shows "\<exists>more rest. files = more @ rest \<and> replay_run (replay_from files run (prev_of run)) = run @ more \<and>
    consecutive (run @ more) \<and> ends_run (run @ more) rest (replay_gap (replay_from files run (prev_of run)))"
  using assms
proof (induction files arbitrary: run)
  case Nil
  then show ?case by (simp add: ends_run_def)
next
  case (Cons f files)
  have f: "binlog_seq f = Some (seq_of f)" using Cons.prems(1) by (simp add: numbered_seq)
  show ?case
  proof (cases "hole (prev_of run) f")
    case True
    then have "run \<noteq> []" "seq_of f \<noteq> seq_of (last run) + 1"
      using f by (auto simp: prev_of_def hole_numbered split: if_splits)
    then have "f # files = [] @ f # files \<and> replay_run (replay_from (f # files) run (prev_of run)) = run @ [] \<and>
        consecutive (run @ []) \<and> ends_run (run @ []) (f # files) (replay_gap (replay_from (f # files) run (prev_of run)))"
      using True Cons.prems(2) by (simp add: ends_run_def)
    then show ?thesis by blast
  next
    case False
    then have c: "consecutive (run @ [f])"
      using Cons.prems(2) f by (auto simp: consecutive_snoc prev_of_def hole_numbered split: if_splits)
    have n: "numbered files" using Cons.prems(1) by (simp add: numbered_def)
    have p: "prev_of (run @ [f]) = binlog_seq f" by (simp add: prev_of_def f)
    obtain more rest where r: "files = more @ rest" "replay_run (replay_from files (run @ [f]) (binlog_seq f)) = (run @ [f]) @ more"
      "consecutive ((run @ [f]) @ more)" "ends_run ((run @ [f]) @ more) rest (replay_gap (replay_from files (run @ [f]) (binlog_seq f)))"
      using Cons.IH [OF n c] unfolding p by blast
    have "f # files = (f # more) @ rest \<and> replay_run (replay_from (f # files) run (prev_of run)) = run @ (f # more) \<and>
        consecutive (run @ (f # more)) \<and> ends_run (run @ (f # more)) rest (replay_gap (replay_from (f # files) run (prev_of run)))"
      using False r by simp
    then show ?thesis by blast
  qed
qed

lemma position_drop:
  "position p xs = Some i \<Longrightarrow> drop i xs = dropWhile (\<lambda>x. \<not> p x) xs"
  by (induction xs arbitrary: i) (auto split: if_splits)

lemma dropWhile_start: "s \<in> set xs \<Longrightarrow> \<exists>r. dropWhile (\<lambda>x. x \<noteq> s) xs = s # r"
  by (induction xs) auto

lemma position_eq_Some: "s \<in> set xs \<Longrightarrow> \<exists>i. position (\<lambda>x. x = s) xs = Some i"
  using position_None [of "\<lambda>x. x = s" xs] by fastforce

lemma binlogs_to_replay_present:
  assumes "numbered files" and "start \<in> set files"
  shows "binlogs_to_replay files start = replay_from (dropWhile (\<lambda>f. f \<noteq> start) (sort_key seq_of files)) [] None"
proof -
  obtain i where "position (\<lambda>f. f = start) (sort_key seq_of files) = Some i"
    using position_eq_Some [of start "sort_key seq_of files"] assms(2) by auto
  then show ?thesis
    using assms(1) by (simp add: binlogs_to_replay_def sort_numbered position_drop)
qed

lemma sorted_from_start:
  assumes "distinct (map seq_of files)" and "start \<in> set files"
  shows "set (dropWhile (\<lambda>f. f \<noteq> start) (sort_key seq_of files)) = {f \<in> set files. seq_of start \<le> seq_of f}"
    and "sorted (map seq_of (dropWhile (\<lambda>f. f \<noteq> start) (sort_key seq_of files)))"
    and "hd (dropWhile (\<lambda>f. f \<noteq> start) (sort_key seq_of files)) = start"
    and "distinct (map seq_of (dropWhile (\<lambda>f. f \<noteq> start) (sort_key seq_of files)))"
proof -
  let ?s = "sort_key seq_of files" and ?d = "dropWhile (\<lambda>f. f \<noteq> start) (sort_key seq_of files)"
  let ?t = "takeWhile (\<lambda>f. f \<noteq> start) (sort_key seq_of files)"
  obtain r where d: "?d = start # r" using dropWhile_start [of start ?s] assms(2) by auto
  have s: "?s = ?t @ start # r" using takeWhile_dropWhile_id [of "\<lambda>f. f \<noteq> start" ?s] d by simp
  have "sorted (map seq_of ?s)" by simp
  then have sorted: "sorted (map seq_of (?t @ start # r))" using s by simp
  have "distinct (map seq_of ?s)"
    using assms(1) by (metis distinct_map distinct_sort set_sort)
  then have dist: "distinct (map seq_of (?t @ start # r))" using s by simp
  have "set files = set (?t @ start # r)" using s by (metis set_sort)
  moreover have "\<forall>f \<in> set ?t. seq_of f < seq_of start"
  proof
    fix f
    assume f: "f \<in> set ?t"
    then have "seq_of f \<le> seq_of start" using sorted by (simp add: sorted_append)
    moreover have "seq_of f \<noteq> seq_of start" using dist imageI [OF f, of seq_of] by auto
    ultimately show "seq_of f < seq_of start" by simp
  qed
  moreover have "\<forall>f \<in> set r. seq_of start \<le> seq_of f" using sorted by (simp add: sorted_append)
  ultimately show "set ?d = {f \<in> set files. seq_of start \<le> seq_of f}" unfolding d by fastforce
  show "sorted (map seq_of ?d)" unfolding d using sorted by (simp add: sorted_append)
  show "hd ?d = start" unfolding d by simp
  show "distinct (map seq_of ?d)" unfolding d using dist by simp
qed

text \<open>
  What a restore replays. Given numbered files in any order, with no two of one number,
  the run starts at the backup's coordinate file, its numbers follow one another without a
  hole, and it is as long as possible: with no gap it holds every file from the start on, and
  a gap is reported exactly when files lie beyond a missing number, the first of them being
  named. When the coordinate file is missing the run is empty, and a gap is reported when any
  later file exists.
\<close>

theorem replay_plan_gap_free:
  assumes "numbered files" and "distinct (map seq_of files)" and "binlog_seq start = Some (seq_of start)"
  shows "let plan = binlogs_to_replay files start; run = replay_run plan; beyond = {f \<in> set files. seq_of start + length run \<le> seq_of f} in
    (if start \<in> set files
     then run \<noteq> [] \<and> hd run = start \<and> set run \<subseteq> set files \<and>
       map seq_of run = [seq_of start..<seq_of start + length run] \<and>
       (case replay_gap plan of
          None \<Rightarrow> beyond = {}
        | Some g \<Rightarrow> seq_of start + length run \<notin> seq_of ` set files \<and> next_present g \<in> beyond \<and>
            gap_after g = last run \<and> seq_of (next_present g) = Min (seq_of ` beyond))
     else run = [] \<and> (replay_gap plan = None \<longleftrightarrow> {f \<in> set files. seq_of start < seq_of f} = {}))"
proof (cases "start \<in> set files")
  case False
  let ?s = "sort_key seq_of files"
  have "position (\<lambda>f. f = start) ?s = None" using False by (auto simp: position_None)
  then have plan: "binlogs_to_replay files start = \<lparr>replay_run = [],
      replay_gap = map_option (\<lambda>n. \<lparr>gap_after = [], next_present = n\<rparr>) (find (past_seq (seq_of start)) ?s)\<rparr>"
    using assms(1,3) by (simp add: binlogs_to_replay_def sort_numbered)
  have "find (past_seq (seq_of start)) ?s = None \<longleftrightarrow> {f \<in> set files. seq_of start < seq_of f} = {}"
    using numbered_seq [OF assms(1)] by (auto simp: find_None_iff past_seq_def)
  then show ?thesis using False by (simp add: plan)
next
  case True
  define fs where "fs = dropWhile (\<lambda>f. f \<noteq> start) (sort_key seq_of files)"
  note fs = sorted_from_start [OF assms(2) True, folded fs_def]
  have n: "numbered fs"
    using assms(1) fs(1) by (auto simp: numbered_def list_all_iff)
  have plan: "binlogs_to_replay files start = replay_from fs [] None"
    using binlogs_to_replay_present [OF assms(1) True] by (simp add: fs_def)
  obtain run rest where r: "fs = run @ rest" "replay_run (replay_from fs [] None) = run" "consecutive run"
    "ends_run run rest (replay_gap (replay_from fs [] None))"
    using replay_from_run [OF n, of "[]"] unfolding prev_of_def by auto
  have ne: "fs \<noteq> []" using fs(1) True by auto
  then have run_ne: "run \<noteq> []" using r(1,4) by (auto simp: ends_run_def split: option.splits)
  then have hd: "hd run = start" using fs(3) r(1) by simp
  have seqs: "map seq_of run = [seq_of start..<seq_of start + length run]"
    using consecutive_seqs [OF r(3) run_ne] hd by simp
  have last: "seq_of (last run) + 1 = seq_of start + length run"
  proof -
    have "last (map seq_of run) = last [seq_of start..<seq_of start + length run]" using seqs by simp
    then show ?thesis using run_ne by (simp add: last_map last_upt)
  qed
  have sub: "set run \<subseteq> set files" using fs(1) r(1) by auto
  have in_run: "f \<in> set run \<Longrightarrow> seq_of f < seq_of start + length run" for f
    using arg_cong [OF seqs, of set] by (auto simp: image_def)
  have sorted_rest: "sorted (map seq_of rest)" and cross: "\<And>f g. f \<in> set run \<Longrightarrow> g \<in> set rest \<Longrightarrow> seq_of f < seq_of g"
    using fs(2,4) r(1) by (auto simp: sorted_append order.strict_iff_order)
  have rest_above: "seq_of start + length run \<le> seq_of g" if "g \<in> set rest" for g
    using cross [OF last_in_set [OF run_ne] that] last by simp
  have beyond: "{f \<in> set files. seq_of start + length run \<le> seq_of f} = set rest"
  proof -
    have "set files \<inter> {f. seq_of start \<le> seq_of f} = set run \<union> set rest" using fs(1) r(1) by auto
    then show ?thesis using in_run rest_above by fastforce
  qed
  show ?thesis
  proof (cases "replay_gap (replay_from fs [] None)")
    case None
    then show ?thesis
      using True r(2,4) run_ne hd sub seqs beyond by (simp add: plan Let_def ends_run_def)
  next
    case (Some g)
    then have g: "rest \<noteq> []" "next_present g = hd rest" "gap_after g = last run" "seq_of (hd rest) \<noteq> seq_of start + length run"
      using r(4) last by (auto simp: ends_run_def)
    have least: "seq_of (hd rest) \<le> seq_of f" if "f \<in> set rest" for f
      using sorted_rest that g(1) by (cases rest) auto
    have "Min (seq_of ` set rest) = seq_of (hd rest)"
      using least g(1) by (intro Min_eqI) auto
    moreover have "seq_of start + length run \<notin> seq_of ` set files"
    proof
      assume "seq_of start + length run \<in> seq_of ` set files"
      then obtain f where f: "f \<in> set files" "seq_of f = seq_of start + length run" by auto
      then have "f \<in> {f \<in> set files. seq_of start + length run \<le> seq_of f}" by simp
      then have "f \<in> set rest" by (simp only: beyond)
      from least [OF this] have "seq_of (hd rest) \<le> seq_of start + length run" unfolding f(2) .
      moreover have "seq_of start + length run \<le> seq_of (hd rest)"
        by (rule rest_above) (simp add: g(1))
      ultimately show False using g(4) by linarith
    qed
    ultimately show ?thesis
      using Some True r(2) run_ne hd sub seqs beyond g by (simp add: plan Let_def)
  qed
qed

lemma replay_plan_gap_free_witness:
  "hd (replay_run (binlogs_to_replay [''b.8'', ''b.5'', ''b.6''] ''b.5'')) = ''b.5''"
proof -
  have s: "binlog_seq ''b.8'' = Some 8" "binlog_seq ''b.5'' = Some 5" "binlog_seq ''b.6'' = Some 6"
    by (simp_all add: binlog_seq_def parse_uint_def digits_val_def digit_val_def is_digit_def char_code_def u64_max_def)
  have "numbered [''b.8'', ''b.5'', ''b.6'']" "distinct (map seq_of [''b.8'', ''b.5'', ''b.6''])"
    "binlog_seq ''b.5'' = Some (seq_of ''b.5'')"
    by (simp_all add: numbered_def seq_of_def s)
  from replay_plan_gap_free [OF this] show ?thesis by (simp add: Let_def)
qed

end
