(* ===== verification/Credentials.thy ===== *)
theory Credentials
  imports Health Boot
begin

text \<open>
  The root password of a node: the pin on the volume and the resolver that decides at boot
  which password the database enforces (\<open>password_pin.rs\<close>), and the phases by which the
  platform rotates it over a cluster (\<open>credentials.rs\<close>, with the statements of
  \<open>sql.rs\<close>). The database server is a record of functions on a state of its own; whether
  a file could be written is an argument. The bounds of 35 and 25 seconds on a phase, which cut
  it at an await, are not modelled.
\<close>

section \<open>The pin\<close>

definition cr_or_lf :: "char \<Rightarrow> bool" where
  "cr_or_lf c \<longleftrightarrow> char_code c = 13 \<or> char_code c = 10"

definition read_pin :: "string option \<Rightarrow> string option" where
  "read_pin content =
     (case content of
        None \<Rightarrow> None
      | Some s \<Rightarrow> let trimmed = trim_end_by cr_or_lf s in if trimmed = [] then None else Some trimmed)"

definition write_pin :: "bool \<Rightarrow> string \<Rightarrow> string option \<Rightarrow> string option" where
  "write_pin ok pw content = (if ok then Some (pw @ [newline]) else content)"

definition initial_password :: "string \<Rightarrow> string option \<Rightarrow> string" where
  "initial_password env pin = (case pin of Some p \<Rightarrow> if p \<noteq> env then p else env | None \<Rightarrow> env)"

datatype password_source = From_pin | From_env | From_rotation

definition candidates :: "string \<Rightarrow> string option \<Rightarrow> (password_source \<times> string) list" where
  "candidates env pin =
     (case pin of Some p \<Rightarrow> if p \<noteq> env then [(From_pin, p)] else [] | None \<Rightarrow> []) @ [(From_env, env)]"

section \<open>The server and the node\<close>

datatype root_password_probe = Works | AccessDenied | Probe_not_ready

type_synonym verifier = "string \<times> string \<times> string"

record 's sql_server =
  s_probe :: "'s \<Rightarrow> string \<Rightarrow> root_password_probe"
  s_pool :: "'s \<Rightarrow> string \<Rightarrow> root_password_probe"
  s_verifiers :: "'s \<Rightarrow> verifier list option"
  s_query :: "'s \<Rightarrow> string \<Rightarrow> 's \<times> bool"
  s_read_only :: "'s \<Rightarrow> bool option"
  s_members :: "'s \<Rightarrow> member_row list option"
  s_channel :: "'s \<Rightarrow> string \<Rightarrow> string \<Rightarrow> 's \<times> bool"

datatype operation = Preflight | Prepare | Database | Member | Finalize | Verify

record rotation =
  operation :: operation
  new_password :: string
  current_password :: string
  previous_verifiers :: "verifier list option"

record disk =
  pin_writes :: bool
  intent_writes :: bool
  intent_removes :: bool

text \<open>\<open>intent\<close> is the decoded \<open>.railway_rotation\<close>; an undecodable file reads as none.\<close>

record 's rotation_node =
  server :: 's
  pin_file :: "string option"
  intent :: "rotation option"
  pool :: string

definition pending_password :: "'s rotation_node \<Rightarrow> string option" where
  "pending_password nd = map_option new_password (intent nd)"

definition swap_root_password :: "string \<Rightarrow> 's rotation_node \<Rightarrow> 's rotation_node" where
  "swap_root_password pw nd = nd\<lparr>pool := pw\<rparr>"

text \<open>\<open>Sql::conn\<close>: a denied pool falls back to the password of a pending rotation.\<close>

definition conn :: "'s sql_server \<Rightarrow> 's rotation_node \<Rightarrow> 's rotation_node option" where
  "conn I nd =
     (case s_pool I (server nd) (pool nd) of
        Works \<Rightarrow> Some nd
      | AccessDenied \<Rightarrow>
          (case pending_password nd of
             None \<Rightarrow> None
           | Some p \<Rightarrow> (case s_probe I (server nd) p of Works \<Rightarrow> Some (swap_root_password p nd) | _ \<Rightarrow> None))
      | Probe_not_ready \<Rightarrow> None)"

definition with_conn :: "'s sql_server \<Rightarrow> 's rotation_node \<Rightarrow> ('s rotation_node \<Rightarrow> 's rotation_node \<times> 'a option) \<Rightarrow> 's rotation_node \<times> 'a option" where
  "with_conn I nd f = (case conn I nd of None \<Rightarrow> (nd, None) | Some nd' \<Rightarrow> f nd')"

definition ask :: "'s sql_server \<Rightarrow> ('s \<Rightarrow> 'a option) \<Rightarrow> 's rotation_node \<Rightarrow> 's rotation_node \<times> 'a option" where
  "ask I q nd = with_conn I nd (\<lambda>nd. (nd, q (server nd)))"

text \<open>An effect on the server may take place although its answer is lost.\<close>

definition act :: "'s sql_server \<Rightarrow> ('s \<Rightarrow> 's \<times> bool) \<Rightarrow> 's rotation_node \<Rightarrow> 's rotation_node \<times> unit option" where
  "act I a nd =
     with_conn I nd (\<lambda>nd. case a (server nd) of (s, ok) \<Rightarrow> (nd\<lparr>server := s\<rparr>, if ok then Some () else None))"

definition bind_node :: "'s rotation_node \<times> 'a option \<Rightarrow> ('a \<Rightarrow> 's rotation_node \<Rightarrow> 's rotation_node \<times> 'b option) \<Rightarrow> 's rotation_node \<times> 'b option" where
  "bind_node m k = (case m of (nd, None) \<Rightarrow> (nd, None) | (nd, Some x) \<Rightarrow> k x nd)"

definition ensure :: "bool \<Rightarrow> 's rotation_node \<Rightarrow> 's rotation_node \<times> unit option" where
  "ensure b nd = (nd, if b then Some () else None)"

section \<open>The statements of a rotation\<close>

definition ha_accounts :: "verifier list \<Rightarrow> verifier list option" where
  "ha_accounts rows =
     (if list_ex (\<lambda>(u, _). u = ''root'') rows \<and> list_ex (\<lambda>(u, _). u = ''gr_recovery'') rows then Some rows else None)"

definition rotation_verifiers :: "'s sql_server \<Rightarrow> 's rotation_node \<Rightarrow> 's rotation_node \<times> verifier list option" where
  "rotation_verifiers I = ask I (\<lambda>s. Option.bind (s_verifiers I s) ha_accounts)"

definition account :: "verifier \<Rightarrow> string" where
  "account v = (case v of (u, h, _) \<Rightarrow> sql_string_literal u @ ''@'' @ sql_string_literal h)"

definition alter_users :: "(verifier \<Rightarrow> string) \<Rightarrow> verifier list \<Rightarrow> string" where
  "alter_users clause rows = ''ALTER USER '' @ join_with '', '' (map (\<lambda>v. account v @ clause v) rows)"

definition rotate_statement :: "string \<Rightarrow> verifier list \<Rightarrow> string" where
  "rotate_statement pw = alter_users (\<lambda>v. '' IDENTIFIED BY '' @ sql_string_literal pw @ '' RETAIN CURRENT PASSWORD'')"

definition finalize_statement :: "verifier list \<Rightarrow> string" where
  "finalize_statement = alter_users (\<lambda>v. '' DISCARD OLD PASSWORD'')"

definition rotate_cluster_accounts :: "'s sql_server \<Rightarrow> string \<Rightarrow> 's rotation_node \<Rightarrow> 's rotation_node \<times> unit option" where
  "rotate_cluster_accounts I pw nd =
     bind_node (rotation_verifiers I nd) (\<lambda>rows. act I (\<lambda>s. s_query I s (rotate_statement pw rows)))"

definition finalize_cluster_password :: "'s sql_server \<Rightarrow> 's rotation_node \<Rightarrow> 's rotation_node \<times> unit option" where
  "finalize_cluster_password I nd =
     bind_node (rotation_verifiers I nd) (\<lambda>rows. act I (\<lambda>s. s_query I s (finalize_statement rows)))"

section \<open>The phases\<close>

definition probed :: "'s sql_server \<Rightarrow> root_password_probe \<Rightarrow> string \<Rightarrow> 's rotation_node \<Rightarrow> 's rotation_node \<times> unit option" where
  "probed I p pw nd = ensure (s_probe I (server nd) pw = p) nd"

definition require_primary :: "'s sql_server \<Rightarrow> 's rotation_node \<Rightarrow> 's rotation_node \<times> unit option" where
  "require_primary I nd = bind_node (ask I (s_read_only I) nd) (\<lambda>ro. ensure (\<not> ro))"

definition require_healthy :: "'s sql_server \<Rightarrow> 's rotation_node \<Rightarrow> 's rotation_node \<times> unit option" where
  "require_healthy I nd = bind_node (ask I (s_members I) nd) (\<lambda>ms. ensure (group_healthy ms))"

definition save_pending :: "disk \<Rightarrow> rotation \<Rightarrow> 's rotation_node \<Rightarrow> 's rotation_node \<times> unit option" where
  "save_pending d r nd = (if intent_writes d then (nd\<lparr>intent := Some r\<rparr>, Some ()) else (nd, None))"

definition prepare :: "'s sql_server \<Rightarrow> disk \<Rightarrow> rotation \<Rightarrow> 's rotation_node \<Rightarrow> 's rotation_node \<times> unit option" where
  "prepare I d r nd =
     (case (case intent nd of Some st \<Rightarrow> if new_password st = new_password r then Some (previous_verifiers st) else None
            | None \<Rightarrow> None) of
        Some snap \<Rightarrow> save_pending d (r\<lparr>previous_verifiers := snap\<rparr>) nd
      | None \<Rightarrow> bind_node (rotation_verifiers I nd) (\<lambda>rows. save_pending d (r\<lparr>previous_verifiers := Some rows\<rparr>)))"

definition database :: "'s sql_server \<Rightarrow> rotation \<Rightarrow> 's rotation_node \<Rightarrow> 's rotation_node \<times> unit option" where
  "database I r nd =
     (case intent nd of
        None \<Rightarrow> (nd, None)
      | Some st \<Rightarrow>
          if new_password st \<noteq> new_password r then (nd, None)
          else (case previous_verifiers st of
              None \<Rightarrow> (nd, None)
            | Some snap \<Rightarrow>
                bind_node (bind_node (rotation_verifiers I nd) (\<lambda>current nd.
                    if current = snap
                    then bind_node (require_primary I nd) (\<lambda>_. rotate_cluster_accounts I (new_password r))
                    else (nd, Some ())))
                  (\<lambda>_ nd. bind_node (probed I Works (new_password r) nd) (\<lambda>_ nd. (swap_root_password (new_password r) nd, Some ())))))"

definition member :: "'s sql_server \<Rightarrow> disk \<Rightarrow> rotation \<Rightarrow> 's rotation_node \<Rightarrow> 's rotation_node \<times> unit option" where
  "member I d r nd =
     bind_node (probed I Works (new_password r) nd) (\<lambda>_ nd.
       bind_node (act I (\<lambda>s. s_channel I s ''gr_recovery'' (new_password r)) (swap_root_password (new_password r) nd)) (\<lambda>_ nd.
         (nd\<lparr>pin_file := write_pin (pin_writes d) (new_password r) (pin_file nd)\<rparr>, if pin_writes d then Some () else None)))"

definition finalize_phase :: "'s sql_server \<Rightarrow> rotation \<Rightarrow> 's rotation_node \<Rightarrow> 's rotation_node \<times> unit option" where
  "finalize_phase I r nd =
     bind_node (require_primary I nd) (\<lambda>_ nd.
       bind_node (probed I Works (new_password r) nd) (\<lambda>_ nd. finalize_cluster_password I nd))"

definition verify :: "'s sql_server \<Rightarrow> disk \<Rightarrow> rotation \<Rightarrow> 's rotation_node \<Rightarrow> 's rotation_node \<times> unit option" where
  "verify I d r nd =
     bind_node (require_healthy I nd) (\<lambda>_ nd.
       bind_node (if current_password r \<noteq> new_password r then probed I AccessDenied (current_password r) nd else (nd, Some ())) (\<lambda>_ nd.
         bind_node (probed I Works (new_password r) nd) (\<lambda>_ nd.
           bind_node (ensure (read_pin (pin_file nd) = Some (new_password r)) nd) (\<lambda>_ nd.
             if intent nd = None then (nd, Some ())
             else if intent_removes d then (nd\<lparr>intent := None\<rparr>, Some ()) else (nd, None)))))"

definition preflight :: "'s sql_server \<Rightarrow> rotation \<Rightarrow> 's rotation_node \<Rightarrow> 's rotation_node \<times> unit option" where
  "preflight I r nd = bind_node (probed I Works (new_password r) nd) (\<lambda>_ nd. require_healthy I nd)"

datatype phase_reply = Prepared | Done bool

definition apply_phase :: "'s sql_server \<Rightarrow> disk \<Rightarrow> rotation \<Rightarrow> 's rotation_node \<Rightarrow> 's rotation_node \<times> phase_reply option" where
  "apply_phase I d r nd =
     (let reply = (\<lambda>_ nd. bind_node (ask I (s_read_only I) nd) (\<lambda>ro nd. (nd, Some (Done (\<not> ro))))) in
      case operation r of
        Preflight \<Rightarrow> bind_node (preflight I r nd) reply
      | Prepare \<Rightarrow> bind_node (prepare I d r nd) (\<lambda>_ nd. (nd, Some Prepared))
      | Database \<Rightarrow> bind_node (database I r nd) reply
      | Member \<Rightarrow> bind_node (member I d r nd) reply
      | Finalize \<Rightarrow> bind_node (finalize_phase I r nd) reply
      | Verify \<Rightarrow> bind_node (verify I d r nd) reply)"

section \<open>The route\<close>

text \<open>\<open>rotate\<close>: the status, with the phase run when the request is admitted.\<close>

definition supplied_pair :: "(string \<Rightarrow> string option) \<Rightarrow> string option \<Rightarrow> string option" where
  "supplied_pair b64 header =
     Option.bind (Option.bind header (split_once (CHR '' ''))) (\<lambda>(scheme, token).
       if eq_ic scheme ''basic'' then b64 token else None)"

definition rotate_route ::
  "(string \<Rightarrow> string option) \<Rightarrow> (string \<Rightarrow> string \<Rightarrow> bool) \<Rightarrow> 's sql_server \<Rightarrow> disk \<Rightarrow> string option \<Rightarrow> rotation \<Rightarrow>
     's rotation_node \<Rightarrow> 's rotation_node \<times> (nat \<times> phase_reply option)" where
  "rotate_route b64 ct_eq I d header r nd =
     (case read_pin (pin_file nd) of
        None \<Rightarrow> (nd, (503, None))
      | Some active \<Rightarrow>
          if \<not> (case supplied_pair b64 header of None \<Rightarrow> False | Some s \<Rightarrow> ct_eq s (''railway:'' @ active)) then (nd, (401, None))
          else if new_password r = [] \<or> 1024 < length (new_password r) then (nd, (400, None))
          else (case apply_phase I d r nd of
              (nd', Some reply) \<Rightarrow> (nd', (200, Some reply))
            | (nd', None) \<Rightarrow> (nd', (503, None))))"

text \<open>One round of \<open>reconcile\<close>, with the age of the intent file in seconds.\<close>

definition reconcile_round :: "'s sql_server \<Rightarrow> disk \<Rightarrow> nat \<Rightarrow> 's rotation_node \<Rightarrow> 's rotation_node" where
  "reconcile_round I d age nd =
     (case intent nd of
        None \<Rightarrow> nd
      | Some r \<Rightarrow> if age < 30 then nd else fst (apply_phase I d (r\<lparr>operation := Member\<rparr>) nd))"

section \<open>The resolver at boot\<close>

definition DENIED_ROUNDS_BEFORE_ALERT :: nat where "DENIED_ROUNDS_BEFORE_ALERT = 120"

record resolver =
  denied_rounds :: nat
  alerted :: bool

datatype resolver_event = Drift_reported | All_denied_reported | Pin_write_failed | Pitr_refusal_noted | Pitr_refusal_cleared

datatype probing = Found password_source string | All_denied | Not_up

fun probe_choices :: "(string \<Rightarrow> root_password_probe) \<Rightarrow> (password_source \<times> string) list \<Rightarrow> probing" where
  "probe_choices probe [] = All_denied"
| "probe_choices probe ((src, pw) # rest) =
     (case probe pw of Works \<Rightarrow> Found src pw | AccessDenied \<Rightarrow> probe_choices probe rest | Probe_not_ready \<Rightarrow> Not_up)"

definition choices :: "string \<Rightarrow> 's rotation_node \<Rightarrow> (password_source \<times> string) list" where
  "choices env nd =
     (case pending_password nd of Some p \<Rightarrow> [(From_rotation, p)] | None \<Rightarrow> []) @ candidates env (read_pin (pin_file nd))"

definition finalize_pin :: "disk \<Rightarrow> string \<Rightarrow> string \<Rightarrow> string \<Rightarrow> 's rotation_node \<Rightarrow> 's rotation_node \<times> resolver_event list" where
  "finalize_pin d active env boot nd =
     (let rewrite = (read_pin (pin_file nd) \<noteq> Some active);
          nd1 = (if rewrite then nd\<lparr>pin_file := write_pin (pin_writes d) active (pin_file nd)\<rparr> else nd);
          nd2 = (if active \<noteq> boot then swap_root_password active nd1 else nd1) in
      (nd2, (if active \<noteq> env then [Drift_reported] else []) @ (if rewrite \<and> \<not> pin_writes d then [Pin_write_failed] else [])))"

text \<open>One round of \<open>resolve_and_apply\<close>; \<open>Some\<close> password ends it.\<close>

definition resolve_round ::
  "disk \<Rightarrow> bool \<Rightarrow> bool \<Rightarrow> string \<Rightarrow> string \<Rightarrow> (string \<Rightarrow> root_password_probe) \<Rightarrow> resolver \<times> 's rotation_node \<Rightarrow>
     (resolver \<times> 's rotation_node) \<times> string option \<times> resolver_event list" where
  "resolve_round d existing_database archiving env boot probe st =
     (case st of (rs, nd) \<Rightarrow>
        (case probe_choices probe (choices env nd) of
           Found src pw \<Rightarrow>
             (case finalize_pin d pw env boot nd of (nd', evs) \<Rightarrow> ((rs, nd'), Some pw, evs @ [Pitr_refusal_cleared]))
         | Not_up \<Rightarrow> ((rs\<lparr>denied_rounds := 0\<rparr>, nd), None, [])
         | All_denied \<Rightarrow>
             (let n = denied_rounds rs + 1 in
              if (existing_database \<or> n \<ge> DENIED_ROUNDS_BEFORE_ALERT) \<and> \<not> alerted rs
              then ((\<lparr>denied_rounds = n, alerted = True\<rparr>, nd), None,
                (if archiving then [Pitr_refusal_noted] else []) @ [All_denied_reported])
              else ((rs\<lparr>denied_rounds := n\<rparr>, nd), None, []))))"

text \<open>\<open>current_recovery_credential\<close>: the pin of the moment, the boot password without one.\<close>

definition current_recovery_credential :: "string option \<Rightarrow> string \<Rightarrow> string option \<Rightarrow> string \<Rightarrow> string" where
  "current_recovery_credential gr_password env pin boot =
     recovery_credential (case gr_password of Some p \<Rightarrow> p | None \<Rightarrow> env) env (case pin of Some p \<Rightarrow> p | None \<Rightarrow> boot)"

section \<open>The pin is read back\<close>

definition pinnable :: "string \<Rightarrow> bool" where
  "pinnable pw \<longleftrightarrow> pw \<noteq> [] \<and> \<not> cr_or_lf (last pw)"

lemma trim_end_last: "s \<noteq> [] \<Longrightarrow> \<not> p (last s) \<Longrightarrow> trim_end_by p s = s"
  by (cases s rule: rev_cases) (auto simp: trim_end_by_def)

lemma cr_or_lf_newline [simp]: "cr_or_lf newline"
  by (simp add: cr_or_lf_def newline_def char_code_def)

lemma trim_end_by_last: "trim_end_by p s = [] \<or> \<not> p (last (trim_end_by p s))"
proof -
  have "dropWhile p (rev s) = [] \<or> \<not> p (hd (dropWhile p (rev s)))" using hd_dropWhile by blast
  then show ?thesis by (auto simp: trim_end_by_def last_rev)
qed

lemma read_pin_pinnable: "read_pin content = Some pw \<Longrightarrow> pinnable pw"
  using trim_end_by_last [of cr_or_lf] by (auto simp: read_pin_def pinnable_def Let_def split: option.splits if_splits)

lemma read_written_pin: "pinnable pw \<Longrightarrow> read_pin (Some (pw @ [newline])) = Some pw"
  by (simp add: read_pin_def pinnable_def trim_end_last)

text \<open>
  The pin is read back exactly for the passwords it can hold: what was pinned is what the next
  boot reads if and only if it is not empty and does not end in a line terminator.
\<close>

theorem pin_reads_back: "read_pin (write_pin True pw old) = Some pw \<longleftrightarrow> pinnable pw"
  using read_written_pin [of pw] read_pin_pinnable by (auto simp: write_pin_def)

section \<open>The resolver obeys the database\<close>

lemma probe_choices_Found:
  "probe_choices probe cs = Found src pw \<Longrightarrow>
     \<exists>xs ys. cs = xs @ (src, pw) # ys \<and> probe pw = Works \<and> list_all (\<lambda>(s, q). probe q = AccessDenied) xs"
proof (induction probe cs rule: probe_choices.induct)
  case (2 probe s q rest)
  show ?case
  proof (cases "probe q")
    case Works
    then show ?thesis using 2(2) by (intro exI [of _ "[]"] exI [of _ rest]) simp
  next
    case AccessDenied
    then obtain xs ys where "rest = xs @ (src, pw) # ys" "probe pw = Works" "list_all (\<lambda>(s, q). probe q = AccessDenied) xs"
      using 2 by auto
    then show ?thesis using AccessDenied by (intro exI [of _ "(s, q) # xs"] exI [of _ ys]) simp
  next
    case Probe_not_ready
    then show ?thesis using 2(2) by simp
  qed
qed simp

lemma probe_choices_denied: "probe_choices probe cs = All_denied \<longleftrightarrow> list_all (\<lambda>(s, q). probe q = AccessDenied) cs"
  by (induction probe cs rule: probe_choices.induct) (auto split: root_password_probe.splits)

text \<open>
  The database decides, not the variable. A round of the resolver ends with a password that the
  database accepts while it denied every candidate before it, the pending rotation first, then
  the pin, then the variable; the pool is on it; the pin file, when it could be written, reads
  back as it whenever it can hold it; and a variable that differs is reported, never applied. A
  round that does not end changes nothing on the node.
\<close>

theorem resolver_obeys_the_database:
  "case resolve_round d existing archiving env boot probe (rs, nd) of
     ((rs', nd'), Some pw, evs) \<Rightarrow>
       (\<exists>xs src ys. choices env nd = xs @ (src, pw) # ys \<and> list_all (\<lambda>(s, q). probe q = AccessDenied) xs) \<and>
       probe pw = Works \<and> (pool nd' = pw \<or> pw = boot \<and> pool nd' = pool nd) \<and>
       (if pin_writes d \<and> pinnable pw then read_pin (pin_file nd') = Some pw else True) \<and>
       (Drift_reported \<in> set evs \<longleftrightarrow> pw \<noteq> env) \<and> server nd' = server nd
   | ((rs', nd'), None, evs) \<Rightarrow> nd' = nd"
proof (cases "probe_choices probe (choices env nd)")
  case (Found src pw)
  obtain xs ys where c: "choices env nd = xs @ (src, pw) # ys" "probe pw = Works" "list_all (\<lambda>(s, q). probe q = AccessDenied) xs"
    using probe_choices_Found [OF Found] by blast
  show ?thesis
    using c Found read_written_pin [of pw]
    by (auto simp: resolve_round_def finalize_pin_def Let_def swap_root_password_def write_pin_def)
qed (auto simp: resolve_round_def Let_def)

text \<open>The rounds of a boot report at most once that every candidate is denied.\<close>

fun resolver_run ::
  "disk \<Rightarrow> bool \<Rightarrow> bool \<Rightarrow> string \<Rightarrow> string \<Rightarrow> (string \<Rightarrow> root_password_probe) list \<Rightarrow> resolver \<times> 's rotation_node \<Rightarrow> resolver_event list" where
  "resolver_run d existing archiving env boot [] st = []"
| "resolver_run d existing archiving env boot (probe # probes) st =
     (case resolve_round d existing archiving env boot probe st of
        (st', Some pw, evs) \<Rightarrow> evs
      | (st', None, evs) \<Rightarrow> evs @ resolver_run d existing archiving env boot probes st')"

lemma no_alarm_after:
  "alerted rs \<Longrightarrow> All_denied_reported \<notin> set (resolver_run d existing archiving env boot probes (rs, nd))"
proof (induction probes arbitrary: rs nd)
  case (Cons probe probes)
  then show ?case
    by (cases "probe_choices probe (choices env nd)")
       (auto simp: resolve_round_def finalize_pin_def Let_def split: if_splits)
qed simp

lemma alarm_once:
  "length (filter (\<lambda>e. e = All_denied_reported) (resolver_run d existing archiving env boot probes (rs, nd))) \<le> 1"
proof (induction probes arbitrary: rs nd)
  case (Cons probe probes)
  show ?case
  proof (cases "probe_choices probe (choices env nd)")
    case (Found src pw)
    then show ?thesis by (auto simp: resolve_round_def finalize_pin_def Let_def)
  next
    case Not_up
    then show ?thesis using Cons by (simp add: resolve_round_def)
  next
    case All_denied
    let ?rs = "\<lparr>denied_rounds = denied_rounds rs + 1, alerted = True\<rparr>"
    have "All_denied_reported \<notin> set (resolver_run d existing archiving env boot probes (?rs, nd))"
      by (rule no_alarm_after) simp
    then have "filter (\<lambda>e. e = All_denied_reported) (resolver_run d existing archiving env boot probes (?rs, nd)) = []"
      by (auto simp: filter_empty_conv)
    then show ?thesis using All_denied Cons
      by (auto simp: resolve_round_def Let_def)
  qed
qed simp

section \<open>What the phases leave\<close>

text \<open>\<open>same_but_pool\<close>: two states of a node that differ in the pool's password at most.\<close>

definition same_but_pool :: "'s rotation_node \<Rightarrow> 's rotation_node \<Rightarrow> bool" where
  "same_but_pool nd nd' \<longleftrightarrow> server nd' = server nd \<and> pin_file nd' = pin_file nd \<and> intent nd' = intent nd"

lemma same_but_pool_refl [simp]: "same_but_pool nd nd" "same_but_pool nd (nd\<lparr>pool := pw\<rparr>)"
  by (simp_all add: same_but_pool_def)

lemma same_but_pool_trans: "same_but_pool a b \<Longrightarrow> same_but_pool b c \<Longrightarrow> same_but_pool a c"
  by (simp add: same_but_pool_def)

lemma conn_same: "conn I nd = Some nd' \<Longrightarrow> same_but_pool nd nd'"
  by (auto simp: conn_def same_but_pool_def swap_root_password_def split: root_password_probe.splits option.splits)

lemma ask_same: "same_but_pool nd (fst (ask I q nd))"
  by (auto simp: ask_def with_conn_def conn_def same_but_pool_def swap_root_password_def
      split: root_password_probe.splits option.splits)

lemma ask_value: "snd (ask I q nd) = Some x \<Longrightarrow> q (server nd) = Some x"
  by (auto simp: ask_def with_conn_def conn_def swap_root_password_def split: root_password_probe.splits option.splits)

lemma bind_node_Some:
  "bind_node m k = (nd', Some y) \<longleftrightarrow> (\<exists>nd x. m = (nd, Some x) \<and> k x nd = (nd', Some y))"
  by (cases m) (auto simp: bind_node_def split: option.splits)

lemma require_same: "same_but_pool nd (fst (require_primary I nd))" "same_but_pool nd (fst (require_healthy I nd))"
  using ask_same [of nd I "s_read_only I"] ask_same [of nd I "s_members I"]
  by (auto simp: require_primary_def require_healthy_def bind_node_def ensure_def split: prod.splits option.splits)

lemma verify_Some:
  assumes "verify I d r nd = (nd', Some u)"
  shows "s_members I (server nd) \<noteq> None \<and> group_healthy (the (s_members I (server nd))) \<and>
    (current_password r = new_password r \<or> s_probe I (server nd) (current_password r) = AccessDenied) \<and>
    s_probe I (server nd) (new_password r) = Works \<and> read_pin (pin_file nd) = Some (new_password r) \<and>
    intent nd' = None \<and> server nd' = server nd \<and> pin_file nd' = pin_file nd"
proof -
  obtain nd1 where h: "require_healthy I nd = (nd1, Some ())"
    and rest: "bind_node (if current_password r \<noteq> new_password r then probed I AccessDenied (current_password r) nd1 else (nd1, Some ())) (\<lambda>_ nd.
         bind_node (probed I Works (new_password r) nd) (\<lambda>_ nd.
           bind_node (ensure (read_pin (pin_file nd) = Some (new_password r)) nd) (\<lambda>_ nd.
             if intent nd = None then (nd, Some ())
             else if intent_removes d then (nd\<lparr>intent := None\<rparr>, Some ()) else (nd, None)))) = (nd', Some u)"
    using assms by (auto simp: verify_def bind_node_Some)
  have same: "same_but_pool nd nd1" using require_same(2) [of nd I] h by simp
  obtain ms where ms: "snd (ask I (s_members I) nd) = Some ms" "group_healthy ms"
    using h by (auto simp: require_healthy_def bind_node_Some ensure_def split: if_splits)
  have "s_members I (server nd) = Some ms" by (rule ask_value [OF ms(1)])
  then show ?thesis
    using rest same ms(2) by (auto simp: bind_node_Some probed_def ensure_def same_but_pool_def split: if_splits)
qed

text \<open>
  Verification certifies the rotation on this node: when the phase answers, the group was healthy,
  the previous password, unless it is the new one, was refused by the database, the new one was
  accepted, the pin reads as the new one and the intent of the rotation is gone.
\<close>

theorem verify_certifies:
  assumes "operation r = Verify" and "apply_phase I d r nd = (nd', Some reply)"
  shows "(\<exists>ms. s_members I (server nd) = Some ms \<and> group_healthy ms) \<and>
    (current_password r = new_password r \<or> s_probe I (server nd) (current_password r) = AccessDenied) \<and>
    s_probe I (server nd) (new_password r) = Works \<and>
    server nd' = server nd \<and> read_pin (pin_file nd') = Some (new_password r) \<and> intent nd' = None"
proof -
  obtain nd1 where v: "verify I d r nd = (nd1, Some ())"
    and rest: "bind_node (ask I (s_read_only I) nd1) (\<lambda>ro nd. (nd, Some (Done (\<not> ro)))) = (nd', Some reply)"
    using assms by (auto simp: apply_phase_def Let_def bind_node_Some)
  have "same_but_pool nd1 nd'"
    using rest ask_same [of nd1 I "s_read_only I"] by (auto simp: bind_node_Some)
  then show ?thesis using verify_Some [OF v] by (auto simp: same_but_pool_def)
qed

text \<open>
  A password that ends in a line terminator is let in and never verified. The route admits it by
  its length alone and the member phase applies it, but the pin cannot hold it, so verification
  never answers and the next rotation is asked for another password than the database enforces.
\<close>

theorem unpinnable_password_never_verifies:
  assumes "operation r = Verify" and "\<not> pinnable (new_password r)"
  shows "snd (apply_phase I d r nd) = None"
proof (cases "apply_phase I d r nd")
  case (Pair nd' reply)
  show ?thesis
  proof (cases reply)
    case (Some x)
    obtain nd1 where "verify I d r nd = (nd1, Some ())"
      using Pair Some assms(1) by (auto simp: apply_phase_def Let_def bind_node_Some)
    then have "read_pin (pin_file nd) = Some (new_password r)" using verify_Some by blast
    then show ?thesis using read_pin_pinnable assms(2) by blast
  qed (use Pair in simp)
qed

section \<open>A rotation keeps the old password until it is finalized\<close>

lemma ask_pair:
  assumes "ask I q nd = (nd1, x)"
  shows "same_but_pool nd nd1" and "x = Some y \<Longrightarrow> q (server nd) = Some y"
  using ask_same [of nd I q] ask_value [of I q nd] assms by auto

lemma rotation_verifiers_pair:
  assumes "rotation_verifiers I nd = (nd1, x)"
  shows "same_but_pool nd nd1" and "x = Some rows \<Longrightarrow> s_verifiers I (server nd) = Some rows"
proof -
  note a = ask_pair [OF assms [unfolded rotation_verifiers_def]]
  show "same_but_pool nd nd1" by (rule a(1))
  show "x = Some rows \<Longrightarrow> s_verifiers I (server nd) = Some rows"
    using a(2) [of rows] by (auto simp: ha_accounts_def split: Option.bind_splits if_splits)
qed

lemma act_pair:
  assumes "act I a nd = (nd', x)"
  shows "same_but_pool nd nd' \<or> (\<exists>nd1. same_but_pool nd nd1 \<and> nd' = nd1\<lparr>server := fst (a (server nd))\<rparr>)"
proof (cases "conn I nd")
  case None
  then show ?thesis using assms by (auto simp: act_def with_conn_def)
next
  case (Some nd1)
  note same = conn_same [OF Some]
  then have "nd' = nd1\<lparr>server := fst (a (server nd))\<rparr>"
    using assms Some by (auto simp: act_def with_conn_def same_but_pool_def split: prod.splits)
  then show ?thesis using same by blast
qed

text \<open>What the statement of the database phase may have done: nothing, or one rotation from the snapshot.\<close>

definition rotated_from :: "'s sql_server \<Rightarrow> rotation \<Rightarrow> 's rotation_node \<Rightarrow> 's \<Rightarrow> bool" where
  "rotated_from I r nd s' \<longleftrightarrow>
     (\<exists>st rows. intent nd = Some st \<and> new_password st = new_password r \<and> previous_verifiers st = Some rows \<and>
        s_verifiers I (server nd) = Some rows \<and> s_read_only I (server nd) = Some False \<and>
        s' = fst (s_query I (server nd) (rotate_statement (new_password r) rows)))"

lemma rotate_accounts_pair:
  assumes "rotate_cluster_accounts I pw nd = (nd', x)"
  shows "pin_file nd' = pin_file nd \<and> intent nd' = intent nd \<and>
    (server nd' = server nd \<or> (\<exists>rows. s_verifiers I (server nd) = Some rows \<and>
       server nd' = fst (s_query I (server nd) (rotate_statement pw rows))))"
proof -
  obtain nd1 y where v: "rotation_verifiers I nd = (nd1, y)" by (cases "rotation_verifiers I nd")
  note r = rotation_verifiers_pair [OF v]
  show ?thesis
  proof (cases y)
    case None
    then show ?thesis using assms v r(1) by (simp add: rotate_cluster_accounts_def bind_node_def same_but_pool_def)
  next
    case (Some rows)
    then have "act I (\<lambda>s. s_query I s (rotate_statement pw rows)) nd1 = (nd', x)"
      using assms v by (simp add: rotate_cluster_accounts_def bind_node_def)
    from act_pair [OF this] show ?thesis
      using r(1) r(2) [OF Some] by (auto simp: same_but_pool_def)
  qed
qed

lemma rotate_when_current_pair:
  assumes "(if current = snap then bind_node (require_primary I nd) (\<lambda>_. rotate_cluster_accounts I pw) else (nd, Some ())) = (nd', x)"
  shows "pin_file nd' = pin_file nd \<and> intent nd' = intent nd \<and>
    (server nd' = server nd \<or> (current = snap \<and> s_read_only I (server nd) = Some False \<and>
       (\<exists>rows. s_verifiers I (server nd) = Some rows \<and> server nd' = fst (s_query I (server nd) (rotate_statement pw rows)))))"
proof (cases "current = snap")
  case True
  obtain nd1 y where p: "require_primary I nd = (nd1, y)" by (cases "require_primary I nd")
  have same: "same_but_pool nd nd1" using require_same(1) [of nd I] p by simp
  show ?thesis
  proof (cases y)
    case None
    then show ?thesis using assms True p same by (simp add: bind_node_def same_but_pool_def)
  next
    case (Some u)
    then have "rotate_cluster_accounts I pw nd1 = (nd', x)" using assms True p by (simp add: bind_node_def)
    moreover have "s_read_only I (server nd) = Some False"
      using p Some ask_value [of I "s_read_only I" nd]
      by (auto simp: require_primary_def bind_node_def ensure_def split: prod.splits option.splits if_splits)
    ultimately show ?thesis
      using rotate_accounts_pair [of I pw nd1 nd' x] same True by (simp add: same_but_pool_def)
  qed
qed (use assms in simp)

lemma database_pair:
  assumes "database I r nd = (nd', x)"
  shows "pin_file nd' = pin_file nd \<and> intent nd' = intent nd \<and> (server nd' = server nd \<or> rotated_from I r nd (server nd'))"
proof (cases "\<exists>st snap. intent nd = Some st \<and> new_password st = new_password r \<and> previous_verifiers st = Some snap")
  case False
  then show ?thesis using assms by (auto simp: database_def split: option.splits if_splits)
next
  case True
  then obtain st snap where st: "intent nd = Some st" "new_password st = new_password r" "previous_verifiers st = Some snap" by blast
  let ?body = "\<lambda>current nd. if current = snap then bind_node (require_primary I nd) (\<lambda>_. rotate_cluster_accounts I (new_password r))
      else (nd, Some ())"
  obtain nd1 y where v: "rotation_verifiers I nd = (nd1, y)" by (cases "rotation_verifiers I nd")
  note rv = rotation_verifiers_pair [OF v]
  obtain nd2 z where b: "bind_node (rotation_verifiers I nd) ?body = (nd2, z)" by (cases "bind_node (rotation_verifiers I nd) ?body")
  have "pin_file nd2 = pin_file nd \<and> intent nd2 = intent nd \<and> (server nd2 = server nd \<or> rotated_from I r nd (server nd2))"
  proof (cases y)
    case None
    then show ?thesis using b v rv(1) by (simp add: bind_node_def same_but_pool_def)
  next
    case (Some current)
    then have "?body current nd1 = (nd2, z)" using b v by (simp add: bind_node_def)
    from rotate_when_current_pair [OF this] show ?thesis
      using rv(1) rv(2) [OF Some] st by (auto simp: same_but_pool_def rotated_from_def)
  qed
  moreover have "server nd' = server nd2 \<and> pin_file nd' = pin_file nd2 \<and> intent nd' = intent nd2"
    using assms st b
    by (auto simp: database_def bind_node_def probed_def ensure_def swap_root_password_def split: option.splits if_splits)
  ultimately show ?thesis by simp
qed

lemma prepare_again:
  assumes "prepare I d r nd = (nd', x)" and "intent nd = Some st" and "new_password st = new_password r"
  shows "server nd' = server nd \<and>
    (intent nd' = intent nd \<or> intent nd' = Some (r\<lparr>previous_verifiers := previous_verifiers st\<rparr>))"
  using assms by (auto simp: prepare_def save_pending_def split: if_splits)

lemma prepare_first:
  assumes "prepare I d r nd = (nd', x)" and "\<forall>st. intent nd = Some st \<longrightarrow> new_password st \<noteq> new_password r"
  shows "server nd' = server nd \<and>
    (intent nd' = intent nd \<or>
      (\<exists>rows. s_verifiers I (server nd) = Some rows \<and> intent nd' = Some (r\<lparr>previous_verifiers := Some rows\<rparr>)))"
proof -
  obtain nd1 y where v: "rotation_verifiers I nd = (nd1, y)" by (cases "rotation_verifiers I nd")
  note rv = rotation_verifiers_pair [OF v]
  have p: "prepare I d r nd = bind_node (rotation_verifiers I nd) (\<lambda>rows. save_pending d (r\<lparr>previous_verifiers := Some rows\<rparr>))"
    using assms(2) by (auto simp: prepare_def split: option.splits)
  show ?thesis
    using assms(1) v rv(1) rv(2) unfolding p
    by (cases y) (auto simp: bind_node_def save_pending_def same_but_pool_def split: if_splits)
qed

lemma bind_reply_same:
  "same_but_pool (fst m) (fst (bind_node m (\<lambda>_ nd. bind_node (ask I q nd) (\<lambda>ro nd. (nd, Some (g ro))))))"
proof (cases m)
  case (Pair nd y)
  then show ?thesis
    using ask_same [of nd I q] by (auto simp: bind_node_def split: option.splits prod.splits)
qed

text \<open>
  \<open>dual_passwords\<close>: what MySQL documents of \<open>ALTER USER \<dots> IDENTIFIED BY \<dots> RETAIN
  CURRENT PASSWORD\<close>, and of the rows of \<open>mysql.user\<close>. When the statement takes effect the
  new password is the primary one, the primary one of before stays accepted and nothing else is,
  and the stored verifiers \<open>V\<close> differ; otherwise nothing changed. Its answer may be lost either
  way, and a read of the verifiers may fail.
\<close>

definition reads_verifiers :: "'s sql_server \<Rightarrow> ('s \<Rightarrow> verifier list) \<Rightarrow> bool" where
  "reads_verifiers I V \<longleftrightarrow> (\<forall>s. s_verifiers I s \<in> {None, Some (V s)})"

definition dual_passwords :: "'s sql_server \<Rightarrow> ('s \<Rightarrow> verifier list) \<Rightarrow> ('s \<Rightarrow> string) \<Rightarrow> ('s \<Rightarrow> string set) \<Rightarrow> bool" where
  "dual_passwords I V primary accepted \<longleftrightarrow> reads_verifiers I V \<and>
     (\<forall>s pw rows. let s' = fst (s_query I s (rotate_statement pw rows)) in
         s' = s \<or> (primary s' = pw \<and> accepted s' = {pw, primary s} \<and> V s' \<noteq> V s))"

definition towards :: "string \<Rightarrow> rotation \<Rightarrow> bool" where
  "towards pw r \<longleftrightarrow> new_password r = pw \<and> operation r \<in> {Prepare, Database}"

definition rotating :: "('s \<Rightarrow> verifier list) \<Rightarrow> ('s \<Rightarrow> string) \<Rightarrow> ('s \<Rightarrow> string set) \<Rightarrow> string \<Rightarrow> 's \<Rightarrow> 's rotation_node \<Rightarrow> bool" where
  "rotating V primary accepted pw s0 nd \<longleftrightarrow>
     (\<forall>st. intent nd = Some st \<longrightarrow> new_password st = pw \<longrightarrow> previous_verifiers st = Some (V s0)) \<and>
     (server nd = s0 \<or>
       ((\<exists>st. intent nd = Some st \<and> new_password st = pw) \<and>
        primary (server nd) = pw \<and> accepted (server nd) = {pw, primary s0} \<and> V (server nd) \<noteq> V s0))"

lemma rotating_same: "rotating V p a pw s0 nd \<Longrightarrow> same_but_pool nd nd' \<Longrightarrow> rotating V p a pw s0 nd'"
  by (simp add: rotating_def same_but_pool_def)

lemma phase_of_database:
  "operation r = Database \<Longrightarrow> same_but_pool (fst (database I r nd)) (fst (apply_phase I d r nd))"
  using bind_reply_same [of "database I r nd" I "s_read_only I" "\<lambda>ro. Done (\<not> ro)"]
  by (simp add: apply_phase_def Let_def)

lemma rotating_prepare:
  assumes "reads_verifiers I V" and "rotating V primary accepted pw s0 nd" and "towards pw r" and "operation r = Prepare"
  shows "rotating V primary accepted pw s0 (fst (apply_phase I d r nd)) \<and> server (fst (apply_phase I d r nd)) = server nd"
proof -
  have pw: "new_password r = pw" using assms(3) by (simp add: towards_def)
  obtain nd' x where p: "prepare I d r nd = (nd', x)" by (cases "prepare I d r nd")
  have "fst (apply_phase I d r nd) = nd'"
    using assms(4) p by (simp add: apply_phase_def Let_def bind_node_def split: option.splits)
  moreover have "rotating V primary accepted pw s0 nd' \<and> server nd' = server nd"
  proof (cases "\<exists>st. intent nd = Some st \<and> new_password st = pw")
    case True
    then obtain st where st: "intent nd = Some st" "new_password st = pw" by blast
    show ?thesis using prepare_again [OF p st(1)] st pw assms(2) by (auto simp: rotating_def)
  next
    case False
    have "rows = V (server nd)" if "s_verifiers I (server nd) = Some rows" for rows
      using assms(1) that unfolding reads_verifiers_def by (metis insert_iff option.distinct(1) option.inject singletonD)
    then show ?thesis using False prepare_first [OF p] pw assms(2) by (auto simp: rotating_def)
  qed
  ultimately show ?thesis by simp
qed

text \<open>A database phase sends its statement only to the server of the snapshot.\<close>

lemma rotating_database:
  assumes "reads_verifiers I V" and "rotating V primary accepted pw s0 nd" and "towards pw r" and "operation r = Database"
  obtains "rotating V primary accepted pw s0 (fst (apply_phase I d r nd))" and "server (fst (apply_phase I d r nd)) = server nd"
  | rows where "server nd = s0" and "intent (fst (apply_phase I d r nd)) = intent nd"
    and "\<exists>st. intent nd = Some st \<and> new_password st = pw"
    and "server (fst (apply_phase I d r nd)) = fst (s_query I (server nd) (rotate_statement pw rows))"
proof -
  have pw: "new_password r = pw" using assms(3) by (simp add: towards_def)
  obtain nd' x where p: "database I r nd = (nd', x)" by (cases "database I r nd")
  note d = database_pair [OF p]
  have same: "same_but_pool nd' (fst (apply_phase I d r nd))" using phase_of_database [OF assms(4)] p by (metis fst_conv)
  show thesis
  proof (cases "server nd' = server nd")
    case True
    then have "rotating V primary accepted pw s0 nd'" using d assms(2) unfolding rotating_def by metis
    then show ?thesis using that(1) rotating_same [OF _ same] same True by (simp add: same_but_pool_def)
  next
    case False
    then obtain st rows where st: "intent nd = Some st" "new_password st = pw" "previous_verifiers st = Some rows"
      "s_verifiers I (server nd) = Some rows" "server nd' = fst (s_query I (server nd) (rotate_statement pw rows))"
      using d pw by (auto simp: rotated_from_def)
    have "rows = V (server nd)" using assms(1) st(4) unfolding reads_verifiers_def by (metis insert_iff option.distinct(1) option.inject singletonD)
    then have "server nd = s0" using assms(2) st(1-3) by (auto simp: rotating_def)
    then show ?thesis using that(2) [of rows] st d same by (simp add: same_but_pool_def)
  qed
qed

lemma rotating_step:
  assumes "dual_passwords I V primary accepted" and "rotating V primary accepted pw s0 nd" and "towards pw r"
  shows "rotating V primary accepted pw s0 (fst (apply_phase I d r nd))"
proof -
  have reads: "reads_verifiers I V" using assms(1) by (simp add: dual_passwords_def)
  consider "operation r = Prepare" | "operation r = Database" using assms(3) by (auto simp: towards_def)
  then show ?thesis
  proof cases
    case 1
    then show ?thesis using rotating_prepare [OF reads assms(2,3)] by blast
  next
    case 2
    show ?thesis
    proof (rule rotating_database [OF reads assms(2,3) 2])
      fix rows
      assume a: "server nd = s0" "intent (fst (apply_phase I d r nd)) = intent nd" "\<exists>st. intent nd = Some st \<and> new_password st = pw"
        "server (fst (apply_phase I d r nd)) = fst (s_query I (server nd) (rotate_statement pw rows))"
      let ?s = "server (fst (apply_phase I d r nd))"
      have "?s = s0 \<or> (primary ?s = pw \<and> accepted ?s = {pw, primary s0} \<and> V ?s \<noteq> V s0)"
        using assms(1) a(1,4) unfolding dual_passwords_def Let_def by metis
      then show ?thesis using assms(2) a(2,3) by (auto simp: rotating_def)
    qed
  qed
qed

section \<open>A sample server\<close>

text \<open>
  Root and the recovery account share a primary and a retained password. The statement carries
  the new password quoted; the sample reads it back with the reader of quoted literals.
\<close>

definition stated_password :: "string \<Rightarrow> string option" where
  "stated_password stmt =
     Option.bind (read_literal (drop (length ''ALTER USER '') stmt)) (\<lambda>(u, s1).
       Option.bind (read_literal (drop (length ''@'') s1)) (\<lambda>(h, s2).
         map_option fst (read_literal (drop (length '' IDENTIFIED BY '') s2))))"

definition sample_server :: "bool \<Rightarrow> (string \<times> string) sql_server" where
  "sample_server answers =
     \<lparr>s_probe = (\<lambda>(p, q) pw. if pw = p \<or> pw = q then Works else AccessDenied),
      s_pool = (\<lambda>s pw. Works),
      s_verifiers = (\<lambda>(p, q). Some [(''gr_recovery'', ''%'', p), (''root'', ''%'', p)]),
      s_query = (\<lambda>(p, q) stmt. (case stated_password stmt of Some pw \<Rightarrow> if pw = p then (p, q) else (pw, p) | None \<Rightarrow> (p, q), answers)),
      s_read_only = (\<lambda>s. Some False), s_members = (\<lambda>s. Some []), s_channel = (\<lambda>s u pw. (s, True))\<rparr>"

lemma quoted_reads: "read_literal (sql_string_literal s @ rest) = Some (s, rest)"
  by (simp add: sql_string_literal_def read_inside_escaped)

lemma sample_statement:
  "stated_password (rotate_statement pw [(''gr_recovery'', ''%'', p), (''root'', ''%'', p)]) = Some pw"
  by (simp add: stated_password_def rotate_statement_def alter_users_def account_def quoted_reads join_with_def)

definition sample_request :: "operation \<Rightarrow> string \<Rightarrow> rotation" where
  "sample_request op pw = \<lparr>operation = op, new_password = pw, current_password = ''old'', previous_verifiers = None\<rparr>"

definition sample_disk :: disk where "sample_disk = \<lparr>pin_writes = True, intent_writes = True, intent_removes = True\<rparr>"

definition sample_node :: "(string \<times> string) rotation_node" where
  "sample_node = \<lparr>server = (''old'', ''old''), pin_file = None, intent = None, pool = ''old''\<rparr>"

definition verified_node :: "(string \<times> string) rotation_node" where
  "verified_node = \<lparr>server = (''new'', ''new''), pin_file = Some ''new'', intent = None, pool = ''new''\<rparr>"

definition online_server :: "(string \<times> string) sql_server" where
  "online_server = (sample_server True)\<lparr>s_members := (\<lambda>s. Some [\<lparr>member_id = [], m_host = ''a'', m_state = ''ONLINE'', m_role = ''PRIMARY''\<rparr>])\<rparr>"

lemma verify_certifies_witness:
  "read_pin (pin_file (fst (apply_phase online_server sample_disk (sample_request Verify ''new'') verified_node))) = Some ''new''"
proof -
  have "apply_phase online_server sample_disk (sample_request Verify ''new'') verified_node = (verified_node, Some (Done True))"
    by code_simp
  then show ?thesis using verify_certifies [of "sample_request Verify ''new''" online_server sample_disk verified_node]
    by (simp add: sample_request_def)
qed

lemma unpinnable_password_never_verifies_witness:
  "snd (apply_phase online_server sample_disk (sample_request Verify (''new'' @ [newline])) verified_node) = None"
  by (rule unpinnable_password_never_verifies) (simp_all add: sample_request_def pinnable_def)

end
