(* ===== verification/Rotation.thy ===== *)
theory Rotation
  imports Credentials
begin

text \<open>
  A rotation whose phases may be cut off by their time limit (35 s on the route, 25 s in
  \<open>reconcile\<close>) while the database still runs the statement they sent: runs of the prepare
  and database phases of \<open>credentials.rs\<close> with statements in flight.
\<close>

section \<open>Statements in flight\<close>

text \<open>
  The server with the statements it still runs. \<open>at_once\<close>: a statement is over before the
  phase ends, whether its answer came back or not. \<open>left_running\<close>: the phase was dropped
  while the statement ran.
\<close>

definition at_once :: "'s sql_server \<Rightarrow> ('s \<times> string list) sql_server" where
  "at_once I =
     \<lparr>s_probe = (\<lambda>s. s_probe I (fst s)), s_pool = (\<lambda>s. s_pool I (fst s)), s_verifiers = (\<lambda>s. s_verifiers I (fst s)),
      s_query = (\<lambda>s q. case s_query I (fst s) q of (s', ok) \<Rightarrow> ((s', snd s), ok)),
      s_read_only = (\<lambda>s. s_read_only I (fst s)), s_members = (\<lambda>s. s_members I (fst s)),
      s_channel = (\<lambda>s u pw. case s_channel I (fst s) u pw of (s', ok) \<Rightarrow> ((s', snd s), ok))\<rparr>"

definition left_running :: "'s sql_server \<Rightarrow> ('s \<times> string list) sql_server" where
  "left_running I = (at_once I)\<lparr>s_query := (\<lambda>s q. ((fst s, snd s @ [q]), False))\<rparr>"

text \<open>
  What happens to a node: a phase that ran as far as its answers let it, a phase dropped while its
  statement ran, and the end of the oldest statement in flight, which takes effect or dies
  with its connection. Every event has the answers of its own.
\<close>

datatype 's rotation_event =
    Whole "'s sql_server" disk rotation
  | Timed_out "'s sql_server" disk rotation
  | Lands "'s sql_server"
  | Dies

definition rotation_step :: "'s rotation_event \<Rightarrow> ('s \<times> string list) rotation_node \<Rightarrow> ('s \<times> string list) rotation_node" where
  "rotation_step e nd =
     (case e of
        Whole I d r \<Rightarrow> fst (apply_phase (at_once I) d r nd)
      | Timed_out I d r \<Rightarrow> fst (apply_phase (left_running I) d r nd)
      | Lands I \<Rightarrow>
          (case snd (server nd) of
             [] \<Rightarrow> nd
           | q # qs \<Rightarrow> nd\<lparr>server := (fst (s_query I (fst (server nd)) q), qs)\<rparr>)
      | Dies \<Rightarrow> nd\<lparr>server := (fst (server nd), drop 1 (snd (server nd)))\<rparr>)"

definition rotation_run :: "'s rotation_event list \<Rightarrow> ('s \<times> string list) rotation_node \<Rightarrow> ('s \<times> string list) rotation_node" where
  "rotation_run es nd = foldl (\<lambda>nd e. rotation_step e nd) nd es"

text \<open>\<open>in_time\<close>: no phase begins while a statement of an earlier one is in flight.\<close>

fun in_time :: "'s rotation_event list \<Rightarrow> ('s \<times> string list) rotation_node \<Rightarrow> bool" where
  "in_time [] nd = True"
| "in_time (e # es) nd =
     ((case e of Whole I d r \<Rightarrow> snd (server nd) = [] | Timed_out I d r \<Rightarrow> snd (server nd) = [] | _ \<Rightarrow> True) \<and>
      in_time es (rotation_step e nd))"

definition event_towards ::
  "('s \<Rightarrow> verifier list) \<Rightarrow> ('s \<Rightarrow> string) \<Rightarrow> ('s \<Rightarrow> string set) \<Rightarrow> string \<Rightarrow> 's rotation_event \<Rightarrow> bool" where
  "event_towards V primary accepted pw e =
     (case e of
        Whole I d r \<Rightarrow> dual_passwords I V primary accepted \<and> towards pw r
      | Timed_out I d r \<Rightarrow> dual_passwords I V primary accepted \<and> towards pw r
      | Lands I \<Rightarrow> dual_passwords I V primary accepted
      | Dies \<Rightarrow> True)"

section \<open>The old password\<close>

lemma at_once_dual:
  "dual_passwords I V primary accepted \<Longrightarrow> dual_passwords (at_once I) (V \<circ> fst) (primary \<circ> fst) (accepted \<circ> fst)"
  by (auto simp: dual_passwords_def reads_verifiers_def at_once_def Let_def prod_eq_iff split: prod.splits)

lemma left_running_reads: "reads_verifiers I V \<Longrightarrow> reads_verifiers (left_running I) (V \<circ> fst)"
  by (simp add: reads_verifiers_def left_running_def at_once_def)

lemma at_once_flight: "snd (fst (s_query (at_once I) s q)) = snd s"
  by (simp add: at_once_def split: prod.splits)

lemma left_running_sends: "fst (s_query (left_running I) s q) = (fst s, snd s @ [q])"
  by (simp add: left_running_def)

text \<open>Between phases: nothing in flight, or the one statement of a phase that found the old server.\<close>

definition calm ::
  "('s \<Rightarrow> verifier list) \<Rightarrow> ('s \<Rightarrow> string) \<Rightarrow> ('s \<Rightarrow> string set) \<Rightarrow> string \<Rightarrow> 's \<Rightarrow> ('s \<times> string list) rotation_node \<Rightarrow> bool" where
  "calm V primary accepted pw s0 nd \<longleftrightarrow>
     snd (server nd) = [] \<and> rotating (V \<circ> fst) (primary \<circ> fst) (accepted \<circ> fst) pw (s0, []) nd"

definition sent :: "('s \<Rightarrow> verifier list) \<Rightarrow> string \<Rightarrow> 's \<Rightarrow> ('s \<times> string list) rotation_node \<Rightarrow> bool" where
  "sent V pw s0 nd \<longleftrightarrow> (\<exists>rows. server nd = (s0, [rotate_statement pw rows])) \<and>
     (\<exists>st. intent nd = Some st \<and> new_password st = pw) \<and>
     (\<forall>st. intent nd = Some st \<longrightarrow> new_password st = pw \<longrightarrow> previous_verifiers st = Some (V s0))"

lemma calm_whole:
  assumes "dual_passwords I V primary accepted" and "towards pw r" and "calm V primary accepted pw s0 nd"
  shows "calm V primary accepted pw s0 (fst (apply_phase (at_once I) d r nd))"
proof -
  note dual = at_once_dual [OF assms(1)]
  have reads: "reads_verifiers (at_once I) (V \<circ> fst)" using dual by (simp add: dual_passwords_def)
  have calm: "snd (server nd) = []" "rotating (V \<circ> fst) (primary \<circ> fst) (accepted \<circ> fst) pw (s0, []) nd"
    using assms(3) by (simp_all add: calm_def)
  consider "operation r = Prepare" | "operation r = Database" using assms(2) by (auto simp: towards_def)
  then have "snd (server (fst (apply_phase (at_once I) d r nd))) = []"
  proof cases
    case 1
    then show ?thesis using rotating_prepare [OF reads calm(2) assms(2)] calm(1) by simp
  next
    case 2
    show ?thesis
      by (rule rotating_database [OF reads calm(2) assms(2) 2, of d]) (simp_all add: calm(1) at_once_flight)
  qed
  then show ?thesis using rotating_step [OF dual calm(2) assms(2)] by (simp add: calm_def)
qed

lemma calm_timed_out:
  assumes "dual_passwords I V primary accepted" and "towards pw r" and "calm V primary accepted pw s0 nd"
  shows "calm V primary accepted pw s0 (fst (apply_phase (left_running I) d r nd)) \<or>
    sent V pw s0 (fst (apply_phase (left_running I) d r nd))"
proof -
  have reads: "reads_verifiers (left_running I) (V \<circ> fst)"
    using assms(1) left_running_reads by (auto simp: dual_passwords_def)
  have calm: "snd (server nd) = []" "rotating (V \<circ> fst) (primary \<circ> fst) (accepted \<circ> fst) pw (s0, []) nd"
    using assms(3) by (simp_all add: calm_def)
  consider "operation r = Prepare" | "operation r = Database" using assms(2) by (auto simp: towards_def)
  then show ?thesis
  proof cases
    case 1
    then show ?thesis using rotating_prepare [OF reads calm(2) assms(2)] calm(1) by (simp add: calm_def)
  next
    case 2
    show ?thesis
    proof (rule rotating_database [OF reads calm(2) assms(2) 2, of d])
      fix rows
      assume "server nd = (s0, [])" "intent (fst (apply_phase (left_running I) d r nd)) = intent nd"
        "\<exists>st. intent nd = Some st \<and> new_password st = pw"
        "server (fst (apply_phase (left_running I) d r nd)) = fst (s_query (left_running I) (server nd) (rotate_statement pw rows))"
      then show ?thesis using calm(2) by (auto simp: sent_def left_running_sends rotating_def)
    qed (use calm(1) in \<open>auto simp: calm_def\<close>)
  qed
qed

lemma sent_lands:
  assumes "dual_passwords I V primary accepted" and "sent V pw s0 nd"
  shows "calm V primary accepted pw s0 (rotation_step (Lands I) nd)"
proof -
  obtain rows where s: "server nd = (s0, [rotate_statement pw rows])" using assms(2) by (auto simp: sent_def)
  let ?s = "fst (s_query I s0 (rotate_statement pw rows))"
  have "?s = s0 \<or> (primary ?s = pw \<and> accepted ?s = {pw, primary s0} \<and> V ?s \<noteq> V s0)"
    using assms(1) unfolding dual_passwords_def Let_def by metis
  then show ?thesis using assms(2) s by (auto simp: calm_def rotating_def sent_def rotation_step_def)
qed

lemma step_keeps:
  assumes "event_towards V primary accepted pw e" and "in_time (e # es) nd"
    and "calm V primary accepted pw s0 nd \<or> sent V pw s0 nd"
  shows "calm V primary accepted pw s0 (rotation_step e nd) \<or> sent V pw s0 (rotation_step e nd)"
proof (cases e)
  case (Whole I d r)
  moreover have "calm V primary accepted pw s0 nd" using assms(2,3) Whole by (auto simp: sent_def)
  moreover have "dual_passwords I V primary accepted" "towards pw r" using assms(1) Whole by (simp_all add: event_towards_def)
  ultimately show ?thesis using calm_whole [of I V primary accepted pw r s0 nd d] by (simp add: rotation_step_def)
next
  case (Timed_out I d r)
  moreover have "calm V primary accepted pw s0 nd" using assms(2,3) Timed_out by (auto simp: sent_def)
  moreover have "dual_passwords I V primary accepted" "towards pw r" using assms(1) Timed_out by (simp_all add: event_towards_def)
  ultimately show ?thesis using calm_timed_out [of I V primary accepted pw r s0 nd d] by (simp add: rotation_step_def)
next
  case (Lands I)
  have "rotation_step (Lands I) nd = nd" if "calm V primary accepted pw s0 nd"
    using that by (simp add: rotation_step_def calm_def)
  then show ?thesis using Lands sent_lands assms(1,3) by (fastforce simp: event_towards_def)
next
  case Dies
  then show ?thesis using assms(3) by (auto simp: rotation_step_def calm_def sent_def rotating_def)
qed


section \<open>A sample rotation\<close>

text \<open>
  The primary and the retained password of both accounts, and the salt of their verifiers, which
  every change of a password renews.
\<close>

definition salted_rows :: "string \<times> string \<times> string \<Rightarrow> verifier list" where
  "salted_rows s = [(''gr_recovery'', ''%'', snd (snd s)), (''root'', ''%'', snd (snd s))]"

definition salted_server :: "bool \<Rightarrow> (string \<times> string \<times> string) sql_server" where
  "salted_server answers =
     \<lparr>s_probe = (\<lambda>s pw. if pw = fst s \<or> pw = fst (snd s) then Works else AccessDenied),
      s_pool = (\<lambda>s pw. Works),
      s_verifiers = (\<lambda>s. Some (salted_rows s)),
      s_query = (\<lambda>s stmt. (case stated_password stmt of Some pw \<Rightarrow> (pw, fst s, CHR ''s'' # snd (snd s)) | None \<Rightarrow> s, answers)),
      s_read_only = (\<lambda>s. Some False), s_members = (\<lambda>s. Some []), s_channel = (\<lambda>s u pw. (s, True))\<rparr>"

lemma stated_rotate: "stated_password (rotate_statement pw (v # rows)) = Some pw"
  by (cases v; cases rows)
     (simp_all add: stated_password_def rotate_statement_def alter_users_def account_def quoted_reads join_with_def)

lemma stated_nothing: "stated_password (rotate_statement pw []) = None"
  by (simp add: stated_password_def rotate_statement_def alter_users_def join_with_def)

lemma salted_dual: "dual_passwords (salted_server b) salted_rows fst (\<lambda>s. {fst s, fst (snd s)})"
proof -
  have "\<exists>x. stated_password (rotate_statement pw rows) = x \<and> (x = None \<or> x = Some pw)" for pw rows
    by (cases rows) (simp_all add: stated_rotate stated_nothing)
  then show ?thesis
    by (auto simp: dual_passwords_def reads_verifiers_def salted_server_def salted_rows_def Let_def split: option.splits)
       (metis option.distinct(1) option.inject)+
qed

definition salted_node :: "((string \<times> string \<times> string) \<times> string list) rotation_node" where
  "salted_node = \<lparr>server = ((''old'', ''old'', []), []), pin_file = None, intent = None, pool = ''old''\<rparr>"

definition retried :: "(string \<times> string \<times> string) rotation_event list" where
  "retried = [Whole (salted_server True) sample_disk (sample_request Prepare ''new''),
     Timed_out (salted_server True) sample_disk (sample_request Database ''new''), Lands (salted_server True),
     Whole (salted_server False) sample_disk (sample_request Database ''new'')]"

definition overtaken :: "(string \<times> string \<times> string) rotation_event list" where
  "overtaken = [Whole (salted_server True) sample_disk (sample_request Prepare ''new''),
     Timed_out (salted_server True) sample_disk (sample_request Database ''new''),
     Whole (salted_server True) sample_disk (sample_request Database ''new''), Lands (salted_server True)]"

lemma retried_settled: "in_time retried salted_node"
  by code_simp


text \<open>
  The condition is needed. When a statement left running by a phase that timed out lands after the
  retry has run its own, the retained password is the new one and the old one is gone.
\<close>

lemma late_statement_drops_the_old_password:
  "fst (server (rotation_run overtaken salted_node)) = (''new'', ''new'', ''ss'')"
  by code_simp

end
