(* ===== verification/Gtid_Text.thy ===== *)
theory Gtid_Text
  imports Binlog
begin

text \<open>
  What the text that \<open>parse_binlog_head\<close> of \<open>pitr.rs\<close> produces means to the server that
  takes it back: a reader of GTID sets in text form, written from their grammar and not from the
  program, and the theorem that it finds the transactions the file was written with.
\<close>

section \<open>A reader of GTID sets\<close>

definition nibble :: "char \<Rightarrow> nat option" where
  "nibble c =
     (let n = of_char c :: nat in
      if 48 \<le> n \<and> n \<le> 57 then Some (n - 48) else if 97 \<le> n \<and> n \<le> 102 then Some (n - 87) else None)"

fun hex_bytes :: "string \<Rightarrow> byte list option" where
  "hex_bytes [] = Some []"
| "hex_bytes [c] = None"
| "hex_bytes (c # d # s) =
     (case (nibble c, nibble d) of
        (Some h, Some l) \<Rightarrow> map_option ((#) (word_of_nat (16 * h + l))) (hex_bytes s)
      | _ \<Rightarrow> None)"

definition read_uuid :: "string \<Rightarrow> byte list option" where
  "read_uuid s =
     (let parts = split_on (CHR ''-'') s in
      if map length parts = [8, 4, 4, 4, 12] then hex_bytes (concat parts) else None)"

text \<open>\<open>7\<close> is the transaction 7 alone, \<open>3-9\<close> those from 3 to 9.\<close>

definition read_span :: "string \<Rightarrow> (nat \<times> nat) option" where
  "read_span t =
     (case split_on (CHR ''-'') t of
        [a] \<Rightarrow> map_option (\<lambda>n. (n, n)) (parse_uint u64_max a)
      | [a, b] \<Rightarrow> Option.bind (parse_uint u64_max a) (\<lambda>n. map_option (Pair n) (parse_uint u64_max b))
      | _ \<Rightarrow> None)"

fun read_each :: "('a \<Rightarrow> 'b option) \<Rightarrow> 'a list \<Rightarrow> 'b list option" where
  "read_each f [] = Some []"
| "read_each f (x # xs) = Option.bind (f x) (\<lambda>y. map_option ((#) y) (read_each f xs))"

definition read_entry :: "string \<Rightarrow> (byte list \<times> (nat \<times> nat) list) option" where
  "read_entry t =
     (let parts = split_on (CHR '':'') t in
      Option.bind (read_uuid (hd parts)) (\<lambda>u. map_option (Pair u) (read_each read_span (tl parts))))"

definition read_gtid_text :: "string \<Rightarrow> (byte list \<times> (nat \<times> nat) list) list option" where
  "read_gtid_text t = (if t = [] then Some [] else read_each read_entry (split_on (CHR '','') t))"

text \<open>The transactions of a set: read from a text, whose spans hold their ends, and as the file has them.\<close>

definition transactions_read :: "(byte list \<times> (nat \<times> nat) list) list \<Rightarrow> (byte list \<times> nat) set" where
  "transactions_read es = {(u, n). \<exists>spans a b. (u, spans) \<in> set es \<and> (a, b) \<in> set spans \<and> a \<le> n \<and> n \<le> b}"

definition transactions_written :: "gtid_entry list \<Rightarrow> (byte list \<times> nat) set" where
  "transactions_written gs = {(u, n). \<exists>iv s e. (u, iv) \<in> set gs \<and> (s, e) \<in> set iv \<and> s \<le> n \<and> n < e}"

section \<open>It reads what the program formats\<close>

lemma nibble_hex: "d < 16 \<Longrightarrow> nibble (hex_digit d) = Some d"
  by (auto simp: nibble_def hex_digit_def digit_char_def Let_def)

lemma hex_digit_sep: "d < 16 \<Longrightarrow> hex_digit d \<notin> {CHR ''-'', CHR '':'', CHR '',''}"
proof
  assume "d < 16" "hex_digit d \<in> {CHR ''-'', CHR '':'', CHR '',''}"
  moreover have "nibble (CHR ''-'') = None" "nibble (CHR '':'') = None" "nibble (CHR '','') = None" by code_simp+
  ultimately show False using nibble_hex [of d] by auto
qed

lemma byte_nibbles: "unat b div 16 < 16" for b :: byte
  using unsigned_less [of b, where ?'a = nat] by (simp add: less_mult_imp_div_less)

lemma hex_bytes_read: "hex_bytes (concat (map hex_byte bs)) = Some bs"
proof (induction bs)
  case (Cons b bs)
  have "word_of_nat (16 * (unat b div 16) + unat b mod 16) = b" by simp
  then show ?case using Cons byte_nibbles [of b] by (simp add: hex_byte_def nibble_hex)
qed simp

lemma hex_text_sep: "c \<in> {CHR ''-'', CHR '':'', CHR '',''} \<Longrightarrow> c \<notin> set (concat (map hex_byte bs))"
  using hex_digit_sep byte_nibbles by (auto simp: hex_byte_def) (metis mod_less_divisor zero_less_numeral insertCI)+

lemma length_hex_text: "length (concat (map hex_byte bs)) = 2 * length bs"
  by (induction bs) (simp_all add: hex_byte_def)

lemma read_uuid_formatted:
  assumes "length bs = 16"
  shows "read_uuid (format_binlog_uuid bs) = Some bs"
proof -
  define hex where "hex = concat (map hex_byte bs)"
  have len: "length hex = 32" using assms by (simp add: hex_def length_hex_text)
  have dash: "CHR ''-'' \<notin> set (take n (drop m hex))" "CHR ''-'' \<notin> set (take n hex)" for n m
    using hex_text_sep [of "CHR ''-''" bs] by (auto simp: hex_def [symmetric] dest: in_set_takeD in_set_dropD)
  have parts: "split_on (CHR ''-'') (format_binlog_uuid bs) =
      [take 8 hex, take 4 (drop 8 hex), take 4 (drop 12 hex), take 4 (drop 16 hex), take 12 (drop 20 hex)]"
    by (simp add: format_binlog_uuid_def Let_def hex_def [symmetric] split_on_piece split_on_fresh dash)
  have "take 8 hex @ take 4 (drop 8 hex) @ take 4 (drop 12 hex) @ take 4 (drop 16 hex) @ take 12 (drop 20 hex) = take 32 hex"
    using take_add [of 8 24 hex] take_add [of 4 20 "drop 8 hex"] take_add [of 4 16 "drop 12 hex"] take_add [of 4 12 "drop 16 hex"]
    by simp
  then have "concat (split_on (CHR ''-'') (format_binlog_uuid bs)) = hex" unfolding parts using len by simp
  moreover have "map length (split_on (CHR ''-'') (format_binlog_uuid bs)) = [8, 4, 4, 4, 12]"
    unfolding parts using len by simp
  ultimately show ?thesis by (simp add: read_uuid_def Let_def hex_def hex_bytes_read)
qed

lemma uuid_text_sep: "c \<in> {CHR '':'', CHR '',''} \<Longrightarrow> c \<notin> set (format_binlog_uuid bs)"
proof -
  assume c: "c \<in> {CHR '':'', CHR '',''}"
  define hex where "hex = concat (map hex_byte bs)"
  have "c \<notin> set hex" unfolding hex_def by (rule hex_text_sep) (use c in auto)
  then show ?thesis
    using c unfolding format_binlog_uuid_def hex_def [symmetric] Let_def by (auto dest: in_set_takeD in_set_dropD)
qed

definition span_text :: "nat \<times> nat \<Rightarrow> string" where
  "span_text iv = tl (interval_text (fst iv) (snd iv))"

lemma interval_span: "interval_text s e = CHR '':'' # span_text (s, e)"
  by (simp add: interval_text_def span_text_def)

lemma nat_text_sep: "c \<in> {CHR ''-'', CHR '':'', CHR '',''} \<Longrightarrow> c \<notin> set (show_nat n)"
  by (rule digits_no_char [OF show_nat_digits]) (auto simp: is_digit_def char_code_def)

lemma span_text_sep: "c \<in> {CHR '':'', CHR '',''} \<Longrightarrow> c \<notin> set (span_text iv)"
  using nat_text_sep [of c] by (auto simp: span_text_def interval_text_def)

lemma read_span_text:
  assumes "s < e" and "e < 2 ^ 64"
  shows "read_span (span_text (s, e)) = Some (s, e - 1)"
  using assms
  by (auto simp: read_span_def span_text_def interval_text_def split_on_piece split_on_fresh nat_text_sep u64_max_def)

lemma read_each_map: "(\<And>x. x \<in> set xs \<Longrightarrow> f (g x) = Some (h x)) \<Longrightarrow> read_each f (map g xs) = Some (map h xs)"
  by (induction xs) simp_all

lemma split_on_prefixed:
  "d \<notin> set u \<Longrightarrow> (\<And>p. p \<in> set ps \<Longrightarrow> d \<notin> set p) \<Longrightarrow> split_on d (u @ concat (map ((#) d) ps)) = u # ps"
  by (induction ps arbitrary: u) (simp_all add: split_on_fresh split_on_piece)

lemma split_on_joined: "(\<And>l. l \<in> set ls \<Longrightarrow> d \<notin> set l) \<Longrightarrow> ls \<noteq> [] \<Longrightarrow> split_on d (join [d] ls) = ls"
  by (induction ls rule: induct_list012) (simp_all add: split_on_fresh split_on_piece)

lemma entry_text_spans: "entry_text u = format_binlog_uuid (fst u) @ concat (map ((#) (CHR '':'')) (map span_text (snd u)))"
  by (simp add: entry_text_def comp_def interval_span case_prod_beta')

lemma read_entry_text:
  assumes "entry_ok u"
  shows "read_entry (entry_text u) = Some (fst u, map (\<lambda>(s, e). (s, e - 1)) (snd u))"
proof -
  have "split_on (CHR '':'') (entry_text u) = format_binlog_uuid (fst u) # map span_text (snd u)"
    unfolding entry_text_spans
    by (rule split_on_prefixed) (use uuid_text_sep [of "CHR '':''"] span_text_sep [of "CHR '':''"] in \<open>simp, metis imageE list.set_map insertI1\<close>)
  moreover have "read_each read_span (map span_text (snd u)) = Some (map (\<lambda>(s, e). (s, e - 1)) (snd u))"
  proof (rule read_each_map)
    fix iv
    assume "iv \<in> set (snd u)"
    then show "read_span (span_text iv) = Some (case iv of (s, e) \<Rightarrow> (s, e - 1))"
      using assms read_span_text [of "fst iv" "snd iv"] by (cases iv) (auto simp: entry_ok_def list_all_iff)
  qed
  ultimately show ?thesis
    using assms read_uuid_formatted by (simp add: read_entry_def entry_ok_def Let_def)
qed

lemma entry_text_comma: "CHR '','' \<notin> set (entry_text u)"
  using uuid_text_sep [of "CHR '',''"] span_text_sep [of "CHR '',''"] by (auto simp: entry_text_spans)

lemma entry_text_not_Nil: "entry_text u \<noteq> []"
  by (simp add: entry_text_def format_binlog_uuid_def Let_def)

lemma read_gtid_text_of:
  assumes "list_all entry_ok gs"
  shows "read_gtid_text (join '','' (map entry_text gs)) = Some (map (\<lambda>u. (fst u, map (\<lambda>(s, e). (s, e - 1)) (snd u))) gs)"
proof (cases gs)
  case (Cons u us)
  then have "join '','' (map entry_text gs) \<noteq> []" using entry_text_not_Nil by (cases us) auto
  moreover have "split_on (CHR '','') (join '','' (map entry_text gs)) = map entry_text gs"
    by (rule split_on_joined) (metis entry_text_comma imageE list.set_map, simp add: Cons)
  moreover have "read_each read_entry (map entry_text gs) = Some (map (\<lambda>u. (fst u, map (\<lambda>(s, e). (s, e - 1)) (snd u))) gs)"
    by (rule read_each_map, rule read_entry_text) (use assms in \<open>simp add: list_all_iff\<close>)
  ultimately show ?thesis by (simp add: read_gtid_text_def)
qed (simp add: read_gtid_text_def)

lemma same_transactions:
  assumes "list_all entry_ok gs"
  shows "transactions_read (map (\<lambda>u. (fst u, map (\<lambda>(s, e). (s, e - 1)) (snd u))) gs) = transactions_written gs"
proof -
  have "n \<le> e - 1 \<longleftrightarrow> n < e" if "(u, iv) \<in> set gs" "(s, e) \<in> set iv" for u iv s e n
    using assms that by (fastforce simp: list_all_iff entry_ok_def)
  then show ?thesis
    by (force simp: transactions_read_def transactions_written_def)
qed

section \<open>The head of a file\<close>

text \<open>\<open>other_event\<close>: an event of another type, with its time, type and payload.\<close>

definition other_event :: "nat \<times> byte \<times> byte list \<Rightarrow> bool" where
  "other_event ev \<longleftrightarrow> fst ev < 2 ^ 32 \<and> fst (snd ev) \<notin> {FORMAT_DESCRIPTION_EVENT, PREVIOUS_GTIDS_LOG_EVENT} \<and>
     19 + length (snd (snd ev)) < 2 ^ 32"

definition encode_others :: "byte list \<Rightarrow> byte list \<Rightarrow> (nat \<times> byte \<times> byte list) list \<Rightarrow> byte list" where
  "encode_others server tail evs = concat (map (\<lambda>(ts, ty, payload). encode_event ts ty server tail payload) evs)"

lemma head_skips_others:
  assumes "length server = 4" and "length tail = 6"
  shows "list_all other_event evs \<Longrightarrow>
    head_events (length evs + b) (encode_others server tail evs @ rest) created = head_events b rest created"
proof (induction evs)
  case (Cons ev evs)
  obtain ts ty payload where ev: "ev = (ts, ty, payload)" by (cases ev)
  have "head_events (Suc (length evs + b)) (encode_event ts ty server tail payload @ encode_others server tail evs @ rest) created =
      head_events (length evs + b) (encode_others server tail evs @ rest) created"
    using Cons.prems by (subst head_events_encode) (simp_all add: assms ev other_event_def)
  then show ?case using Cons by (simp add: ev encode_others_def)
qed (simp add: encode_others_def)

text \<open>
  C35: The head of a binary log is read as the server means it. For a file that opens with its
  format description and, after at most two other events, has its set of previous transactions in
  the encoding without tags, the program takes the time of the format description as the one the
  file was opened at, and yields a text in which a reader of GTID sets finds exactly the
  transactions of the set, whatever checksum and events follow. (A set in the tagged encoding is
  refused.)
\<close>

theorem binlog_head_reads_back:
  assumes "list_all entry_ok gs" and "length gs < 2 ^ 56" and "ts < 2 ^ 32" and "ts' < 2 ^ 32"
    and "length server = 4" and "length tail = 6" and "19 + length fde < 2 ^ 32"
    and "19 + length (encode_gtid_set gs @ crc) < 2 ^ 32" and "list_all other_event evs" and "length evs \<le> 2"
  shows "\<exists>head es. parse_binlog_head (BINLOG_MAGIC @ encode_event ts FORMAT_DESCRIPTION_EVENT server tail fde @
      encode_others server tail evs @ encode_event ts' PREVIOUS_GTIDS_LOG_EVENT server tail (encode_gtid_set gs @ crc) @ rest) = Some head \<and>
    created_at head = int ts * ns_per_s \<and> read_gtid_text (previous_gtids head) = Some es \<and>
    transactions_read es = transactions_written gs"
proof -
  let ?set = "encode_event ts' PREVIOUS_GTIDS_LOG_EVENT server tail (encode_gtid_set gs @ crc) @ rest"
  have b: "BINLOG_HEAD_EVENT_BUDGET = Suc (length evs + Suc (2 - length evs))"
    using assms(10) by (simp add: BINLOG_HEAD_EVENT_BUDGET_def)
  have d: "PREVIOUS_GTIDS_LOG_EVENT \<noteq> FORMAT_DESCRIPTION_EVENT"
    by (simp add: FORMAT_DESCRIPTION_EVENT_def PREVIOUS_GTIDS_LOG_EVENT_def)
  have "parse_binlog_head (BINLOG_MAGIC @ encode_event ts FORMAT_DESCRIPTION_EVENT server tail fde @ encode_others server tail evs @ ?set) =
      head_events BINLOG_HEAD_EVENT_BUDGET (encode_event ts FORMAT_DESCRIPTION_EVENT server tail fde @ encode_others server tail evs @ ?set) None"
    by (simp add: parse_binlog_head_def BINLOG_MAGIC_def)
  also have "\<dots> = head_events (length evs + Suc (2 - length evs)) (encode_others server tail evs @ ?set) (Some (int ts * ns_per_s))"
    unfolding b head_events_encode [OF assms(5,6,3,7)] by simp
  also have "\<dots> = head_events (Suc (2 - length evs)) ?set (Some (int ts * ns_per_s))"
    by (rule head_skips_others [OF assms(5,6,9)])
  also have "\<dots> = Some \<lparr>created_at = int ts * ns_per_s, previous_gtids = join '','' (map entry_text gs)\<rparr>"
    unfolding head_events_encode [OF assms(5,6,4,8)] using d by (simp add: decode_encode [OF assms(1,2)])
  finally show ?thesis
    using read_gtid_text_of [OF assms(1)] same_transactions [OF assms(1)] by simp
qed

lemma binlog_head_reads_back_witness:
  "\<exists>head es. parse_binlog_head (BINLOG_MAGIC @ encode_event 5 FORMAT_DESCRIPTION_EVENT [1, 0, 0, 0] [0, 0, 0, 0, 0, 0] [4, 0] @
      encode_others [1, 0, 0, 0] [0, 0, 0, 0, 0, 0] [(6, 27, [])] @
      encode_event 6 PREVIOUS_GTIDS_LOG_EVENT [1, 0, 0, 0] [0, 0, 0, 0, 0, 0] (encode_gtid_set [(zero_uuid, [(1, 6)])] @ [9, 9, 9, 9]) @ []) =
        Some head \<and>
     read_gtid_text (previous_gtids head) = Some es \<and> transactions_read es = {(zero_uuid, n) | n. 1 \<le> n \<and> n < 6}"
proof -
  have "transactions_written [(zero_uuid, [(1, 6)])] = {(zero_uuid, n) | n. 1 \<le> n \<and> n < 6}"
    by (auto simp: transactions_written_def)
  then show ?thesis
    using binlog_head_reads_back [of "[(zero_uuid, [(1, 6)])]" 5 6 "[1, 0, 0, 0]" "[0, 0, 0, 0, 0, 0]" "[4, 0]" "[9, 9, 9, 9]" "[(6, 27, [])]" "[]"]
    by (auto simp: entry_ok_def encode_gtid_set_def encode_entry_def encode_intervals_def other_event_def
        FORMAT_DESCRIPTION_EVENT_def PREVIOUS_GTIDS_LOG_EVENT_def)
qed

end
