(* ===== verification/Shipping.thy ===== *)
theory Shipping
  imports Binlog
begin

text \<open>
  The shipping loop of the archiver (\<open>archiver.rs\<close>): the index of local binary logs, the
  record of what was uploaded, one pass that uploads what is closed and reclaims what is safe,
  and the watch over deferred reclaims. Instants and spans of the watch are whole units of one
  clock. What the disk, the bucket and the server answer during a pass is a record of functions.
\<close>

section \<open>The local index\<close>

text \<open>\<open>str::lines\<close>: split at line feeds, without a last empty line.\<close>

definition lines_of :: "string \<Rightarrow> string list" where
  "lines_of s = (let ls = split_on newline s in if last ls = [] then butlast ls else ls)"

datatype index_file = Index_missing | Index_error | Index_text string

definition local_binlog_index :: "index_file \<Rightarrow> string list option" where
  "local_binlog_index f =
     (case f of
        Index_missing \<Rightarrow> Some []
      | Index_error \<Rightarrow> None
      | Index_text s \<Rightarrow>
          Some (sort_by binlog_name_cmp
            (map (\<lambda>l. last (split_on slash l)) (filter (\<lambda>l. l \<noteq> []) (map trim (lines_of s))))))"

section \<open>The upload state\<close>

record upload_state =
  uploaded :: "string set"
  lost :: "string set"
  gap_anchor_pending :: bool

definition default_state :: upload_state where
  "default_state = \<lparr>uploaded = {}, lost = {}, gap_anchor_pending = False\<rparr>"

text \<open>The file's decoded content; a missing or unreadable one is the default.\<close>

definition read_upload_state :: "upload_state option \<Rightarrow> upload_state" where
  "read_upload_state f = (case f of Some st \<Rightarrow> st | None \<Rightarrow> default_state)"

definition clear_gap_anchor :: "bool \<Rightarrow> upload_state option \<Rightarrow> upload_state option" where
  "clear_gap_anchor write_ok f =
     (let st = read_upload_state f in
      if \<not> gap_anchor_pending st then f
      else if write_ok then Some (st\<lparr>gap_anchor_pending := False\<rparr>) else f)"

datatype head_answer = Head_err | Head_there bool

definition reconcile_upload_state :: "(string \<Rightarrow> head_answer) \<Rightarrow> bool \<Rightarrow> upload_state option \<Rightarrow> upload_state option" where
  "reconcile_upload_state head write_ok f =
     (let st = read_upload_state f;
          gone = {n \<in> uploaded st. head n = Head_there False} in
      if gone = {} then f
      else if write_ok then Some (st\<lparr>uploaded := uploaded st - gone\<rparr>) else f)"

section \<open>Deferred reclaims\<close>

datatype reclaim = Nothing_to_reclaim | Defer string | Purge string

definition reclaim_decision :: "string option \<Rightarrow> bool \<Rightarrow> reclaim" where
  "reclaim_decision limit backup_lock_held =
     (case limit of None \<Rightarrow> Nothing_to_reclaim | Some c \<Rightarrow> if backup_lock_held then Defer c else Purge c)"

datatype deferral_cause = OwnFull | Foreign

record reclaim_watch =
  w_since :: "nat option"
  passes :: nat
  escalated :: bool

definition fresh_watch :: reclaim_watch where
  "fresh_watch = \<lparr>w_since = None, passes = 0, escalated = False\<rparr>"

text \<open>The reason carries the cause, the passes and the time so far.\<close>

definition deferred :: "deferral_cause \<Rightarrow> nat \<Rightarrow> nat \<Rightarrow> reclaim_watch \<Rightarrow> reclaim_watch \<times> (deferral_cause \<times> nat \<times> nat) option" where
  "deferred cause full_interval now w =
     (let since = (case w_since w of Some t \<Rightarrow> t | None \<Rightarrow> now);
          w' = w\<lparr>w_since := Some since, passes := passes w + 1\<rparr> in
      if escalated w then (w', None)
      else let elapsed = now - since;
               fault = (case cause of Foreign \<Rightarrow> passes w' \<ge> 2 | OwnFull \<Rightarrow> elapsed > full_interval) in
        if \<not> fault then (w', None)
        else (w'\<lparr>escalated := True\<rparr>, Some (cause, passes w', elapsed)))"

definition resolved :: "reclaim_watch \<Rightarrow> reclaim_watch \<times> bool" where
  "resolved w = (fresh_watch, escalated w)"

section \<open>One shipping pass\<close>

datatype archive_mode = Standalone | GroupPrimary

datatype purge_outcome = Purge_failed | DeferredByBackupLock | Purged

record ship_env =
  e_status :: "string option"
  e_index :: index_file
  e_on_disk :: "string \<Rightarrow> bool"
  e_put :: "string \<Rightarrow> bool"
  e_write :: "upload_state \<Rightarrow> bool"
  e_request :: bool
  e_age :: "string \<Rightarrow> nat option"
  e_lock_held :: bool
  e_purge :: "string \<Rightarrow> purge_outcome"
  e_now :: nat
  e_full_interval :: nat

datatype ship_event =
    Lost string
  | Uploaded string
  | Gap_full_queued
  | Reclaim_fault deferral_cause nat nat
  | Fault_over
  | Reclaimed "string list"

record ship_world =
  saved :: "upload_state option"
  held :: "string set"

fun ship_files ::
  "ship_env \<Rightarrow> string \<Rightarrow> string list \<Rightarrow> upload_state \<Rightarrow> ship_world \<Rightarrow> (upload_state \<times> ship_world) \<times> bool \<times> ship_event list" where
  "ship_files e active [] st w = ((st, w), True, [])"
| "ship_files e active (name # rest) st w =
     (if \<not> binlog_is_closed name active \<or> name \<in> uploaded st \<or> name \<in> lost st
      then ship_files e active rest st w
      else if \<not> e_on_disk e name then
        (let st' = st\<lparr>lost := insert name (lost st), gap_anchor_pending := True\<rparr> in
         if \<not> e_write e st' then ((st', w), False, [])
         else (case ship_files e active rest st' (w\<lparr>saved := Some st'\<rparr>) of (r, ok, evs) \<Rightarrow> (r, ok, Lost name # evs)))
      else if \<not> e_put e name then ((st, w), False, [])
      else
        (let st' = st\<lparr>uploaded := insert name (uploaded st)\<rparr>; w' = w\<lparr>held := insert name (held w)\<rparr> in
         if \<not> e_write e st' then ((st', w'), False, [])
         else (case ship_files e active rest st' (w'\<lparr>saved := Some st'\<rparr>) of (r, ok, evs) \<Rightarrow> (r, ok, Uploaded name # evs))))"

definition GR_BINLOG_EXPIRE_SECONDS :: nat where "GR_BINLOG_EXPIRE_SECONDS = 259200"

definition reclaim_cut :: "ship_env \<Rightarrow> archive_mode \<Rightarrow> string list \<Rightarrow> string \<Rightarrow> upload_state \<Rightarrow> string option" where
  "reclaim_cut e mode files active st =
     (case mode of
        Standalone \<Rightarrow> purge_cut files active (uploaded st) (lost st)
      | GroupPrimary \<Rightarrow>
          purge_cut_retaining_recent files active (uploaded st) (lost st) (e_age e) GR_BINLOG_EXPIRE_SECONDS)"

definition end_reclaim_deferral :: "reclaim_watch \<Rightarrow> reclaim_watch \<times> ship_event list" where
  "end_reclaim_deferral watch = (fst (resolved watch), if snd (resolved watch) then [Fault_over] else [])"

definition note_deferral :: "deferral_cause \<Rightarrow> ship_env \<Rightarrow> reclaim_watch \<Rightarrow> reclaim_watch \<times> ship_event list" where
  "note_deferral cause e watch =
     (case deferred cause (e_full_interval e) (e_now e) watch of
        (watch', Some (c, n, t)) \<Rightarrow> (watch', [Reclaim_fault c n t])
      | (watch', None) \<Rightarrow> (watch', []))"

definition reclaim_stage ::
  "ship_env \<Rightarrow> archive_mode \<Rightarrow> string list \<Rightarrow> string \<Rightarrow> upload_state \<Rightarrow> ship_world \<Rightarrow> reclaim_watch \<Rightarrow>
     (ship_world \<times> reclaim_watch) \<times> bool \<times> ship_event list" where
  "reclaim_stage e mode files active st w watch =
     (case reclaim_decision (reclaim_cut e mode files active st) (e_lock_held e) of
        Nothing_to_reclaim \<Rightarrow> (case end_reclaim_deferral watch of (watch', evs) \<Rightarrow> ((w, watch'), True, evs))
      | Defer limit \<Rightarrow> (case note_deferral OwnFull e watch of (watch', evs) \<Rightarrow> ((w, watch'), True, evs))
      | Purge limit \<Rightarrow>
          (case e_purge e limit of
             Purge_failed \<Rightarrow> ((w, watch), False, [])
           | DeferredByBackupLock \<Rightarrow> (case note_deferral Foreign e watch of (watch', evs) \<Rightarrow> ((w, watch'), True, evs))
           | Purged \<Rightarrow>
               (case end_reclaim_deferral watch of (watch', evs) \<Rightarrow>
                 let gone = before limit files;
                     st' = st\<lparr>uploaded := uploaded st - set gone\<rparr> in
                 if set gone \<inter> uploaded st = {} then ((w, watch'), True, evs @ [Reclaimed gone])
                 else if e_write e st' then ((w\<lparr>saved := Some st'\<rparr>, watch'), True, evs @ [Reclaimed gone])
                 else ((w, watch'), False, evs @ [Reclaimed gone]))))"

definition ship_once ::
  "ship_env \<Rightarrow> archive_mode \<Rightarrow> ship_world \<Rightarrow> reclaim_watch \<Rightarrow> (ship_world \<times> reclaim_watch) \<times> bool \<times> ship_event list" where
  "ship_once e mode w watch =
     (case e_status e of
        None \<Rightarrow> ((w, watch), False, [])
      | Some active \<Rightarrow>
          (case local_binlog_index (e_index e) of
             None \<Rightarrow> ((w, watch), False, [])
           | Some files \<Rightarrow>
               (case ship_files e active files (read_upload_state (saved w)) w of
                  ((st, w'), False, evs) \<Rightarrow> ((w', watch), False, evs)
                | ((st, w'), True, evs) \<Rightarrow>
                    (let queued = (if gap_anchor_pending st \<and> e_request e then [Gap_full_queued] else []) in
                     case reclaim_stage e mode files active st w' watch of
                       (r, ok, evs2) \<Rightarrow> (r, ok, evs @ queued @ evs2)))))"

section \<open>What a pass keeps\<close>

text \<open>The bucket holds what the record says was uploaded.\<close>

definition truthful :: "ship_world \<Rightarrow> bool" where
  "truthful w \<longleftrightarrow> uploaded (read_upload_state (saved w)) \<subseteq> held w"

text \<open>What the loop over the files did: where it stopped, whether it went through, what it said.\<close>

abbreviation ship_state :: "(upload_state \<times> ship_world) \<times> bool \<times> ship_event list \<Rightarrow> upload_state" where
  "ship_state r \<equiv> fst (fst r)"

abbreviation ship_left :: "(upload_state \<times> ship_world) \<times> bool \<times> ship_event list \<Rightarrow> ship_world" where
  "ship_left r \<equiv> snd (fst r)"

abbreviation went_through :: "'a \<times> bool \<times> ship_event list \<Rightarrow> bool" where
  "went_through r \<equiv> fst (snd r)"

definition lose :: "string \<Rightarrow> upload_state \<Rightarrow> upload_state" where
  "lose n st = st\<lparr>lost := insert n (lost st), gap_anchor_pending := True\<rparr>"

definition upload :: "string \<Rightarrow> upload_state \<Rightarrow> upload_state" where
  "upload n st = st\<lparr>uploaded := insert n (uploaded st)\<rparr>"

definition put :: "string \<Rightarrow> ship_world \<Rightarrow> ship_world" where
  "put n w = w\<lparr>held := insert n (held w)\<rparr>"

definition save :: "upload_state \<Rightarrow> ship_world \<Rightarrow> ship_world" where
  "save st w = w\<lparr>saved := Some st\<rparr>"

definition to_do :: "string \<Rightarrow> upload_state \<Rightarrow> string \<Rightarrow> bool" where
  "to_do active st n \<longleftrightarrow> binlog_is_closed n active \<and> n \<notin> uploaded st \<and> n \<notin> lost st"

lemma ship_skip: "\<not> to_do active st n \<Longrightarrow> ship_files e active (n # rest) st w = ship_files e active rest st w"
  by (auto simp: to_do_def)

lemma ship_lose:
  "to_do active st n \<Longrightarrow> \<not> e_on_disk e n \<Longrightarrow> ship_files e active (n # rest) st w =
     (if \<not> e_write e (lose n st) then ((lose n st, w), False, [])
      else (let r = ship_files e active rest (lose n st) (save (lose n st) w) in (fst r, went_through r, Lost n # snd (snd r))))"
  by (simp add: to_do_def lose_def save_def Let_def case_prod_beta)

lemma ship_put:
  "to_do active st n \<Longrightarrow> e_on_disk e n \<Longrightarrow> ship_files e active (n # rest) st w =
     (if \<not> e_put e n then ((st, w), False, [])
      else if \<not> e_write e (upload n st) then ((upload n st, put n w), False, [])
      else (let r = ship_files e active rest (upload n st) (save (upload n st) (put n w)) in
        (fst r, went_through r, Uploaded n # snd (snd r))))"
  by (simp add: to_do_def upload_def put_def save_def Let_def case_prod_beta)

lemma ship_cases:
  fixes e :: ship_env
  obtains (skip) "\<not> to_do active st n" | (gone) "to_do active st n" "\<not> e_on_disk e n" | (there) "to_do active st n" "e_on_disk e n"
  by blast

lemma upload_state_simps [simp]:
  "uploaded (lose n st) = uploaded st" "lost (lose n st) = insert n (lost st)" "gap_anchor_pending (lose n st)"
  "uploaded (upload n st) = insert n (uploaded st)" "lost (upload n st) = lost st"
  "gap_anchor_pending (upload n st) = gap_anchor_pending st"
  "held (put n w) = insert n (held w)" "saved (put n w) = saved w"
  "held (save st w) = held w" "saved (save st w) = Some st" "truthful (save st w) = (uploaded st \<subseteq> held w)"
  by (simp_all add: lose_def upload_def put_def save_def truthful_def read_upload_state_def)

definition honest :: "upload_state \<Rightarrow> ship_world \<Rightarrow> bool" where
  "honest st w \<longleftrightarrow> uploaded st \<subseteq> held w \<and> truthful w"

lemma truthful_put: "truthful w \<Longrightarrow> truthful (put n w)"
  by (auto simp: truthful_def)

lemma honest_steps:
  "honest st w \<Longrightarrow> honest (lose n st) w" "honest st w \<Longrightarrow> honest (lose n st) (save (lose n st) w)"
  "honest st w \<Longrightarrow> honest (upload n st) (put n w)"
  "honest st w \<Longrightarrow> honest (upload n st) (save (upload n st) (put n w))"
  by (auto simp: honest_def truthful_put)

lemma ship_files_honest:
  "honest st w \<Longrightarrow> honest (ship_state (ship_files e active files st w)) (ship_left (ship_files e active files st w))"
proof (induction files arbitrary: st w)
  case (Cons n rest)
  show ?case
  proof (cases rule: ship_cases [where active = active and st = st and n = n and e = e])
    case skip
    then show ?thesis using Cons by (simp add: ship_skip del: ship_files.simps)
  next
    case gone
    then show ?thesis using Cons honest_steps(1,2) by (simp add: ship_lose Let_def del: ship_files.simps)
  next
    case there
    then show ?thesis using Cons honest_steps(3,4) by (simp add: ship_put Let_def del: ship_files.simps)
  qed
qed simp

lemma ship_files_grow:
  "uploaded st \<subseteq> uploaded (ship_state (ship_files e active files st w)) \<and>
   lost st \<subseteq> lost (ship_state (ship_files e active files st w)) \<and> held w \<subseteq> held (ship_left (ship_files e active files st w))"
proof (induction files arbitrary: st w)
  case (Cons n rest)
  show ?case
  proof (cases rule: ship_cases [where active = active and st = st and n = n and e = e])
    case skip
    then show ?thesis using Cons by (simp add: ship_skip del: ship_files.simps)
  next
    case gone
    then show ?thesis using Cons [of "lose n st" "save (lose n st) w"] by (auto simp: ship_lose Let_def simp del: ship_files.simps)
  next
    case there
    then show ?thesis using Cons [of "upload n st" "save (upload n st) (put n w)"]
      by (auto simp: ship_put Let_def simp del: ship_files.simps)
  qed
qed simp

text \<open>Every closed file of a list that was gone through is recorded, as uploaded or as lost.\<close>

lemma ship_files_done:
  "went_through (ship_files e active files st w) \<Longrightarrow> f \<in> set files \<Longrightarrow> binlog_is_closed f active \<Longrightarrow>
     f \<in> uploaded (ship_state (ship_files e active files st w)) \<or> f \<in> lost (ship_state (ship_files e active files st w))"
proof (induction files arbitrary: st w)
  case (Cons n rest)
  show ?case
  proof (cases rule: ship_cases [where active = active and st = st and n = n and e = e])
    case skip
    then show ?thesis using Cons ship_files_grow [of st e active rest w]
      by (auto simp: ship_skip to_do_def simp del: ship_files.simps)
  next
    case gone
    then show ?thesis using Cons ship_files_grow [of "lose n st" e active rest "save (lose n st) w"]
      by (auto simp: ship_lose Let_def simp del: ship_files.simps split: if_splits)
  next
    case there
    then show ?thesis
      using Cons ship_files_grow [of "upload n st" e active rest "save (upload n st) (put n w)"]
      by (auto simp: ship_put Let_def simp del: ship_files.simps split: if_splits)
  qed
qed simp

definition in_sync :: "upload_state \<Rightarrow> ship_world \<Rightarrow> bool" where
  "in_sync st w \<longleftrightarrow> read_upload_state (saved w) = st"

lemma in_sync_save [simp]: "in_sync st (save st w)"
  by (simp add: in_sync_def read_upload_state_def)

lemma ship_files_in_sync:
  "in_sync st w \<Longrightarrow> went_through (ship_files e active files st w) \<Longrightarrow>
     in_sync (ship_state (ship_files e active files st w)) (ship_left (ship_files e active files st w))"
proof (induction files arbitrary: st w)
  case (Cons n rest)
  show ?case
  proof (cases rule: ship_cases [where active = active and st = st and n = n and e = e])
    case skip
    then show ?thesis using Cons by (simp add: ship_skip del: ship_files.simps)
  next
    case gone
    then show ?thesis using Cons by (simp add: ship_lose Let_def del: ship_files.simps split: if_splits)
  next
    case there
    then show ?thesis using Cons by (simp add: ship_put Let_def del: ship_files.simps split: if_splits)
  qed
qed simp

lemma ship_files_quiet: "Reclaimed gone \<notin> set (snd (snd (ship_files e active files st w)))"
proof (induction files arbitrary: st w)
  case (Cons n rest)
  show ?case
  proof (cases rule: ship_cases [where active = active and st = st and n = n and e = e])
    case skip
    then show ?thesis using Cons by (simp add: ship_skip del: ship_files.simps)
  next
    case gone
    then show ?thesis using Cons by (simp add: ship_lose Let_def del: ship_files.simps)
  next
    case there
    then show ?thesis using Cons by (simp add: ship_put Let_def del: ship_files.simps)
  qed
qed simp

lemma note_deferral_silent: "Reclaimed gone \<notin> set (snd (note_deferral c e watch))" "Reclaimed gone \<notin> set (snd (end_reclaim_deferral watch))"
  by (auto simp: note_deferral_def end_reclaim_deferral_def split: prod.splits option.splits)

lemma reclaim_cut_safe:
  "reclaim_cut e mode files active st = Some b \<Longrightarrow> f \<in> set (before b files) \<Longrightarrow>
     f \<noteq> active \<and> (f \<in> uploaded st \<or> f \<in> lost st)"
  using standalone_cut.nothing_blocking_before [of files active "uploaded st" "lost st" b f]
    primary_cut.nothing_blocking_before [of files active "uploaded st" "lost st" "e_age e" GR_BINLOG_EXPIRE_SECONDS b f]
  by (cases mode) (auto simp: reclaim_cut_def retained_def split: if_splits)

lemma reclaim_stage_keeps:
  assumes "in_sync st w" and "honest st w" and "reclaim_stage e mode files active st w watch = ((w', watch'), ok, evs)"
  shows "held w' = held w" and "lost (read_upload_state (saved w')) = lost st" and "truthful w'"
    and "Reclaimed gone \<in> set evs \<Longrightarrow> f \<in> set gone \<Longrightarrow> f \<noteq> active \<and> (f \<in> uploaded st \<or> f \<in> lost st)"
proof -
  have quiet: "Reclaimed gone \<notin> set evs'" if "note_deferral c e watch = (x, evs') \<or> end_reclaim_deferral watch = (x, evs')" for c x evs'
    using that note_deferral_silent(1) [where gone = gone and c = c and e = e and watch = watch]
      note_deferral_silent(2) [where gone = gone and watch = watch] by auto
  have *: "held w' = held w \<and> lost (read_upload_state (saved w')) = lost st \<and> truthful w' \<and>
      (Reclaimed gone \<in> set evs \<longrightarrow> f \<in> set gone \<longrightarrow> f \<noteq> active \<and> (f \<in> uploaded st \<or> f \<in> lost st))"
  proof (cases "reclaim_decision (reclaim_cut e mode files active st) (e_lock_held e)")
    case Nothing_to_reclaim
    then show ?thesis
      using assms quiet by (auto simp: reclaim_stage_def in_sync_def honest_def split: prod.splits)
  next
    case (Defer c)
    then show ?thesis
      using assms quiet by (auto simp: reclaim_stage_def in_sync_def honest_def split: prod.splits)
  next
    case (Purge c)
    then have c: "reclaim_cut e mode files active st = Some c"
      by (auto simp: reclaim_decision_def split: option.splits if_splits)
    show ?thesis
    proof (cases "e_purge e c")
      case Purged
      obtain watch2 evs2 where r: "end_reclaim_deferral watch = (watch2, evs2)" by (cases "end_reclaim_deferral watch")
      have "evs = evs2 @ [Reclaimed (before c files)] \<and> held w' = held w \<and>
          (saved w' = saved w \<or> saved w' = Some (st\<lparr>uploaded := uploaded st - set (before c files)\<rparr>))"
        using assms(3) Purge Purged r by (auto simp: reclaim_stage_def Let_def split: if_splits)
      then show ?thesis
        using assms(1,2) reclaim_cut_safe [OF c, of f] quiet r
        by (auto simp: in_sync_def honest_def truthful_def read_upload_state_def)
    qed (use assms quiet Purge in \<open>auto simp: reclaim_stage_def in_sync_def honest_def split: prod.splits\<close>)
  qed
  show "held w' = held w" "lost (read_upload_state (saved w')) = lost st" "truthful w'"
    "Reclaimed gone \<in> set evs \<Longrightarrow> f \<in> set gone \<Longrightarrow> f \<noteq> active \<and> (f \<in> uploaded st \<or> f \<in> lost st)"
    using * by blast+
qed

text \<open>
  C18: A shipping pass never gives up a log the bucket does not hold. When the record of uploads is
  true of the bucket it is true after a pass that ended anywhere, whichever upload, write or
  purge failed, and the bucket lost nothing; what the pass had the server purge is not the
  active log and is in the bucket, or recorded as lost before; and a pass that went through
  leaves every closed log of the index in the bucket or recorded as lost.
\<close>

theorem shipping_pass_keeps_the_archive:
  assumes "truthful w" and "e_status e = Some active" and "local_binlog_index (e_index e) = Some files"
    and "ship_once e mode w watch = ((w', watch'), ok, evs)"
  shows "truthful w' \<and> held w \<subseteq> held w' \<and>
    (\<forall>gone \<in> {gone. Reclaimed gone \<in> set evs}. \<forall>f \<in> set gone.
       f \<noteq> active \<and> (f \<in> held w' \<or> f \<in> lost (read_upload_state (saved w')))) \<and>
    (ok \<longrightarrow> (\<forall>f \<in> set files. binlog_is_closed f active \<longrightarrow> f \<in> held w' \<or> f \<in> lost (read_upload_state (saved w'))))"
proof -
  let ?st = "read_upload_state (saved w)"
  obtain st1 w1 ok1 evs1 where r: "ship_files e active files ?st w = ((st1, w1), ok1, evs1)" by (metis surj_pair)
  have h0: "honest ?st w" using assms(1) by (simp add: honest_def truthful_def)
  have h: "honest st1 w1" using ship_files_honest [OF h0, of e active files] r by simp
  have grow: "held w \<subseteq> held w1" using ship_files_grow [of ?st e active files w] r by simp
  have quiet: "Reclaimed gone \<notin> set evs1" for gone
    using ship_files_quiet [of gone e active files ?st w] r by simp
  show ?thesis
  proof (cases ok1)
    case False
    then have "w' = w1" "\<not> ok" "evs = evs1" using assms(2-4) r by (auto simp: ship_once_def)
    then show ?thesis using h grow quiet by (auto simp: honest_def)
  next
    case True
    obtain r2 ok2 evs2 where c: "reclaim_stage e mode files active st1 w1 watch = (r2, ok2, evs2)" by (metis surj_pair)
    have eq: "r2 = (w', watch')" "ok2 = ok"
      "evs = evs1 @ (if gap_anchor_pending st1 \<and> e_request e then [Gap_full_queued] else []) @ evs2"
      using assms(2-4) r True c by (auto simp: ship_once_def Let_def)
    have sync: "in_sync st1 w1"
      using ship_files_in_sync [of ?st w e active files] r True by (simp add: in_sync_def)
    note k = reclaim_stage_keeps [OF sync h c [unfolded eq(1)]]
    have recorded: "f \<in> held w' \<or> f \<in> lost (read_upload_state (saved w'))" if "f \<in> uploaded st1 \<or> f \<in> lost st1" for f
      using that h k(1,2) by (auto simp: honest_def)
    have "\<forall>f \<in> set files. binlog_is_closed f active \<longrightarrow> f \<in> uploaded st1 \<or> f \<in> lost st1"
      using ship_files_done [of e active files ?st w] r True by auto
    then have closed: "\<forall>f \<in> set files. binlog_is_closed f active \<longrightarrow> f \<in> held w' \<or> f \<in> lost (read_upload_state (saved w'))"
      using recorded by blast
    have "\<forall>gone \<in> {gone. Reclaimed gone \<in> set evs}. \<forall>f \<in> set gone. f \<noteq> active \<and> (f \<in> uploaded st1 \<or> f \<in> lost st1)"
      using eq(3) quiet k(4) by (auto split: if_splits)
    then show ?thesis using k(1,3) grow closed recorded by blast
  qed
qed

definition sample_env :: ship_env where
  "sample_env = \<lparr>e_status = Some ''b.2'', e_index = Index_text ''b.1'',
     e_on_disk = (\<lambda>n. True), e_put = (\<lambda>n. True), e_write = (\<lambda>st. True), e_request = True, e_age = (\<lambda>n. None),
     e_lock_held = False, e_purge = (\<lambda>c. Purged), e_now = 0, e_full_interval = 10\<rparr>"

lemma sample_index: "local_binlog_index (e_index sample_env) = Some [''b.1'']"
proof -
  have l: "lines_of ''b.1'' = [''b.1'']" by (simp add: lines_of_def newline_char)
  have t: "trim ''b.1'' = ''b.1''" by (simp add: trim_def trim_end_by_def is_ws_def char_code_def)
  show ?thesis by (simp add: sample_env_def local_binlog_index_def l t sort_by_def)
qed

lemma sample_seqs_12: "binlog_seq ''b.1'' = Some 1" "binlog_seq ''b.2'' = Some 2"
  by (simp_all add: binlog_seq_def parse_uint_def digits_val_def digit_val_def is_digit_def char_code_def u64_max_def)

lemma shipping_pass_keeps_the_archive_witness:
  "''b.1'' \<in> held (fst (fst (ship_once sample_env Standalone \<lparr>saved = None, held = {}\<rparr> fresh_watch)))"
proof -
  let ?w = "\<lparr>saved = None, held = {}\<rparr> :: ship_world"
  have t: "truthful ?w" by (simp add: truthful_def read_upload_state_def default_state_def)
  have st: "e_status sample_env = Some ''b.2''" by (simp add: sample_env_def)
  obtain w' watch' ok evs where r: "ship_once sample_env Standalone ?w fresh_watch = ((w', watch'), ok, evs)" by (metis surj_pair)
  have "binlog_is_closed ''b.1'' ''b.2''" by (simp add: binlog_is_closed_def sample_seqs_12)
  moreover have "ok \<and> lost (read_upload_state (saved w')) = {}"
    using r sample_index calculation
    by (simp add: ship_once_def st) (auto simp: sample_env_def reclaim_stage_def reclaim_cut_def purge_cut_def reclaim_decision_def
      read_upload_state_def default_state_def end_reclaim_deferral_def resolved_def Let_def split: if_splits)
  ultimately show ?thesis using shipping_pass_keeps_the_archive [OF t st sample_index r] r by simp
qed

section \<open>Deferrals and gaps\<close>

text \<open>One episode of deferred passes, oldest first: what is named of it.\<close>

fun deferral_run :: "nat \<Rightarrow> (deferral_cause \<times> nat) list \<Rightarrow> reclaim_watch \<Rightarrow> (deferral_cause \<times> nat \<times> nat) list" where
  "deferral_run full_interval [] w = []"
| "deferral_run full_interval ((c, now) # more_passes) w =
     (case deferred c full_interval now w of
        (w', Some reason) \<Rightarrow> reason # deferral_run full_interval more_passes w'
      | (w', None) \<Rightarrow> deferral_run full_interval more_passes w')"

lemma deferral_quiet: "escalated w \<Longrightarrow> deferral_run full_interval ps w = []"
  by (induction ps arbitrary: w) (auto simp: deferred_def Let_def)

text \<open>
  A deferral is named once. However many passes of an episode are deferred, at most one reason
  is reported.
\<close>

theorem deferral_named_once:
  "length (deferral_run full_interval ps w) \<le> 1"
proof (induction ps arbitrary: w)
  case (Cons p ps)
  obtain c now where p: "p = (c, now)" by (cases p)
  show ?case
  proof (cases "snd (deferred c full_interval now w)")
    case None
    then show ?thesis using Cons by (cases "deferred c full_interval now w") (simp add: p)
  next
    case (Some reason)
    then have "escalated (fst (deferred c full_interval now w))"
      by (auto simp: deferred_def Let_def split: if_splits)
    then show ?thesis using Some by (cases "deferred c full_interval now w") (simp add: p deferral_quiet)
  qed
qed simp

text \<open>
  A session that held the lock for a single pass may be named as one that held it for two: the
  pass before may have been deferred by this node's own full backup.
\<close>

theorem foreign_blamed_after_one_pass:
  "deferral_run full_interval [(OwnFull, t), (Foreign, t + 10)] fresh_watch = [(Foreign, 2, 10)]"
  by (simp add: deferred_def fresh_watch_def Let_def)

text \<open>What a full backup that landed does: it reports the gap closed if one was pending when it started.\<close>

definition full_landed :: "bool \<Rightarrow> bool \<Rightarrow> upload_state option \<Rightarrow> upload_state option" where
  "full_landed anchors_a_gap write_ok f = (if anchors_a_gap then clear_gap_anchor write_ok f else f)"

text \<open>
  A loss during a full backup can be forgotten. When a loss was recorded before a full backup
  started and another one while it ran, the backup that lands takes the re-anchoring request of
  the second one with it, although its snapshot is older: the second log stays recorded as
  lost and no full backup is pending any more.
\<close>

theorem second_loss_is_not_anchored:
  "let before_full = save (lose a st) w;
       during_full = save (lose b (read_upload_state (saved before_full))) before_full;
       after = read_upload_state (full_landed (gap_anchor_pending (read_upload_state (saved before_full))) True (saved during_full)) in
   b \<in> lost after \<and> \<not> gap_anchor_pending after"
  by (simp add: full_landed_def clear_gap_anchor_def read_upload_state_def Let_def)

end
