(* ===== verification/Retention.thy ===== *)
theory Retention
  imports Replay
begin

text \<open>
  Archive retention (\<open>pitr.rs\<close>): which fulls a lineage keeps, the plan of one sweep over
  independent lineages and over a shared history; and around it the archiver's reading of the
  bucket and its deletions (\<open>archiver.rs\<close>). Instants and spans are nanoseconds. The notes a
  plan carries for the log are not modelled.
\<close>

section \<open>The planner's input and output\<close>

record lineage_objects =
  lo_uuid :: string
  lo_fulls :: "full_backup_ref list"
  full_objects_seen :: nat
  orphan_dumps :: "(string \<times> int) list"
  lo_binlogs :: "string list"
  binlog_ages :: "string \<Rightarrow> int option"

record retention_input =
  lineages :: "lineage_objects list"
  active_server_uuid :: "string option"
  r_now :: int
  horizon :: int
  shared_history_marker :: bool

record retention_plan =
  expired_full_keys :: "string list"
  expired_binlogs :: "(string \<times> string) list"
  orphan_dump_keys :: "string list"
  retired_lineages :: "string list"

definition empty_plan :: retention_plan where
  "empty_plan = \<lparr>expired_full_keys = [], expired_binlogs = [], orphan_dump_keys = [], retired_lineages = []\<rparr>"

definition MIN_ACTIVE_FULLS_KEPT :: nat where "MIN_ACTIVE_FULLS_KEPT = 2"
definition ORPHAN_DUMP_GRACE :: int where "ORPHAN_DUMP_GRACE = 6 * 3600 * ns_per_s"

definition cutoff_of :: "retention_input \<Rightarrow> int" where
  "cutoff_of inp = r_now inp - horizon inp"

section \<open>Which fulls are kept\<close>

definition cmp_newest :: "full_backup_ref \<Rightarrow> full_backup_ref \<Rightarrow> ordering" where
  "cmp_newest a b = then_cmp (cmp_lin (taken b) (taken a)) (cmp_lin (dump_key a) (dump_key b))"

definition fulls_to_keep :: "full_backup_ref list \<Rightarrow> int \<Rightarrow> nat \<Rightarrow> full_backup_ref list" where
  "fulls_to_keep fulls cutoff min_kept =
     (let sorted = sort_by cmp_newest fulls;
          inside = length (filter (\<lambda>f. taken f \<ge> cutoff) sorted);
          keep = min (max (max inside min_kept) 1) (length sorted);
          keep' = (if keep < length sorted \<and> taken (sorted ! (keep - 1)) > cutoff then keep + 1 else keep) in
      take keep' sorted)"

definition newest_first :: "full_backup_ref \<Rightarrow> int \<times> string" where
  "newest_first f = (- taken f, dump_key f)"

lemma sort_newest: "sort_by cmp_newest fulls = sort_key newest_first fulls"
  by (rule sort_by_sort_key)
     (auto simp: cmp_newest_def newest_first_def then_cmp_def cmp_lin_def less_prod_def' split: ordering.splits if_splits)

lemma sorted_newest_nth:
  assumes "i \<le> j" and "j < length fulls"
  shows "taken (sort_key newest_first fulls ! j) \<le> taken (sort_key newest_first fulls ! i)"
proof -
  have "sorted (map newest_first (sort_key newest_first fulls))" by simp
  then have "map newest_first (sort_key newest_first fulls) ! i \<le> map newest_first (sort_key newest_first fulls) ! j"
    using assms by (intro sorted_nth_mono) auto
  then show ?thesis using assms by (auto simp: newest_first_def less_eq_prod_def)
qed

lemma inside_bound:
  assumes "j < length fulls" and "cutoff \<le> taken (sort_key newest_first fulls ! j)"
  shows "j < length (filter (\<lambda>f. taken f \<ge> cutoff) (sort_key newest_first fulls))"
proof -
  let ?s = "sort_key newest_first fulls"
  have "\<forall>i < Suc j. cutoff \<le> taken (?s ! i)"
    using sorted_newest_nth [of _ j fulls] assms by (metis less_Suc_eq_le order_trans)
  then have "filter (\<lambda>f. taken f \<ge> cutoff) (take (Suc j) ?s) = take (Suc j) ?s"
    using assms(1) by (intro filter_True) (auto simp: in_set_conv_nth)
  then have "length (filter (\<lambda>f. taken f \<ge> cutoff) (take (Suc j) ?s)) = Suc j"
    using assms(1) by simp
  moreover have "length (filter (\<lambda>f. taken f \<ge> cutoff) (take (Suc j) ?s)) \<le>
      length (filter (\<lambda>f. taken f \<ge> cutoff) (take (Suc j) ?s @ drop (Suc j) ?s))"
    unfolding filter_append by simp
  ultimately show ?thesis by simp
qed

text \<open>What is kept is a prefix of the fulls, newest first, and its last is at the cutoff or before.\<close>

lemma kept_prefix:
  obtains k where "fulls_to_keep fulls cutoff m = take k (sort_key newest_first fulls)"
    and "min (max m 1) (length fulls) \<le> k" and "k \<le> length fulls"
    and "k < length fulls \<Longrightarrow> taken (sort_key newest_first fulls ! (k - 1)) \<le> cutoff"
proof -
  let ?s = "sort_key newest_first fulls"
  define inside where "inside = length (filter (\<lambda>f. taken f \<ge> cutoff) ?s)"
  define keep where "keep = min (max (max inside m) 1) (length fulls)"
  define ext where "ext \<longleftrightarrow> keep < length fulls \<and> taken (?s ! (keep - 1)) > cutoff"
  have eq: "fulls_to_keep fulls cutoff m = take (if ext then keep + 1 else keep) ?s"
    by (simp only: fulls_to_keep_def Let_def sort_newest inside_def keep_def ext_def length_sort)
  show thesis
  proof (rule that [OF eq])
    have "min (max m 1) (length fulls) \<le> keep" unfolding keep_def by (intro min.mono max.mono) simp_all
    then show "min (max m 1) (length fulls) \<le> (if ext then keep + 1 else keep)" by simp
    have "keep \<le> length fulls" by (simp add: keep_def)
    moreover have "ext \<Longrightarrow> keep < length fulls" by (simp add: ext_def)
    ultimately show "(if ext then keep + 1 else keep) \<le> length fulls" by (cases ext) auto
    assume less: "(if ext then keep + 1 else keep) < length fulls"
    show "taken (?s ! ((if ext then keep + 1 else keep) - 1)) \<le> cutoff"
    proof (cases ext)
      case True
      have "\<not> cutoff \<le> taken (?s ! keep)"
        using inside_bound [of keep fulls cutoff] less True by (auto simp: inside_def [symmetric] keep_def)
      then show ?thesis using True by simp
    next
      case False
      then show ?thesis using less by (auto simp: ext_def)
    qed
  qed
qed

lemma kept_subset: "set (fulls_to_keep fulls cutoff m) \<subseteq> set fulls"
  by (rule kept_prefix [of fulls cutoff m]) (metis set_sort set_take_subset)

lemma kept_length: "min (max m 1) (length fulls) \<le> length (fulls_to_keep fulls cutoff m)"
  by (rule kept_prefix [of fulls cutoff m]) simp

lemma kept_not_Nil: "fulls \<noteq> [] \<Longrightarrow> fulls_to_keep fulls cutoff m \<noteq> []"
  using kept_length [of m fulls cutoff] by (cases fulls) auto

lemma last_take: "0 < k \<Longrightarrow> k \<le> length xs \<Longrightarrow> last (take k xs) = xs ! (k - 1)"
  by (subst last_conv_nth) auto

lemma kept_oldest:
  assumes "g \<in> set (fulls_to_keep fulls cutoff m)"
  shows "taken (last (fulls_to_keep fulls cutoff m)) \<le> taken g"
proof (rule kept_prefix [of fulls cutoff m])
  fix k
  let ?s = "sort_key newest_first fulls"
  assume k: "fulls_to_keep fulls cutoff m = take k ?s" "k \<le> length fulls"
  then obtain i where i: "i < k" "g = ?s ! i" "i < length fulls"
    using assms by (auto simp: in_set_conv_nth)
  have "last (take k ?s) = ?s ! (k - 1)" using i(1) k(2) by (intro last_take) auto
  then show ?thesis using sorted_newest_nth [of i "k - 1" fulls] i k by simp
qed

lemma dropped_behind_floor:
  assumes "f \<in> set fulls" and "f \<notin> set (fulls_to_keep fulls cutoff m)"
  shows "taken f \<le> taken (last (fulls_to_keep fulls cutoff m))"
    and "taken (last (fulls_to_keep fulls cutoff m)) \<le> cutoff"
proof -
  let ?s = "sort_key newest_first fulls"
  obtain k where k: "fulls_to_keep fulls cutoff m = take k ?s" "min (max m 1) (length fulls) \<le> k"
    "k \<le> length fulls" "k < length fulls \<Longrightarrow> taken (?s ! (k - 1)) \<le> cutoff"
    using kept_prefix [of fulls cutoff m] by metis
  obtain j where j: "j < length fulls" "f = ?s ! j"
    using assms(1) by (metis in_set_conv_nth length_sort set_sort)
  have "k \<le> j"
  proof (rule ccontr)
    assume "\<not> k \<le> j"
    then have "j < length (take k ?s)" using k(3) by simp
    then have "?s ! j \<in> set (take k ?s)" using nth_mem [of j "take k ?s"] by simp
    then show False using assms(2) j(2) k(1) by simp
  qed
  have pos: "0 < k" using k(2) j(1) by auto
  then have l: "last (take k ?s) = ?s ! (k - 1)" using k(3) by (intro last_take) auto
  show "taken f \<le> taken (last (fulls_to_keep fulls cutoff m))"
    using sorted_newest_nth [of "k - 1" j fulls] \<open>k \<le> j\<close> j pos by (simp add: k(1) l)
  show "taken (last (fulls_to_keep fulls cutoff m)) \<le> cutoff"
    using k(4) \<open>k \<le> j\<close> j(1) by (simp add: k(1) l)
qed

text \<open>Whoever survives with the kept fulls serves every target of the window equally well.\<close>

lemma kept_serves_window:
  assumes "newest_qualifying_full fulls target = Some f" and "cutoff \<le> target"
    and "set (fulls_to_keep fulls cutoff m) \<subseteq> set rest" and "set rest \<subseteq> set fulls"
  shows "\<exists>f'. newest_qualifying_full rest target = Some f' \<and> taken f' = taken f"
proof -
  note f = newest_qualifying_full_Some [OF assms(1)]
  have "\<exists>g \<in> set (fulls_to_keep fulls cutoff m). qualifies target g \<and> taken f \<le> taken g"
  proof (cases "f \<in> set (fulls_to_keep fulls cutoff m)")
    case False
    let ?g = "last (fulls_to_keep fulls cutoff m)"
    have "fulls \<noteq> []" using f(1) by auto
    then have "?g \<in> set (fulls_to_keep fulls cutoff m)" by (simp add: kept_not_Nil)
    moreover have "qualifies target ?g"
      using dropped_behind_floor(2) [OF f(1) False] assms(2) floor_to_millis_le [of "taken ?g"] by (simp add: qualifies_def)
    ultimately show ?thesis using dropped_behind_floor(1) [OF f(1) False] by blast
  qed (use f(2) in blast)
  then obtain g where g: "g \<in> set rest" "qualifies target g" "taken f \<le> taken g" using assms(3) by blast
  then obtain f' where f': "newest_qualifying_full rest target = Some f'"
    using newest_qualifying_full_None [of rest target] by (cases "newest_qualifying_full rest target") auto
  note r = newest_qualifying_full_Some [OF f']
  have "taken g \<le> taken f'" using r(3) [OF g(1,2)] by (auto simp: less_eq_prod_def)
  moreover have "f' \<in> set fulls" using r(1) assms(4) by blast
  then have "taken f' \<le> taken f" using f(3) [OF _ r(2)] by (auto simp: less_eq_prod_def)
  ultimately show ?thesis using f' g(3) by auto
qed

section \<open>One sweep\<close>

definition full_keys :: "full_backup_ref \<Rightarrow> string list" where
  "full_keys f = [dump_key f, meta_key_for_dump (dump_key f)]"

definition old_orphans :: "retention_input \<Rightarrow> lineage_objects \<Rightarrow> string list" where
  "old_orphans inp l = map fst (filter (\<lambda>(key, uploaded). r_now inp - uploaded > ORPHAN_DUMP_GRACE) (orphan_dumps l))"

definition unkept :: "full_backup_ref list \<Rightarrow> full_backup_ref list \<Rightarrow> full_backup_ref list" where
  "unkept kept fulls = filter (\<lambda>f. dump_key f \<notin> dump_key ` set kept) fulls"

definition below_seq :: "nat \<Rightarrow> string \<Rightarrow> bool" where
  "below_seq floor_seq name = (case binlog_seq name of Some s \<Rightarrow> s < floor_seq | None \<Rightarrow> False)"

definition newest_taken :: "lineage_objects \<Rightarrow> int" where
  "newest_taken l = Max (taken ` set (lo_fulls l))"

definition owned :: "lineage_objects \<Rightarrow> string list \<Rightarrow> (string \<times> string) list" where
  "owned l names = map (Pair (lo_uuid l)) names"

text \<open>What one iteration of the planner's loop pushes, for independent lineages.\<close>

definition lineage_verdict :: "retention_input \<Rightarrow> string \<Rightarrow> lineage_objects \<Rightarrow> retention_plan" where
  "lineage_verdict inp active l =
     (let p = empty_plan\<lparr>orphan_dump_keys := old_orphans inp l\<rparr>;
          is_active = (lo_uuid l = active) in
      if lo_fulls l = [] then
        (if full_objects_seen l > 0 then p
         else if \<not> is_active \<and> lo_binlogs l \<noteq> [] then
           p\<lparr>expired_binlogs := owned l (lo_binlogs l), retired_lineages := [lo_uuid l]\<rparr>
         else p)
      else if \<not> is_active \<and> newest_taken l < cutoff_of inp then
        p\<lparr>expired_full_keys := concat (map full_keys (lo_fulls l)),
          expired_binlogs := owned l (lo_binlogs l), retired_lineages := [lo_uuid l]\<rparr>
      else
        let kept = fulls_to_keep (lo_fulls l) (cutoff_of inp) (if is_active then MIN_ACTIVE_FULLS_KEPT else 1);
            p' = p\<lparr>expired_full_keys := concat (map full_keys (unkept kept (lo_fulls l)))\<rparr> in
        (case binlog_seq (binlog_file (meta (last kept))) of
           None \<Rightarrow> p'
         | Some floor_seq \<Rightarrow> p'\<lparr>expired_binlogs := owned l (filter (below_seq floor_seq) (lo_binlogs l))\<rparr>))"

definition plan_append :: "retention_plan \<Rightarrow> retention_plan \<Rightarrow> retention_plan" where
  "plan_append p q =
     \<lparr>expired_full_keys = expired_full_keys p @ expired_full_keys q,
      expired_binlogs = expired_binlogs p @ expired_binlogs q,
      orphan_dump_keys = orphan_dump_keys p @ orphan_dump_keys q,
      retired_lineages = retired_lineages p @ retired_lineages q\<rparr>"

definition archive_shares_history :: "lineage_objects list \<Rightarrow> bool" where
  "archive_shares_history ls \<longleftrightarrow> list_ex (\<lambda>l. list_ex (\<lambda>f. gtid_purged (meta f) \<noteq> None) (lo_fulls l)) ls"

definition all_fulls :: "retention_input \<Rightarrow> full_backup_ref list" where
  "all_fulls inp = concat (map lo_fulls (lineages inp))"

definition redundant :: "full_backup_ref \<Rightarrow> lineage_objects \<Rightarrow> string \<Rightarrow> bool" where
  "redundant floor l name =
     (if lo_uuid l = lineage_uuid floor
      then (case (binlog_seq name, binlog_seq (binlog_file (meta floor))) of
          (Some s, Some fs) \<Rightarrow> s < fs | _ \<Rightarrow> False)
      else (case binlog_ages l name of Some uploaded \<Rightarrow> uploaded < taken floor | None \<Rightarrow> False))"

text \<open>One iteration over a shared history, past the checks on the whole archive.\<close>

definition shared_verdict :: "string \<Rightarrow> full_backup_ref list \<Rightarrow> lineage_objects \<Rightarrow> retention_plan" where
  "shared_verdict active kept l =
     (let gone = unkept kept (lo_fulls l);
          expired = filter (redundant (last kept) l) (lo_binlogs l);
          touched = (gone \<noteq> [] \<or> expired \<noteq> []) in
      \<lparr>expired_full_keys = concat (map full_keys gone),
       expired_binlogs = owned l expired,
       orphan_dump_keys = [],
       retired_lineages =
         (if lo_uuid l \<noteq> active \<and> touched \<and> length gone = length (lo_fulls l) \<and>
             length expired = length (lo_binlogs l) then [lo_uuid l] else [])\<rparr>)"

definition plan_shared_history_retention :: "retention_input \<Rightarrow> string \<Rightarrow> retention_plan" where
  "plan_shared_history_retention inp active =
     (let p = empty_plan\<lparr>orphan_dump_keys := concat (map (old_orphans inp) (lineages inp))\<rparr> in
      if list_ex (\<lambda>l. full_objects_seen l > length (lo_fulls l)) (lineages inp) then p
      else if all_fulls inp = [] then p
      else let kept = fulls_to_keep (all_fulls inp) (cutoff_of inp) MIN_ACTIVE_FULLS_KEPT in
        foldl (\<lambda>p l. plan_append p (shared_verdict active kept l)) p (lineages inp))"

definition plan_retention :: "retention_input \<Rightarrow> retention_plan" where
  "plan_retention inp =
     (case active_server_uuid inp of
        None \<Rightarrow> empty_plan
      | Some active \<Rightarrow>
          if horizon inp \<le> 0 then empty_plan
          else if shared_history_marker inp \<or> archive_shares_history (lineages inp)
          then plan_shared_history_retention inp active
          else if \<not> list_ex (\<lambda>l. lo_uuid l = active \<and> lo_fulls l \<noteq> []) (lineages inp) then empty_plan
          else foldl (\<lambda>p l. plan_append p (lineage_verdict inp active l)) empty_plan (lineages inp))"

section \<open>What a plan leaves\<close>

definition shared_archive :: "retention_input \<Rightarrow> bool" where
  "shared_archive inp \<longleftrightarrow> shared_history_marker inp \<or> archive_shares_history (lineages inp)"

definition remaining_fulls :: "retention_plan \<Rightarrow> full_backup_ref list \<Rightarrow> full_backup_ref list" where
  "remaining_fulls p fulls = filter (\<lambda>f. dump_key f \<notin> set (expired_full_keys p)) fulls"

definition remaining_binlogs :: "retention_plan \<Rightarrow> lineage_objects \<Rightarrow> string list" where
  "remaining_binlogs p l = filter (\<lambda>n. (lo_uuid l, n) \<notin> set (expired_binlogs p)) (lo_binlogs l)"

text \<open>
  The keys of an archive as the archiver writes them: lineages with distinct UUIDs, dumps with
  distinct names that end in \<open>.sql.gz\<close>.
\<close>

definition dump_name :: "string \<Rightarrow> bool" where
  "dump_name key \<longleftrightarrow> (\<exists>stem. key = stem @ ''.sql.gz'')"

definition well_keyed :: "retention_input \<Rightarrow> bool" where
  "well_keyed inp \<longleftrightarrow> distinct (map lo_uuid (lineages inp)) \<and> distinct (map dump_key (all_fulls inp)) \<and>
     (\<forall>l \<in> set (lineages inp). \<forall>f \<in> set (lo_fulls l). dump_name (dump_key f) \<and> lineage_uuid f = lo_uuid l)"

lemma foldl_plan:
  "set (expired_full_keys (foldl (\<lambda>p l. plan_append p (v l)) p ls)) =
     set (expired_full_keys p) \<union> (\<Union>l \<in> set ls. set (expired_full_keys (v l)))"
  "set (expired_binlogs (foldl (\<lambda>p l. plan_append p (v l)) p ls)) =
     set (expired_binlogs p) \<union> (\<Union>l \<in> set ls. set (expired_binlogs (v l)))"
  "set (retired_lineages (foldl (\<lambda>p l. plan_append p (v l)) p ls)) =
     set (retired_lineages p) \<union> (\<Union>l \<in> set ls. set (retired_lineages (v l)))"
  by (induction ls arbitrary: p) (auto simp: plan_append_def)

lemma empty_plan_simps [simp]:
  "expired_full_keys empty_plan = []" "expired_binlogs empty_plan = []" "retired_lineages empty_plan = []"
  "orphan_dump_keys empty_plan = []"
  by (simp_all add: empty_plan_def)

lemma meta_not_dump: "dump_name key \<Longrightarrow> key \<noteq> meta_key_for_dump other"
proof
  assume "dump_name key" "key = meta_key_for_dump other"
  then obtain a b where "a @ ''.sql.gz'' = b @ ''.meta.json''" by (auto simp: dump_name_def meta_key_for_dump_def)
  then have "last (a @ ''.sql.gz'') = last (b @ ''.meta.json'')" by simp
  then show False by simp
qed

lemma expired_full_iff:
  assumes "dump_name (dump_key f)"
  shows "dump_key f \<in> set (concat (map full_keys gs)) \<longleftrightarrow> dump_key f \<in> dump_key ` set gs"
  using meta_not_dump [OF assms] by (auto simp: full_keys_def)

lemma same_dump_same_full:
  assumes "well_keyed inp" and "l \<in> set (lineages inp)" and "f \<in> set (lo_fulls l)"
    and "k \<in> set (lineages inp)" and "g \<in> set (lo_fulls k)" and "dump_key f = dump_key g"
  shows "f = g \<and> l = k"
proof -
  have "f \<in> set (all_fulls inp)" "g \<in> set (all_fulls inp)" using assms(2-5) by (auto simp: all_fulls_def)
  then have "f = g" using assms(1,6) by (auto simp: well_keyed_def distinct_map dest: inj_onD)
  moreover have "lineage_uuid f = lo_uuid l" using assms(1-3) unfolding well_keyed_def by blast
  moreover have "lineage_uuid g = lo_uuid k" using assms(1,4,5) unfolding well_keyed_def by blast
  ultimately have "lo_uuid l = lo_uuid k" by simp
  then have "l = k" using assms(1,2,4) by (auto simp: well_keyed_def distinct_map dest: inj_onD)
  then show ?thesis using \<open>f = g\<close> by simp
qed


lemma verdict_keys:
  "set (expired_full_keys (lineage_verdict inp a k)) \<subseteq> set (concat (map full_keys (lo_fulls k)))"
  by (auto simp: lineage_verdict_def Let_def unkept_def split: option.splits)

lemma verdict_key_list:
  obtains gs where "expired_full_keys (lineage_verdict inp a k) = concat (map full_keys gs)" and "set gs \<subseteq> set (lo_fulls k)"
proof (cases "lo_fulls k \<noteq> [] \<and> lo_uuid k \<noteq> a \<and> newest_taken k < cutoff_of inp")
  case True
  then show thesis using that [of "lo_fulls k"] by (simp add: lineage_verdict_def Let_def)
next
  case False
  show thesis
  proof (cases "lo_fulls k = []")
    case True
    then show thesis using that [of "[]"] by (simp add: lineage_verdict_def Let_def)
  next
    case ne: False
    let ?kept = "fulls_to_keep (lo_fulls k) (cutoff_of inp) (if lo_uuid k = a then MIN_ACTIVE_FULLS_KEPT else 1)"
    have "expired_full_keys (lineage_verdict inp a k) = concat (map full_keys (unkept ?kept (lo_fulls k)))"
      using False ne by (auto simp: lineage_verdict_def Let_def split: option.splits)
    then show thesis using that [of "unkept ?kept (lo_fulls k)"] by (auto simp: unkept_def)
  qed
qed

lemma verdict_owned: "(u, n) \<in> set (expired_binlogs (lineage_verdict inp a k)) \<Longrightarrow> u = lo_uuid k"
  by (auto simp: lineage_verdict_def Let_def owned_def split: option.splits if_splits)

lemma shared_keys:
  "set (expired_full_keys (shared_verdict a kept k)) \<subseteq> set (concat (map full_keys (lo_fulls k)))"
  by (auto simp: shared_verdict_def Let_def unkept_def)

lemma shared_owned: "(u, n) \<in> set (expired_binlogs (shared_verdict a kept k)) \<Longrightarrow> u = lo_uuid k"
  by (auto simp: shared_verdict_def Let_def owned_def)

lemma key_of_lineage:
  assumes "well_keyed inp" and "l \<in> set (lineages inp)" and "f \<in> set (lo_fulls l)" and "k \<in> set (lineages inp)"
    and "dump_key f \<in> set (concat (map full_keys (lo_fulls k)))"
  shows "k = l"
proof -
  have "dump_name (dump_key f)" using assms(1-3) unfolding well_keyed_def by blast
  from expired_full_iff [OF this] obtain g where "g \<in> set (lo_fulls k)" "dump_key f = dump_key g"
    using assms(5) by blast
  then show ?thesis using same_dump_same_full [OF assms(1-3,4)] by blast
qed

lemma uuid_of_lineage:
  "well_keyed inp \<Longrightarrow> l \<in> set (lineages inp) \<Longrightarrow> k \<in> set (lineages inp) \<Longrightarrow> lo_uuid k = lo_uuid l \<Longrightarrow> k = l"
  by (auto simp: well_keyed_def distinct_map dest: inj_onD)

text \<open>Of one lineage, a plan for independent lineages takes what that lineage's verdict names.\<close>

definition independent_ready :: "retention_input \<Rightarrow> string \<Rightarrow> bool" where
  "independent_ready inp active \<longleftrightarrow> active_server_uuid inp = Some active \<and> 0 < horizon inp \<and> \<not> shared_archive inp \<and>
     list_ex (\<lambda>l. lo_uuid l = active \<and> lo_fulls l \<noteq> []) (lineages inp)"

lemma plan_independent:
  "independent_ready inp active \<Longrightarrow>
     plan_retention inp = foldl (\<lambda>p l. plan_append p (lineage_verdict inp active l)) empty_plan (lineages inp)"
  by (auto simp: plan_retention_def independent_ready_def shared_archive_def)

lemma plan_not_ready:
  "\<not> shared_archive inp \<Longrightarrow> \<forall>active. \<not> independent_ready inp active \<Longrightarrow> plan_retention inp = empty_plan"
  by (auto simp: plan_retention_def independent_ready_def shared_archive_def split: option.splits)

lemma plan_independent_sets:
  assumes "independent_ready inp active"
  shows "set (expired_full_keys (plan_retention inp)) =
      (\<Union>l \<in> set (lineages inp). set (expired_full_keys (lineage_verdict inp active l)))"
    and "set (expired_binlogs (plan_retention inp)) =
      (\<Union>l \<in> set (lineages inp). set (expired_binlogs (lineage_verdict inp active l)))"
    and "set (retired_lineages (plan_retention inp)) =
      (\<Union>l \<in> set (lineages inp). set (retired_lineages (lineage_verdict inp active l)))"
  unfolding plan_independent [OF assms] foldl_plan by simp_all

lemma independent_full:
  assumes "independent_ready inp active" and "well_keyed inp" and "l \<in> set (lineages inp)" and "f \<in> set (lo_fulls l)"
  shows "dump_key f \<in> set (expired_full_keys (plan_retention inp)) \<longleftrightarrow>
    dump_key f \<in> set (expired_full_keys (lineage_verdict inp active l))"
proof
  assume "dump_key f \<in> set (expired_full_keys (plan_retention inp))"
  then obtain k where k: "k \<in> set (lineages inp)" "dump_key f \<in> set (expired_full_keys (lineage_verdict inp active k))"
    unfolding plan_independent_sets [OF assms(1)] by (rule UN_E)
  then have "k = l" using key_of_lineage [OF assms(2-4) k(1)] verdict_keys [of inp active k] by blast
  then show "dump_key f \<in> set (expired_full_keys (lineage_verdict inp active l))" using k(2) by simp
qed (use assms(3) plan_independent_sets(1) [OF assms(1)] in blast)

lemma independent_binlog:
  assumes "independent_ready inp active" and "well_keyed inp" and "l \<in> set (lineages inp)"
  shows "(lo_uuid l, n) \<in> set (expired_binlogs (plan_retention inp)) \<longleftrightarrow>
    (lo_uuid l, n) \<in> set (expired_binlogs (lineage_verdict inp active l))"
proof
  assume "(lo_uuid l, n) \<in> set (expired_binlogs (plan_retention inp))"
  then obtain k where k: "k \<in> set (lineages inp)" "(lo_uuid l, n) \<in> set (expired_binlogs (lineage_verdict inp active k))"
    unfolding plan_independent_sets [OF assms(1)] by (rule UN_E)
  then have "k = l" using uuid_of_lineage [OF assms(2,3) k(1)] verdict_owned [OF k(2)] by simp
  then show "(lo_uuid l, n) \<in> set (expired_binlogs (lineage_verdict inp active l))" using k(2) by simp
qed (use assms(3) plan_independent_sets(2) [OF assms(1)] in blast)

lemma verdict_retired: "retired_lineages (lineage_verdict inp a l) = [] \<or> retired_lineages (lineage_verdict inp a l) = [lo_uuid l]"
  by (simp add: lineage_verdict_def Let_def split: option.splits)

lemma independent_retired:
  assumes "independent_ready inp active" and "l \<in> set (lineages inp)" and "lo_uuid l \<notin> set (retired_lineages (plan_retention inp))"
  shows "retired_lineages (lineage_verdict inp active l) = []"
proof -
  have "lo_uuid l \<notin> set (retired_lineages (lineage_verdict inp active l))"
    using assms(2,3) unfolding plan_independent_sets [OF assms(1)] by blast
  then show ?thesis using verdict_retired [of inp active l] by auto
qed

lemma active_not_retired:
  assumes "independent_ready inp active"
  shows "active \<notin> set (retired_lineages (plan_retention inp))"
proof -
  have "active \<notin> set (retired_lineages (lineage_verdict inp active k))" for k
    by (simp add: lineage_verdict_def Let_def split: option.splits)
  then show ?thesis unfolding plan_independent_sets(3) [OF assms] by blast
qed

section \<open>Replay after expiry\<close>

lemma dropWhile_filter: "P a \<Longrightarrow> dropWhile (\<lambda>x. x \<noteq> a) (filter P xs) = filter P (dropWhile (\<lambda>x. x \<noteq> a) xs)"
  by (induction xs) auto

lemma from_start_above:
  assumes "start \<in> set files" and "f \<in> set (dropWhile (\<lambda>x. x \<noteq> start) (sort_key seq_of files))"
  shows "seq_of start \<le> seq_of f"
proof -
  let ?s = "sort_key seq_of files"
  obtain r where d: "dropWhile (\<lambda>x. x \<noteq> start) ?s = start # r" using dropWhile_start [of start ?s] assms(1) by auto
  have "?s = takeWhile (\<lambda>x. x \<noteq> start) ?s @ start # r" using takeWhile_dropWhile_id [of "\<lambda>x. x \<noteq> start" ?s] d by simp
  moreover have "sorted (map seq_of ?s)" by simp
  ultimately have "sorted (map seq_of (takeWhile (\<lambda>x. x \<noteq> start) ?s @ start # r))" by simp
  then show ?thesis using assms(2) d by (auto simp: sorted_append)
qed

text \<open>Dropping files below a backup's coordinate file leaves what it replays as it was.\<close>

lemma replay_after_expiry:
  assumes "numbered files" and "binlog_seq start = Some (seq_of start)"
    and keep: "\<And>f. f \<in> set files \<Longrightarrow> seq_of start \<le> seq_of f \<Longrightarrow> P f"
  shows "binlogs_to_replay (filter P files) start = binlogs_to_replay files start"
proof -
  let ?s = "sort_key seq_of files"
  have n: "numbered (filter P files)" using assms(1) by (auto simp: numbered_def list_all_iff)
  have sort: "sort_key seq_of (filter P files) = filter P ?s" by (simp add: filter_sort)
  show ?thesis
  proof (cases "start \<in> set files")
    case True
    then have P: "P start" using keep by simp
    have "filter P (dropWhile (\<lambda>f. f \<noteq> start) ?s) = dropWhile (\<lambda>f. f \<noteq> start) ?s"
      using from_start_above [OF True] keep set_dropWhileD [of _ "\<lambda>f. f \<noteq> start" ?s]
      by (intro filter_True) (metis set_sort)
    then show ?thesis
      using binlogs_to_replay_present [OF assms(1) True] binlogs_to_replay_present [OF n] True P
      by (simp add: sort dropWhile_filter)
  next
    case False
    have pos: "position (\<lambda>f. f = start) ?s = None" "position (\<lambda>f. f = start) (filter P ?s) = None"
      using False by (auto simp: position_None)
    have "find (past_seq (seq_of start)) (filter P ?s) = find (past_seq (seq_of start)) ?s"
    proof -
      have "find (past_seq (seq_of start)) (filter P xs) = find (past_seq (seq_of start)) xs"
        if "set xs \<subseteq> set files" for xs using that
      proof (induction xs)
        case (Cons x xs)
        have "past_seq (seq_of start) x \<Longrightarrow> P x"
          using keep [of x] Cons.prems numbered_seq [OF assms(1), of x] by (auto simp: past_seq_def)
        then show ?case using Cons by auto
      qed simp
      then show ?thesis by simp
    qed
    then show ?thesis
      using pos n assms(1,2) by (simp add: binlogs_to_replay_def sort_numbered sort)
  qed
qed

section \<open>What retention leaves restorable\<close>

abbreviation coordinate :: "full_backup_ref \<Rightarrow> string" where
  "coordinate f \<equiv> binlog_file (meta f)"

text \<open>Coordinates are numbered and never go back as the backups get newer.\<close>

definition coordinates_in_order :: "full_backup_ref list \<Rightarrow> bool" where
  "coordinates_in_order fulls \<longleftrightarrow>
     (\<forall>f \<in> set fulls. binlog_seq (coordinate f) = Some (seq_of (coordinate f)) \<and>
        (\<forall>g \<in> set fulls. taken f \<le> taken g \<longrightarrow> seq_of (coordinate f) \<le> seq_of (coordinate g)))"

lemma verdict_keeps:
  assumes "retired_lineages (lineage_verdict inp active l) = []" and "lo_fulls l \<noteq> []"
    and kept: "kept = fulls_to_keep (lo_fulls l) (cutoff_of inp) (if lo_uuid l = active then MIN_ACTIVE_FULLS_KEPT else 1)"
  shows "expired_full_keys (lineage_verdict inp active l) = concat (map full_keys (unkept kept (lo_fulls l)))"
    and "(u, n) \<in> set (expired_binlogs (lineage_verdict inp active l)) \<Longrightarrow>
      \<exists>fs. binlog_seq (coordinate (last kept)) = Some fs \<and> below_seq fs n"
proof -
  have "\<not> (lo_uuid l \<noteq> active \<and> newest_taken l < cutoff_of inp)"
    using assms(1,2) by (auto simp: lineage_verdict_def Let_def)
  then have v: "lineage_verdict inp active l =
     (let p' = empty_plan\<lparr>orphan_dump_keys := old_orphans inp l,
          expired_full_keys := concat (map full_keys (unkept kept (lo_fulls l)))\<rparr> in
      case binlog_seq (coordinate (last kept)) of None \<Rightarrow> p'
      | Some fs \<Rightarrow> p'\<lparr>expired_binlogs := owned l (filter (below_seq fs) (lo_binlogs l))\<rparr>)"
    using assms(2) unfolding kept by (simp only: lineage_verdict_def Let_def if_False)
  show "expired_full_keys (lineage_verdict inp active l) = concat (map full_keys (unkept kept (lo_fulls l)))"
    unfolding v by (simp add: Let_def split: option.splits)
  show "(u, n) \<in> set (expired_binlogs (lineage_verdict inp active l)) \<Longrightarrow>
      \<exists>fs. binlog_seq (coordinate (last kept)) = Some fs \<and> below_seq fs n"
    unfolding v by (auto simp: Let_def owned_def split: option.splits)
qed

lemma kept_not_unkept:
  assumes "f \<in> set kept"
  shows "dump_key f \<notin> dump_key ` set (unkept kept fulls)"
proof
  assume "dump_key f \<in> dump_key ` set (unkept kept fulls)"
  then obtain g where "g \<in> set (unkept kept fulls)" "dump_key f = dump_key g" by blast
  then show False using imageI [OF assms, of dump_key] by (simp add: unkept_def)
qed

lemma full_key_of_unkept:
  "well_keyed inp \<Longrightarrow> l \<in> set (lineages inp) \<Longrightarrow> f \<in> set (lo_fulls l) \<Longrightarrow> f \<in> set kept \<Longrightarrow>
     dump_key f \<notin> set (concat (map full_keys (unkept kept fulls)))"
  using expired_full_iff [of f "unkept kept fulls"] kept_not_unkept [of f kept fulls]
  unfolding well_keyed_def by blast

lemma independent_survivors:
  assumes "independent_ready inp active" and "well_keyed inp" and "l \<in> set (lineages inp)" and "lo_fulls l \<noteq> []"
    and "lo_uuid l \<notin> set (retired_lineages (plan_retention inp))"
    and kept: "kept = fulls_to_keep (lo_fulls l) (cutoff_of inp) (if lo_uuid l = active then MIN_ACTIVE_FULLS_KEPT else 1)"
  shows "set kept \<subseteq> set (remaining_fulls (plan_retention inp) (lo_fulls l))"
    and "(lo_uuid l, n) \<in> set (expired_binlogs (plan_retention inp)) \<Longrightarrow>
      \<exists>fs. binlog_seq (coordinate (last kept)) = Some fs \<and> below_seq fs n"
proof -
  note v = verdict_keeps [OF independent_retired [OF assms(1,3,5)] assms(4) kept]
  show "set kept \<subseteq> set (remaining_fulls (plan_retention inp) (lo_fulls l))"
  proof
    fix f
    assume f: "f \<in> set kept"
    then have l: "f \<in> set (lo_fulls l)" using kept_subset kept by blast
    have "dump_key f \<notin> set (expired_full_keys (plan_retention inp))"
      unfolding independent_full [OF assms(1-3) l] v(1) using full_key_of_unkept [OF assms(2,3) l f] .
    then show "f \<in> set (remaining_fulls (plan_retention inp) (lo_fulls l))" using l by (simp add: remaining_fulls_def)
  qed
  show "(lo_uuid l, n) \<in> set (expired_binlogs (plan_retention inp)) \<Longrightarrow>
      \<exists>fs. binlog_seq (coordinate (last kept)) = Some fs \<and> below_seq fs n"
    unfolding independent_binlog [OF assms(1-3)] using v(2) .
qed

lemma empty_plan_leaves [simp]:
  "remaining_fulls empty_plan fulls = fulls" "remaining_binlogs empty_plan l = lo_binlogs l"
  by (simp_all add: remaining_fulls_def remaining_binlogs_def)

lemma remaining_subset: "set (remaining_fulls p fulls) \<subseteq> set fulls"
  by (auto simp: remaining_fulls_def)

lemma window_survives:
  assumes "well_keyed inp" and "\<not> shared_archive inp" and "l \<in> set (lineages inp)"
    and "lo_uuid l \<notin> set (retired_lineages (plan_retention inp))"
    and num: "numbered (lo_binlogs l)" and "coordinates_in_order (lo_fulls l)"
    and "newest_qualifying_full (lo_fulls l) target = Some f" and "cutoff_of inp \<le> target"
  shows "\<exists>f'. newest_qualifying_full (remaining_fulls (plan_retention inp) (lo_fulls l)) target = Some f' \<and>
    taken f' = taken f \<and> f' \<in> set (lo_fulls l) \<and>
    binlog_seq (coordinate f') = Some (seq_of (coordinate f')) \<and>
    (\<forall>n \<in> set (lo_binlogs l). seq_of (coordinate f') \<le> seq_of n \<longrightarrow> (lo_uuid l, n) \<notin> set (expired_binlogs (plan_retention inp)))"
proof (cases "\<exists>active. independent_ready inp active")
  case False
  moreover have "f \<in> set (lo_fulls l)" by (rule newest_qualifying_full_Some(1) [OF assms(7)])
  moreover have "binlog_seq (coordinate f) = Some (seq_of (coordinate f))"
    using calculation(2) assms(6) unfolding coordinates_in_order_def by blast
  ultimately show ?thesis using plan_not_ready [OF assms(2)] assms(7) by simp
next
  case True
  then obtain active where ready: "independent_ready inp active" by blast
  define kept where
    kept: "kept = fulls_to_keep (lo_fulls l) (cutoff_of inp) (if lo_uuid l = active then MIN_ACTIVE_FULLS_KEPT else 1)"
  have ne: "lo_fulls l \<noteq> []" using newest_qualifying_full_Some(1) [OF assms(7)] by auto
  note s = independent_survivors [OF ready assms(1,3) ne assms(4) kept]
  obtain f' where f': "newest_qualifying_full (remaining_fulls (plan_retention inp) (lo_fulls l)) target = Some f'"
    "taken f' = taken f"
    using kept_serves_window [OF assms(7,8) _ remaining_subset] s(1) unfolding kept by blast
  have f'_in: "f' \<in> set (lo_fulls l)"
    using newest_qualifying_full_Some(1) [OF f'(1)] remaining_subset by blast
  have floor: "last kept \<in> set (lo_fulls l)"
    using kept_subset kept_not_Nil [OF ne] last_in_set unfolding kept by blast
  have "taken (last kept) \<le> taken f"
  proof (cases "f \<in> set kept")
    case True
    then show ?thesis using kept_oldest unfolding kept by blast
  next
    case False
    have "last kept \<in> set (remaining_fulls (plan_retention inp) (lo_fulls l))"
      using s(1) last_in_set [of kept] kept_not_Nil [OF ne] unfolding kept by blast
    moreover have "qualifies target (last kept)"
      using dropped_behind_floor(2) [OF newest_qualifying_full_Some(1) [OF assms(7)]] False assms(8)
        floor_to_millis_le [of "taken (last kept)"] unfolding kept qualifies_def by fastforce
    ultimately show ?thesis
      using newest_qualifying_full_Some(3) [OF f'(1), of "last kept"] f'(2) by (auto simp: less_eq_prod_def)
  qed
  then have order: "seq_of (coordinate (last kept)) \<le> seq_of (coordinate f')"
    using assms(6) floor f'_in f'(2) unfolding coordinates_in_order_def by simp
  have c: "binlog_seq (coordinate f') = Some (seq_of (coordinate f'))"
    "binlog_seq (coordinate (last kept)) = Some (seq_of (coordinate (last kept)))"
    using assms(6) f'_in floor unfolding coordinates_in_order_def by blast+
  have "(lo_uuid l, n) \<notin> set (expired_binlogs (plan_retention inp))"
    if n: "n \<in> set (lo_binlogs l)" "seq_of (coordinate f') \<le> seq_of n" for n
  proof
    assume "(lo_uuid l, n) \<in> set (expired_binlogs (plan_retention inp))"
    from s(2) [OF this] have "seq_of n < seq_of (coordinate (last kept))"
      using numbered_seq [OF num n(1)] c(2) by (simp add: below_seq_def)
    then show False using order n(2) by simp
  qed
  then show ?thesis using f' f'_in c(1) by blast
qed

text \<open>
  Retention keeps the promised window. For every lineage of independent histories that a
  sweep does not retire whole, and every target at or after the cutoff that the lineage could
  be restored to before the sweep, a full of the same instant is still selected after it, and
  the plan of binary logs replayed onto that full is the one of before, its gaps included.
\<close>

theorem retention_keeps_window:
  assumes "well_keyed inp" and "\<not> shared_archive inp" and "l \<in> set (lineages inp)"
    and "lo_uuid l \<notin> set (retired_lineages (plan_retention inp))"
    and "numbered (lo_binlogs l)" and "coordinates_in_order (lo_fulls l)"
    and "newest_qualifying_full (lo_fulls l) target = Some f" and "cutoff_of inp \<le> target"
  shows "\<exists>f'. newest_qualifying_full (remaining_fulls (plan_retention inp) (lo_fulls l)) target = Some f' \<and>
    taken f' = taken f \<and>
    binlogs_to_replay (remaining_binlogs (plan_retention inp) l) (coordinate f') =
      binlogs_to_replay (lo_binlogs l) (coordinate f')"
proof -
  from window_survives [OF assms] obtain f' where
    f': "newest_qualifying_full (remaining_fulls (plan_retention inp) (lo_fulls l)) target = Some f'" "taken f' = taken f"
      "binlog_seq (coordinate f') = Some (seq_of (coordinate f'))"
      "\<forall>n \<in> set (lo_binlogs l). seq_of (coordinate f') \<le> seq_of n \<longrightarrow> (lo_uuid l, n) \<notin> set (expired_binlogs (plan_retention inp))"
    by metis
  have "binlogs_to_replay (remaining_binlogs (plan_retention inp) l) (coordinate f') =
      binlogs_to_replay (lo_binlogs l) (coordinate f')"
    unfolding remaining_binlogs_def using f'(4) by (intro replay_after_expiry [OF assms(5) f'(3)]) blast
  then show ?thesis using f' by blast
qed

text \<open>The planner of a shared history works on the fulls of all lineages together.\<close>

definition shared_ready :: "retention_input \<Rightarrow> string \<Rightarrow> bool" where
  "shared_ready inp active \<longleftrightarrow> active_server_uuid inp = Some active \<and> 0 < horizon inp \<and> shared_archive inp \<and>
     \<not> list_ex (\<lambda>l. full_objects_seen l > length (lo_fulls l)) (lineages inp) \<and> all_fulls inp \<noteq> []"

definition shared_kept :: "retention_input \<Rightarrow> full_backup_ref list" where
  "shared_kept inp = fulls_to_keep (all_fulls inp) (cutoff_of inp) MIN_ACTIVE_FULLS_KEPT"

lemma plan_shared_sets:
  assumes "shared_ready inp active"
  shows "set (expired_full_keys (plan_retention inp)) =
      (\<Union>l \<in> set (lineages inp). set (expired_full_keys (shared_verdict active (shared_kept inp) l)))"
    and "set (expired_binlogs (plan_retention inp)) =
      (\<Union>l \<in> set (lineages inp). set (expired_binlogs (shared_verdict active (shared_kept inp) l)))"
proof -
  have "plan_retention inp = foldl (\<lambda>p l. plan_append p (shared_verdict active (shared_kept inp) l))
      (empty_plan\<lparr>orphan_dump_keys := concat (map (old_orphans inp) (lineages inp))\<rparr>) (lineages inp)"
    using assms
    by (simp add: shared_ready_def shared_archive_def plan_retention_def plan_shared_history_retention_def shared_kept_def Let_def)
  then show "set (expired_full_keys (plan_retention inp)) =
      (\<Union>l \<in> set (lineages inp). set (expired_full_keys (shared_verdict active (shared_kept inp) l)))"
    "set (expired_binlogs (plan_retention inp)) =
      (\<Union>l \<in> set (lineages inp). set (expired_binlogs (shared_verdict active (shared_kept inp) l)))"
    by (simp_all add: foldl_plan)
qed

lemma plan_shared_not_ready:
  assumes "shared_archive inp" and "\<forall>active. \<not> shared_ready inp active"
  shows "expired_full_keys (plan_retention inp) = [] \<and> expired_binlogs (plan_retention inp) = []"
proof (cases "active_server_uuid inp")
  case (Some active)
  have "\<not> shared_ready inp active" using assms(2) by blast
  then have "\<not> 0 < horizon inp \<or> list_ex (\<lambda>l. full_objects_seen l > length (lo_fulls l)) (lineages inp) \<or> all_fulls inp = []"
    using assms(1) Some by (simp only: shared_ready_def) simp
  then show ?thesis
    using assms(1) Some
    by (elim disjE) (simp_all add: plan_retention_def plan_shared_history_retention_def shared_archive_def Let_def)
qed (simp add: plan_retention_def)

lemma in_all_fulls: "f \<in> set (all_fulls inp) \<longleftrightarrow> (\<exists>l \<in> set (lineages inp). f \<in> set (lo_fulls l))"
  by (auto simp: all_fulls_def)

lemma shared_survivors:
  assumes "shared_ready inp active" and "well_keyed inp"
  shows "set (shared_kept inp) \<subseteq> set (remaining_fulls (plan_retention inp) (all_fulls inp))"
proof
  fix f
  assume f: "f \<in> set (shared_kept inp)"
  then have all: "f \<in> set (all_fulls inp)" using kept_subset unfolding shared_kept_def by blast
  then obtain l where l: "l \<in> set (lineages inp)" "f \<in> set (lo_fulls l)" unfolding in_all_fulls by blast
  have "dump_key f \<notin> set (expired_full_keys (shared_verdict active (shared_kept inp) k))" for k
    using full_key_of_unkept [OF assms(2) l f] by (simp add: shared_verdict_def Let_def)
  then have "dump_key f \<notin> set (expired_full_keys (plan_retention inp))"
    unfolding plan_shared_sets(1) [OF assms(1)] by blast
  then show "f \<in> set (remaining_fulls (plan_retention inp) (all_fulls inp))" using all by (simp add: remaining_fulls_def)
qed

text \<open>\<open>before_floor floor l n\<close>: what the floor full's dump already holds.\<close>

definition before_floor :: "full_backup_ref \<Rightarrow> lineage_objects \<Rightarrow> string \<Rightarrow> bool" where
  "before_floor floor l n \<longleftrightarrow>
     (lo_uuid l = lineage_uuid floor \<and> (\<exists>s fs. binlog_seq n = Some s \<and> binlog_seq (coordinate floor) = Some fs \<and> s < fs)) \<or>
     (lo_uuid l \<noteq> lineage_uuid floor \<and> (\<exists>uploaded. binlog_ages l n = Some uploaded \<and> uploaded < taken floor))"

lemma redundant_before_floor: "redundant floor l n \<longleftrightarrow> before_floor floor l n"
  by (auto simp: redundant_def before_floor_def split: option.splits)

lemma floor_not_newer:
  assumes "newest_qualifying_full fulls target = Some f" and "cutoff \<le> target"
  shows "taken (last (fulls_to_keep fulls cutoff m)) \<le> taken f"
proof (cases "f \<in> set (fulls_to_keep fulls cutoff m)")
  case False
  let ?g = "last (fulls_to_keep fulls cutoff m)"
  note f = newest_qualifying_full_Some [OF assms(1)]
  have "fulls \<noteq> []" using f(1) by auto
  then have "?g \<in> set fulls" using kept_not_Nil kept_subset last_in_set by blast
  moreover have "qualifies target ?g"
    using dropped_behind_floor(2) [OF f(1) False] assms(2) floor_to_millis_le [of "taken ?g"] by (simp add: qualifies_def)
  ultimately show ?thesis using f(3) [of ?g] by (auto simp: less_eq_prod_def)
qed (rule kept_oldest)

text \<open>
  C17: Retention over a shared history keeps the promised window. For every target at or after the
  cutoff that some full of the archive could serve, a full of the same instant survives
  whichever lineage took it; and a binary log is only expired behind a surviving floor full
  no newer than the one selected: below its coordinate in its own lineage, uploaded before
  it was taken in every other.
\<close>

theorem shared_retention_keeps_window:
  assumes "well_keyed inp" and "shared_archive inp"
    and "newest_qualifying_full (all_fulls inp) target = Some f" and "cutoff_of inp \<le> target"
  shows "\<exists>f' floor. newest_qualifying_full (remaining_fulls (plan_retention inp) (all_fulls inp)) target = Some f' \<and>
    taken f' = taken f \<and>
    floor \<in> set (remaining_fulls (plan_retention inp) (all_fulls inp)) \<and> taken floor \<le> taken f' \<and>
    (\<forall>l \<in> set (lineages inp). \<forall>n. (lo_uuid l, n) \<in> set (expired_binlogs (plan_retention inp)) \<longrightarrow> before_floor floor l n)"
proof (cases "\<exists>active. shared_ready inp active")
  case False
  then have e: "expired_full_keys (plan_retention inp) = []" "expired_binlogs (plan_retention inp) = []"
    using plan_shared_not_ready [OF assms(2)] by blast+
  then have "remaining_fulls (plan_retention inp) (all_fulls inp) = all_fulls inp" by (simp add: remaining_fulls_def)
  then show ?thesis using assms(3) newest_qualifying_full_Some(1) [OF assms(3)] e(2) by auto
next
  case True
  then obtain active where ready: "shared_ready inp active" by blast
  let ?rest = "remaining_fulls (plan_retention inp) (all_fulls inp)"
  let ?floor = "last (shared_kept inp)"
  note sub = shared_survivors [OF ready assms(1)]
  obtain f' where f': "newest_qualifying_full ?rest target = Some f'" "taken f' = taken f"
    using kept_serves_window [OF assms(3,4) _ remaining_subset] sub unfolding shared_kept_def by blast
  have "all_fulls inp \<noteq> []" using ready by (simp add: shared_ready_def)
  then have floor: "?floor \<in> set ?rest" using sub kept_not_Nil last_in_set unfolding shared_kept_def by blast
  have order: "taken ?floor \<le> taken f'"
    using floor_not_newer [OF assms(3,4)] f'(2) unfolding shared_kept_def by simp
  have "before_floor ?floor l n" if l: "l \<in> set (lineages inp)" "(lo_uuid l, n) \<in> set (expired_binlogs (plan_retention inp))" for l n
  proof -
    obtain k where k: "k \<in> set (lineages inp)" "(lo_uuid l, n) \<in> set (expired_binlogs (shared_verdict active (shared_kept inp) k))"
      using l(2) unfolding plan_shared_sets(2) [OF ready] by (rule UN_E)
    have "k = l" using uuid_of_lineage [OF assms(1) l(1) k(1)] shared_owned [OF k(2)] by simp
    then show ?thesis using k(2) by (auto simp: shared_verdict_def Let_def owned_def redundant_before_floor)
  qed
  then show ?thesis using f' floor order by blast
qed

text \<open>
  The active lineage never loses its margin. After any sweep of independent histories the
  active lineage is not retired and has as many of its fulls left as it had, or at least two.
\<close>

theorem active_lineage_keeps_its_fulls:
  assumes "well_keyed inp" and "\<not> shared_archive inp" and "l \<in> set (lineages inp)"
    and "active_server_uuid inp = Some (lo_uuid l)" and "distinct (lo_fulls l)"
  shows "lo_uuid l \<notin> set (retired_lineages (plan_retention inp)) \<and>
    min 2 (length (lo_fulls l)) \<le> length (remaining_fulls (plan_retention inp) (lo_fulls l))"
proof (cases "\<exists>active. independent_ready inp active")
  case False
  then show ?thesis using plan_not_ready [OF assms(2)] by simp
next
  case True
  then have ready: "independent_ready inp (lo_uuid l)" using assms(4) by (auto simp: independent_ready_def)
  note alive = active_not_retired [OF ready]
  define kept where "kept = fulls_to_keep (lo_fulls l) (cutoff_of inp) MIN_ACTIVE_FULLS_KEPT"
  have "min 2 (length (lo_fulls l)) \<le> length (remaining_fulls (plan_retention inp) (lo_fulls l))"
  proof (cases "lo_fulls l = []")
    case False
    have d: "distinct kept"
      using assms(5) unfolding kept_def
      by (rule_tac kept_prefix [of "lo_fulls l" "cutoff_of inp" MIN_ACTIVE_FULLS_KEPT]) simp
    have sub: "set kept \<subseteq> set (remaining_fulls (plan_retention inp) (lo_fulls l))"
      using independent_survivors(1) [OF ready assms(1,3) False alive refl] by (simp add: kept_def)
    have "length kept = card (set kept)" using d by (simp add: distinct_card)
    also have "\<dots> \<le> card (set (remaining_fulls (plan_retention inp) (lo_fulls l)))" by (rule card_mono [OF _ sub]) simp
    also have "\<dots> \<le> length (remaining_fulls (plan_retention inp) (lo_fulls l))" by (rule card_length)
    finally show ?thesis
      using kept_length [of MIN_ACTIVE_FULLS_KEPT "lo_fulls l" "cutoff_of inp"] by (simp add: kept_def MIN_ACTIVE_FULLS_KEPT_def)
  qed simp
  then show ?thesis using alive by blast
qed

text \<open>
  A sweep that cannot see every full of a shared history expires none of it: with one meta
  object that could not be read in any lineage, no full and no binary log is listed.
\<close>

theorem unreadable_full_blocks_shared_sweep:
  assumes "shared_archive inp" and "l \<in> set (lineages inp)" and "length (lo_fulls l) < full_objects_seen l"
  shows "expired_full_keys (plan_retention inp) = [] \<and> expired_binlogs (plan_retention inp) = []"
proof (rule plan_shared_not_ready [OF assms(1)], rule allI)
  fix active
  have "list_ex (\<lambda>l. full_objects_seen l > length (lo_fulls l)) (lineages inp)" using assms(2,3) by (auto simp: list_ex_iff)
  then show "\<not> shared_ready inp active" by (simp add: shared_ready_def)
qed

section \<open>Sample archives\<close>

definition sample_full :: "string \<Rightarrow> string \<Rightarrow> int \<Rightarrow> string \<Rightarrow> string option \<Rightarrow> full_backup_ref" where
  "sample_full u key t coord g =
     \<lparr>lineage_uuid = u, dump_key = key @ ''.sql.gz'',
      meta = \<lparr>taken_at = t, binlog_file = coord, binlog_pos = 4, meta_server_uuid = u, mysql_version = ''9.4'',
        gtid_purged = g, dump_bytes = None, datadir_bytes = None\<rparr>\<rparr>"

definition sample_lineage :: "string \<Rightarrow> full_backup_ref list \<Rightarrow> nat \<Rightarrow> string list \<Rightarrow> lineage_objects" where
  "sample_lineage u fulls seen logs =
     \<lparr>lo_uuid = u, lo_fulls = fulls, full_objects_seen = seen, orphan_dumps = [], lo_binlogs = logs,
      binlog_ages = (\<lambda>n. None)\<rparr>"

definition sample_archive :: "lineage_objects list \<Rightarrow> retention_input" where
  "sample_archive ls =
     \<lparr>lineages = ls, active_server_uuid = Some ''u'', r_now = 10 * ns_per_s, horizon = 2 * ns_per_s,
      shared_history_marker = False\<rparr>"

lemmas sample_simps =
  sample_full_def sample_lineage_def sample_archive_def cutoff_of_def ns_per_s_def well_keyed_def all_fulls_def
  shared_archive_def archive_shares_history_def dump_name_def

lemma sample_seqs:
  "binlog_seq ''b.1'' = Some 1" "binlog_seq ''b.2'' = Some 2" "binlog_seq ''b.3'' = Some 3" "binlog_seq ''b.4'' = Some 4"
  by (simp_all add: binlog_seq_def parse_uint_def digits_val_def digit_val_def is_digit_def char_code_def u64_max_def)

definition three_fulls :: lineage_objects where
  "three_fulls = sample_lineage ''u''
     [sample_full ''u'' ''x'' ns_per_s ''b.1'' None, sample_full ''u'' ''y'' (5 * ns_per_s) ''b.2'' None,
      sample_full ''u'' ''z'' (9 * ns_per_s) ''b.4'' None] 3 [''b.1'', ''b.2'', ''b.3'', ''b.4'']"

lemma three_fulls_facts:
  "well_keyed (sample_archive [three_fulls])" "\<not> shared_archive (sample_archive [three_fulls])"
  "independent_ready (sample_archive [three_fulls]) ''u''"
  "numbered (lo_binlogs three_fulls)" "coordinates_in_order (lo_fulls three_fulls)" "lo_uuid three_fulls = ''u''"
  "distinct (lo_fulls three_fulls)"
  by (simp_all add: three_fulls_def sample_simps independent_ready_def numbered_def coordinates_in_order_def seq_of_def sample_seqs)

lemma retention_keeps_window_witness:
  "\<exists>f'. newest_qualifying_full (remaining_fulls (plan_retention (sample_archive [three_fulls])) (lo_fulls three_fulls))
       (9 * ns_per_s - 1) = Some f' \<and> taken f' = 5 * ns_per_s"
proof -
  have q: "newest_qualifying_full (lo_fulls three_fulls) (9 * ns_per_s - 1) =
      Some (sample_full ''u'' ''y'' (5 * ns_per_s) ''b.2'' None)"
    by (simp add: three_fulls_def sample_simps newest_qualifying_full_def qualifies_def floor_to_millis_def ns_per_ms_def
        cmp_full_def then_cmp_def cmp_lin_def)
  have "lo_uuid three_fulls \<notin> set (retired_lineages (plan_retention (sample_archive [three_fulls])))"
    using active_not_retired [OF three_fulls_facts(3)] by (simp add: three_fulls_facts)
  from retention_keeps_window [OF three_fulls_facts(1,2) _ this three_fulls_facts(4,5) q] show ?thesis
    by (auto simp: sample_archive_def cutoff_of_def ns_per_s_def sample_full_def)
qed

lemma active_lineage_keeps_its_fulls_witness:
  "2 \<le> length (remaining_fulls (plan_retention (sample_archive [three_fulls])) (lo_fulls three_fulls))"
proof -
  have "length (lo_fulls three_fulls) = 3" by (simp add: three_fulls_def sample_lineage_def)
  then show ?thesis
    using active_lineage_keeps_its_fulls [OF three_fulls_facts(1,2), of three_fulls] three_fulls_facts(6,7)
    by (simp add: sample_archive_def)
qed

definition shared_sample :: lineage_objects where
  "shared_sample = sample_lineage ''u''
     [sample_full ''u'' ''x'' ns_per_s ''b.1'' (Some []), sample_full ''u'' ''y'' (5 * ns_per_s) ''b.2'' (Some [])] 3 [''b.1'']"

lemma shared_retention_keeps_window_witness:
  "\<exists>f'. newest_qualifying_full (remaining_fulls (plan_retention (sample_archive [shared_sample])) (all_fulls (sample_archive [shared_sample])))
       (9 * ns_per_s) = Some f' \<and> taken f' = 5 * ns_per_s"
proof -
  have q: "newest_qualifying_full (all_fulls (sample_archive [shared_sample])) (9 * ns_per_s) =
      Some (sample_full ''u'' ''y'' (5 * ns_per_s) ''b.2'' (Some []))"
    by (simp add: shared_sample_def sample_simps newest_qualifying_full_def qualifies_def floor_to_millis_def ns_per_ms_def
        cmp_full_def then_cmp_def cmp_lin_def)
  have "well_keyed (sample_archive [shared_sample])" "shared_archive (sample_archive [shared_sample])"
    by (simp_all add: shared_sample_def sample_simps)
  from shared_retention_keeps_window [OF this q] show ?thesis
    by (auto simp: sample_archive_def cutoff_of_def ns_per_s_def sample_full_def)
qed

lemma unreadable_full_blocks_shared_sweep_witness:
  "expired_binlogs (plan_retention (sample_archive [shared_sample])) = []"
proof -
  have "shared_archive (sample_archive [shared_sample])" "length (lo_fulls shared_sample) < full_objects_seen shared_sample"
    by (simp_all add: shared_sample_def sample_simps)
  from unreadable_full_blocks_shared_sweep [OF this(1) _ this(2)] show ?thesis by (simp add: sample_archive_def)
qed

definition half_read :: lineage_objects where
  "half_read = sample_lineage ''u'' [sample_full ''u'' ''z'' (9 * ns_per_s) ''b.4'' None] 2 [''b.2'', ''b.3'', ''b.4'']"

text \<open>
  Independent histories have no such guard: with two meta objects in the bucket of which one
  could be read, the sweep expires binary logs below the coordinate of the readable one, which
  the unread full still needs.
\<close>

theorem unread_full_loses_its_binlogs:
  "length (lo_fulls half_read) < full_objects_seen half_read \<and>
   expired_binlogs (plan_retention (sample_archive [half_read])) = [(''u'', ''b.2''), (''u'', ''b.3'')]"
proof -
  have ready: "independent_ready (sample_archive [half_read]) ''u''"
    by (simp add: independent_ready_def half_read_def sample_simps)
  have kept: "fulls_to_keep [f] c m = [f]" for f c m
    by (simp add: fulls_to_keep_def Let_def)
  have "expired_binlogs (lineage_verdict inp ''u'' half_read) = [(''u'', ''b.2''), (''u'', ''b.3'')]" for inp
    by (simp add: lineage_verdict_def half_read_def sample_lineage_def sample_full_def kept Let_def unkept_def owned_def
        below_seq_def sample_seqs)
  then show ?thesis
    by (simp add: plan_independent [OF ready] plan_append_def) (simp add: sample_archive_def half_read_def sample_lineage_def)
qed

definition dead_full :: full_backup_ref where "dead_full = sample_full ''d'' ''x'' (7 * ns_per_s) ''b.1'' None"
definition live_full :: full_backup_ref where "live_full = sample_full ''u'' ''z'' (9 * ns_per_s) ''b.1'' None"

definition dead_lineage :: lineage_objects where "dead_lineage = sample_lineage ''d'' [dead_full] 1 [''b.1'', ''b.2'']"
definition live_lineage :: lineage_objects where "live_lineage = sample_lineage ''u'' [live_full] 1 [''b.1'']"
definition dead_archive :: retention_input where "dead_archive = sample_archive [dead_lineage, live_lineage]"

lemma dead_archive_plan: "expired_full_keys (plan_retention dead_archive) = full_keys dead_full"
proof -
  have ls: "lineages dead_archive = [dead_lineage, live_lineage]" by (simp add: dead_archive_def sample_archive_def)
  have ready: "independent_ready dead_archive ''u''"
    by (simp add: independent_ready_def dead_archive_def dead_lineage_def live_lineage_def dead_full_def live_full_def sample_simps)
  have d: "expired_full_keys (lineage_verdict dead_archive ''u'' dead_lineage) = full_keys dead_full"
    by (simp add: lineage_verdict_def dead_archive_def dead_lineage_def sample_lineage_def sample_archive_def newest_taken_def
        cutoff_of_def dead_full_def sample_full_def ns_per_s_def Let_def)
  have "fulls_to_keep [live_full] c m = [live_full]" for c m
    by (simp add: fulls_to_keep_def Let_def)
  then have "expired_full_keys (lineage_verdict dead_archive ''u'' live_lineage) = []"
    by (simp add: lineage_verdict_def live_lineage_def sample_lineage_def Let_def unkept_def split: option.splits)
  then show ?thesis
    by (simp add: plan_independent [OF ready] ls plan_append_def d)
qed

text \<open>
  A dead lineage is retired by the age of its newest full alone: one second before the cutoff
  is enough, and a target inside the window that the lineage could be restored to has no base
  left.
\<close>
theorem dead_lineage_loses_the_window:
  "let target = 8 * ns_per_s + 1 in
     cutoff_of dead_archive < target \<and>
     newest_qualifying_full (all_fulls dead_archive) target = Some dead_full \<and>
     newest_qualifying_full (remaining_fulls (plan_retention dead_archive) (all_fulls dead_archive)) target = None"
proof -
  have all: "all_fulls dead_archive = [dead_full, live_full]"
    by (simp add: all_fulls_def dead_archive_def dead_lineage_def live_lineage_def sample_archive_def sample_lineage_def)
  have q: "qualifies (8 * ns_per_s + 1) dead_full" "\<not> qualifies (8 * ns_per_s + 1) live_full"
    by (simp_all add: qualifies_def dead_full_def live_full_def sample_full_def floor_to_millis_def ns_per_s_def ns_per_ms_def)
  have "dump_key live_full \<noteq> dump_key dead_full" "dump_key live_full \<noteq> meta_key_for_dump (dump_key dead_full)"
    by (simp_all add: live_full_def dead_full_def sample_full_def meta_key_for_dump_def strip_suffix_def)
  then have "remaining_fulls (plan_retention dead_archive) [dead_full, live_full] = [live_full]"
    by (simp add: remaining_fulls_def dead_archive_plan full_keys_def)
  moreover have "cutoff_of dead_archive < 8 * ns_per_s + 1"
    by (simp add: cutoff_of_def dead_archive_def sample_archive_def ns_per_s_def)
  ultimately show ?thesis using q by (simp add: Let_def all newest_qualifying_full_def)
qed

end
