(* ===== verification/Sweep.thy ===== *)
theory Sweep
  imports Retention
begin

text \<open>
  One retention sweep of the archiver (\<open>archiver.rs\<close>): grouping the objects of the bucket
  into lineages, planning over them, and the deletions under the absolute age rail. The answers
  of the object store are a record of functions; the JSON decoder of a backup's meta object is
  a parameter. Log lines are not modelled.
\<close>

section \<open>Reading the archive\<close>

datatype 'a s3_answer = S3_err | S3_ok 'a

record s3_view =
  listing :: "(string \<times> int option) list s3_answer"
  bytes_of :: "string \<Rightarrow> byte list s3_answer"
  modified_at :: "string \<Rightarrow> int option s3_answer"
  marker_there :: "bool s3_answer"
  delete_works :: "string \<Rightarrow> bool"

definition ends_with :: "string \<Rightarrow> string \<Rightarrow> bool" where
  "ends_with suf s \<longleftrightarrow> strip_suffix suf s \<noteq> None"

definition is_meta_key :: "string \<Rightarrow> bool" where
  "is_meta_key key \<longleftrightarrow> contains_str ''/full/'' key \<and> ends_with ''.meta.json'' key"

definition is_dump_key :: "string \<Rightarrow> bool" where
  "is_dump_key key \<longleftrightarrow> contains_str ''/full/'' key \<and> \<not> ends_with ''.meta.json'' key \<and> ends_with ''.sql.gz'' key"

definition is_binlog_key :: "string \<Rightarrow> bool" where
  "is_binlog_key key \<longleftrightarrow> \<not> contains_str ''/full/'' key \<and> contains_str ''/binlog/'' key"

definition file_name :: "string \<Rightarrow> string" where
  "file_name key = last (split_on slash key)"

record raw_lineage =
  metas :: "string list"
  dumps :: "string set"
  binlogs :: "string list"
  raw_ages :: "string \<Rightarrow> int option"

definition empty_raw :: raw_lineage where
  "empty_raw = \<lparr>metas = [], dumps = {}, binlogs = [], raw_ages = Map.empty\<rparr>"

definition add_object :: "string \<times> int option \<Rightarrow> raw_lineage \<Rightarrow> raw_lineage" where
  "add_object obj e =
     (case obj of (key, modified) \<Rightarrow>
        if contains_str ''/full/'' key then
          (if ends_with ''.meta.json'' key then e\<lparr>metas := metas e @ [key]\<rparr>
           else if ends_with ''.sql.gz'' key then e\<lparr>dumps := insert key (dumps e)\<rparr>
           else e)
        else if contains_str ''/binlog/'' key then
          (let name = file_name key; e' = e\<lparr>binlogs := binlogs e @ [name]\<rparr> in
           case modified of Some t \<Rightarrow> e'\<lparr>raw_ages := (raw_ages e)(name \<mapsto> t)\<rparr> | None \<Rightarrow> e')
        else e)"

text \<open>The map from UUIDs to what the listing held for them; its domain is walked in order.\<close>

definition group_object :: "s3_location \<Rightarrow> (string \<Rightarrow> raw_lineage option) \<Rightarrow> string \<times> int option \<Rightarrow> (string \<Rightarrow> raw_lineage option)" where
  "group_object loc m obj =
     (case server_uuid_from_key loc (fst obj) of
        None \<Rightarrow> m
      | Some u \<Rightarrow> m(u \<mapsto> add_object obj (case m u of Some e \<Rightarrow> e | None \<Rightarrow> empty_raw)))"

definition group_objects :: "s3_location \<Rightarrow> (string \<times> int option) list \<Rightarrow> (string \<Rightarrow> raw_lineage option)" where
  "group_objects loc objs = foldl (group_object loc) Map.empty objs"

definition dump_of_meta :: "string \<Rightarrow> string option" where
  "dump_of_meta key = map_option (\<lambda>stem. stem @ ''.sql.gz'') (strip_suffix ''.meta.json'' key)"

definition read_full :: "(byte list \<Rightarrow> full_backup_meta option) \<Rightarrow> s3_view \<Rightarrow> string \<Rightarrow> string set \<Rightarrow> string \<Rightarrow> full_backup_ref option" where
  "read_full parse v u ds meta_key =
     (case dump_of_meta meta_key of
        None \<Rightarrow> None
      | Some dump \<Rightarrow>
          if dump \<notin> ds then None
          else (case bytes_of v meta_key of
              S3_err \<Rightarrow> None
            | S3_ok b \<Rightarrow> map_option (\<lambda>mt. \<lparr>lineage_uuid = u, dump_key = dump, meta = mt\<rparr>) (parse b)))"

definition orphan_of :: "s3_view \<Rightarrow> int \<Rightarrow> string set \<Rightarrow> string \<Rightarrow> (string \<times> int) option" where
  "orphan_of v now paired dump =
     (if dump \<in> paired then None
      else (case modified_at v dump of
          S3_ok (Some t) \<Rightarrow> Some (dump, t) | S3_ok None \<Rightarrow> None | S3_err \<Rightarrow> Some (dump, now)))"

definition read_lineage :: "(byte list \<Rightarrow> full_backup_meta option) \<Rightarrow> s3_view \<Rightarrow> int \<Rightarrow> string \<Rightarrow> raw_lineage \<Rightarrow> lineage_objects" where
  "read_lineage parse v now u raw =
     \<lparr>lo_uuid = u,
      lo_fulls = List.map_filter (read_full parse v u (dumps raw)) (metas raw),
      full_objects_seen = length (metas raw),
      orphan_dumps = List.map_filter (orphan_of v now (set (List.map_filter dump_of_meta (metas raw)))) (sorted_list_of_set (dumps raw)),
      lo_binlogs = binlogs raw,
      binlog_ages = raw_ages raw\<rparr>"

definition uuids_listed :: "s3_location \<Rightarrow> (string \<times> int option) list \<Rightarrow> string list" where
  "uuids_listed loc objs = sort (remdups (List.map_filter (\<lambda>obj. server_uuid_from_key loc (fst obj)) objs))"

definition read_archive_lineages ::
  "(byte list \<Rightarrow> full_backup_meta option) \<Rightarrow> s3_location \<Rightarrow> s3_view \<Rightarrow> int \<Rightarrow> lineage_objects list option" where
  "read_archive_lineages parse loc v now =
     (case listing v of
        S3_err \<Rightarrow> None
      | S3_ok objs \<Rightarrow> Some (map (\<lambda>u. read_lineage parse v now u (the (group_objects loc objs u))) (uuids_listed loc objs)))"

section \<open>The sweep\<close>

record sweep_config =
  retention_dry_run :: bool
  min_object_age :: int

datatype sweep_result =
    Sweep_failed
  | Swept "string list"

definition plan_is_empty :: "retention_plan \<Rightarrow> bool" where
  "plan_is_empty p \<longleftrightarrow> expired_full_keys p = [] \<and> expired_binlogs p = [] \<and> orphan_dump_keys p = []"

definition plan_keys :: "s3_location \<Rightarrow> retention_plan \<Rightarrow> string list" where
  "plan_keys loc p = expired_full_keys p @ orphan_dump_keys p @ map (\<lambda>(u, n). binlog_key loc u n) (expired_binlogs p)"

definition old_enough :: "s3_view \<Rightarrow> int \<Rightarrow> int \<Rightarrow> string \<Rightarrow> bool" where
  "old_enough v now min_age key =
     (case modified_at v key of
        S3_ok (Some t) \<Rightarrow> \<not> now - t < min_age | S3_ok None \<Rightarrow> False | S3_err \<Rightarrow> False)"

definition sweep_input :: "lineage_objects list \<Rightarrow> string \<Rightarrow> int \<Rightarrow> int \<Rightarrow> bool \<Rightarrow> retention_input" where
  "sweep_input ls own_uuid now span marker =
     \<lparr>lineages = ls, active_server_uuid = Some own_uuid, r_now = now, horizon = span, shared_history_marker = marker\<rparr>"

definition retention_pass ::
  "(byte list \<Rightarrow> full_backup_meta option) \<Rightarrow> sweep_config \<Rightarrow> s3_location \<Rightarrow> s3_view \<Rightarrow> string \<Rightarrow> int \<Rightarrow> int \<Rightarrow> sweep_result" where
  "retention_pass parse c loc v own_uuid now span =
     (case read_archive_lineages parse loc v now of
        None \<Rightarrow> Sweep_failed
      | Some ls \<Rightarrow>
          (case marker_there v of
             S3_err \<Rightarrow> Sweep_failed
           | S3_ok marker \<Rightarrow>
               (let p = plan_retention (sweep_input ls own_uuid now span marker) in
                if plan_is_empty p then Swept []
                else if retention_dry_run c then Swept []
                else Swept (filter (\<lambda>key. old_enough v now (min_object_age c) key \<and> delete_works v key) (plan_keys loc p)))))"

section \<open>What the reading yields\<close>

lemma strip_suffix_Some: "strip_suffix p s = Some r \<Longrightarrow> s = r @ p"
  by (auto simp: strip_suffix_def split: if_splits) (metis append_take_drop_id)

lemma group_snoc: "group_objects loc (objs @ [obj]) = group_object loc (group_objects loc objs) obj"
  by (simp add: group_objects_def)

definition of_lineage :: "s3_location \<Rightarrow> string \<Rightarrow> string list \<Rightarrow> string list" where
  "of_lineage loc u keys = filter (\<lambda>k. server_uuid_from_key loc k = Some u) keys"

lemma add_object_simps:
  "metas (add_object (k, m) e) = (if is_meta_key k then metas e @ [k] else metas e)"
  "dumps (add_object (k, m) e) = (if is_dump_key k then insert k (dumps e) else dumps e)"
  "binlogs (add_object (k, m) e) = (if is_binlog_key k then binlogs e @ [file_name k] else binlogs e)"
  by (auto simp: add_object_def is_meta_key_def is_dump_key_def is_binlog_key_def Let_def split: option.splits)

lemma group_objects_spec:
  "case group_objects loc objs u of
     None \<Rightarrow> of_lineage loc u (map fst objs) = []
   | Some e \<Rightarrow> of_lineage loc u (map fst objs) \<noteq> [] \<and>
       metas e = filter is_meta_key (of_lineage loc u (map fst objs)) \<and>
       dumps e = set (filter is_dump_key (of_lineage loc u (map fst objs))) \<and>
       binlogs e = map file_name (filter is_binlog_key (of_lineage loc u (map fst objs)))"
proof (induction objs rule: rev_induct)
  case Nil
  show ?case by (simp add: group_objects_def of_lineage_def)
next
  case (snoc obj objs)
  obtain k m where obj: "obj = (k, m)" by (cases obj)
  show ?case
  proof (cases "server_uuid_from_key loc k = Some u")
    case False
    then have "group_objects loc (objs @ [obj]) u = group_objects loc objs u"
      by (auto simp: group_snoc group_object_def obj split: option.splits)
    moreover have "of_lineage loc u (map fst (objs @ [obj])) = of_lineage loc u (map fst objs)"
      using False by (simp add: of_lineage_def obj)
    ultimately show ?thesis using snoc by (simp only:)
  next
    case True
    then show ?thesis using snoc
      by (cases "group_objects loc objs u")
         (auto simp: group_snoc group_object_def obj of_lineage_def add_object_simps empty_raw_def)
  qed
qed


lemma listed_group:
  assumes "u \<in> set (uuids_listed loc objs)"
  obtains e where "group_objects loc objs u = Some e"
    and "metas e = filter is_meta_key (of_lineage loc u (map fst objs))"
    and "dumps e = set (filter is_dump_key (of_lineage loc u (map fst objs)))"
    and "binlogs e = map file_name (filter is_binlog_key (of_lineage loc u (map fst objs)))"
proof -
  obtain obj where "obj \<in> set objs" "server_uuid_from_key loc (fst obj) = Some u"
    using assms by (auto simp: uuids_listed_def map_filter_def)
  then have "fst obj \<in> set (of_lineage loc u (map fst objs))" by (simp add: of_lineage_def)
  then have "of_lineage loc u (map fst objs) \<noteq> []" by auto
  then show thesis using group_objects_spec [where loc = loc and objs = objs and u = u] that by (cases "group_objects loc objs u") auto
qed

lemma read_full_Some:
  "read_full parse v u ds m = Some f \<Longrightarrow>
     lineage_uuid f = u \<and> dump_of_meta m = Some (dump_key f) \<and> dump_key f \<in> ds"
  by (auto simp: read_full_def split: option.splits if_splits s3_answer.splits)

lemma dump_of_meta_Some: "dump_of_meta m = Some d \<Longrightarrow> \<exists>stem. m = stem @ ''.meta.json'' \<and> d = stem @ ''.sql.gz''"
  by (auto simp: dump_of_meta_def dest: strip_suffix_Some)

lemma meta_key_of_dump: "dump_of_meta m = Some d \<Longrightarrow> meta_key_for_dump d = m"
  using dump_of_meta_Some [of m d] by (auto simp: meta_key_for_dump_def)

text \<open>One object each for the dump and the meta of every full that is read.\<close>

lemma full_read:
  assumes "u \<in> set (uuids_listed loc objs)" and "f \<in> set (lo_fulls (read_lineage parse v now u (the (group_objects loc objs u))))"
  shows "lineage_uuid f = u" and "dump_name (dump_key f)"
    and "dump_key f \<in> set (map fst objs)" and "meta_key_for_dump (dump_key f) \<in> set (map fst objs)"
    and "server_uuid_from_key loc (dump_key f) = Some u" and "is_dump_key (dump_key f)"
    and "is_meta_key (meta_key_for_dump (dump_key f))" and "server_uuid_from_key loc (meta_key_for_dump (dump_key f)) = Some u"
proof -
  obtain e where e: "group_objects loc objs u = Some e" "metas e = filter is_meta_key (of_lineage loc u (map fst objs))"
    "dumps e = set (filter is_dump_key (of_lineage loc u (map fst objs)))"
    using listed_group [OF assms(1)] by metis
  obtain m where m: "m \<in> set (metas e)" "read_full parse v u (dumps e) m = Some f"
    using assms(2) by (auto simp: read_lineage_def e(1) map_filter_def)
  note r = read_full_Some [OF m(2)]
  show "lineage_uuid f = u" using r by simp
  show "dump_name (dump_key f)" using r dump_of_meta_Some [of m "dump_key f"] by (auto simp: dump_name_def)
  have d: "dump_key f \<in> set (filter is_dump_key (of_lineage loc u (map fst objs)))" using r e(3) by simp
  show "dump_key f \<in> set (map fst objs)" "server_uuid_from_key loc (dump_key f) = Some u" "is_dump_key (dump_key f)"
    using d by (simp_all add: of_lineage_def)
  have "meta_key_for_dump (dump_key f) = m" using r meta_key_of_dump by blast
  then show "meta_key_for_dump (dump_key f) \<in> set (map fst objs)" "is_meta_key (meta_key_for_dump (dump_key f))"
    "server_uuid_from_key loc (meta_key_for_dump (dump_key f)) = Some u"
    using m(1) unfolding e(2) by (simp_all add: of_lineage_def)
qed

lemma in_map_filter: "y \<in> set (List.map_filter f xs) \<longleftrightarrow> (\<exists>x \<in> set xs. f x = Some y)"
  by (induction xs) (auto simp: map_filter_def)

lemma length_map_filter: "length (List.map_filter f xs) \<le> length xs"
  by (simp add: map_filter_def)

lemma distinct_map_filter:
  "distinct xs \<Longrightarrow> (\<And>x y a b. f x = Some a \<Longrightarrow> f y = Some b \<Longrightarrow> g a = g b \<Longrightarrow> x = y) \<Longrightarrow> distinct (map g (List.map_filter f xs))"
proof (induction xs)
  case Nil
  show ?case by (simp add: map_filter_def)
next
  case (Cons x xs)
  show ?case
  proof (cases "f x")
    case None
    then show ?thesis using Cons by (simp add: map_filter_def)
  next
    case (Some a)
    have "g a \<notin> set (map g (List.map_filter f xs))"
    proof
      assume "g a \<in> set (map g (List.map_filter f xs))"
      then obtain y b where y: "y \<in> set xs" "f y = Some b" "g a = g b" by (auto simp: map_filter_def)
      then have "x = y" using Cons.prems(2) [OF Some] by blast
      then show False using y(1) Cons.prems(1) by simp
    qed
    then show ?thesis using Cons Some by (simp add: map_filter_def)
  qed
qed

lemma distinct_lineage_dumps:
  assumes "distinct (map fst objs)" and "u \<in> set (uuids_listed loc objs)"
  shows "distinct (map dump_key (lo_fulls (read_lineage parse v now u (the (group_objects loc objs u)))))"
proof -
  obtain e where e: "group_objects loc objs u = Some e" "metas e = filter is_meta_key (of_lineage loc u (map fst objs))"
    using listed_group [OF assms(2)] by metis
  have "distinct (metas e)" using assms(1) by (simp add: e(2) of_lineage_def)
  then have "distinct (map dump_key (List.map_filter (read_full parse v u (dumps e)) (metas e)))"
  proof (rule distinct_map_filter)
    fix x y a b
    assume "read_full parse v u (dumps e) x = Some a" "read_full parse v u (dumps e) y = Some b" "dump_key a = dump_key b"
    then have "dump_of_meta x = Some (dump_key b)" "dump_of_meta y = Some (dump_key b)"
      using read_full_Some by metis+
    then show "x = y" using meta_key_of_dump by metis
  qed
  then show ?thesis by (simp add: read_lineage_def e(1))
qed

lemma distinct_concat_lineages:
  assumes "distinct us" and "\<And>u. u \<in> set us \<Longrightarrow> distinct (map g (h u))"
    and "\<And>u f. u \<in> set us \<Longrightarrow> f \<in> set (h u) \<Longrightarrow> owner (g f) = Some u"
  shows "distinct (map g (concat (map h us)))"
  using assms
proof (induction us)
  case Nil
  show ?case by simp
next
  case (Cons u us)
  have "distinct (map g (concat (map h us)))" using Cons by simp
  moreover have "set (map g (h u)) \<inter> set (map g (concat (map h us))) = {}"
  proof -
    have "owner x = Some u" if "x \<in> set (map g (h u))" for x using that Cons.prems(3) by auto
    moreover have "owner x \<noteq> Some u" if x: "x \<in> set (map g (concat (map h us)))" for x
    proof -
      obtain w f where "w \<in> set us" "f \<in> set (h w)" "x = g f" using x by auto
      then have "owner x = Some w" "w \<noteq> u" using Cons.prems(1) Cons.prems(3) [of w f] by auto
      then show ?thesis by simp
    qed
    ultimately show ?thesis by blast
  qed
  ultimately show ?case using Cons.prems(2) by simp
qed


lemma read_archive_Some:
  "read_archive_lineages parse loc v now = Some ls \<Longrightarrow>
     \<exists>objs. listing v = S3_ok objs \<and>
       ls = map (\<lambda>u. read_lineage parse v now u (the (group_objects loc objs u))) (uuids_listed loc objs)"
  by (auto simp: read_archive_lineages_def split: s3_answer.splits)

lemma lo_uuid_read [simp]: "lo_uuid (read_lineage parse v now u raw) = u"
  by (simp add: read_lineage_def)

lemma distinct_uuids [simp]: "distinct (uuids_listed loc objs)"
  by (simp add: uuids_listed_def)

lemma read_well_keyed:
  assumes "read_archive_lineages parse loc v now = Some ls" and "listing v = S3_ok objs" and "distinct (map fst objs)"
  shows "well_keyed (sweep_input ls own now span marker)"
proof -
  let ?h = "\<lambda>u. read_lineage parse v now u (the (group_objects loc objs u))"
  have ls: "ls = map ?h (uuids_listed loc objs)" using read_archive_Some [OF assms(1)] assms(2) by auto
  have "distinct (map dump_key (concat (map (\<lambda>u. lo_fulls (?h u)) (uuids_listed loc objs))))"
    by (rule distinct_concat_lineages [where owner = "server_uuid_from_key loc"])
       (use distinct_lineage_dumps [OF assms(3)] full_read(5) in auto)
  moreover have "map lo_uuid ls = uuids_listed loc objs" by (simp add: ls comp_def)
  moreover have "\<forall>l \<in> set ls. \<forall>f \<in> set (lo_fulls l). dump_name (dump_key f) \<and> lineage_uuid f = lo_uuid l"
    using full_read(1,2) by (fastforce simp: ls)
  ultimately show ?thesis by (simp add: well_keyed_def sweep_input_def all_fulls_def ls comp_def)
qed

section \<open>What a sweep deletes\<close>

lemma lineage_of_list:
  assumes "read_archive_lineages parse loc v now = Some ls" and "listing v = S3_ok objs" and "l \<in> set ls"
  shows "lo_uuid l \<in> set (uuids_listed loc objs) \<and>
    l = read_lineage parse v now (lo_uuid l) (the (group_objects loc objs (lo_uuid l)))"
  using read_archive_Some [OF assms(1)] assms(2,3) by auto

lemma orphan_of_Some: "orphan_of v now paired x = Some (d, t) \<Longrightarrow> d = x \<and> x \<notin> paired"
  by (auto simp: orphan_of_def split: if_splits s3_answer.splits option.splits)

lemma orphan_listed:
  assumes "read_archive_lineages parse loc v now = Some ls" and "listing v = S3_ok objs" and "l \<in> set ls"
    and "(d, t) \<in> set (orphan_dumps l)"
  shows "d \<in> set (map fst objs)" and "is_dump_key d" and "\<forall>m \<in> set (map fst objs). is_meta_key m \<longrightarrow>
    server_uuid_from_key loc m = Some (lo_uuid l) \<longrightarrow> dump_of_meta m \<noteq> Some d"
proof -
  note l = lineage_of_list [OF assms(1-3)]
  obtain e where e: "group_objects loc objs (lo_uuid l) = Some e"
    "metas e = filter is_meta_key (of_lineage loc (lo_uuid l) (map fst objs))"
    "dumps e = set (filter is_dump_key (of_lineage loc (lo_uuid l) (map fst objs)))"
    using listed_group [OF conjunct1 [OF l]] by metis
  have "orphan_dumps l = orphan_dumps (read_lineage parse v now (lo_uuid l) e)" using l e(1) by simp
  then have "(d, t) \<in> set (List.map_filter (orphan_of v now (set (List.map_filter dump_of_meta (metas e))))
      (sorted_list_of_set (dumps e)))"
    using assms(4) by (simp add: read_lineage_def)
  then obtain x where x: "x \<in> set (sorted_list_of_set (dumps e))"
    "orphan_of v now (set (List.map_filter dump_of_meta (metas e))) x = Some (d, t)"
    unfolding in_map_filter by blast
  have d: "d \<in> dumps e" "d \<notin> set (List.map_filter dump_of_meta (metas e))"
    using orphan_of_Some [OF x(2)] x(1) e(3) by simp_all
  show "d \<in> set (map fst objs)" "is_dump_key d" using d(1) by (auto simp: e(3) of_lineage_def)
  show "\<forall>m \<in> set (map fst objs). is_meta_key m \<longrightarrow>
      server_uuid_from_key loc m = Some (lo_uuid l) \<longrightarrow> dump_of_meta m \<noteq> Some d"
  proof (intro ballI impI notI)
    fix m
    assume "m \<in> set (map fst objs)" "is_meta_key m" "server_uuid_from_key loc m = Some (lo_uuid l)" "dump_of_meta m = Some d"
    then have "m \<in> set (metas e)" "dump_of_meta m = Some d" by (simp_all add: e(2) of_lineage_def)
    then show False using d(2) unfolding in_map_filter by blast
  qed
qed

lemma orphan_owner:
  assumes "read_archive_lineages parse loc v now = Some ls" and "listing v = S3_ok objs" and "l \<in> set ls"
    and "(d, t) \<in> set (orphan_dumps l)"
  shows "server_uuid_from_key loc d = Some (lo_uuid l)"
proof -
  note l = lineage_of_list [OF assms(1-3)]
  obtain e where e: "group_objects loc objs (lo_uuid l) = Some e"
    "dumps e = set (filter is_dump_key (of_lineage loc (lo_uuid l) (map fst objs)))"
    using listed_group [OF conjunct1 [OF l]] by metis
  have "orphan_dumps l = orphan_dumps (read_lineage parse v now (lo_uuid l) e)" using l e(1) by simp
  then have "(d, t) \<in> set (List.map_filter (orphan_of v now (set (List.map_filter dump_of_meta (metas e))))
      (sorted_list_of_set (dumps e)))"
    using assms(4) by (simp add: read_lineage_def)
  then have "d \<in> dumps e" unfolding in_map_filter using orphan_of_Some e(2) by fastforce
  then show ?thesis by (simp add: e(2) of_lineage_def)
qed

text \<open>
  What a sweep takes for the archive is there. From a listing without duplicates the archiver
  builds a planner input whose lineages and keys are well formed; it never counts more fulls
  than meta objects; the dump and the meta of every full it counts are both objects of the
  bucket; and a dump is an orphan only when the bucket has no meta of its own lineage for it.
\<close>

theorem archive_read_faithfully:
  assumes "listing v = S3_ok objs" and "distinct (map fst objs)" and "read_archive_lineages parse loc v now = Some ls"
  shows "well_keyed (sweep_input ls own now span marker) \<and>
    (\<forall>l \<in> set ls. length (lo_fulls l) \<le> full_objects_seen l \<and>
       (\<forall>f \<in> set (lo_fulls l). dump_key f \<in> set (map fst objs) \<and> meta_key_for_dump (dump_key f) \<in> set (map fst objs)) \<and>
       (\<forall>(d, t) \<in> set (orphan_dumps l). d \<in> set (map fst objs) \<and>
          (\<forall>m \<in> set (map fst objs). is_meta_key m \<longrightarrow> server_uuid_from_key loc m = Some (lo_uuid l) \<longrightarrow> dump_of_meta m \<noteq> Some d)))"
proof (intro conjI ballI)
  show "well_keyed (sweep_input ls own now span marker)" by (rule read_well_keyed [OF assms(3,1,2)])
next
  fix l
  assume l: "l \<in> set ls"
  show "length (lo_fulls l) \<le> full_objects_seen l"
    using lineage_of_list [OF assms(3,1) l] by (metis length_map_filter lineage_objects.select_convs(2,3) read_lineage_def)
  fix f
  assume f: "f \<in> set (lo_fulls l)"
  show "dump_key f \<in> set (map fst objs)" "meta_key_for_dump (dump_key f) \<in> set (map fst objs)"
    using full_read(3,4) [where u = "lo_uuid l"] lineage_of_list [OF assms(3,1) l] f by metis+
next
  fix l x
  assume "l \<in> set ls" and "x \<in> set (orphan_dumps l)"
  then show "case x of (d, t) \<Rightarrow> d \<in> set (map fst objs) \<and>
      (\<forall>m \<in> set (map fst objs). is_meta_key m \<longrightarrow> server_uuid_from_key loc m = Some (lo_uuid l) \<longrightarrow> dump_of_meta m \<noteq> Some d)"
    using orphan_listed(1,3) [OF assms(3,1)] by (cases x) blast
qed

lemma pass_deleted:
  assumes "retention_pass parse c loc v own now span = Swept gone" and "key \<in> set gone"
  obtains ls marker where "read_archive_lineages parse loc v now = Some ls" and "marker_there v = S3_ok marker"
    and "key \<in> set (plan_keys loc (plan_retention (sweep_input ls own now span marker)))"
    and "\<not> retention_dry_run c" and "old_enough v now (min_object_age c) key" and "delete_works v key"
  using assms by (auto simp: retention_pass_def Let_def split: option.splits s3_answer.splits if_splits)

text \<open>
  The age rail. Whatever the plan says, everything a sweep deletes has a known time of upload
  at least the minimum age back; a dry run, a failed listing and an unreadable marker delete
  nothing at all.
\<close>

theorem young_objects_survive:
  "case retention_pass parse c loc v own now span of
     Sweep_failed \<Rightarrow> listing v = S3_err \<or> marker_there v = S3_err
   | Swept gone \<Rightarrow> listing v \<noteq> S3_err \<and> marker_there v \<noteq> S3_err \<and>
       list_all (\<lambda>key. case modified_at v key of S3_ok (Some t) \<Rightarrow> min_object_age c \<le> now - t | _ \<Rightarrow> False) gone \<and>
       (if retention_dry_run c then gone = [] else True)"
  by (auto simp: retention_pass_def read_archive_lineages_def Let_def list_all_iff old_enough_def
      split: option.splits s3_answer.splits)

lemma meta_key_inj: "dump_name d \<Longrightarrow> dump_name e \<Longrightarrow> meta_key_for_dump d = meta_key_for_dump e \<Longrightarrow> d = e"
  by (auto simp: dump_name_def meta_key_for_dump_def)

lemma expired_keys_of_plan:
  assumes "independent_ready inp a" and "key \<in> set (expired_full_keys (plan_retention inp))"
  obtains l g where "l \<in> set (lineages inp)" and "g \<in> set (lo_fulls l)" and "key \<in> set (full_keys g)"
    and "dump_key g \<in> set (expired_full_keys (plan_retention inp))"
proof -
  obtain l where l: "l \<in> set (lineages inp)" "key \<in> set (expired_full_keys (lineage_verdict inp a l))"
    using assms(2) unfolding plan_independent_sets(1) [OF assms(1)] by (rule UN_E)
  obtain gs where gs: "expired_full_keys (lineage_verdict inp a l) = concat (map full_keys gs)" "set gs \<subseteq> set (lo_fulls l)"
    using verdict_key_list [of inp a l] by metis
  obtain g where g: "g \<in> set gs" "key \<in> set (full_keys g)" using l(2) unfolding gs(1) by auto
  have "dump_key g \<in> set (expired_full_keys (lineage_verdict inp a l))"
    unfolding gs(1) using g(1) by (auto simp: full_keys_def)
  then have "dump_key g \<in> set (expired_full_keys (plan_retention inp))"
    unfolding plan_independent_sets(1) [OF assms(1)] using l(1) by blast
  then show thesis using that l(1) g gs(2) by blast
qed

lemma plan_orphans:
  "\<not> shared_archive inp \<Longrightarrow> key \<in> set (orphan_dump_keys (plan_retention inp)) \<Longrightarrow>
     \<exists>l \<in> set (lineages inp). \<exists>t. (key, t) \<in> set (orphan_dumps l)"
proof -
  have e: "orphan_dump_keys (lineage_verdict inp a l) = old_orphans inp l" for a l
    by (simp add: lineage_verdict_def Let_def split: option.splits)
  have "set (orphan_dump_keys (foldl (\<lambda>p l. plan_append p (lineage_verdict inp a l)) p ls)) =
      set (orphan_dump_keys p) \<union> (\<Union>l \<in> set ls. set (old_orphans inp l))" for a p ls
    by (induction ls arbitrary: p) (auto simp: plan_append_def e)
  then have sub: "set (orphan_dump_keys (plan_retention inp)) \<subseteq> (\<Union>l \<in> set (lineages inp). set (old_orphans inp l))"
    if "\<not> shared_archive inp" using that
    by (cases "\<exists>a. independent_ready inp a") (auto simp: plan_independent plan_not_ready)
  have "\<exists>t. (key, t) \<in> set (orphan_dumps l)" if "key \<in> set (old_orphans inp l)" for l
    using that by (auto simp: old_orphans_def)
  then show "\<not> shared_archive inp \<Longrightarrow> key \<in> set (orphan_dump_keys (plan_retention inp)) \<Longrightarrow>
     \<exists>l \<in> set (lineages inp). \<exists>t. (key, t) \<in> set (orphan_dumps l)"
    using sub by blast
qed

lemma binlog_key_inj: "binlog_key loc u n = binlog_key loc u m \<Longrightarrow> n = m"
  by (simp add: binlog_key_def)

text \<open>Binary logs lie where the archiver puts them: below their lineage, directly in \<open>binlog/\<close>.\<close>

definition laid_out :: "s3_location \<Rightarrow> (string \<times> int option) list \<Rightarrow> bool" where
  "laid_out loc objs \<longleftrightarrow> (\<forall>k \<in> set (map fst objs). is_binlog_key k \<longrightarrow>
     (case server_uuid_from_key loc k of None \<Rightarrow> True | Some u \<Rightarrow> k = binlog_key loc u (file_name k)))"

lemma binlog_listed:
  assumes "read_archive_lineages parse loc v now = Some ls" and "listing v = S3_ok objs" and "laid_out loc objs"
    and "l \<in> set ls" and "n \<in> set (lo_binlogs l)"
  shows "is_binlog_key (binlog_key loc (lo_uuid l) n)"
    and "server_uuid_from_key loc (binlog_key loc (lo_uuid l) n) = Some (lo_uuid l)"
proof -
  note l = lineage_of_list [OF assms(1,2,4)]
  obtain e where e: "group_objects loc objs (lo_uuid l) = Some e"
    "binlogs e = map file_name (filter is_binlog_key (of_lineage loc (lo_uuid l) (map fst objs)))"
    using listed_group [OF conjunct1 [OF l]] by metis
  have "lo_binlogs l = lo_binlogs (read_lineage parse v now (lo_uuid l) e)" using l e(1) by simp
  then have "n \<in> set (binlogs e)" using assms(5) by (simp add: read_lineage_def)
  then obtain k where k: "k \<in> set (map fst objs)" "is_binlog_key k" "server_uuid_from_key loc k = Some (lo_uuid l)" "n = file_name k"
    unfolding e(2) by (auto simp: of_lineage_def)
  have "k = binlog_key loc (lo_uuid l) n" using assms(3) k by (auto simp: laid_out_def)
  then show "is_binlog_key (binlog_key loc (lo_uuid l) n)"
    "server_uuid_from_key loc (binlog_key loc (lo_uuid l) n) = Some (lo_uuid l)" using k by simp_all
qed

lemma expired_binlogs_listed:
  assumes "independent_ready inp a" and "(u, n) \<in> set (expired_binlogs (plan_retention inp))"
  shows "\<exists>l \<in> set (lineages inp). u = lo_uuid l \<and> n \<in> set (lo_binlogs l)"
proof -
  obtain l where l: "l \<in> set (lineages inp)" "(u, n) \<in> set (expired_binlogs (lineage_verdict inp a l))"
    using assms(2) unfolding plan_independent_sets(2) [OF assms(1)] by (rule UN_E)
  have "set (expired_binlogs (lineage_verdict inp a l)) \<subseteq> set (owned l (lo_binlogs l))"
    by (auto simp: lineage_verdict_def Let_def owned_def split: option.splits)
  then show ?thesis using l by (auto simp: owned_def)
qed

lemma kinds_differ: "is_binlog_key k \<Longrightarrow> \<not> is_dump_key k \<and> \<not> is_meta_key k" "is_dump_key k \<Longrightarrow> \<not> is_meta_key k"
  by (auto simp: is_binlog_key_def is_dump_key_def is_meta_key_def)

lemma full_keys_kinds:
  assumes "read_archive_lineages parse loc v now = Some ls" and "listing v = S3_ok objs" and "l \<in> set ls" and "f \<in> set (lo_fulls l)"
  shows "is_dump_key (dump_key f)" and "is_meta_key (meta_key_for_dump (dump_key f))" and "dump_name (dump_key f)"
    and "server_uuid_from_key loc (dump_key f) = Some (lo_uuid l)"
    and "dump_of_meta (meta_key_for_dump (dump_key f)) = Some (dump_key f)"
    and "meta_key_for_dump (dump_key f) \<in> set (map fst objs)"
    and "server_uuid_from_key loc (meta_key_for_dump (dump_key f)) = Some (lo_uuid l)"
proof -
  note l = lineage_of_list [OF assms(1-3)]
  have f: "f \<in> set (lo_fulls (read_lineage parse v now (lo_uuid l) (the (group_objects loc objs (lo_uuid l)))))"
    using l assms(4) by simp
  note r = full_read [OF conjunct1 [OF l] f]
  show "is_dump_key (dump_key f)" "is_meta_key (meta_key_for_dump (dump_key f))" "dump_name (dump_key f)"
    "server_uuid_from_key loc (dump_key f) = Some (lo_uuid l)" "meta_key_for_dump (dump_key f) \<in> set (map fst objs)"
    "server_uuid_from_key loc (meta_key_for_dump (dump_key f)) = Some (lo_uuid l)"
    by (fact r)+
  obtain stem where "dump_key f = stem @ ''.sql.gz''" using r(2) by (auto simp: dump_name_def)
  then show "dump_of_meta (meta_key_for_dump (dump_key f)) = Some (dump_key f)"
    by (simp add: meta_key_for_dump_def dump_of_meta_def)
qed

text \<open>No key of a plan is the dump or the meta of a full that survives it, nor a binary log it keeps.\<close>

lemma plan_spares:
  assumes read: "read_archive_lineages parse loc v now = Some ls" "listing v = S3_ok objs" "distinct (map fst objs)" "laid_out loc objs"
    and inp: "inp = sweep_input ls own now span marker" "\<not> shared_archive inp"
    and l: "l \<in> set ls" and f: "f \<in> set (lo_fulls l)" "dump_key f \<notin> set (expired_full_keys (plan_retention inp))"
  shows "dump_key f \<notin> set (plan_keys loc (plan_retention inp))"
    and "meta_key_for_dump (dump_key f) \<notin> set (plan_keys loc (plan_retention inp))"
    and "n \<in> set (lo_binlogs l) \<Longrightarrow> (lo_uuid l, n) \<notin> set (expired_binlogs (plan_retention inp)) \<Longrightarrow>
      binlog_key loc (lo_uuid l) n \<notin> set (plan_keys loc (plan_retention inp))"
proof -
  let ?p = "plan_retention inp"
  have ls: "lineages inp = ls" by (simp add: inp(1) sweep_input_def)
  note k = full_keys_kinds [OF read(1,2) l f(1)]
  have orphan: "is_dump_key x" "x \<noteq> dump_key f" if mem: "x \<in> set (orphan_dump_keys ?p)" for x
  proof -
    obtain l' t where x: "l' \<in> set ls" "(x, t) \<in> set (orphan_dumps l')" using plan_orphans [OF inp(2) mem] unfolding ls by blast
    note o = orphan_listed [OF read(1,2) x]
    show "is_dump_key x" by (rule o(2))
    show "x \<noteq> dump_key f"
    proof
      assume eq: "x = dump_key f"
      have "server_uuid_from_key loc x = Some (lo_uuid l')" by (rule orphan_owner [OF read(1,2) x])
      then have "lo_uuid l' = lo_uuid l" using k(4) eq by simp
      then show False using o(3) k(2,5,6,7) eq by auto
    qed
  qed
  have logs: "is_binlog_key x" "\<exists>u m. (u, m) \<in> set (expired_binlogs ?p) \<and> x = binlog_key loc u m \<and> server_uuid_from_key loc x = Some u"
    if mem: "x \<in> set (map (\<lambda>(u, n). binlog_key loc u n) (expired_binlogs ?p))" for x
  proof -
    obtain u m where x: "(u, m) \<in> set (expired_binlogs ?p)" "x = binlog_key loc u m" using mem by auto
    then obtain a where a: "independent_ready inp a"
      using plan_not_ready [OF inp(2)] by (cases "\<exists>a. independent_ready inp a") auto
    obtain l' where l': "l' \<in> set ls" "u = lo_uuid l'" "m \<in> set (lo_binlogs l')"
      using expired_binlogs_listed [OF a x(1)] unfolding ls by blast
    note b' = binlog_listed [OF read(1,2,4) l'(1,3)]
    show "is_binlog_key x" using b'(1) l'(2) x(2) by simp
    show "\<exists>u m. (u, m) \<in> set (expired_binlogs ?p) \<and> x = binlog_key loc u m \<and> server_uuid_from_key loc x = Some u"
      using x b'(2) l'(2) by blast
  qed
  have fulls: "(is_dump_key x \<or> is_meta_key x) \<and> x \<noteq> meta_key_for_dump (dump_key f)" if mem: "x \<in> set (expired_full_keys ?p)" for x
  proof -
    obtain a where a: "independent_ready inp a"
      using mem plan_not_ready [OF inp(2)] by (cases "\<exists>a. independent_ready inp a") auto
    obtain l' g where g: "l' \<in> set ls" "g \<in> set (lo_fulls l')" "x \<in> set (full_keys g)"
      "dump_key g \<in> set (expired_full_keys ?p)"
      using expired_keys_of_plan [OF a mem] unfolding ls by metis
    note k' = full_keys_kinds [OF read(1,2) g(1,2)]
    have "dump_key g \<noteq> dump_key f" using g(4) f(2) by auto
    then show ?thesis using g(3) k'(1-3) k(2,3) kinds_differ(2) meta_key_inj by (auto simp: full_keys_def)
  qed
  show "dump_key f \<notin> set (plan_keys loc ?p)"
    using f(2) orphan(2) logs(1) k(1) kinds_differ(1) unfolding plan_keys_def set_append by blast
  show "meta_key_for_dump (dump_key f) \<notin> set (plan_keys loc ?p)"
    using fulls orphan(1) logs(1) k(2) kinds_differ unfolding plan_keys_def set_append by blast
  assume n: "n \<in> set (lo_binlogs l)" "(lo_uuid l, n) \<notin> set (expired_binlogs ?p)"
  note b = binlog_listed [OF read(1,2,4) l n(1)]
  have "binlog_key loc (lo_uuid l) n \<notin> set (map (\<lambda>(u, n). binlog_key loc u n) (expired_binlogs ?p))"
  proof
    assume "binlog_key loc (lo_uuid l) n \<in> set (map (\<lambda>(u, n). binlog_key loc u n) (expired_binlogs ?p))"
    from logs(2) [OF this] obtain u m where "(u, m) \<in> set (expired_binlogs ?p)" "u = lo_uuid l"
      "binlog_key loc (lo_uuid l) n = binlog_key loc u m" using b(2) by auto
    then show False using binlog_key_inj n(2) by blast
  qed
  then show "binlog_key loc (lo_uuid l) n \<notin> set (plan_keys loc ?p)"
    using fulls orphan(1) b(1) kinds_differ unfolding plan_keys_def set_append by blast
qed

text \<open>
  A sweep leaves the window restorable in the bucket. After a sweep over independent histories,
  for every lineage it did not retire and every target since the cutoff that the lineage could
  serve, the bucket still has the dump and the meta of a full of the same instant, and every
  binary log of the lineage from that full's coordinate on.
\<close>

lemma sweep_keeps_window:
  assumes "read_archive_lineages parse loc v now = Some ls" and "listing v = S3_ok objs" and "distinct (map fst objs)"
    and "laid_out loc objs" and "marker_there v = S3_ok marker"
    and "\<not> shared_archive (sweep_input ls own now span marker)" and "l \<in> set ls"
    and "lo_uuid l \<notin> set (retired_lineages (plan_retention (sweep_input ls own now span marker)))"
    and "numbered (lo_binlogs l)" and "coordinates_in_order (lo_fulls l)"
    and "newest_qualifying_full (lo_fulls l) target = Some f" and "now - span \<le> target"
    and "retention_pass parse c loc v own now span = Swept gone"
  shows "\<exists>f' \<in> set (lo_fulls l). qualifies target f' \<and> taken f' = taken f \<and>
    dump_key f' \<notin> set gone \<and> meta_key_for_dump (dump_key f') \<notin> set gone \<and>
    (\<forall>n \<in> set (lo_binlogs l). seq_of (coordinate f') \<le> seq_of n \<longrightarrow> binlog_key loc (lo_uuid l) n \<notin> set gone)"
proof -
  define inp where "inp = sweep_input ls own now span marker"
  note keyed = read_well_keyed [OF assms(1-3), where own = own and span = span and marker = marker, folded inp_def]
  have l: "l \<in> set (lineages inp)" and cut: "cutoff_of inp \<le> target"
    using assms(7,12) by (simp_all add: inp_def sweep_input_def cutoff_of_def)
  obtain f' where f': "newest_qualifying_full (remaining_fulls (plan_retention inp) (lo_fulls l)) target = Some f'" "taken f' = taken f"
    "f' \<in> set (lo_fulls l)"
    "\<forall>n \<in> set (lo_binlogs l). seq_of (coordinate f') \<le> seq_of n \<longrightarrow> (lo_uuid l, n) \<notin> set (expired_binlogs (plan_retention inp))"
    using window_survives [OF keyed assms(6) [folded inp_def] l assms(8) [folded inp_def] assms(9-11) cut] by metis
  have q: "qualifies target f'" and kept: "dump_key f' \<notin> set (expired_full_keys (plan_retention inp))"
    using newest_qualifying_full_Some(1,2) [OF f'(1)] by (simp_all add: remaining_fulls_def)
  have gone: "key \<in> set gone \<Longrightarrow> key \<in> set (plan_keys loc (plan_retention inp))" for key
    using pass_deleted [OF assms(13)] assms(1,5) unfolding inp_def by (metis option.inject s3_answer.inject)
  note spared = plan_spares [OF assms(1-4) inp_def assms(6) [folded inp_def] assms(7) f'(3) kept]
  have "dump_key f' \<notin> set gone" "meta_key_for_dump (dump_key f') \<notin> set gone"
    using spared(1,2) gone by blast+
  moreover have "\<forall>n \<in> set (lo_binlogs l). seq_of (coordinate f') \<le> seq_of n \<longrightarrow> binlog_key loc (lo_uuid l) n \<notin> set gone"
    using spared(3) f'(4) gone by blast
  ultimately show ?thesis using f'(2,3) q by blast
qed

lemma length_map_filter_less: "x \<in> set xs \<Longrightarrow> f x = None \<Longrightarrow> length (List.map_filter f xs) < length xs"
proof -
  assume "x \<in> set xs" "f x = None"
  then have "length (filter (\<lambda>x. f x \<noteq> None) xs) < length xs" by (intro length_filter_less) auto
  then show ?thesis by (simp add: map_filter_def)
qed

text \<open>A meta object whose dump is gone: it is counted, never read, and never listed for deletion.\<close>

definition dangling_meta :: "s3_location \<Rightarrow> (string \<times> int option) list \<Rightarrow> string \<Rightarrow> bool" where
  "dangling_meta loc objs m \<longleftrightarrow> m \<in> set (map fst objs) \<and> is_meta_key m \<and> server_uuid_from_key loc m \<noteq> None \<and>
     (\<exists>d. dump_of_meta m = Some d \<and> d \<notin> set (map fst objs))"

lemma dangling_not_read:
  assumes "read_archive_lineages parse loc v now = Some ls" and "listing v = S3_ok objs" and "dangling_meta loc objs m"
  shows "\<exists>l \<in> set ls. length (lo_fulls l) < full_objects_seen l"
proof -
  obtain u d where m: "m \<in> set (map fst objs)" "is_meta_key m" "server_uuid_from_key loc m = Some u"
    "dump_of_meta m = Some d" "d \<notin> set (map fst objs)"
    using assms(3) by (auto simp: dangling_meta_def)
  then have u: "u \<in> set (uuids_listed loc objs)" by (force simp: uuids_listed_def in_map_filter)
  obtain e where e: "group_objects loc objs u = Some e" "metas e = filter is_meta_key (of_lineage loc u (map fst objs))"
    "dumps e = set (filter is_dump_key (of_lineage loc u (map fst objs)))"
    using listed_group [OF u] by metis
  have "m \<in> set (metas e)" using m(1-3) by (simp add: e(2) of_lineage_def)
  moreover have "read_full parse v u (dumps e) m = None"
    using m(4,5) by (auto simp: read_full_def e(3) of_lineage_def)
  ultimately have "length (List.map_filter (read_full parse v u (dumps e)) (metas e)) < length (metas e)"
    by (rule length_map_filter_less)
  moreover have "read_lineage parse v now u e \<in> set ls"
    using read_archive_Some [OF assms(1)] assms(2) u e(1) by force
  ultimately show ?thesis by (intro bexI [of _ "read_lineage parse v now u e"]) (simp_all add: read_lineage_def)
qed

lemma shared_orphans:
  assumes "shared_archive inp" and "key \<in> set (orphan_dump_keys (plan_retention inp))"
  shows "\<exists>l \<in> set (lineages inp). \<exists>t. (key, t) \<in> set (orphan_dumps l)"
proof -
  have "orphan_dump_keys (foldl (\<lambda>p l. plan_append p (shared_verdict a kept l)) p ls) = orphan_dump_keys p" for a kept p ls
    by (induction ls arbitrary: p) (simp_all add: plan_append_def shared_verdict_def Let_def)
  then have "set (orphan_dump_keys (plan_retention inp)) \<subseteq> (\<Union>l \<in> set (lineages inp). set (old_orphans inp l))"
    using assms(1)
    by (auto simp: plan_retention_def shared_archive_def plan_shared_history_retention_def Let_def split: option.splits if_splits)
  moreover have "\<exists>t. (key, t) \<in> set (orphan_dumps l)" if "key \<in> set (old_orphans inp l)" for l
    using that by (auto simp: old_orphans_def)
  ultimately show ?thesis using assms(2) by blast
qed

text \<open>
  A dangling meta stops retention for good. When the bucket of a shared history holds a meta
  object without its dump, as a deletion of the pair that failed half-way leaves it, a sweep
  deletes neither that object nor any full or binary log, so the next sweep finds it again.
\<close>

theorem dangling_meta_blocks_retention:
  assumes "listing v = S3_ok objs" and "marker_there v = S3_ok True" and "dangling_meta loc objs m"
    and "retention_pass parse c loc v own now span = Swept gone"
  shows "m \<notin> set gone \<and> (\<forall>key \<in> set gone. is_dump_key key \<and> key \<in> set (map fst objs))"
proof -
  have dumps: "is_dump_key key \<and> key \<in> set (map fst objs)" if key: "key \<in> set gone" for key
  proof -
    obtain ls where ls: "read_archive_lineages parse loc v now = Some ls"
      "key \<in> set (plan_keys loc (plan_retention (sweep_input ls own now span True)))"
      using pass_deleted [OF assms(4) key] assms(2) by (metis s3_answer.inject)
    let ?inp = "sweep_input ls own now span True"
    have shared: "shared_archive ?inp" by (simp add: shared_archive_def sweep_input_def)
    have in_ls: "lineages ?inp = ls" by (simp add: sweep_input_def)
    have "\<not> shared_ready ?inp a" for a
      using dangling_not_read [OF ls(1) assms(1,3)] by (auto simp: shared_ready_def in_ls list_ex_iff)
    then have "expired_full_keys (plan_retention ?inp) = [] \<and> expired_binlogs (plan_retention ?inp) = []"
      by (intro plan_shared_not_ready [OF shared]) blast
    then have "key \<in> set (orphan_dump_keys (plan_retention ?inp))" using ls(2) by (simp add: plan_keys_def)
    then obtain l t where "l \<in> set ls" "(key, t) \<in> set (orphan_dumps l)" using shared_orphans [OF shared] in_ls by metis
    then show ?thesis using orphan_listed(1,2) [OF ls(1) assms(1)] by blast
  qed
  moreover have "is_meta_key m" using assms(3) by (simp add: dangling_meta_def)
  ultimately show ?thesis using kinds_differ(2) by blast
qed

section \<open>A sample bucket\<close>

lemma pass_sweeps:
  assumes "listing v = S3_ok objs" and "marker_there v = S3_ok marker"
  obtains gone where "retention_pass parse c loc v own now span = Swept gone"
  using assms by (fastforce simp: retention_pass_def read_archive_lineages_def Let_def split: if_splits)

definition sample_loc :: s3_location where
  "sample_loc = \<lparr>bucket = ''b'', access_key = [], secret_key = [], region = [], endpoint = [], path = []\<rparr>"

definition sample_objs :: "(string \<times> int option) list" where
  "sample_objs = [(''server-u/full/x.sql.gz'', Some 0), (''server-u/full/x.meta.json'', Some 0), (''server-u/binlog/b.1'', Some 0)]"

definition sample_view :: "(string \<times> int option) list \<Rightarrow> bool \<Rightarrow> s3_view" where
  "sample_view objs marker =
     \<lparr>listing = S3_ok objs, bytes_of = (\<lambda>key. S3_ok []), modified_at = (\<lambda>key. S3_ok (Some 0)), marker_there = S3_ok marker,
      delete_works = (\<lambda>key. True)\<rparr>"

definition sample_parse :: "byte list \<Rightarrow> full_backup_meta option" where
  "sample_parse b = Some (meta (sample_full ''u'' [] ns_per_s ''b.1'' None))"

definition parts_of :: "lineage_objects \<Rightarrow> string \<times> full_backup_ref list \<times> nat \<times> (string \<times> int) list \<times> string list" where
  "parts_of l = (lo_uuid l, lo_fulls l, full_objects_seen l, orphan_dumps l, lo_binlogs l)"

lemma sample_read_parts:
  "map_option (map parts_of) (read_archive_lineages sample_parse sample_loc (sample_view sample_objs False) 10000000000) =
     Some [(''u'', [sample_full ''u'' ''server-u/full/x'' ns_per_s ''b.1'' None], 1, [], [''b.1''])]"
  by code_simp

lemma sample_read:
  obtains l where "read_archive_lineages sample_parse sample_loc (sample_view sample_objs False) 10000000000 = Some [l]"
    and "lo_uuid l = ''u''" and "lo_fulls l = [sample_full ''u'' ''server-u/full/x'' ns_per_s ''b.1'' None]"
    and "lo_binlogs l = [''b.1'']"
  using sample_read_parts by (auto simp: parts_of_def)

lemma sample_view_simps [simp]:
  "listing (sample_view objs marker) = S3_ok objs" "marker_there (sample_view objs marker) = S3_ok marker"
  by (simp_all add: sample_view_def)

lemma sample_objs_distinct: "distinct (map fst sample_objs)"
  by (simp add: sample_objs_def)

lemma archive_read_faithfully_witness:
  "\<exists>ls. read_archive_lineages sample_parse sample_loc (sample_view sample_objs False) 10000000000 = Some ls \<and>
     well_keyed (sweep_input ls ''u'' 10000000000 1000000000 False)"
proof (rule sample_read)
  fix l
  assume l: "read_archive_lineages sample_parse sample_loc (sample_view sample_objs False) 10000000000 = Some [l]"
  then show ?thesis using archive_read_faithfully [OF sample_view_simps(1) sample_objs_distinct l] by blast
qed

lemma dangling_meta_blocks_retention_witness:
  "\<exists>gone. retention_pass sample_parse \<lparr>retention_dry_run = False, min_object_age = 0\<rparr> sample_loc
      (sample_view (tl sample_objs) True) ''u'' 10000000000 1000000000 = Swept gone \<and> ''server-u/full/x.meta.json'' \<notin> set gone"
proof -
  have d: "dangling_meta sample_loc (tl sample_objs) ''server-u/full/x.meta.json''"
    by (simp add: dangling_meta_def sample_objs_def is_meta_key_def ends_with_def strip_suffix_def dump_of_meta_def
        starts_with_def server_uuid_from_key_def base_prefix_def sample_loc_def trim_matches_def trim_end_by_def strip_prefix_def)
  obtain gone where gone: "retention_pass sample_parse \<lparr>retention_dry_run = False, min_object_age = 0\<rparr> sample_loc
      (sample_view (tl sample_objs) True) ''u'' 10000000000 1000000000 = Swept gone"
    by (rule pass_sweeps [OF sample_view_simps])
  show ?thesis using dangling_meta_blocks_retention [OF sample_view_simps(1,2) d gone] gone by blast
qed

end
