(* ===== verification/Full_Backup.thy ===== *)
theory Full_Backup
  imports Shipping Sweep
begin

text \<open>
  Full backups (\<open>archiver.rs\<close>): the latch that keeps two dumps from running at once, with
  its users as an interleaving of atomic steps; when a full is due; the order of locks, dump
  and upload of one full; the scan of the dump's head; and the supervisor that runs the
  archiver on the group's writable primary only.
\<close>

section \<open>The latch\<close>

datatype full_backup_state = Idle | Queued | Running

record pitr_status =
  archive_configured :: bool
  archiving :: bool
  full_state :: full_backup_state
  gap_recovery :: bool

datatype queue_refusal = Not_configured | Not_archiving | Already_queued

text \<open>
  \<open>queue_full_backup\<close> in its atomic steps: the check of the snapshot, the flag, the
  compare-exchange; and as a whole when nothing comes between them.
\<close>

definition queue_check :: "pitr_status \<Rightarrow> queue_refusal option" where
  "queue_check s =
     (if \<not> archive_configured s then Some Not_configured
      else if \<not> archiving s then Some Not_archiving else None)"

definition queue_flag :: "bool \<Rightarrow> pitr_status \<Rightarrow> pitr_status" where
  "queue_flag gap s = (if gap then s\<lparr>gap_recovery := True\<rparr> else s)"

definition queue_exchange :: "pitr_status \<Rightarrow> pitr_status \<times> queue_refusal option" where
  "queue_exchange s = (if full_state s = Idle then (s\<lparr>full_state := Queued\<rparr>, None) else (s, Some Already_queued))"

definition queue_full_backup :: "bool \<Rightarrow> pitr_status \<Rightarrow> pitr_status \<times> queue_refusal option" where
  "queue_full_backup gap s =
     (case queue_check s of Some r \<Rightarrow> (s, Some r) | None \<Rightarrow> queue_exchange (queue_flag gap s))"

datatype full_kind = Initial | Scheduled | Triggered | GapRecovery

definition begin_requested :: "pitr_status \<Rightarrow> (pitr_status \<times> full_kind) option" where
  "begin_requested s =
     (if full_state s = Queued
      then Some (s\<lparr>full_state := Running, gap_recovery := False\<rparr>, if gap_recovery s then GapRecovery else Triggered)
      else None)"

definition begin_scheduled :: "pitr_status \<Rightarrow> pitr_status option" where
  "begin_scheduled s = (if full_state s = Idle then Some (s\<lparr>full_state := Running\<rparr>) else None)"

text \<open>The guard of a run, dropped when the run ends in any way.\<close>

definition end_run :: "pitr_status \<Rightarrow> pitr_status" where
  "end_run s = s\<lparr>full_state := Idle\<rparr>"

definition stop_archiving :: "pitr_status \<Rightarrow> pitr_status" where
  "stop_archiving s = s\<lparr>full_state := Idle, gap_recovery := False, archiving := False\<rparr>"

text \<open>
  The tasks of a node: the health server and the shipping loop queue, the loop of full backups
  begins and ends runs, the supervisor stops the archiver once the aborted task is gone, and
  starts it again. \<open>runs\<close> counts the guards that live.
\<close>

inductive latch_step :: "pitr_status \<times> nat \<Rightarrow> pitr_status \<times> nat \<Rightarrow> bool" where
  flag: "latch_step (s, n) (queue_flag gap s, n)"
| exchange: "latch_step (s, n) (fst (queue_exchange s), n)"
| requested: "begin_requested s = Some (s', k) \<Longrightarrow> latch_step (s, n) (s', n + 1)"
| scheduled: "begin_scheduled s = Some s' \<Longrightarrow> latch_step (s, n) (s', n + 1)"
| ended: "0 < n \<Longrightarrow> latch_step (s, n) (end_run s, n - 1)"
| stopped: "latch_step (s, 0) (stop_archiving s, 0)"
| started: "latch_step (s, n) (s\<lparr>archiving := True\<rparr>, n)"

inductive latch_reach :: "pitr_status \<times> nat \<Rightarrow> bool" where
  init: "latch_reach (\<lparr>archive_configured = c, archiving = False, full_state = Idle, gap_recovery = False\<rparr>, 0)"
| step: "latch_reach x \<Longrightarrow> latch_step x y \<Longrightarrow> latch_reach y"

inductive_cases latch_stepE: "latch_step (s, n) y"

definition latched :: "pitr_status \<times> nat \<Rightarrow> bool" where
  "latched x \<longleftrightarrow> snd x \<le> 1 \<and> (snd x = 1 \<longleftrightarrow> full_state (fst x) = Running)"

lemma latched_step: "latch_step x y \<Longrightarrow> latched x \<Longrightarrow> latched y"
  by (induction rule: latch_step.induct)
     (auto simp: latched_def queue_flag_def queue_exchange_def begin_requested_def begin_scheduled_def end_run_def
        stop_archiving_def split: if_splits)

lemma latched_reach: "latch_reach x \<Longrightarrow> latched x"
  by (induction rule: latch_reach.induct) (auto simp: latched_step latched_def [of "(_, 0)"])

text \<open>
  C25: Two full backups never run at once. In every interleaving of the requests, the loop of full
  backups, and the supervisor's stops and starts, at most one run is alive, and the latch says
  so exactly while it is.
\<close>

theorem one_full_backup_at_a_time:
  assumes "latch_reach (s, n)"
  shows "n \<le> 1 \<and> (n = 1 \<longleftrightarrow> full_state s = Running)"
  using latched_reach [OF assms] by (simp add: latched_def)

lemma one_full_backup_at_a_time_witness:
  "\<exists>s. latch_reach (s, 1) \<and> full_state s = Running"
proof -
  let ?s = "\<lparr>archive_configured = True, archiving = False, full_state = Idle, gap_recovery = False\<rparr>"
  have "latch_step (?s, 0) (?s\<lparr>full_state := Running\<rparr>, 0 + 1)"
    by (rule latch_step.scheduled) (simp add: begin_scheduled_def)
  then have r: "latch_reach (?s\<lparr>full_state := Running\<rparr>, 1)"
    using latch_reach.step [OF latch_reach.init] by force
  then show ?thesis using one_full_backup_at_a_time [OF r] by blast
qed

section \<open>When a full is due\<close>

definition newest_full_taken_at ::
  "(string \<Rightarrow> int option) \<Rightarrow> s3_location \<Rightarrow> string \<Rightarrow> archive_mode \<Rightarrow> (string \<Rightarrow> string list option) \<Rightarrow> int option option" where
  "newest_full_taken_at parse_time loc uuid mode list_keys =
     map_option (\<lambda>keys. max_by cmp_lin (List.map_filter (full_taken_at_from_key parse_time) (filter (ends_with ''.meta.json'') keys)))
       (list_keys (case mode of Standalone \<Rightarrow> full_prefix loc uuid | GroupPrimary \<Rightarrow> base_prefix loc))"

text \<open>How long the loop waits for the cadence; \<open>None\<close> when a full is due now.\<close>

definition not_due_for :: "int option \<Rightarrow> int \<Rightarrow> int \<Rightarrow> int option" where
  "not_due_for newest interval now =
     (case newest of
        None \<Rightarrow> None
      | Some t \<Rightarrow> if t + interval > now then Some (min (t + interval - now) interval) else None)"

text \<open>One turn of the loop: what begins, given whether a request woke it before the wait was over.\<close>

definition choose_run ::
  "int option option \<Rightarrow> int \<Rightarrow> int \<Rightarrow> bool \<Rightarrow> pitr_status \<Rightarrow> pitr_status \<Rightarrow> (pitr_status \<times> full_kind) option" where
  "choose_run listed interval now woken s s_later =
     (case begin_requested s of
        Some r \<Rightarrow> Some r
      | None \<Rightarrow>
          (case not_due_for (case listed of Some t \<Rightarrow> t | None \<Rightarrow> None) interval now of
             Some wait \<Rightarrow>
               if woken then begin_requested s_later
               else map_option (\<lambda>s'. (s', Scheduled)) (begin_scheduled s_later)
           | None \<Rightarrow>
               map_option (\<lambda>s'. (s', if listed = Some None then Initial else Scheduled)) (begin_scheduled s)))"

text \<open>
  A sibling root counts. The cadence of a group primary is measured over every key that starts
  with its root as a string, so a full in another root of the same bucket whose name continues
  this one's is taken for a full of this archive.
\<close>

theorem sibling_root_sets_the_cadence:
  assumes "parse_time ''t'' = Some 5"
  shows "newest_full_taken_at parse_time
      \<lparr>bucket = [], access_key = [], secret_key = [], region = [], endpoint = [], path = ''pitr''\<rparr> ''u'' GroupPrimary
      (\<lambda>prefix. Some (filter (starts_with prefix) [''pitr-old/server-x/full/t.meta.json''])) = Some (Some 5)"
proof -
  let ?key = "''pitr-old/server-x/full/t.meta.json''"
  have b: "base_prefix \<lparr>bucket = [], access_key = [], secret_key = [], region = [], endpoint = [], path = ''pitr''\<rparr> = ''pitr''"
    by (simp add: base_prefix_def trim_matches_def trim_end_by_def)
  have k: "full_taken_at_from_key parse_time ?key = Some 5"
    using assms by (simp add: full_taken_at_from_key_def starts_with_def strip_suffix_def Let_def)
  have "filter (ends_with ''.meta.json'') (filter (starts_with ''pitr'') [?key]) = [?key]"
    by (simp add: ends_with_def strip_suffix_def starts_with_def)
  then show ?thesis
    by (simp only: newest_full_taken_at_def b archive_mode.case option.map) (simp add: map_filter_def k)
qed

lemma sibling_root_sets_the_cadence_witness:
  "newest_full_taken_at (\<lambda>s. if s = ''t'' then Some 5 else None)
      \<lparr>bucket = [], access_key = [], secret_key = [], region = [], endpoint = [], path = ''pitr''\<rparr> ''u'' GroupPrimary
      (\<lambda>prefix. Some (filter (starts_with prefix) [''pitr-old/server-x/full/t.meta.json''])) = Some (Some 5)"
  by (rule sibling_root_sets_the_cadence) simp

section \<open>One full backup\<close>

datatype read_lock_attempt = Lock_error | Busy | Locked

datatype snapshot_wait = Opened | Ended_early | Timed_out

record dump_env =
  b_now :: int
  b_running :: "nat option option"
  b_read_lock :: read_lock_attempt
  b_backup_lock :: bool
  b_coordinates :: "(string \<times> nat) option"
  b_spawned :: bool
  b_snapshot :: snapshot_wait
  b_released :: bool
  b_copied :: bool
  b_uploaded :: bool
  b_dump_ok :: bool
  b_gzip_ok :: bool
  b_meta_put :: bool

datatype dump_event =
    Read_lock_taken
  | Backup_lock_taken
  | Coordinates_read string nat
  | Dump_started
  | Snapshot_open
  | Read_lock_gone
  | Dump_uploaded
  | Backup_lock_gone
  | Meta_uploaded string nat

datatype full_backup_outcome = Taken int | Deferred | Failed

definition GLOBAL_READ_LOCK_WAIT_SECONDS :: nat where "GLOBAL_READ_LOCK_WAIT_SECONDS = 5"

definition read_lock_would_wait :: "nat \<Rightarrow> nat \<Rightarrow> bool" where
  "read_lock_would_wait running_seconds wait \<longleftrightarrow> running_seconds \<ge> wait"

text \<open>\<open>dump_and_upload\<close>: its events and whether it succeeded; the read lock is given up on every path.\<close>

definition dump_and_upload :: "dump_env \<Rightarrow> dump_event list \<times> bool" where
  "dump_and_upload b =
     (if \<not> b_spawned b then ([Read_lock_gone], False)
      else
        (let upload = (if b_uploaded b then [Dump_uploaded] else []);
             ok = (b_copied b \<and> b_uploaded b \<and> b_dump_ok b \<and> b_gzip_ok b) in
         case b_snapshot b of
           Opened \<Rightarrow>
             if b_released b then ([Dump_started, Snapshot_open, Read_lock_gone] @ upload, ok)
             else ([Dump_started, Snapshot_open, Read_lock_gone], False)
         | Ended_early \<Rightarrow>
             if b_released b then ([Dump_started, Read_lock_gone] @ upload, ok) else ([Dump_started, Read_lock_gone], False)
         | Timed_out \<Rightarrow> ([Dump_started, Read_lock_gone], False)))"

definition take_full_backup :: "dump_env \<Rightarrow> dump_event list \<times> full_backup_outcome" where
  "take_full_backup b =
     (let taken = floor_to_millis (b_now b) in
      if (case b_running b of Some (Some secs) \<Rightarrow> read_lock_would_wait secs GLOBAL_READ_LOCK_WAIT_SECONDS | _ \<Rightarrow> False)
      then ([], Deferred)
      else (case b_read_lock b of
          Lock_error \<Rightarrow> ([], Failed)
        | Busy \<Rightarrow> ([], Deferred)
        | Locked \<Rightarrow>
            if \<not> b_backup_lock b then ([Read_lock_taken, Read_lock_gone], Failed)
            else (case b_coordinates b of
                None \<Rightarrow> ([Read_lock_taken, Backup_lock_taken, Backup_lock_gone, Read_lock_gone], Failed)
              | Some (file_nm, pos) \<Rightarrow>
                  (case dump_and_upload b of
                     (evs, ok) \<Rightarrow>
                       let before_meta = [Read_lock_taken, Backup_lock_taken, Coordinates_read file_nm pos] @ evs @ [Backup_lock_gone] in
                       if \<not> ok then (before_meta, Failed)
                       else if b_meta_put b then (before_meta @ [Meta_uploaded file_nm pos], Taken taken)
                       else (before_meta, Failed)))))"

text \<open>What the locks stand at after some events; \<open>None\<close> when an event came at the wrong time.\<close>

record lock_state =
  read_locked :: bool
  backup_locked :: bool
  recorded :: "(string \<times> nat) option"
  snapshot_at_coordinates :: bool
  in_bucket :: bool

definition no_locks :: lock_state where
  "no_locks = \<lparr>read_locked = False, backup_locked = False, recorded = None, snapshot_at_coordinates = False, in_bucket = False\<rparr>"

fun lock_event :: "lock_state \<Rightarrow> dump_event \<Rightarrow> lock_state option" where
  "lock_event s Read_lock_taken = (if read_locked s \<or> backup_locked s then None else Some (s\<lparr>read_locked := True\<rparr>))"
| "lock_event s Backup_lock_taken = (if read_locked s \<and> \<not> backup_locked s then Some (s\<lparr>backup_locked := True\<rparr>) else None)"
| "lock_event s (Coordinates_read f p) = (if read_locked s \<and> backup_locked s then Some (s\<lparr>recorded := Some (f, p)\<rparr>) else None)"
| "lock_event s Dump_started = (if read_locked s \<and> backup_locked s \<and> recorded s \<noteq> None then Some s else None)"
| "lock_event s Snapshot_open = (if read_locked s \<and> backup_locked s then Some (s\<lparr>snapshot_at_coordinates := True\<rparr>) else None)"
| "lock_event s Read_lock_gone = (if read_locked s then Some (s\<lparr>read_locked := False\<rparr>) else None)"
| "lock_event s Dump_uploaded = (if backup_locked s \<and> \<not> read_locked s then Some (s\<lparr>in_bucket := True\<rparr>) else None)"
| "lock_event s Backup_lock_gone = (if backup_locked s then Some (s\<lparr>backup_locked := False\<rparr>) else None)"
| "lock_event s (Meta_uploaded f p) =
     (if recorded s = Some (f, p) \<and> in_bucket s \<and> \<not> read_locked s \<and> \<not> backup_locked s then Some s else None)"

fun lock_run :: "lock_state \<Rightarrow> dump_event list \<Rightarrow> lock_state option" where
  "lock_run s [] = Some s"
| "lock_run s (e # es) = Option.bind (lock_event s e) (\<lambda>s'. lock_run s' es)"

lemma lock_run_append: "lock_run s (xs @ ys) = Option.bind (lock_run s xs) (\<lambda>s'. lock_run s' ys)"
  by (induction xs arbitrary: s) (auto split: Option.bind_split)

definition dumping :: "string \<Rightarrow> nat \<Rightarrow> lock_state" where
  "dumping f p = \<lparr>read_locked = True, backup_locked = True, recorded = Some (f, p), snapshot_at_coordinates = False, in_bucket = False\<rparr>"

lemma dump_run:
  obtains s where "lock_run (dumping f p) (fst (dump_and_upload b)) = Some s" and "\<not> read_locked s" and "backup_locked s"
    and "recorded s = Some (f, p)" and "snd (dump_and_upload b) \<Longrightarrow> in_bucket s"
proof -
  have "\<exists>s. lock_run (dumping f p) (fst (dump_and_upload b)) = Some s \<and> \<not> read_locked s \<and> backup_locked s \<and>
      recorded s = Some (f, p) \<and> (snd (dump_and_upload b) \<longrightarrow> in_bucket s)"
    by (cases "b_spawned b"; cases "b_snapshot b"; cases "b_released b"; cases "b_uploaded b")
       (simp_all add: dump_and_upload_def dumping_def Let_def)
  then show thesis using that by blast
qed

text \<open>
  C26: A full backup keeps its lock order on every path. Whatever fails, the read lock is taken before
  the backup lock, coordinates are read and the snapshot opens under both, the dump is
  streamed under the backup lock and after the read lock is gone, the meta object is written
  only for a dump that is in the bucket, with the coordinates read before it, and no lock is
  left at the end.
\<close>

theorem full_backup_keeps_lock_order:
  "\<exists>s. lock_run no_locks (fst (take_full_backup b)) = Some s \<and> \<not> read_locked s \<and> \<not> backup_locked s"
proof (cases "b_read_lock b = Locked \<and> b_backup_lock b")
  case False
  then show ?thesis
    by (auto simp: take_full_backup_def no_locks_def Let_def split: read_lock_attempt.splits)
next
  case True
  show ?thesis
  proof (cases "b_coordinates b")
    case None
    then show ?thesis using True by (auto simp: take_full_backup_def no_locks_def Let_def)
  next
    case (Some c)
    obtain f p where c: "b_coordinates b = Some (f, p)" using Some by (cases c) simp
    obtain evs ok where d: "dump_and_upload b = (evs, ok)" by (cases "dump_and_upload b")
    obtain s where s: "lock_run (dumping f p) evs = Some s" "\<not> read_locked s" "backup_locked s"
      "recorded s = Some (f, p)" "ok \<Longrightarrow> in_bucket s"
      by (rule dump_run [of f p b]) (auto simp: d)
    have start: "lock_run no_locks ([Read_lock_taken, Backup_lock_taken, Coordinates_read f p] @ evs @ rest) = lock_run s rest" for rest
      using s(1) by (simp add: no_locks_def lock_run_append dumping_def)
    have "fst (take_full_backup b) = [] \<or>
        (\<exists>rest. fst (take_full_backup b) = [Read_lock_taken, Backup_lock_taken, Coordinates_read f p] @ evs @ rest \<and>
          (rest = [Backup_lock_gone] \<or> ok \<and> rest = [Backup_lock_gone, Meta_uploaded f p]))"
      using True c d by (auto simp: take_full_backup_def Let_def)
    then show ?thesis
    proof (elim disjE exE conjE)
      assume "fst (take_full_backup b) = []"
      then show ?thesis by (simp add: no_locks_def)
    next
      fix rest
      assume "fst (take_full_backup b) = [Read_lock_taken, Backup_lock_taken, Coordinates_read f p] @ evs @ rest"
        and "rest = [Backup_lock_gone]"
      then show ?thesis using start [of rest] s(2,3) by simp
    next
      fix rest
      assume "fst (take_full_backup b) = [Read_lock_taken, Backup_lock_taken, Coordinates_read f p] @ evs @ rest"
        and "ok" and "rest = [Backup_lock_gone, Meta_uploaded f p]"
      then show ?thesis using start [of rest] s(2-5) by simp
    qed
  qed
qed

text \<open>
  A full may hold more than its instant. Its \<open>taken_at\<close> is read before the wait for the
  global read lock, and the snapshot opens under the lock: a transaction committed in between
  is in the dump of a full that qualifies for targets before the transaction.
\<close>

definition dump_holds :: "int \<Rightarrow> (int \<times> 't) list \<Rightarrow> 't set" where
  "dump_holds locked_at commits = {t. \<exists>at. (at, t) \<in> set commits \<and> at \<le> locked_at}"

theorem full_reaches_past_its_instant:
  assumes "snd (take_full_backup b) = Taken t" and "taken_at (meta f) = t"
    and "b_now b \<le> target" and "target < at" and "at \<le> locked_at" and "(at, tx) \<in> set commits"
  shows "qualifies target f \<and> tx \<in> dump_holds locked_at commits"
proof -
  have "t = floor_to_millis (b_now b)"
    using assms(1) by (auto simp: take_full_backup_def Let_def split: if_splits option.splits read_lock_attempt.splits prod.splits)
  then have "floor_to_millis t \<le> target"
    using floor_to_millis_le [of t] floor_to_millis_le [of "b_now b"] assms(3) by linarith
  then show ?thesis using assms(2,5,6) by (auto simp: qualifies_def dump_holds_def)
qed

section \<open>The head of the dump\<close>

definition SNAPSHOT_OPEN_MARKERS :: "string list" where
  "SNAPSHOT_OPEN_MARKERS =
     [newline # ''-- Current Database: '', newline # ''-- Table structure for table'', newline # ''CREATE TABLE '',
      newline # ''-- Dumping events for database'', newline # ''-- Dump completed'']"

definition dump_shows_snapshot_open :: "string \<Rightarrow> bool" where
  "dump_shows_snapshot_open head = list_ex (\<lambda>m. contains_str m head) SNAPSHOT_OPEN_MARKERS"

text \<open>
  \<open>tee_and_scan\<close> over the chunks it reads: what it captured, the bytes copied, and whether
  the sender fired (\<open>waiting\<close> until it did).
\<close>

fun tee_and_scan :: "nat \<Rightarrow> string list \<Rightarrow> string \<times> string \<times> bool \<Rightarrow> string \<times> string \<times> bool" where
  "tee_and_scan cap [] (scanned, copied, waiting) = (scanned, copied, waiting)"
| "tee_and_scan cap (chunk # chunks) (scanned, copied, waiting) =
     (if length scanned < cap
      then let scanned' = scanned @ take (min (cap - length scanned) (length chunk)) chunk in
        tee_and_scan cap chunks (scanned', copied @ chunk, waiting \<and> \<not> dump_shows_snapshot_open scanned')
      else tee_and_scan cap chunks (scanned, copied @ chunk, waiting))"

lemma starts_with_append: "starts_with p s \<Longrightarrow> starts_with p (s @ t)"
proof -
  assume "starts_with p s"
  then have p: "take (length p) s = p" by (simp add: starts_with_def)
  then have "length p \<le> length s" by (metis length_take min.cobounded1)
  then show ?thesis using p by (simp add: starts_with_def)
qed

lemma contains_str_mono: "contains_str p s \<Longrightarrow> contains_str p (s @ t)"
proof (induction s)
  case (Cons c s)
  then show ?case using starts_with_append [of p "c # s" t] by auto
next
  case Nil
  then show ?case using contains_str_here [of p t] by (simp add: starts_with_def)
qed

lemma shows_mono: "dump_shows_snapshot_open s \<Longrightarrow> dump_shows_snapshot_open (s @ t)"
  using contains_str_mono by (auto simp: dump_shows_snapshot_open_def list_ex_iff)

lemma shows_Nil: "\<not> dump_shows_snapshot_open []"
  by (simp add: dump_shows_snapshot_open_def SNAPSHOT_OPEN_MARKERS_def starts_with_def)

definition teed :: "nat \<Rightarrow> string \<Rightarrow> string \<times> string \<times> bool \<Rightarrow> bool" where
  "teed cap seen r \<longleftrightarrow> r = (take cap seen, seen, \<not> dump_shows_snapshot_open (take cap seen))"

lemma tee_from:
  "teed cap seen r \<Longrightarrow> teed cap (seen @ concat chunks) (tee_and_scan cap chunks r)"
proof (induction chunks arbitrary: seen r)
  case (Cons chunk chunks)
  have r: "r = (take cap seen, seen, \<not> dump_shows_snapshot_open (take cap seen))" using Cons.prems by (simp add: teed_def)
  show ?case
  proof (cases "length (take cap seen) < cap")
    case True
    then have s: "take cap seen = seen" by simp
    have "take cap seen @ take (min (cap - length (take cap seen)) (length chunk)) chunk = take cap (seen @ chunk)"
      using True s by (simp add: min_def)
    moreover have "teed cap (seen @ chunk) (take cap (seen @ chunk), seen @ chunk,
        \<not> dump_shows_snapshot_open (take cap seen) \<and> \<not> dump_shows_snapshot_open (take cap (seen @ chunk)))"
      using shows_mono [of "take cap seen" "take (cap - length seen) chunk"] s by (auto simp: teed_def)
    ultimately show ?thesis using Cons.IH [of "seen @ chunk"] True r by (simp add: Let_def)
  next
    case False
    then have "take cap (seen @ chunk) = take cap seen" by simp
    then have "teed cap (seen @ chunk) (take cap seen, seen @ chunk, \<not> dump_shows_snapshot_open (take cap seen))"
      by (simp only: teed_def)
    then show ?thesis using Cons.IH [of "seen @ chunk"] False r by simp
  qed
qed (auto simp: teed_def)

text \<open>
  C39: The tee copies everything and signals the snapshot in time. Whatever chunks the dump comes in,
  gzip gets every byte in order, the captured head is the first bytes up to the cap, and the
  signal that lets the read lock go has been sent exactly when that head shows the snapshot.
\<close>

theorem tee_copies_and_signals:
  "tee_and_scan cap chunks ([], [], True) =
     (take cap (concat chunks), concat chunks, \<not> dump_shows_snapshot_open (take cap (concat chunks)))"
  using tee_from [of cap "[]" "([], [], True)" chunks] by (simp add: teed_def shows_Nil)

section \<open>Witnesses\<close>

lemma full_reaches_past_its_instant_witness:
  "qualifies 1500000 (sample_full ''u'' ''x'' 1000000 ''b.1'' None) \<and> ''tx'' \<in> dump_holds 3000000 [(2000000, ''tx'')]"
  by (rule full_reaches_past_its_instant [where at = 2000000 and t = 1000000 and
      b = "\<lparr>b_now = 1000000, b_running = None, b_read_lock = Locked, b_backup_lock = True, b_coordinates = Some (''b.1'', 4),
        b_spawned = True, b_snapshot = Opened, b_released = True, b_copied = True, b_uploaded = True, b_dump_ok = True,
        b_gzip_ok = True, b_meta_put = True\<rparr>"])
     (simp_all add: take_full_backup_def dump_and_upload_def floor_to_millis_def ns_per_ms_def sample_full_def)

end
