(* ===== verification/Archiver.thy ===== *)
theory Archiver
  imports Full_Backup
begin

text \<open>
  The archiver around its loops (\<open>archiver.rs\<close>): settling who owns the archive root before
  a byte is written, starting up, and the supervisor that runs the archiver exactly while this
  node is its group's writable primary. Failures of the object store carry the context texts
  that \<open>s3.rs\<close> gives them; what lies below a context, and the wording of a refusal, are
  arguments.
\<close>

section \<open>Ownership of the root\<close>

definition head_failure :: "string \<Rightarrow> nat option \<Rightarrow> string" where
  "head_failure key status =
     ''HEAD '' @ key @ (case status of Some code \<Rightarrow> '': HTTP '' @ show_nat code | None \<Rightarrow> [])"

datatype get_failure = Get_request | Get_body

definition get_failure_text :: "string \<Rightarrow> get_failure \<Rightarrow> string" where
  "get_failure_text key g = (case g of Get_request \<Rightarrow> ''GET '' @ key | Get_body \<Rightarrow> ''reading body of '' @ key)"

definition unreadable_text :: "string \<Rightarrow> string" where
  "unreadable_text key = key @ '' is not a readable owner record; delete it to let this service claim the root''"

definition writing_text :: "string \<Rightarrow> string" where
  "writing_text key = ''writing '' @ key"

text \<open>
  One attempt's answers. A failed HEAD is named by its key and the HTTP status if there was one,
  a failed GET by its key, at the request or while the body was read.
\<close>

datatype head_result = Head_failed "nat option" | Head_says bool
datatype get_result = Get_failed get_failure | Got "archive_owner option"

record ownership_try =
  o_head :: head_result
  o_get :: get_result
  o_put :: bool

text \<open>One attempt: settled, or the text of its error.\<close>

datatype settled = Settled_kept | Settled_written archive_owner | Unsettled string

definition settle :: "(refusal \<Rightarrow> string) \<Rightarrow> string \<Rightarrow> archive_claimant \<Rightarrow> int \<Rightarrow> ownership_try \<Rightarrow> settled" where
  "settle refusal_text key me now t =
     (let judge = (\<lambda>existing. case archive_ownership_verdict existing me now of
            Keep \<Rightarrow> Settled_kept
          | Write r \<Rightarrow> if o_put t then Settled_written r else Unsettled (writing_text key)
          | Refuse_root r \<Rightarrow> Unsettled (refusal_text r)) in
      case o_head t of
        Head_failed status \<Rightarrow> Unsettled (head_failure key status)
      | Head_says False \<Rightarrow> judge None
      | Head_says True \<Rightarrow>
          (case o_get t of
             Get_failed g \<Rightarrow> Unsettled (get_failure_text key g)
           | Got None \<Rightarrow> Unsettled (unreadable_text key)
           | Got (Some owner) \<Rightarrow> judge (Some owner)))"

definition OWNERSHIP_ATTEMPTS :: nat where "OWNERSHIP_ATTEMPTS = 5"

text \<open>The loop over the attempts left: the answer, and how many attempts it took.\<close>

fun ownership_loop ::
  "(refusal \<Rightarrow> string) \<Rightarrow> string \<Rightarrow> archive_claimant \<Rightarrow> (nat \<Rightarrow> int \<times> ownership_try) \<Rightarrow> nat \<Rightarrow> nat \<Rightarrow> string option \<Rightarrow>
     (string + settled) \<times> nat" where
  "ownership_loop refusal_text key me tries 0 used last_err =
     (Inl (case last_err of Some e \<Rightarrow> e | None \<Rightarrow> ''could not settle the archive root's ownership''), used)"
| "ownership_loop refusal_text key me tries (Suc left) used last_err =
     (case settle refusal_text key me (fst (tries used)) (snd (tries used)) of
        Unsettled e \<Rightarrow>
          if contains_str ''owner.json'' e then (Inl e, Suc used)
          else ownership_loop refusal_text key me tries left (Suc used) (Some e)
      | s \<Rightarrow> (Inr s, Suc used))"

definition ensure_archive_ownership ::
  "(refusal \<Rightarrow> string) \<Rightarrow> s3_location \<Rightarrow> archive_claimant \<Rightarrow> (nat \<Rightarrow> int \<times> ownership_try) \<Rightarrow> (string + settled) \<times> nat" where
  "ensure_archive_ownership refusal_text loc me tries =
     ownership_loop refusal_text (owner_key loc) me tries OWNERSHIP_ATTEMPTS 0 None"

lemma contains_suffix: "contains_str p (a @ p)"
  using contains_str_append [of p a "[]"] by simp

lemma contains_str_left: "contains_str p s \<Longrightarrow> contains_str p (a @ s)"
  by (induction a) auto

lemma owner_key_named: "contains_str ''owner.json'' (owner_key loc)"
proof (cases "base_prefix loc = []")
  case True
  then show ?thesis using contains_suffix [of "''owner.json''" "[]"] by (simp add: owner_key_def under_base_def)
next
  case False
  then have "owner_key loc = (base_prefix loc @ [slash]) @ ''owner.json''" by (simp add: owner_key_def under_base_def)
  then show ?thesis using contains_suffix [of "''owner.json''" "base_prefix loc @ [slash]"] by simp
qed

lemma failures_name_the_key:
  assumes "contains_str ''owner.json'' key"
  shows "contains_str ''owner.json'' (head_failure key status)" and "contains_str ''owner.json'' (get_failure_text key g)"
    and "contains_str ''owner.json'' (unreadable_text key)" and "contains_str ''owner.json'' (writing_text key)"
proof -
  have *: "contains_str ''owner.json'' (a @ key @ b)" for a b
    using contains_str_left [OF contains_str_mono [OF assms]] .
  show "contains_str ''owner.json'' (head_failure key status)" unfolding head_failure_def by (rule *)
  show "contains_str ''owner.json'' (get_failure_text key g)"
    using *[of "''GET ''" "[]"] *[of "''reading body of ''" "[]"] by (cases g) (simp_all only: get_failure_text_def get_failure.case append_Nil2)
  show "contains_str ''owner.json'' (unreadable_text key)" unfolding unreadable_text_def by (rule contains_str_mono [OF assms])
  show "contains_str ''owner.json'' (writing_text key)" unfolding writing_text_def by (rule contains_str_left [OF assms])
qed

text \<open>
  A failing bucket gets one attempt, not five. The loop tells a refusal from a passing failure
  by the name of the owner record in the text, and every failed request names that key too: the
  first attempt's answer is final whatever it is.
\<close>

theorem ownership_is_tried_once:
  assumes "\<And>r. contains_str ''owner.json'' (refusal_text r)"
  shows "ensure_archive_ownership refusal_text loc me tries =
    (case settle refusal_text (owner_key loc) me (fst (tries 0)) (snd (tries 0)) of Unsettled e \<Rightarrow> Inl e | s \<Rightarrow> Inr s, 1)"
proof (cases "settle refusal_text (owner_key loc) me (fst (tries 0)) (snd (tries 0))")
  case (Unsettled e)
  note named = failures_name_the_key [OF owner_key_named [of loc]]
  have "contains_str ''owner.json'' e"
    using Unsettled named assms
    by (auto simp: settle_def Let_def split: head_result.splits bool.splits get_result.splits option.splits
        ownership_verdict.splits if_splits)
  then show ?thesis using Unsettled by (simp add: ensure_archive_ownership_def OWNERSHIP_ATTEMPTS_def numeral_eq_Suc)
qed (simp_all add: ensure_archive_ownership_def OWNERSHIP_ATTEMPTS_def numeral_eq_Suc)

text \<open>
  No byte is archived into a root before it is settled. When the settling answers, the record
  that stands admits this service: it was kept as read, or written by this attempt.
\<close>

theorem settled_root_admits_us:
  assumes "fst (ensure_archive_ownership refusal_text loc me tries) = Inr s"
  shows "\<exists>k < OWNERSHIP_ATTEMPTS. \<exists>existing.
    (s = Settled_kept \<and> existing \<noteq> None \<and> archive_ownership_verdict existing me (fst (tries k)) = Keep) \<or>
    (\<exists>r. s = Settled_written r \<and> o_put (snd (tries k)) \<and> archive_ownership_verdict existing me (fst (tries k)) = Write r)"
proof -
  have settle_ok: "\<exists>existing. (s = Settled_kept \<and> existing \<noteq> None \<and> archive_ownership_verdict existing me now = Keep) \<or>
      (\<exists>r. s = Settled_written r \<and> o_put t \<and> archive_ownership_verdict existing me now = Write r)"
    if "settle refusal_text key me now t = s" "\<And>e. s \<noteq> Unsettled e" for key now t
  proof -
    have none: "archive_ownership_verdict None me now \<noteq> Keep" by (simp add: archive_ownership_verdict_def)
    show ?thesis
      using that none
      by (auto simp: settle_def Let_def split: head_result.splits bool.splits get_result.splits option.splits
          ownership_verdict.splits if_splits)
  qed
  have loop: "\<exists>k < used + left. used \<le> k \<and> settle refusal_text key me (fst (tries k)) (snd (tries k)) = s \<and> (\<forall>e. s \<noteq> Unsettled e)"
    if "fst (ownership_loop refusal_text key me tries left used le) = Inr s" for key left used le
    using that
  proof (induction left arbitrary: used le)
    case (Suc left)
    show ?case
    proof (cases "settle refusal_text key me (fst (tries used)) (snd (tries used))")
      case (Unsettled e)
      then have "fst (ownership_loop refusal_text key me tries left (Suc used) (Some e)) = Inr s"
        using Suc.prems by (simp split: if_splits)
      from Suc.IH [OF this] obtain k where "k < Suc used + left" "Suc used \<le> k"
        "settle refusal_text key me (fst (tries k)) (snd (tries k)) = s" "\<forall>e. s \<noteq> Unsettled e" by blast
      then show ?thesis by (intro exI [of _ k]) simp
    qed (use Suc.prems in \<open>auto intro!: exI [of _ used]\<close>)
  qed simp
  from loop [OF assms [unfolded ensure_archive_ownership_def]] obtain k where
    k: "k < OWNERSHIP_ATTEMPTS" "settle refusal_text (owner_key loc) me (fst (tries k)) (snd (tries k)) = s" "\<forall>e. s \<noteq> Unsettled e"
    by auto
  show ?thesis using settle_ok [OF k(2)] k(1,3) by blast
qed

lemma ownership_is_tried_once_witness:
  "ensure_archive_ownership (\<lambda>r. ''delete x/owner.json'')
      \<lparr>bucket = [], access_key = [], secret_key = [], region = [], endpoint = [], path = ''pitr''\<rparr> sample_claimant
      (\<lambda>k. (0, \<lparr>o_head = Head_failed (Some 503), o_get = Got None, o_put = True\<rparr>)) =
    (Inl (head_failure (owner_key \<lparr>bucket = [], access_key = [], secret_key = [], region = [], endpoint = [], path = ''pitr''\<rparr>) (Some 503)), 1)"
proof -
  have "contains_str ''owner.json'' ''delete x/owner.json''" by (simp add: starts_with_def)
  then show ?thesis by (subst ownership_is_tried_once) (simp_all add: settle_def Let_def)
qed

lemma settled_root_admits_us_witness:
  "\<exists>k < OWNERSHIP_ATTEMPTS. archive_ownership_verdict None sample_claimant 7 \<noteq> Keep \<and>
     fst (ensure_archive_ownership (\<lambda>r. []) sample_loc sample_claimant (\<lambda>k. (7, \<lparr>o_head = Head_says False, o_get = Got None, o_put = True\<rparr>))) =
       Inr (Settled_written \<lparr>ow_environment_id = ''e'', ow_history = ''h'', ow_service_ids = [''s''], ow_claimed_at = 7\<rparr>)"
proof -
  let ?tries = "\<lambda>k :: nat. (7 :: int, \<lparr>o_head = Head_says False, o_get = Got None, o_put = True\<rparr>)"
  have r: "fst (ensure_archive_ownership (\<lambda>r. []) sample_loc sample_claimant ?tries) =
      Inr (Settled_written \<lparr>ow_environment_id = ''e'', ow_history = ''h'', ow_service_ids = [''s''], ow_claimed_at = 7\<rparr>)"
    by (simp add: ensure_archive_ownership_def OWNERSHIP_ATTEMPTS_def numeral_eq_Suc settle_def Let_def
        archive_ownership_verdict_def sample_claimant_def)
  have "archive_ownership_verdict None sample_claimant 7 \<noteq> Keep" by (simp add: archive_ownership_verdict_def)
  then show ?thesis using settled_root_admits_us [OF r] r by blast
qed

section \<open>Starting up\<close>

text \<open>\<open>run\<close> up to its loops, in the order of its early returns.\<close>

record start_env =
  st_client :: bool
  st_uuid :: "string option"
  st_owned :: "string + settled"
  st_marker_put :: bool

datatype start_event = Marker_written | Marker_failed | Loops_started string

datatype start_end = No_client | No_uuid | Not_owned string | Started

definition start_archiver :: "archive_mode \<Rightarrow> start_env \<Rightarrow> pitr_status \<Rightarrow> pitr_status \<times> start_event list \<times> start_end" where
  "start_archiver mode e s =
     (if \<not> st_client e then (s, [], No_client)
      else (case st_uuid e of
          None \<Rightarrow> (s, [], No_uuid)
        | Some uuid \<Rightarrow>
            (case st_owned e of
               Inl reason \<Rightarrow> (s, [], Not_owned reason)
             | Inr _ \<Rightarrow>
                 (s\<lparr>archiving := True\<rparr>,
                  (if mode = GroupPrimary then [if st_marker_put e then Marker_written else Marker_failed] else []) @ [Loops_started uuid],
                  Started))))"

section \<open>The supervisor of a group's member\<close>

record supervisor =
  sv_running :: bool
  owns_expiry :: bool

record poll_env =
  p_finished :: bool
  p_uuid :: "string option"
  p_members :: "member_row list option"
  p_fenced :: bool
  p_expire_off :: bool
  p_expire_back :: bool

datatype poll_event = Expiry_off | Archiver_started | Archiver_aborted | Expiry_back

definition poll_verdict :: "poll_env \<Rightarrow> bool option" where
  "poll_verdict e =
     (case p_uuid e of
        None \<Rightarrow> None
      | Some uuid \<Rightarrow> map_option (\<lambda>ms. role_is_writable_primary ms uuid \<and> \<not> p_fenced e) (p_members e))"

text \<open>One turn of \<open>run_group_primary_supervisor\<close>.\<close>

definition supervisor_poll :: "poll_env \<Rightarrow> supervisor \<times> pitr_status \<Rightarrow> (supervisor \<times> pitr_status) \<times> poll_event list" where
  "supervisor_poll e x =
     (case x of (v0, s0) \<Rightarrow>
        let (v1, s1) = (if sv_running v0 \<and> p_finished e then (v0\<lparr>sv_running := False\<rparr>, s0\<lparr>archiving := False\<rparr>) else (v0, s0));
            verdict = poll_verdict e;
            (v2, s2, evs) =
              (if verdict = Some True \<and> \<not> sv_running v1 then
                 (if p_expire_off e then (v1\<lparr>sv_running := True, owns_expiry := True\<rparr>, s1, [Expiry_off, Archiver_started])
                  else (v1\<lparr>sv_running := True\<rparr>, s1, [Archiver_started]))
               else if verdict = Some False \<and> sv_running v1 then
                 (v1\<lparr>sv_running := False\<rparr>, stop_archiving s1, [Archiver_aborted])
               else (v1, s1, [])) in
        if verdict = Some False \<and> owns_expiry v2 \<and> p_expire_back e
        then ((v2\<lparr>owns_expiry := False\<rparr>, s2), evs @ [Expiry_back])
        else ((v2, s2), evs))"

text \<open>
  The archiver follows the role. After a poll whose verdict could be read the archiver runs
  exactly when this node is the unfenced writable primary, an unreadable verdict starts and
  stops nothing, and a stop resets the latch of full backups; after a poll that found the
  node demoted and could set the server's own expiry, the node does not own it.
\<close>

theorem archiver_follows_the_role:
  "case supervisor_poll e (v, s) of
     ((v', s'), evs) \<Rightarrow>
       (case poll_verdict e of
          Some primary \<Rightarrow> sv_running v' = primary
        | None \<Rightarrow> sv_running v' = (sv_running v \<and> \<not> p_finished e) \<and> evs = []) \<and>
       (Archiver_aborted \<in> set evs \<longleftrightarrow> poll_verdict e = Some False \<and> sv_running v \<and> \<not> p_finished e) \<and>
       (Archiver_started \<in> set evs \<longleftrightarrow> poll_verdict e = Some True \<and> \<not> (sv_running v \<and> \<not> p_finished e)) \<and>
       (owns_expiry v' = (if poll_verdict e = Some False then owns_expiry v \<and> \<not> p_expire_back e
          else owns_expiry v \<or> Expiry_off \<in> set evs))"
  by (cases "poll_verdict e") (auto simp: supervisor_poll_def Let_def split: if_splits)

end
