(* ===== verification/Restore_Replay.thy ===== *)
theory Restore_Replay
  imports Sweep
begin

text \<open>
  The replay of a point-in-time restore (\<open>restore.rs\<close>): one lineage from the backup's
  coordinate, or every lineage of a shared history in rounds, and the checks on what was
  reached. The bucket, the pipes of \<open>mysqlbinlog\<close> and \<open>mysql\<close>, and the
  answers of the restored server are a record of functions; the scratch copies of the files are
  named by their keys. Times are nanoseconds since the epoch.
\<close>

section \<open>Errors\<close>

text \<open>A refusal carries its kind; everything else that breaks an attempt is \<open>Broken\<close>.\<close>

datatype restore_error = Refusal string | Broken

definition gap_refusal :: restore_error where "gap_refusal = Refusal ''binlog-gap''"

definition gap_blocks_target :: "int \<Rightarrow> int \<Rightarrow> bool" where
  "gap_blocks_target last_event target \<longleftrightarrow> last_event < target"

definition verify_achieved_point :: "int \<Rightarrow> int \<Rightarrow> u64 \<Rightarrow> restore_error + int" where
  "verify_achieved_point achieved target interval =
     (if achieved_point_within_bound target achieved (achieved_lag_bound_seconds interval)
      then Inr achieved else Inl (Refusal ''target-unreachable''))"

section \<open>What the replay asks of the world\<close>

record restore_io =
  io_list :: "string \<Rightarrow> string list option"
  io_scratch :: bool
  io_download :: "string \<Rightarrow> byte list option"
  io_root :: "string \<Rightarrow> nat \<Rightarrow> bool"
  io_apply :: "u64 option \<Rightarrow> string list \<Rightarrow> int \<Rightarrow> bool"
  io_events :: "string \<Rightarrow> string list option"
  io_executed :: "string option"
  io_subtract :: "string \<Rightarrow> string \<Rightarrow> string option"
  io_contains :: "string \<Rightarrow> string \<Rightarrow> bool option"

record replayed =
  rp_achieved :: int
  rp_last_event :: int

text \<open>The last event header the tool prints; the file has none when nothing parses.\<close>

definition last_binlog_event_time :: "calendar \<Rightarrow> restore_io \<Rightarrow> string \<Rightarrow> int option" where
  "last_binlog_event_time utc_of io key =
     (case io_events io key of
        None \<Rightarrow> None
      | Some ls \<Rightarrow>
          (let ts = List.map_filter (parse_binlog_event_header_utc utc_of) ls in
           if ts = [] then None else Some (last ts * ns_per_s)))"

text \<open>The target handed to the tool is cut to its whole second.\<close>

definition stop_second :: "int \<Rightarrow> int" where
  "stop_second target = target div ns_per_s"

definition replay_downloaded :: "calendar \<Rightarrow> restore_io \<Rightarrow> string list \<Rightarrow> u64 option \<Rightarrow> int \<Rightarrow> replayed option" where
  "replay_downloaded utc_of io keys start target =
     (if \<not> io_apply io start keys (stop_second target) then None
      else map_option (\<lambda>e. \<lparr>rp_achieved = min e target, rp_last_event = e\<rparr>)
             (last_binlog_event_time utc_of io (last keys)))"

section \<open>Independent history\<close>

definition replay_binlogs :: "calendar \<Rightarrow> restore_io \<Rightarrow> s3_location \<Rightarrow> full_backup_ref \<Rightarrow> int \<Rightarrow> u64 \<Rightarrow> restore_error + int" where
  "replay_binlogs utc_of io loc full target interval =
     (case io_list io (binlog_prefix loc (lineage_uuid full)) of
        None \<Rightarrow> Inl Broken
      | Some keys \<Rightarrow>
          (let plan = binlogs_to_replay (map file_name keys) (binlog_file (meta full)) in
           if replay_run plan = [] then
             (if replay_gap plan \<noteq> None \<and> gap_blocks_target (taken full) target then Inl gap_refusal
              else verify_achieved_point (taken full) target interval)
           else if \<not> io_scratch io then Inl Broken
           else
             (let paths = map (binlog_key loc (lineage_uuid full)) (replay_run plan) in
              if \<not> list_all (\<lambda>k. io_download io k \<noteq> None) paths then Inl Broken
              else
                (case replay_downloaded utc_of io paths (Some (binlog_pos (meta full))) target of
                   None \<Rightarrow> Inl Broken
                 | Some r \<Rightarrow>
                     if replay_gap plan \<noteq> None \<and> gap_blocks_target (rp_last_event r) target then Inl gap_refusal
                     else verify_achieved_point (rp_achieved r) target interval))))"

section \<open>Shared history: the runs\<close>

record lineage_run =
  run_uuid :: string
  run_files :: "string list"
  start_position :: "u64 option"
  run_round :: nat

definition runs_past_gap :: "string \<Rightarrow> string list \<Rightarrow> binlog_gap option \<Rightarrow> lineage_run list" where
  "runs_past_gap uuid files gap =
     (case gap of
        None \<Rightarrow> []
      | Some g \<Rightarrow>
          map (\<lambda>(i, run). \<lparr>run_uuid = uuid, run_files = run, start_position = None, run_round = i + 1\<rparr>)
            (List.enumerate 0 (binlog_runs_past_gap files (next_present g))))"

definition own_runs :: "full_backup_ref \<Rightarrow> string list \<Rightarrow> lineage_run list" where
  "own_runs full own =
     (let plan = binlogs_to_replay own (binlog_file (meta full)) in
      \<lparr>run_uuid = lineage_uuid full, run_files = replay_run plan,
       start_position = Some (binlog_pos (meta full)), run_round = 0\<rparr>
      # runs_past_gap (lineage_uuid full) own (replay_gap plan))"

definition lineage_runs :: "string \<Rightarrow> string list \<Rightarrow> lineage_run list" where
  "lineage_runs uuid listed =
     (let names = sort_by binlog_name_cmp listed in
      case names of
        [] \<Rightarrow> []
      | first # _ \<Rightarrow>
          (let plan = binlogs_to_replay names first in
           (if replay_run plan = [] then []
            else [\<lparr>run_uuid = uuid, run_files = replay_run plan, start_position = None, run_round = 0\<rparr>])
           @ runs_past_gap uuid names (replay_gap plan)))"

text \<open>The listing as a map from lineages to file names, walked in the order of the UUIDs.\<close>

definition binlog_lineage :: "s3_location \<Rightarrow> string \<Rightarrow> string option" where
  "binlog_lineage loc key = (if contains_str ''/binlog/'' key then server_uuid_from_key loc key else None)"

definition names_of :: "s3_location \<Rightarrow> string list \<Rightarrow> string \<Rightarrow> string list" where
  "names_of loc keys uuid = map file_name (filter (\<lambda>k. binlog_lineage loc k = Some uuid) keys)"

definition by_lineage :: "s3_location \<Rightarrow> string list \<Rightarrow> string list" where
  "by_lineage loc keys = sort (remdups (List.map_filter (binlog_lineage loc) keys))"

definition plan_runs :: "s3_location \<Rightarrow> full_backup_ref \<Rightarrow> string list \<Rightarrow> lineage_run list" where
  "plan_runs loc full keys =
     sort_key run_round
       (own_runs full (names_of loc keys (lineage_uuid full)) @
        concat (map (\<lambda>u. lineage_runs u (names_of loc keys u))
          (filter (\<lambda>u. u \<noteq> lineage_uuid full) (by_lineage loc keys))))"

section \<open>Shared history: the replay\<close>

record binlog_witness =
  w_uuid :: string
  w_file :: string
  w_gtids :: string

definition BINLOG_HEAD_READ_BYTES :: nat where "BINLOG_HEAD_READ_BYTES = 4 * 1024 * 1024"

definition read_binlog_head :: "byte list \<Rightarrow> binlog_head option" where
  "read_binlog_head bytes = parse_binlog_head (take BINLOG_HEAD_READ_BYTES bytes)"

definition testimony :: "string \<Rightarrow> string \<Rightarrow> int \<Rightarrow> binlog_head \<Rightarrow> binlog_witness list" where
  "testimony uuid name target head =
     (if binlog_opened_before_cutoff (created_at head) target \<and> previous_gtids head \<noteq> []
      then [\<lparr>w_uuid = uuid, w_file = name, w_gtids = previous_gtids head\<rparr>] else [])"

fun stage_files :: "restore_io \<Rightarrow> s3_location \<Rightarrow> string \<Rightarrow> int \<Rightarrow> string list \<Rightarrow> binlog_witness list option" where
  "stage_files io loc uuid target [] = Some []"
| "stage_files io loc uuid target (name # rest) =
     (case Option.bind (io_download io (binlog_key loc uuid name)) read_binlog_head of
        None \<Rightarrow> None
      | Some head \<Rightarrow> map_option ((@) (testimony uuid name target head)) (stage_files io loc uuid target rest))"

definition replay_one_run :: "calendar \<Rightarrow> restore_io \<Rightarrow> s3_location \<Rightarrow> int \<Rightarrow> lineage_run \<Rightarrow> (int \<times> binlog_witness list) option" where
  "replay_one_run utc_of io loc target run =
     (if \<not> io_scratch io then None
      else
        (case stage_files io loc (run_uuid run) target (run_files run) of
           None \<Rightarrow> None
         | Some ws \<Rightarrow>
             if \<not> io_root io (run_uuid run) (run_round run) then None
             else map_option (\<lambda>r. (rp_achieved r, ws))
                    (replay_downloaded utc_of io (map (binlog_key loc (run_uuid run)) (run_files run)) (start_position run) target)))"

fun replay_runs ::
  "calendar \<Rightarrow> restore_io \<Rightarrow> s3_location \<Rightarrow> int \<Rightarrow> lineage_run list \<Rightarrow> int \<Rightarrow> (int \<times> binlog_witness list) option" where
  "replay_runs utc_of io loc target [] achieved = Some (achieved, [])"
| "replay_runs utc_of io loc target (run # runs) achieved =
     (if run_files run = [] then replay_runs utc_of io loc target runs achieved
      else
        (case replay_one_run utc_of io loc target run of
           None \<Rightarrow> None
         | Some (reached, ws) \<Rightarrow>
             map_option (\<lambda>(a, rest). (a, ws @ rest)) (replay_runs utc_of io loc target runs (max achieved reached))))"

text \<open>What the witnesses vouch for and the server lacks; \<open>None\<close> when the server could not be asked.\<close>

fun holes :: "restore_io \<Rightarrow> string \<Rightarrow> binlog_witness list \<Rightarrow> (string \<times> binlog_witness) list option" where
  "holes io executed [] = Some []"
| "holes io executed (w # ws) =
     (case io_subtract io (w_gtids w) executed of
        None \<Rightarrow> None
      | Some missing \<Rightarrow> map_option ((@) (if missing \<noteq> [] then [(missing, w)] else [])) (holes io executed ws))"

definition completeness :: "restore_io \<Rightarrow> full_backup_ref \<Rightarrow> binlog_witness list \<Rightarrow> restore_error option" where
  "completeness io full ws =
     (case io_executed io of
        None \<Rightarrow> Some Broken
      | Some executed \<Rightarrow>
          (case holes io executed ws of
             None \<Rightarrow> Some Broken
           | Some (h # hs) \<Rightarrow> Some (Refusal ''gtid-hole'')
           | Some [] \<Rightarrow>
               (case gtid_purged (meta full) of
                  None \<Rightarrow> None
                | Some purged \<Rightarrow>
                    if purged = [] then None
                    else (case io_contains io executed purged of
                        None \<Rightarrow> Some Broken
                      | Some True \<Rightarrow> None
                      | Some False \<Rightarrow> Some (Refusal ''dump-incomplete'')))))"

definition replay_shared_history :: "calendar \<Rightarrow> restore_io \<Rightarrow> s3_location \<Rightarrow> full_backup_ref \<Rightarrow> int \<Rightarrow> u64 \<Rightarrow> restore_error + int" where
  "replay_shared_history utc_of io loc full target interval =
     (case io_list io (base_prefix loc) of
        None \<Rightarrow> Inl Broken
      | Some keys \<Rightarrow>
          (case replay_runs utc_of io loc target (plan_runs loc full keys) (taken full) of
             None \<Rightarrow> Inl Broken
           | Some (achieved, ws) \<Rightarrow>
               (case completeness io full ws of
                  Some e \<Rightarrow> Inl e
                | None \<Rightarrow> verify_achieved_point achieved target interval)))"

section \<open>Runs past a gap\<close>

lemma concat_append_last: "runs \<noteq> [] \<Longrightarrow> concat (butlast runs @ [last runs @ [name]]) = concat runs @ [name]"
  by (cases runs rule: rev_cases) simp_all

lemma concat_split_runs: "concat (split_runs files runs prev) = concat runs @ files"
proof (induction files runs prev rule: split_runs.induct)
  case (2 name later runs prev)
  show ?case
  proof (cases "hole prev name \<or> runs = []")
    case True
    then show ?thesis using 2(1) [OF True] by simp
  next
    case False
    have "concat (split_runs (name # later) runs prev) = concat (split_runs later (butlast runs @ [last runs @ [name]]) (binlog_seq name))"
      using False by simp
    also have "\<dots> = concat (butlast runs @ [last runs @ [name]]) @ later" by (rule 2(2) [OF False])
    also have "\<dots> = concat runs @ name # later" using concat_append_last [of runs name] False by simp
    finally show ?thesis .
  qed
qed simp

lemma split_runs_consecutive:
  assumes "numbered files" and "list_all (\<lambda>r. r \<noteq> [] \<and> consecutive r) runs"
    and "prev = (if runs = [] then None else Some (seq_of (last (last runs))))"
  shows "list_all (\<lambda>r. r \<noteq> [] \<and> consecutive r) (split_runs files runs prev)"
  using assms
proof (induction files runs prev rule: split_runs.induct)
  case (2 name later runs prev)
  have f: "binlog_seq name = Some (seq_of name)" and n: "numbered later"
    using 2(3) by (simp_all add: numbered_def seq_of_def list_all_iff)
  show ?case
  proof (cases "hole prev name \<or> runs = []")
    case True
    then show ?thesis using 2(1) [OF True n] 2(4) f by simp
  next
    case False
    have l: "last runs \<noteq> []" "consecutive (last runs)"
      using 2(4) False by (simp_all add: list_all_iff)
    have b: "list_all (\<lambda>r. r \<noteq> [] \<and> consecutive r) (butlast runs)"
      using 2(4) by (auto simp: list_all_iff dest: in_set_butlastD)
    have p: "prev = Some (seq_of (last (last runs)))" using False 2(5) by simp
    have "\<not> hole (Some (seq_of (last (last runs)))) name" using False unfolding p by blast
    then have "consecutive (last runs @ [name])" using f l by (simp add: consecutive_snoc hole_numbered)
    then show ?thesis using b 2(2) [OF False n] False f by simp
  qed
qed simp

lemma runs_past_gap_files:
  assumes "numbered files" and "next \<in> set files"
  shows "concat (binlog_runs_past_gap files next) = dropWhile (\<lambda>f. f \<noteq> next) (sort_key seq_of files)"
    and "list_all (\<lambda>r. r \<noteq> [] \<and> consecutive r) (binlog_runs_past_gap files next)"
proof -
  obtain i where i: "position (\<lambda>f. f = next) (sort_key seq_of files) = Some i"
    using position_eq_Some [of "next" "sort_key seq_of files"] assms(2) by auto
  have r: "binlog_runs_past_gap files next = split_runs (drop i (sort_key seq_of files)) [] None"
    using i assms(1) by (simp add: binlog_runs_past_gap_def sort_numbered)
  show "concat (binlog_runs_past_gap files next) = dropWhile (\<lambda>f. f \<noteq> next) (sort_key seq_of files)"
    unfolding r concat_split_runs using position_drop [OF i] by simp
  have "numbered (drop i (sort_key seq_of files))"
    using assms(1) by (auto simp: numbered_def list_all_iff dest: in_set_dropD)
  then show "list_all (\<lambda>r. r \<noteq> [] \<and> consecutive r) (binlog_runs_past_gap files next)"
    unfolding r by (rule split_runs_consecutive) simp_all
qed

section \<open>Every file is replayed\<close>

lemma run_files_past_gap: "concat (map run_files (runs_past_gap u files (Some g))) = concat (binlog_runs_past_gap files (next_present g))"
proof -
  have "map run_files (runs_past_gap u files (Some g)) = map snd (List.enumerate 0 (binlog_runs_past_gap files (next_present g)))"
    unfolding runs_past_gap_def option.case(2) map_map by (rule map_cong) auto
  then show ?thesis by simp
qed

lemma numbered_inj_distinct: "distinct files \<Longrightarrow> inj_on seq_of (insert s (set files)) \<Longrightarrow> distinct (map seq_of files)"
  by (auto simp: distinct_map intro: inj_on_subset)

lemma find_past_seq:
  assumes "numbered files" and "find (past_seq s) (sort_key seq_of files) = Some n"
  shows "n \<in> set files" and "{f \<in> set files. seq_of n \<le> seq_of f} = {f \<in> set files. s < seq_of f}"
proof -
  let ?xs = "sort_key seq_of files"
  obtain i where i: "i < length ?xs" "past_seq s (?xs ! i)" "n = ?xs ! i" "\<And>j. j < i \<Longrightarrow> \<not> past_seq s (?xs ! j)"
    using assms(2) by (auto simp: find_Some_iff)
  have past: "past_seq s f \<longleftrightarrow> s < seq_of f" if "f \<in> set files" for f
    using numbered_seq [OF assms(1) that] by (simp add: past_seq_def)
  show mem: "n \<in> set files" using nth_mem [OF i(1)] i(3) by simp
  have "seq_of n \<le> seq_of f" if f: "f \<in> set files" "s < seq_of f" for f
  proof -
    obtain k where k: "k < length ?xs" "f = ?xs ! k" using f(1) by (metis in_set_conv_nth set_sort)
    have "i \<le> k" using i(4) [of k] past [OF f(1)] f(2) k(2) by (metis linorder_not_less)
    then have "map seq_of ?xs ! i \<le> map seq_of ?xs ! k" using k(1) by (intro sorted_nth_mono) simp_all
    then show ?thesis using i(1,3) k by simp
  qed
  moreover have "s < seq_of n" using i(2,3) past [OF mem] by simp
  ultimately show "{f \<in> set files. seq_of n \<le> seq_of f} = {f \<in> set files. s < seq_of f}" by fastforce
qed

lemma dropWhile_hd:
  assumes "distinct (xs @ ys)" and "ys \<noteq> []"
  shows "dropWhile (\<lambda>f. f \<noteq> hd ys) (xs @ ys) = ys"
proof -
  have "hd ys \<notin> set xs" using assms by (cases ys) auto
  then have "dropWhile (\<lambda>f. f \<noteq> hd ys) (xs @ ys) = dropWhile (\<lambda>f. f \<noteq> hd ys) ys"
    by (intro dropWhile_append2) auto
  then show ?thesis using assms(2) by (cases ys) auto
qed

text \<open>The plan's run and, past its gap, the further runs: together every file from the start on.\<close>

lemma plan_covers:
  assumes n: "numbered files" and d: "distinct files" and inj: "inj_on seq_of (insert start (set files))"
    and s: "binlog_seq start = Some (seq_of start)"
  shows "set (replay_run (binlogs_to_replay files start)) \<union>
      set (concat (map run_files (runs_past_gap u files (replay_gap (binlogs_to_replay files start))))) =
     {f \<in> set files. seq_of start \<le> seq_of f}"
proof (cases "start \<in> set files")
  case True
  define fs where "fs = dropWhile (\<lambda>f. f \<noteq> start) (sort_key seq_of files)"
  note ds = numbered_inj_distinct [OF d inj]
  note fs = sorted_from_start [OF ds True, folded fs_def]
  have nf: "numbered fs" using n fs(1) by (auto simp: numbered_def list_all_iff)
  have plan: "binlogs_to_replay files start = replay_from fs [] None"
    using binlogs_to_replay_present [OF n True] by (simp add: fs_def)
  obtain run rest where r: "fs = run @ rest" "replay_run (replay_from fs [] None) = run"
    "ends_run run rest (replay_gap (replay_from fs [] None))"
    using replay_from_run [OF nf, of "[]"] unfolding prev_of_def by auto
  have all: "sort_key seq_of files = takeWhile (\<lambda>f. f \<noteq> start) (sort_key seq_of files) @ run @ rest"
    unfolding r(1) [symmetric] fs_def by (simp only: takeWhile_dropWhile_id)
  have "set (concat (map run_files (runs_past_gap u files (replay_gap (replay_from fs [] None))))) = set rest"
  proof (cases "replay_gap (replay_from fs [] None)")
    case None
    then show ?thesis using r(3) by (simp add: ends_run_def runs_past_gap_def)
  next
    case (Some g)
    then have g: "rest \<noteq> []" "next_present g = hd rest" using r(3) by (simp_all add: ends_run_def)
    have "hd rest \<in> set fs" unfolding r(1) using g(1) by simp
    then have mem: "next_present g \<in> set files" unfolding fs(1) g(2) by blast
    have dall: "distinct ((takeWhile (\<lambda>f. f \<noteq> start) (sort_key seq_of files) @ run) @ rest)"
      unfolding append.assoc using d by (simp only: all [symmetric] distinct_sort)
    have all3: "sort_key seq_of files = (takeWhile (\<lambda>f. f \<noteq> start) (sort_key seq_of files) @ run) @ rest"
      unfolding append.assoc by (rule all)
    have "dropWhile (\<lambda>f. f \<noteq> hd rest) (sort_key seq_of files) = rest"
      by (subst all3) (rule dropWhile_hd [OF dall g(1)])
    then have "concat (binlog_runs_past_gap files (next_present g)) = rest"
      using runs_past_gap_files(1) [OF n mem] by (simp only: g(2))
    then show ?thesis by (simp only: Some run_files_past_gap)
  qed
  then show ?thesis using fs(1) r(1,2) by (simp add: plan)
next
  case False
  have "position (\<lambda>f. f = start) (sort_key seq_of files) = None" using False by (auto simp: position_None)
  then have plan: "binlogs_to_replay files start = \<lparr>replay_run = [],
      replay_gap = map_option (\<lambda>n. \<lparr>gap_after = [], next_present = n\<rparr>) (find (past_seq (seq_of start)) (sort_key seq_of files))\<rparr>"
    using n s by (simp add: binlogs_to_replay_def sort_numbered)
  have strict: "{f \<in> set files. seq_of start \<le> seq_of f} = {f \<in> set files. seq_of start < seq_of f}"
    using inj False by (auto simp: inj_on_def order.order_iff_strict)
  show ?thesis
  proof (cases "find (past_seq (seq_of start)) (sort_key seq_of files)")
    case None
    then have "{f \<in> set files. seq_of start < seq_of f} = {}"
      using numbered_seq [OF n] by (auto simp: find_None_iff past_seq_def)
    then show ?thesis unfolding strict by (simp add: plan None runs_past_gap_def)
  next
    case (Some g)
    note p = find_past_seq [OF n Some]
    show ?thesis
      unfolding strict plan Some option.map(2) binlog_replay_plan.simps run_files_past_gap binlog_gap.simps
        runs_past_gap_files(1) [OF n p(1)]
      using sorted_from_start(1) [OF numbered_inj_distinct [OF d inj] p(1)] p(2) by simp
  qed
qed

definition tidy :: "string list \<Rightarrow> bool" where
  "tidy names \<longleftrightarrow> numbered names \<and> distinct names \<and> inj_on seq_of (set names)"

lemma run_uuid_past_gap: "r \<in> set (runs_past_gap u files gap) \<Longrightarrow> run_uuid r = u"
  by (auto simp: runs_past_gap_def split: option.splits)

lemma run_uuid_own: "r \<in> set (own_runs full own) \<Longrightarrow> run_uuid r = lineage_uuid full"
  by (auto simp: own_runs_def Let_def dest: run_uuid_past_gap)

lemma run_uuid_lineage: "r \<in> set (lineage_runs u listed) \<Longrightarrow> run_uuid r = u"
  by (auto simp: lineage_runs_def Let_def split: list.splits if_splits dest: run_uuid_past_gap)

lemma lineage_runs_cover:
  assumes "tidy listed"
  shows "(\<Union>r \<in> set (lineage_runs u listed). set (run_files r)) = set listed"
proof (cases "sort_key seq_of listed")
  case Nil
  then have "listed = []" by (metis length_0_conv length_sort)
  then show ?thesis by (simp add: lineage_runs_def)
next
  case (Cons first rest)
  let ?s = "sort_key seq_of listed"
  have names: "sort_by binlog_name_cmp listed = first # rest"
    using assms Cons by (simp add: tidy_def sort_numbered)
  have set_s: "set (first # rest) = set listed" using Cons by (metis set_sort)
  then have first: "first \<in> set listed" by auto
  have n: "numbered (first # rest)"
    unfolding numbered_def list_all_iff set_s using assms by (simp add: tidy_def numbered_def list_all_iff)
  have d: "distinct (first # rest)" unfolding Cons [symmetric] distinct_sort using assms by (simp add: tidy_def)
  have inj: "inj_on seq_of (insert first (set (first # rest)))"
    unfolding set_s insert_absorb [OF first] using assms by (simp add: tidy_def)
  have sq: "binlog_seq first = Some (seq_of first)" using assms first numbered_seq by (auto simp: tidy_def)
  have "sorted (map seq_of (first # rest))" unfolding Cons [symmetric] by simp
  then have least: "{f \<in> set (first # rest). seq_of first \<le> seq_of f} = set (first # rest)" by auto
  have "(\<Union>r \<in> set (lineage_runs u listed). set (run_files r)) =
      set (replay_run (binlogs_to_replay (first # rest) first)) \<union>
      set (concat (map run_files (runs_past_gap u (first # rest) (replay_gap (binlogs_to_replay (first # rest) first)))))"
    unfolding lineage_runs_def Let_def names list.case by auto
  then have "(\<Union>r \<in> set (lineage_runs u listed). set (run_files r)) = set (first # rest)"
    unfolding plan_covers [OF n d inj sq] least .
  then show ?thesis unfolding set_s .
qed

lemma own_runs_cover:
  assumes "numbered own" and "distinct own" and "inj_on seq_of (insert (coordinate full) (set own))"
    and "binlog_seq (coordinate full) \<noteq> None"
  shows "(\<Union>r \<in> set (own_runs full own). set (run_files r)) = {f \<in> set own. seq_of (coordinate full) \<le> seq_of f}"
proof -
  have sq: "binlog_seq (coordinate full) = Some (seq_of (coordinate full))" using assms(4) by (auto simp: seq_of_def)
  have "(\<Union>r \<in> set (own_runs full own). set (run_files r)) =
      set (replay_run (binlogs_to_replay own (coordinate full))) \<union>
      set (concat (map run_files (runs_past_gap (lineage_uuid full) own (replay_gap (binlogs_to_replay own (coordinate full))))))"
    unfolding own_runs_def Let_def by auto
  then show ?thesis unfolding plan_covers [OF assms(1-3) sq] .
qed

definition tidy_archive :: "s3_location \<Rightarrow> string list \<Rightarrow> full_backup_ref \<Rightarrow> bool" where
  "tidy_archive loc keys full \<longleftrightarrow> list_all (\<lambda>u. tidy (names_of loc keys u)) (by_lineage loc keys) \<and>
     binlog_seq (coordinate full) \<noteq> None \<and>
     inj_on seq_of (insert (coordinate full) (set (names_of loc keys (lineage_uuid full))))"

text \<open>The files a restore of the backup can need: its own lineage from the coordinate on, the others whole.\<close>

definition owed :: "s3_location \<Rightarrow> string list \<Rightarrow> full_backup_ref \<Rightarrow> string \<Rightarrow> string \<Rightarrow> bool" where
  "owed loc keys full u name \<longleftrightarrow> name \<in> set (names_of loc keys u) \<and>
     (u \<noteq> lineage_uuid full \<or> seq_of (coordinate full) \<le> seq_of name)"

lemma listed_lineage: "name \<in> set (names_of loc keys u) \<Longrightarrow> u \<in> set (by_lineage loc keys)"
  by (auto simp: names_of_def by_lineage_def in_map_filter)

lemma owed_in_a_run:
  assumes "tidy_archive loc keys full" and "owed loc keys full u name"
  obtains r where "r \<in> set (plan_runs loc full keys)" and "run_uuid r = u" and "name \<in> set (run_files r)"
proof -
  have u: "u \<in> set (by_lineage loc keys)" and mem: "name \<in> set (names_of loc keys u)"
    using assms(2) listed_lineage by (auto simp: owed_def)
  have t: "tidy (names_of loc keys u)" using assms(1) u by (simp add: tidy_archive_def list_all_iff)
  show ?thesis
  proof (cases "u = lineage_uuid full")
    case True
    then have "name \<in> {f \<in> set (names_of loc keys u). seq_of (coordinate full) \<le> seq_of f}"
      using assms(2) mem by (simp add: owed_def)
    also have "\<dots> = (\<Union>r \<in> set (own_runs full (names_of loc keys u)). set (run_files r))"
      using own_runs_cover [of "names_of loc keys u" full] t assms(1) True by (simp add: tidy_archive_def tidy_def)
    finally obtain r where r: "r \<in> set (own_runs full (names_of loc keys u))" "name \<in> set (run_files r)" by blast
    then have "r \<in> set (plan_runs loc full keys)" using True by (simp add: plan_runs_def)
    then show ?thesis using that r run_uuid_own [OF r(1)] True by blast
  next
    case False
    obtain r where r: "r \<in> set (lineage_runs u (names_of loc keys u))" "name \<in> set (run_files r)"
      using lineage_runs_cover [OF t, of u] mem by blast
    then have "r \<in> set (plan_runs loc full keys)" using False u by (auto simp: plan_runs_def)
    then show ?thesis using that r run_uuid_lineage [OF r(1)] by blast
  qed
qed

section \<open>What a completed replay proves\<close>

text \<open>A run that replayed: its files were read, and each spoke when it was opened before the target.\<close>

definition spoke :: "restore_io \<Rightarrow> s3_location \<Rightarrow> int \<Rightarrow> string \<Rightarrow> string \<Rightarrow> binlog_witness list \<Rightarrow> bool" where
  "spoke io loc target u name ws \<longleftrightarrow>
     (\<exists>bytes head. io_download io (binlog_key loc u name) = Some bytes \<and> read_binlog_head bytes = Some head \<and>
        set (testimony u name target head) \<subseteq> set ws)"

lemma spoke_mono: "spoke io loc target u name ws \<Longrightarrow> set ws \<subseteq> set ws' \<Longrightarrow> spoke io loc target u name ws'"
  unfolding spoke_def by blast

lemma stage_files_testimony:
  assumes "stage_files io loc u target names = Some ws" and "name \<in> set names"
  shows "spoke io loc target u name ws"
  using assms
proof (induction names arbitrary: ws)
  case (Cons n names)
  obtain head rest where h: "Option.bind (io_download io (binlog_key loc u n)) read_binlog_head = Some head"
    "stage_files io loc u target names = Some rest" "ws = testimony u n target head @ rest"
    using Cons.prems(1) by (auto split: option.splits)
  show ?case
  proof (cases "name = n")
    case True
    obtain bytes where "io_download io (binlog_key loc u n) = Some bytes" "read_binlog_head bytes = Some head"
      using h(1) by (auto simp: bind_eq_Some_conv)
    then show ?thesis using h(3) True unfolding spoke_def by auto
  next
    case False
    then have "spoke io loc target u name rest" using Cons.IH [OF h(2)] Cons.prems(2) by simp
    then show ?thesis by (rule spoke_mono) (simp add: h(3))
  qed
qed simp

lemma replay_runs_testimony:
  assumes "replay_runs utc_of io loc target runs a = Some (achieved, ws)" and "r \<in> set runs" and "name \<in> set (run_files r)"
  shows "spoke io loc target (run_uuid r) name ws"
  using assms
proof (induction runs arbitrary: a ws)
  case (Cons q runs)
  show ?case
  proof (cases "run_files q = []")
    case True
    then have "r \<in> set runs" using Cons.prems(2,3) by auto
    moreover have "replay_runs utc_of io loc target runs a = Some (achieved, ws)" using Cons.prems(1) True by simp
    ultimately show ?thesis using Cons.IH Cons.prems(3) by blast
  next
    case False
    obtain reached ws1 rest where q: "replay_one_run utc_of io loc target q = Some (reached, ws1)"
      "replay_runs utc_of io loc target runs (max a reached) = Some (achieved, rest)" "ws = ws1 @ rest"
      using Cons.prems(1) False by (auto split: option.splits)
    show ?thesis
    proof (cases "r = q")
      case True
      have "stage_files io loc (run_uuid q) target (run_files q) = Some ws1"
        using q(1) by (auto simp: replay_one_run_def split: if_splits option.splits)
      from stage_files_testimony [OF this] have "spoke io loc target (run_uuid r) name ws1"
        using Cons.prems(3) True by simp
      then show ?thesis by (rule spoke_mono) (simp add: q(3))
    next
      case False
      then have "r \<in> set runs" using Cons.prems(2) by simp
      from Cons.IH [OF q(2) this Cons.prems(3)] show ?thesis by (rule spoke_mono) (simp add: q(3))
    qed
  qed
qed simp

lemma replay_runs_applied:
  assumes "replay_runs utc_of io loc target runs a = Some (achieved, ws)" and "r \<in> set runs" and "run_files r \<noteq> []"
  shows "io_apply io (start_position r) (map (binlog_key loc (run_uuid r)) (run_files r)) (stop_second target)"
  using assms
proof (induction runs arbitrary: a ws)
  case (Cons q runs)
  show ?case
  proof (cases "run_files q = []")
    case True
    then have "r \<in> set runs" using Cons.prems(2,3) by auto
    then show ?thesis using Cons.IH Cons.prems(1,3) True by simp
  next
    case False
    obtain reached ws1 rest where q: "replay_one_run utc_of io loc target q = Some (reached, ws1)"
      "replay_runs utc_of io loc target runs (max a reached) = Some (achieved, rest)"
      using Cons.prems(1) False by (auto split: option.splits)
    show ?thesis
    proof (cases "r = q")
      case True
      then show ?thesis using q(1) by (auto simp: replay_one_run_def replay_downloaded_def split: if_splits option.splits)
    next
      case False
      then show ?thesis using Cons.IH [OF q(2)] Cons.prems(2,3) by simp
    qed
  qed
qed simp

lemma start_past_gap: "r \<in> set (runs_past_gap u files gap) \<Longrightarrow> start_position r = None"
  by (auto simp: runs_past_gap_def split: option.splits)

text \<open>Only a run of the backup's own lineage starts at a position, the backup's.\<close>

lemma start_of_run:
  assumes "r \<in> set (plan_runs loc full keys)"
  shows "start_position r = None \<or> start_position r = Some (binlog_pos (meta full)) \<and> run_uuid r = lineage_uuid full"
proof -
  have "start_position r = None" if "r \<in> set (lineage_runs u listed)" for u listed
    using that start_past_gap by (auto simp: lineage_runs_def Let_def split: list.splits if_splits)
  moreover have "start_position r = None \<or> start_position r = Some (binlog_pos (meta full)) \<and> run_uuid r = lineage_uuid full"
    if "r \<in> set (own_runs full own)" for own
    using that start_past_gap by (auto simp: own_runs_def Let_def)
  moreover have "(\<exists>own. r \<in> set (own_runs full own)) \<or> (\<exists>u listed. r \<in> set (lineage_runs u listed))"
    using assms unfolding plan_runs_def by auto
  ultimately show ?thesis by blast
qed

lemma no_holes: "holes io executed ws = Some [] \<Longrightarrow> w \<in> set ws \<Longrightarrow> io_subtract io (w_gtids w) executed = Some []"
  by (induction ws) (auto split: option.splits if_splits)

lemma shared_completes:
  assumes "replay_shared_history utc_of io loc full target interval = Inr achieved" and "io_list io (base_prefix loc) = Some keys"
  obtains ws executed where "replay_runs utc_of io loc target (plan_runs loc full keys) (taken full) = Some (achieved, ws)"
    and "io_executed io = Some executed" and "holes io executed ws = Some []"
    and "achieved_point_within_bound target achieved (achieved_lag_bound_seconds interval)"
    and "\<And>p. gtid_purged (meta full) = Some p \<Longrightarrow> p \<noteq> [] \<Longrightarrow> io_contains io executed p = Some True"
  using assms
  by (auto simp: replay_shared_history_def completeness_def verify_achieved_point_def
      split: option.splits list.splits bool.splits if_splits)

text \<open>
  C19: A completed restore of a shared history is complete. In an archive whose lineages have numbered
  files, one per number, every file owed to the restore (the backup's lineage from its coordinate
  on, the other lineages whole, also past a gap) was fetched, and replayed: it was among the files
  of one call of the tool that replayed them all up to the second of the target, from their start
  or, in the backup's own lineage, from the backup's position. Each file that was opened before the second of the target found every transaction its server had executed by
  then in the restored server; so did the set the backup declares. The point reached lies within
  the rotation bound. The meaning of the GTID sets is the server's own; all that is used of it is
  that an empty difference means inclusion.
\<close>

theorem shared_restore_is_complete:
  assumes "replay_shared_history utc_of io loc full target interval = Inr achieved"
    and "io_list io (base_prefix loc) = Some keys" and "tidy_archive loc keys full"
    and subtract: "\<And>a b. io_subtract io a b = Some [] \<Longrightarrow> txs a \<subseteq> txs b"
    and contains: "\<And>a b. io_contains io a b = Some True \<Longrightarrow> txs b \<subseteq> txs a"
  shows "achieved_point_within_bound target achieved (achieved_lag_bound_seconds interval) \<and>
    (\<exists>executed. io_executed io = Some executed \<and>
      (\<forall>u name. owed loc keys full u name \<longrightarrow>
        (\<exists>start files. name \<in> set files \<and> io_apply io start (map (binlog_key loc u) files) (target div ns_per_s) \<and>
          (start = None \<or> start = Some (binlog_pos (meta full)) \<and> u = lineage_uuid full)) \<and>
        (\<exists>bytes head. io_download io (binlog_key loc u name) = Some bytes \<and> read_binlog_head bytes = Some head \<and>
          (binlog_opened_before_cutoff (created_at head) target \<and> previous_gtids head \<noteq> [] \<longrightarrow>
             txs (previous_gtids head) \<subseteq> txs executed))) \<and>
      (case gtid_purged (meta full) of Some (c # p) \<Rightarrow> txs (c # p) \<subseteq> txs executed | _ \<Rightarrow> True))"
proof -
  obtain ws executed where s: "replay_runs utc_of io loc target (plan_runs loc full keys) (taken full) = Some (achieved, ws)"
    "io_executed io = Some executed" "holes io executed ws = Some []"
    "achieved_point_within_bound target achieved (achieved_lag_bound_seconds interval)"
    "\<And>p. gtid_purged (meta full) = Some p \<Longrightarrow> p \<noteq> [] \<Longrightarrow> io_contains io executed p = Some True"
    using shared_completes [OF assms(1,2)] by metis
  have "\<exists>bytes head. io_download io (binlog_key loc u name) = Some bytes \<and> read_binlog_head bytes = Some head \<and>
      (binlog_opened_before_cutoff (created_at head) target \<and> previous_gtids head \<noteq> [] \<longrightarrow>
         txs (previous_gtids head) \<subseteq> txs executed)"
    if owed: "owed loc keys full u name" for u name
  proof -
    obtain r where r: "r \<in> set (plan_runs loc full keys)" "run_uuid r = u" "name \<in> set (run_files r)"
      by (rule owed_in_a_run [OF assms(3) owed])
    obtain bytes head where h: "io_download io (binlog_key loc u name) = Some bytes" "read_binlog_head bytes = Some head"
      "set (testimony u name target head) \<subseteq> set ws"
      using replay_runs_testimony [OF s(1) r(1,3)] unfolding r(2) spoke_def by blast
    have "txs (previous_gtids head) \<subseteq> txs executed"
      if "binlog_opened_before_cutoff (created_at head) target \<and> previous_gtids head \<noteq> []"
      using that h(3) no_holes [OF s(3), of "\<lparr>w_uuid = u, w_file = name, w_gtids = previous_gtids head\<rparr>"]
      by (intro subtract) (simp add: testimony_def)
    then show ?thesis using h(1,2) by blast
  qed
  moreover have "case gtid_purged (meta full) of Some (c # p) \<Rightarrow> txs (c # p) \<subseteq> txs executed | _ \<Rightarrow> True"
    using s(5) contains by (auto split: option.split list.split)
  moreover have "\<exists>start files. name \<in> set files \<and> io_apply io start (map (binlog_key loc u) files) (target div ns_per_s) \<and>
      (start = None \<or> start = Some (binlog_pos (meta full)) \<and> u = lineage_uuid full)"
    if owed: "owed loc keys full u name" for u name
  proof -
    obtain r where r: "r \<in> set (plan_runs loc full keys)" "run_uuid r = u" "name \<in> set (run_files r)"
      by (rule owed_in_a_run [OF assms(3) owed])
    then have "run_files r \<noteq> []" by auto
    from replay_runs_applied [OF s(1) r(1) this] show ?thesis
      using r start_of_run [OF r(1)] by (intro exI [of _ "start_position r"] exI [of _ "run_files r"]) (simp add: stop_second_def)
  qed
  ultimately show ?thesis using s(2,4) by blast
qed

section \<open>Sample archive with a hole\<close>

text \<open>
  One lineage of two files: \<open>b.1\<close>, opened at second 5, whose last event is stamped
  00:00:06, and \<open>b.4\<close>, opened two hours after the epoch, whose last event is
  stamped 02:00:10. The files between them are missing.
\<close>

definition sample_log :: "nat \<Rightarrow> byte list" where
  "sample_log ts = BINLOG_MAGIC @ encode_event ts FORMAT_DESCRIPTION_EVENT [1, 0, 0, 0] [0, 0, 0, 0, 0, 0] [4, 0] @
     encode_event ts PREVIOUS_GTIDS_LOG_EVENT [1, 0, 0, 0] [0, 0, 0, 0, 0, 0]
       (encode_gtid_set [(zero_uuid, [(1, 6)])] @ [9, 9, 9, 9]) @ []"

definition sample_gtids :: string where "sample_gtids = entry_text (zero_uuid, [(1, 6)])"

lemma sample_gtids_ne [simp]: "sample_gtids \<noteq> []"
  by (simp add: sample_gtids_def entry_text_def format_binlog_uuid_def Let_def)

lemma length_encode_event: "length (encode_event ts ty server tail payload) = 9 + length server + length tail + length payload"
  by (simp add: encode_event_def)

lemma length_sample_gtid_set: "length (encode_gtid_set [(zero_uuid, [(1, 6)])]) = 48"
  by (simp add: encode_gtid_set_def encode_entry_def encode_intervals_def zero_uuid_def)

lemma read_sample_log:
  assumes "ts < 2 ^ 32"
  shows "read_binlog_head (sample_log ts) = Some \<lparr>created_at = int ts * ns_per_s, previous_gtids = sample_gtids\<rparr>"
proof -
  have "length (sample_log ts) \<le> BINLOG_HEAD_READ_BYTES"
    by (simp add: sample_log_def length_encode_event length_sample_gtid_set [simplified] BINLOG_HEAD_READ_BYTES_def BINLOG_MAGIC_def)
  then have "read_binlog_head (sample_log ts) = parse_binlog_head (sample_log ts)" by (simp add: read_binlog_head_def)
  also have "\<dots> = Some \<lparr>created_at = int ts * ns_per_s, previous_gtids = join '','' (map entry_text [(zero_uuid, [(1, 6)])])\<rparr>"
    unfolding sample_log_def using assms
    by (intro parse_encoded_head) (simp_all add: entry_ok_def zero_uuid_def length_sample_gtid_set [unfolded zero_uuid_def, simplified])
  finally show ?thesis by (simp add: sample_gtids_def)
qed

definition day_clock :: calendar where
  "day_clock y mo d h m s = Some (int (h * 3600 + m * 60 + s))"

definition hole_keys :: "string list" where
  "hole_keys = [''server-u/binlog/b.1'', ''server-u/binlog/b.4'']"

definition hole_io :: restore_io where
  "hole_io = \<lparr>io_list = (\<lambda>prefix. Some hole_keys), io_scratch = True,
     io_download = (\<lambda>k. if k = ''server-u/binlog/b.1'' then Some (sample_log 5)
       else if k = ''server-u/binlog/b.4'' then Some (sample_log 7200) else None),
     io_root = (\<lambda>u r. True), io_apply = (\<lambda>start files stop. True),
     io_events = (\<lambda>k. Some (if k = ''server-u/binlog/b.1'' then [event_header 70 1 1 0 0 6 ''1'']
       else [event_header 70 1 1 2 0 10 ''1''])),
     io_executed = Some sample_gtids, io_subtract = (\<lambda>a b. Some (if a = b then [] else a)), io_contains = (\<lambda>a b. Some (a = b))\<rparr>"

definition hole_full :: full_backup_ref where
  "hole_full = sample_full ''u'' ''server-u/full/x'' (5 * ns_per_s) ''b.1'' (Some sample_gtids)"

lemma hole_names: "names_of sample_loc hole_keys ''u'' = [''b.1'', ''b.4'']" "by_lineage sample_loc hole_keys = [''u'']"
  by code_simp+

lemma hole_plan: "binlogs_to_replay [''b.1'', ''b.4''] ''b.1'' =
    \<lparr>replay_run = [''b.1''], replay_gap = Some \<lparr>gap_after = ''b.1'', next_present = ''b.4''\<rparr>\<rparr>"
  by (simp add: binlogs_to_replay_def binlog_name_cmp_def cmp_lin_def sample_seqs hole_def)

lemma hole_runs_past: "binlog_runs_past_gap [''b.1'', ''b.4''] ''b.4'' = [[''b.4'']]"
  by (simp add: binlog_runs_past_gap_def binlog_name_cmp_def cmp_lin_def sample_seqs hole_def)

lemma hole_runs: "plan_runs sample_loc hole_full hole_keys =
    [\<lparr>run_uuid = ''u'', run_files = [''b.1''], start_position = Some 4, run_round = 0\<rparr>,
     \<lparr>run_uuid = ''u'', run_files = [''b.4''], start_position = None, run_round = 1\<rparr>]"
  by (simp add: plan_runs_def own_runs_def hole_full_def sample_full_def hole_names hole_plan runs_past_gap_def hole_runs_past)

lemma hole_keys_of: "binlog_key sample_loc ''u'' ''b.1'' = ''server-u/binlog/b.1''"
  "binlog_key sample_loc ''u'' ''b.4'' = ''server-u/binlog/b.4''" "binlog_prefix sample_loc ''u'' = ''server-u/binlog''"
  "map file_name hole_keys = [''b.1'', ''b.4'']"
  by code_simp+

lemma hole_events:
  "parse_binlog_event_header_utc day_clock (event_header 70 1 1 0 0 6 ''1'') = Some 6"
  "parse_binlog_event_header_utc day_clock (event_header 70 1 1 2 0 10 ''1'') = Some 7210"
  by (simp_all add: parse_event_header day_clock_def)

lemma hole_last_event:
  "last_binlog_event_time day_clock hole_io ''server-u/binlog/b.1'' = Some (6 * ns_per_s)"
  "last_binlog_event_time day_clock hole_io ''server-u/binlog/b.4'' = Some (7210 * ns_per_s)"
  by (simp_all add: last_binlog_event_time_def hole_io_def hole_events [simplified] map_filter_simps)

lemma hole_stage:
  "stage_files hole_io sample_loc ''u'' (3600 * ns_per_s) [''b.1''] = Some [\<lparr>w_uuid = ''u'', w_file = ''b.1'', w_gtids = sample_gtids\<rparr>]"
  "stage_files hole_io sample_loc ''u'' (3600 * ns_per_s) [''b.4''] = Some []"
  by (simp_all add: hole_keys_of hole_io_def read_sample_log testimony_def binlog_opened_before_cutoff_def ns_per_s_def)

lemma hole_runs_replayed:
  "replay_runs day_clock hole_io sample_loc (3600 * ns_per_s) (plan_runs sample_loc hole_full hole_keys) (taken hole_full) =
     Some (3600 * ns_per_s, [\<lparr>w_uuid = ''u'', w_file = ''b.1'', w_gtids = sample_gtids\<rparr>])"
  and hole_shared: "replay_shared_history day_clock hole_io sample_loc hole_full (3600 * ns_per_s) 0 = Inr (3600 * ns_per_s)"
  and hole_independent: "replay_binlogs day_clock hole_io sample_loc hole_full (3600 * ns_per_s) 0 = Inl gap_refusal"
  and hole_served: "replay_binlogs day_clock hole_io sample_loc hole_full (6 * ns_per_s) 0 = Inr (6 * ns_per_s)"
proof -
  have t: "taken hole_full = 5 * ns_per_s" "binlog_pos (meta hole_full) = 4" "lineage_uuid hole_full = ''u''"
    "binlog_file (meta hole_full) = ''b.1''" "gtid_purged (meta hole_full) = Some sample_gtids"
    by (simp_all add: hole_full_def sample_full_def)
  have io: "io_list hole_io prefix = Some hole_keys" "io_scratch hole_io" "io_root hole_io u r" "io_apply hole_io st fs sec"
    "io_executed hole_io = Some sample_gtids" "io_subtract hole_io x y = Some (if x = y then [] else x)"
    "io_contains hole_io x y = Some (x = y)" for prefix u r st fs sec x y
    by (simp_all add: hole_io_def)
  have fetched: "io_download hole_io ''server-u/binlog/b.1'' \<noteq> None" by (simp add: hole_io_def)
  have s: "(0::int) < ns_per_s" by (simp add: ns_per_s_def)
  have d: "replay_downloaded day_clock hole_io [''server-u/binlog/b.1''] (Some 4) (3600 * ns_per_s) =
      Some \<lparr>rp_achieved = 6 * ns_per_s, rp_last_event = 6 * ns_per_s\<rparr>"
    "replay_downloaded day_clock hole_io [''server-u/binlog/b.4''] None (3600 * ns_per_s) =
      Some \<lparr>rp_achieved = 3600 * ns_per_s, rp_last_event = 7210 * ns_per_s\<rparr>"
    using s by (simp_all add: replay_downloaded_def io hole_last_event)
  have one: "replay_one_run day_clock hole_io sample_loc (3600 * ns_per_s)
      \<lparr>run_uuid = ''u'', run_files = [''b.1''], start_position = Some 4, run_round = 0\<rparr> =
      Some (6 * ns_per_s, [\<lparr>w_uuid = ''u'', w_file = ''b.1'', w_gtids = sample_gtids\<rparr>])"
    "replay_one_run day_clock hole_io sample_loc (3600 * ns_per_s)
      \<lparr>run_uuid = ''u'', run_files = [''b.4''], start_position = None, run_round = Suc 0\<rparr> =
      Some (3600 * ns_per_s, [])"
    by (simp_all add: replay_one_run_def io hole_stage hole_keys_of d del: stage_files.simps)
  have runs: "replay_runs day_clock hole_io sample_loc (3600 * ns_per_s) (plan_runs sample_loc hole_full hole_keys) (5 * ns_per_s) =
      Some (3600 * ns_per_s, [\<lparr>w_uuid = ''u'', w_file = ''b.1'', w_gtids = sample_gtids\<rparr>])"
    using s by (simp add: hole_runs one)
  then show "replay_runs day_clock hole_io sample_loc (3600 * ns_per_s) (plan_runs sample_loc hole_full hole_keys) (taken hole_full) =
     Some (3600 * ns_per_s, [\<lparr>w_uuid = ''u'', w_file = ''b.1'', w_gtids = sample_gtids\<rparr>])" unfolding t .
  show "replay_shared_history day_clock hole_io sample_loc hole_full (3600 * ns_per_s) 0 = Inr (3600 * ns_per_s)"
    by (simp add: replay_shared_history_def io t runs completeness_def verify_achieved_point_def
        achieved_point_within_bound_def num_seconds_def i64_max_def)
  show "replay_binlogs day_clock hole_io sample_loc hole_full (3600 * ns_per_s) 0 = Inl gap_refusal"
    using s fetched by (simp add: replay_binlogs_def io t hole_plan hole_keys_of d gap_blocks_target_def)
  have "replay_downloaded day_clock hole_io [''server-u/binlog/b.1''] (Some 4) (6 * ns_per_s) =
      Some \<lparr>rp_achieved = 6 * ns_per_s, rp_last_event = 6 * ns_per_s\<rparr>"
    by (simp add: replay_downloaded_def io hole_last_event)
  then show "replay_binlogs day_clock hole_io sample_loc hole_full (6 * ns_per_s) 0 = Inr (6 * ns_per_s)"
    using fetched by (simp add: replay_binlogs_def io t hole_plan hole_keys_of gap_blocks_target_def verify_achieved_point_def
        achieved_point_within_bound_def num_seconds_def i64_max_def)
qed

text \<open>
  A target inside a hole. In an archive marked as a shared history, a restore to an hour after
  the epoch completes and reports the target itself as the point reached, with the hour from
  second 6 on in no file: the file after the hole was opened after the target, so it does not
  testify, but its last event, past the target, counts as the point reached. The replay of one
  lineage refuses the same archive.
\<close>

theorem target_inside_a_hole_completes:
  "replay_shared_history day_clock hole_io sample_loc hole_full (3600 * ns_per_s) 0 = Inr (3600 * ns_per_s) \<and>
   replay_binlogs day_clock hole_io sample_loc hole_full (3600 * ns_per_s) 0 = Inl gap_refusal"
  using hole_shared hole_independent ..

lemma hole_tidy: "tidy_archive sample_loc hole_keys hole_full"
  by (simp add: tidy_archive_def hole_names hole_full_def sample_full_def tidy_def numbered_def sample_seqs inj_on_def seq_of_def)

lemma shared_restore_is_complete_witness:
  "achieved_point_within_bound (3600 * ns_per_s) (3600 * ns_per_s) (achieved_lag_bound_seconds 0) \<and>
   (\<exists>executed. io_executed hole_io = Some executed \<and> sample_gtids \<in> (if executed = [] then {} else {executed}))"
proof -
  have "io_list hole_io (base_prefix sample_loc) = Some hole_keys" by (simp add: hole_io_def)
  define txs where "txs a = (if a = [] then {} else {a})" for a :: string
  have q: "io_subtract hole_io x y = Some [] \<Longrightarrow> txs x \<subseteq> txs y" "io_contains hole_io x y = Some True \<Longrightarrow> txs y \<subseteq> txs x" for x y
    by (auto simp: hole_io_def txs_def split: if_splits)
  note c = shared_restore_is_complete [where txs = txs, OF hole_shared \<open>io_list hole_io (base_prefix sample_loc) = Some hole_keys\<close> hole_tidy q]
  have p: "gtid_purged (meta hole_full) = Some sample_gtids" by (simp add: hole_full_def sample_full_def)
  obtain ch rest where g: "sample_gtids = ch # rest" by (cases sample_gtids) simp_all
  obtain executed where "achieved_point_within_bound (3600 * ns_per_s) (3600 * ns_per_s) (achieved_lag_bound_seconds 0)"
    "io_executed hole_io = Some executed"
    "case gtid_purged (meta hole_full) of Some (c # p) \<Rightarrow> txs (c # p) \<subseteq> txs executed | _ \<Rightarrow> True"
    using c by blast
  then show ?thesis by (auto simp: p g txs_def)
qed

section \<open>What an independent replay proves\<close>

text \<open>
  C20: A completed restore of one lineage covers its target. The point reached lies within the
  rotation bound, never past the target when something was replayed, and every file of the
  gap-free run was fetched. When the plan ended at a gap the target itself was reached: nothing
  of the bound's tolerance is granted to a missing file.
\<close>

theorem independent_restore_covers_its_target:
  assumes "replay_binlogs utc_of io loc full target interval = Inr achieved"
    and "io_list io (binlog_prefix loc (lineage_uuid full)) = Some keys"
  shows "let plan = binlogs_to_replay (map file_name keys) (coordinate full) in
    achieved_point_within_bound target achieved (achieved_lag_bound_seconds interval) \<and>
    (if replay_gap plan = None then True else target \<le> achieved) \<and>
    (if replay_run plan = [] then achieved = taken full
     else achieved \<le> target \<and> list_all (\<lambda>n. io_download io (binlog_key loc (lineage_uuid full) n) \<noteq> None) (replay_run plan))"
  using assms
  by (auto simp: replay_binlogs_def verify_achieved_point_def gap_blocks_target_def replay_downloaded_def Let_def list_all_iff
      split: if_splits option.splits)

lemma independent_restore_covers_its_target_witness:
  "achieved_point_within_bound (6 * ns_per_s) (6 * ns_per_s) (achieved_lag_bound_seconds 0)"
proof -
  have "io_list hole_io (binlog_prefix sample_loc (lineage_uuid hole_full)) = Some hole_keys" by (simp add: hole_io_def)
  from independent_restore_covers_its_target [OF hole_served this] show ?thesis by (simp add: Let_def)
qed

end
