(* ===== verification/Restore.thy ===== *)
theory Restore
  imports Restore_Replay
begin

text \<open>
  Restore on boot (\<open>restore.rs\<close> and its place in \<open>main.rs\<close>): the marker on
  the volume, the bounded and paced retries, one attempt from the choice of the full backup to
  the completed marker, and the boots of a standalone server around it. What the processes and
  the disk did is a record per attempt; the texts of errors are reduced to their kinds.
\<close>

section \<open>The marker\<close>

datatype restore_status = InProgress | Completed | Refused | Failed

record restore_marker =
  m_status :: restore_status
  m_target :: int
  m_achieved :: "int option"
  m_attempts :: nat

datatype marker_file = Absent | Unparseable | Present restore_marker

definition MAX_RESTORE_ATTEMPTS :: nat where "MAX_RESTORE_ATTEMPTS = 3"

definition recorded_attempts :: "marker_file \<Rightarrow> nat" where
  "recorded_attempts f = (case f of Present m \<Rightarrow> m_attempts m | _ \<Rightarrow> 0)"

definition retry_backoff_seconds :: "u64 \<Rightarrow> nat \<Rightarrow> u64" where
  "retry_backoff_seconds base n = (if n = 0 then 0 else sat_mul base (push_bit (min (n - 1) 16) 1))"

definition crashed_mid_restore :: "marker_file \<Rightarrow> bool" where
  "crashed_mid_restore f = (case f of Absent \<Rightarrow> False | Unparseable \<Rightarrow> True | Present m \<Rightarrow> m_status m \<noteq> Completed)"

lemma retry_backoff_exact:
  "unat (retry_backoff_seconds base (Suc n)) = min (unat base * 2 ^ min n 16) (2 ^ 64 - 1)"
proof -
  have "(2 :: nat) ^ min n 16 < 2 ^ 64" by (rule power_strict_increasing) simp_all
  moreover have "(push_bit (min n 16) 1 :: u64) = word_of_nat (2 ^ min n 16)" by (simp add: push_bit_of_1)
  ultimately have "unat (push_bit (min n 16) 1 :: u64) = 2 ^ min n 16"
    by (simp only: unat_of_nat) (simp add: take_bit_eq_mod)
  then show ?thesis by (simp add: retry_backoff_seconds_def unat_sat_mul)
qed

text \<open>The volume: the marker and the other entries of the data directory.\<close>

record restore_volume =
  rv_marker :: marker_file
  rv_entries :: "string list"

definition datadir_is_initialized :: "restore_volume \<Rightarrow> bool" where
  "datadir_is_initialized v \<longleftrightarrow> ''mysql'' \<in> set (rv_entries v)"

definition RUNTIME_LOCK_FILE :: string where "RUNTIME_LOCK_FILE = ''.railway-mysql-runtime.lock''"

fun sweep_entries :: "(string \<Rightarrow> bool) \<Rightarrow> string list \<Rightarrow> string list \<times> bool" where
  "sweep_entries removes [] = ([], True)"
| "sweep_entries removes (e # es) =
     (if e = RUNTIME_LOCK_FILE then (case sweep_entries removes es of (left, ok) \<Rightarrow> (e # left, ok))
      else if removes e then sweep_entries removes es
      else (e # es, False))"

definition reset_partial_restore :: "(string \<Rightarrow> bool) \<Rightarrow> restore_volume \<Rightarrow> restore_volume \<times> bool" where
  "reset_partial_restore removes v =
     (case sweep_entries removes (rv_entries v) of (left, ok) \<Rightarrow> (v\<lparr>rv_entries := left\<rparr>, ok))"

definition write_restore_marker ::
  "(restore_status \<Rightarrow> bool) \<Rightarrow> restore_status \<Rightarrow> int \<Rightarrow> int option \<Rightarrow> nat \<Rightarrow> restore_volume \<Rightarrow> restore_volume \<times> bool" where
  "write_restore_marker writes st target achieved attempt v =
     (if writes st
      then (v\<lparr>rv_marker := Present \<lparr>m_status = st, m_target = target, m_achieved = achieved, m_attempts = attempt\<rparr>\<rparr>, True)
      else (v, False))"

section \<open>One attempt\<close>

definition recover_config_refusal :: "s3_location \<Rightarrow> restore_error option" where
  "recover_config_refusal loc =
     (if check_bucket_shape ''BINLOG_RECOVER_FROM_BUCKET'' (bucket loc) \<noteq> None \<or>
         check_endpoint_shape ''BINLOG_RECOVER_FROM_ENDPOINT'' (endpoint loc) \<noteq> None
      then Some (Refusal ''recover-config'') else None)"

text \<open>Every readable backup of the bucket; one bad meta object drops that candidate only.\<close>

definition full_of_key ::
  "(byte list \<Rightarrow> full_backup_meta option) \<Rightarrow> (string \<Rightarrow> byte list option) \<Rightarrow> s3_location \<Rightarrow> string \<Rightarrow> full_backup_ref option" where
  "full_of_key parse get loc key =
     (if \<not> ends_with ''.meta.json'' key \<or> \<not> contains_str ''/full/'' key then None
      else
        (case server_uuid_from_key loc key of
           None \<Rightarrow> None
         | Some u \<Rightarrow>
             (case Option.bind (get key) parse of
                None \<Rightarrow> None
              | Some m \<Rightarrow>
                  map_option (\<lambda>stem. \<lparr>lineage_uuid = u, dump_key = stem @ ''.sql.gz'', meta = m\<rparr>)
                    (strip_suffix ''.meta.json'' key))))"

definition discover_fulls ::
  "(byte list \<Rightarrow> full_backup_meta option) \<Rightarrow> (string \<Rightarrow> byte list option) \<Rightarrow> (string \<Rightarrow> string list option) \<Rightarrow> s3_location \<Rightarrow>
     full_backup_ref list option" where
  "discover_fulls parse get list_keys loc =
     map_option (List.map_filter (full_of_key parse get loc)) (list_keys (base_prefix loc))"

definition is_loopback_bind :: "string \<Rightarrow> bool" where
  "is_loopback_bind value =
     (let entries = filter (\<lambda>e. e \<noteq> []) (map trim (split_on (CHR '','') value)) in
      entries \<noteq> [] \<and> list_all (\<lambda>e. e \<in> {''127.0.0.1'', ''::1'', ''localhost''}) entries)"

definition shared_history_restore_args :: "string list" where
  "shared_history_restore_args = [''--gtid-mode=ON_PERMISSIVE'', ''--enforce-gtid-consistency=ON'']"

definition restore_args :: "string list \<Rightarrow> bool \<Rightarrow> string list" where
  "restore_args own shared =
     own @ [''--bind-address=127.0.0.1'', ''--mysqlx=OFF'', ''--innodb-flush-log-at-trx-commit=0'', ''--sync-binlog=0'',
       ''--innodb-doublewrite=OFF'', ''--skip-log-bin'', ''--event-scheduler=DISABLED'', ''--max-allowed-packet=1073741824'']
     @ (if shared then shared_history_restore_args else [])"

record restore_attempt =
  a_own_args :: "string list"
  a_client :: bool
  a_parse :: "byte list \<Rightarrow> full_backup_meta option"
  a_shared_marker :: "bool option"
  a_spawn :: "string list \<Rightarrow> bool"
  a_first_entries :: "string list"
  a_first_write :: bool
  a_writes :: "restore_status \<Rightarrow> bool"
  a_ready :: bool
  a_bind :: "string option option"
  a_load :: "full_backup_ref \<Rightarrow> bool"
  a_left :: "string list"
  a_accounts :: "bool \<times> bool"
  a_io :: restore_io

text \<open>\<open>ensure_bound_to_loopback\<close>: an unreadable variable is let pass, a wider bind refused.\<close>

definition bind_refusal :: "string option option \<Rightarrow> restore_error option" where
  "bind_refusal answer =
     (case answer of
        None \<Rightarrow> None
      | Some None \<Rightarrow> Some (Refusal ''unsafe-bind'')
      | Some (Some addr) \<Rightarrow> if is_loopback_bind addr then None else Some (Refusal ''unsafe-bind''))"

definition replay_archive :: "calendar \<Rightarrow> restore_attempt \<Rightarrow> bool \<Rightarrow> s3_location \<Rightarrow> full_backup_ref \<Rightarrow> int \<Rightarrow> u64 \<Rightarrow> restore_error + int" where
  "replay_archive utc_of a shared =
     (if shared then replay_shared_history utc_of (a_io a) else replay_binlogs utc_of (a_io a))"

text \<open>What is decided before a server is started: the backup and whether the history is shared.\<close>

definition select_full :: "restore_attempt \<Rightarrow> s3_location \<Rightarrow> int \<Rightarrow> restore_error + (full_backup_ref \<times> bool)" where
  "select_full a loc target =
     (case recover_config_refusal loc of
        Some e \<Rightarrow> Inl e
      | None \<Rightarrow>
          if \<not> a_client a then Inl Broken
          else
            (case discover_fulls (a_parse a) (io_download (a_io a)) (io_list (a_io a)) loc of
               None \<Rightarrow> Inl Broken
             | Some fulls \<Rightarrow>
                 (case newest_qualifying_full fulls target of
                    None \<Rightarrow> Inl (Refusal ''no-full'')
                  | Some full \<Rightarrow>
                      if list_ex (\<lambda>f. gtid_purged (meta f) \<noteq> None) fulls then Inr (full, True)
                      else (case a_shared_marker a of None \<Rightarrow> Inl Broken | Some shared \<Rightarrow> Inr (full, shared)))))"

text \<open>From the in-progress marker on: the server is up, the backup loaded, the logs replayed.\<close>

definition load_and_replay ::
  "calendar \<Rightarrow> restore_attempt \<Rightarrow> bool \<Rightarrow> s3_location \<Rightarrow> full_backup_ref \<Rightarrow> int \<Rightarrow> u64 \<Rightarrow> restore_error + int" where
  "load_and_replay utc_of a shared loc full target interval =
     (if \<not> a_ready a then Inl Broken
      else
        (case bind_refusal (a_bind a) of
           Some e \<Rightarrow> Inl e
         | None \<Rightarrow>
             if \<not> a_load a full then Inl Broken
             else if \<not> fst (a_accounts a) then Inl Broken
             else
               (case replay_archive utc_of a shared loc full target interval of
                  Inl e \<Rightarrow> Inl e
                | Inr achieved \<Rightarrow> if \<not> snd (a_accounts a) then Inl Broken else Inr achieved)))"

definition run :: "calendar \<Rightarrow> config \<Rightarrow> restore_attempt \<Rightarrow> nat \<Rightarrow> restore_volume \<Rightarrow> restore_volume \<times> (restore_error + int)" where
  "run utc_of c a attempt v =
     (case (recovery_target_time c, restore_s3_location c) of
        (Some target, Some loc) \<Rightarrow>
          (case select_full a loc target of
             Inl e \<Rightarrow> (v, Inl e)
           | Inr (full, shared) \<Rightarrow>
               if \<not> a_spawn a (restore_args (a_own_args a) shared) then (v, Inl Broken)
               else
                 (let v0 = v\<lparr>rv_entries := a_first_entries a\<rparr> in
                  if \<not> a_first_write a then (v0, Inl Broken)
                  else
                    (case write_restore_marker (a_writes a) InProgress target None attempt v0 of
                       (v1, False) \<Rightarrow> (v1, Inl Broken)
                     | (v1, True) \<Rightarrow>
                         (let v2 = v1\<lparr>rv_entries := a_left a\<rparr> in
                          case load_and_replay utc_of a shared loc full target (word_of_nat (rotate_interval_seconds c)) of
                            Inl e \<Rightarrow> (v2, Inl e)
                          | Inr achieved \<Rightarrow>
                              (case write_restore_marker (a_writes a) Completed target (Some achieved) attempt v2 of
                                 (v3, False) \<Rightarrow> (v3, Inl Broken)
                               | (v3, True) \<Rightarrow> (v3, Inr achieved))))))
      | _ \<Rightarrow> (v, Inl Broken))"

definition run_reporting :: "calendar \<Rightarrow> config \<Rightarrow> restore_attempt \<Rightarrow> restore_volume \<Rightarrow> restore_volume \<times> (restore_error + int)" where
  "run_reporting utc_of c a v =
     (let attempt = recorded_attempts (rv_marker v) + 1 in
      case run utc_of c a attempt v of
        (v', Inr achieved) \<Rightarrow> (v', Inr achieved)
      | (v', Inl e) \<Rightarrow>
          (case recovery_target_time c of
             None \<Rightarrow> (v', Inl e)
           | Some target \<Rightarrow>
               (fst (write_restore_marker (a_writes a) (case e of Refusal k \<Rightarrow> Refused | Broken \<Rightarrow> Failed) target None attempt v'), Inl e)))"

section \<open>The boots around it\<close>

datatype gate_end = Pass u64 | Gave_up | Nothing_to_retry_with | Reset_failed

definition restore_gate :: "config \<Rightarrow> (string \<Rightarrow> bool) \<Rightarrow> restore_volume \<Rightarrow> restore_volume \<times> gate_end" where
  "restore_gate c removes v =
     (if \<not> crashed_mid_restore (rv_marker v) then (v, Pass 0)
      else if restore_enabled c \<and> gr_seeds c = None then
        (let n = recorded_attempts (rv_marker v) in
         if n \<ge> MAX_RESTORE_ATTEMPTS then (v, Gave_up)
         else
           (case reset_partial_restore removes v of
              (v', True) \<Rightarrow> (v', Pass (retry_backoff_seconds (word_of_nat (self_heal_backoff_base_seconds c)) n))
            | (v', False) \<Rightarrow> (v', Reset_failed)))
      else (v, Nothing_to_retry_with))"

datatype boot_end = Serves | Stops

record boot_result =
  r_volume :: restore_volume
  r_ran :: bool
  r_end :: boot_end

definition restore_boot :: "calendar \<Rightarrow> config \<Rightarrow> (string \<Rightarrow> bool) \<Rightarrow> restore_attempt \<Rightarrow> restore_volume \<Rightarrow> boot_result" where
  "restore_boot utc_of c removes a v =
     (case restore_gate c removes v of
        (v1, Pass wait) \<Rightarrow>
          (if gr_enabled c \<or> \<not> restore_enabled c \<or> gr_seeds c \<noteq> None \<or> datadir_is_initialized v1
           then \<lparr>r_volume = v1, r_ran = False, r_end = Serves\<rparr>
           else
             (case run_reporting utc_of c a v1 of
                (v2, Inr achieved) \<Rightarrow> \<lparr>r_volume = v2, r_ran = True, r_end = Serves\<rparr>
              | (v2, Inl e) \<Rightarrow> \<lparr>r_volume = v2, r_ran = True, r_end = Stops\<rparr>))
      | (v1, _) \<Rightarrow> \<lparr>r_volume = v1, r_ran = False, r_end = Stops\<rparr>)"

text \<open>Boots in a row, each on the volume the one before left.\<close>

fun restore_boots :: "calendar \<Rightarrow> config \<Rightarrow> ((string \<Rightarrow> bool) \<times> restore_attempt) list \<Rightarrow> restore_volume \<Rightarrow> boot_result list" where
  "restore_boots utc_of c [] v = []"
| "restore_boots utc_of c ((removes, a) # bs) v =
     (let r = restore_boot utc_of c removes a v in r # restore_boots utc_of c bs (r_volume r))"

section \<open>Lemmas on one boot\<close>

lemma replay_archive_within:
  assumes "replay_archive utc_of a shared loc full target interval = Inr achieved"
  shows "achieved_point_within_bound target achieved (achieved_lag_bound_seconds interval)"
  using assms
  by (cases shared)
     (auto simp: replay_archive_def replay_shared_history_def replay_binlogs_def verify_achieved_point_def Let_def
       split: option.splits if_splits)

lemma load_and_replay_within:
  assumes "load_and_replay utc_of a shared loc full target interval = Inr achieved"
  shows "achieved_point_within_bound target achieved (achieved_lag_bound_seconds interval)"
  using assms replay_archive_within
  by (auto simp: load_and_replay_def split: if_splits option.splits sum.splits)

text \<open>A marker that certifies its restore: completed, and within the bound of its target.\<close>

definition verified :: "config \<Rightarrow> marker_file \<Rightarrow> bool" where
  "verified c f =
     (case f of
        Present m \<Rightarrow> m_status m = Completed \<and> recovery_target_time c = Some (m_target m) \<and>
          (case m_achieved m of
             Some t \<Rightarrow> achieved_point_within_bound (m_target m) t (achieved_lag_bound_seconds (word_of_nat (rotate_interval_seconds c)))
           | None \<Rightarrow> False)
      | _ \<Rightarrow> False)"

lemma restore_volume_updates:
  "(v::restore_volume)\<lparr>rv_entries := e, rv_marker := f\<rparr> = \<lparr>rv_marker = f, rv_entries = e\<rparr>"
  "(v::restore_volume)\<lparr>rv_marker := f, rv_entries := e\<rparr> = \<lparr>rv_marker = f, rv_entries = e\<rparr>"
  by (cases v; simp)+

text \<open>How an attempt can leave the volume.\<close>

lemma run_cases:
  assumes "run utc_of c a n v = (v', res)"
  obtains (not_started) e where "res = Inl e" and "v' = v"
  | (unmarked) "res = Inl Broken" and "v' = v\<lparr>rv_entries := a_first_entries a\<rparr>" and "\<not> a_first_write a \<or> \<not> a_writes a InProgress"
  | (in_progress) e target where "res = Inl e" and "recovery_target_time c = Some target"
      and "v' = \<lparr>rv_marker = Present \<lparr>m_status = InProgress, m_target = target, m_achieved = None, m_attempts = n\<rparr>, rv_entries = a_left a\<rparr>"
  | (completed) t target where "res = Inr t" and "recovery_target_time c = Some target"
      and "v' = \<lparr>rv_marker = Present \<lparr>m_status = Completed, m_target = target, m_achieved = Some t, m_attempts = n\<rparr>, rv_entries = a_left a\<rparr>"
      and "achieved_point_within_bound target t (achieved_lag_bound_seconds (word_of_nat (rotate_interval_seconds c)))"
proof (cases "recovery_target_time c")
  case None
  then show ?thesis using assms not_started by (auto simp: run_def)
next
  case t: (Some target)
  show ?thesis
  proof (cases "restore_s3_location c")
    case None
    then show ?thesis using assms t not_started by (auto simp: run_def)
  next
    case l: (Some loc)
    show ?thesis
    proof (cases "select_full a loc target")
      case (Inl e)
      then show ?thesis using assms t l not_started by (auto simp: run_def)
    next
      case (Inr fs)
      obtain full shared where fs: "fs = (full, shared)" by (cases fs)
      note r = assms [unfolded run_def t l Inr fs prod.case option.case sum.case Let_def]
      show ?thesis
      proof (cases "a_spawn a (restore_args (a_own_args a) shared)")
        case False
        then show ?thesis using r not_started by auto
      next
        case s: True
        show ?thesis
        proof (cases "a_first_write a \<and> a_writes a InProgress")
          case False
          then show ?thesis using r s unmarked by (auto simp: write_restore_marker_def split: if_splits)
        next
          case w: True
          show ?thesis
          proof (cases "load_and_replay utc_of a shared loc full target (word_of_nat (rotate_interval_seconds c))")
            case (Inl e)
            then have "res = Inl e" "v' = \<lparr>rv_marker = Present \<lparr>m_status = InProgress, m_target = target, m_achieved = None, m_attempts = n\<rparr>,
                rv_entries = a_left a\<rparr>"
              using r s w by (simp_all add: write_restore_marker_def restore_volume_updates)
            then show ?thesis using in_progress t by blast
          next
            case (Inr x)
            note lr = r [unfolded Inr] s w
            show ?thesis
            proof (cases "a_writes a Completed")
              case True
              then have "res = Inr x" "v' = \<lparr>rv_marker = Present \<lparr>m_status = Completed, m_target = target, m_achieved = Some x, m_attempts = n\<rparr>,
                  rv_entries = a_left a\<rparr>"
                using lr by (simp_all add: write_restore_marker_def restore_volume_updates)
              then show ?thesis using completed [OF _ t] load_and_replay_within [OF Inr] by blast
            next
              case False
              then have "res = Inl Broken" "v' = \<lparr>rv_marker = Present \<lparr>m_status = InProgress, m_target = target, m_achieved = None, m_attempts = n\<rparr>,
                  rv_entries = a_left a\<rparr>"
                using lr by (simp_all add: write_restore_marker_def restore_volume_updates)
              then show ?thesis using in_progress t by blast
            qed
          qed
        qed
      qed
    qed
  qed
qed

lemma swept_entries: "sweep_entries removes es = (left, True) \<Longrightarrow> set left \<subseteq> {RUNTIME_LOCK_FILE}"
  by (induction es arbitrary: left) (auto split: if_splits prod.splits)

lemma lock_is_not_mysql: "''mysql'' \<noteq> RUNTIME_LOCK_FILE"
  by (simp add: RUNTIME_LOCK_FILE_def)

text \<open>The gate lets a boot pass on the volume as it is, or on what a whole reset left of it.\<close>

lemma gate_passes:
  assumes "restore_gate c removes v = (v1, Pass wait)"
  obtains (clean) "\<not> crashed_mid_restore (rv_marker v)" and "v1 = v"
  | (wiped) "crashed_mid_restore (rv_marker v)" and "rv_marker v1 = rv_marker v" and "\<not> datadir_is_initialized v1"
      and "recorded_attempts (rv_marker v) < MAX_RESTORE_ATTEMPTS"
proof (cases "crashed_mid_restore (rv_marker v)")
  case False
  then have "v1 = v" using assms by (simp add: restore_gate_def)
  then show ?thesis by (rule clean [OF False])
next
  case True
  obtain left ok where sw: "sweep_entries removes (rv_entries v) = (left, ok)" by (cases "sweep_entries removes (rv_entries v)")
  have rs: "reset_partial_restore removes v = (v\<lparr>rv_entries := left\<rparr>, ok)" by (simp add: reset_partial_restore_def sw)
  have g: "ok" "v1 = v\<lparr>rv_entries := left\<rparr>" "recorded_attempts (rv_marker v) < MAX_RESTORE_ATTEMPTS"
    using assms True rs by (simp_all add: restore_gate_def Let_def split: if_splits bool.splits)
  have "set left \<subseteq> {RUNTIME_LOCK_FILE}" using swept_entries sw g(1) by simp
  then have "\<not> datadir_is_initialized v1" using lock_is_not_mysql unfolding datadir_is_initialized_def g(2) by auto
  then show ?thesis using g(3) by (intro wiped [OF True]) (simp_all add: g(2))
qed

lemma gate_refuses: "restore_gate c removes v = (v1, g) \<Longrightarrow> (\<And>w. g \<noteq> Pass w) \<Longrightarrow> rv_marker v1 = rv_marker v \<and> crashed_mid_restore (rv_marker v)"
  by (auto simp: restore_gate_def reset_partial_restore_def Let_def split: if_splits bool.splits prod.splits)

definition standalone_restore :: "config \<Rightarrow> bool" where
  "standalone_restore c \<longleftrightarrow> restore_enabled c \<and> gr_seeds c = None \<and> recovery_target_time c \<noteq> None"

text \<open>One boot with a restore configured: it stops at the gate, serves, or runs an attempt.\<close>

lemma boot_cases:
  assumes "standalone_restore c"
  obtains (stopped) "r_end (restore_boot utc_of c removes a v) = Stops" and "\<not> r_ran (restore_boot utc_of c removes a v)"
      and "rv_marker (r_volume (restore_boot utc_of c removes a v)) = rv_marker v" and "crashed_mid_restore (rv_marker v)"
  | (served) "restore_boot utc_of c removes a v = \<lparr>r_volume = v, r_ran = False, r_end = Serves\<rparr>"
      and "\<not> crashed_mid_restore (rv_marker v)" and "datadir_is_initialized v"
  | (ran) v1 v2 res where "run_reporting utc_of c a v1 = (v2, res)" and "\<not> datadir_is_initialized v1" and "rv_marker v1 = rv_marker v"
      and "restore_boot utc_of c removes a v = \<lparr>r_volume = v2, r_ran = True, r_end = (case res of Inr t \<Rightarrow> Serves | Inl e \<Rightarrow> Stops)\<rparr>"
      and "v1 = v \<or> crashed_mid_restore (rv_marker v) \<and> recorded_attempts (rv_marker v) < MAX_RESTORE_ATTEMPTS"
      and "crashed_mid_restore (rv_marker v) \<Longrightarrow> recorded_attempts (rv_marker v) < MAX_RESTORE_ATTEMPTS"
proof -
  obtain v1 g where g: "restore_gate c removes v = (v1, g)" by (cases "restore_gate c removes v")
  have c: "restore_enabled c" "gr_seeds c = None" "\<not> gr_enabled c" using assms by (simp_all add: standalone_restore_def gr_enabled_def)
  show ?thesis
  proof (cases "\<exists>w. g = Pass w")
    case False
    then have "restore_boot utc_of c removes a v = \<lparr>r_volume = v1, r_ran = False, r_end = Stops\<rparr>"
      using g by (auto simp: restore_boot_def split: gate_end.splits)
    then show ?thesis using stopped gate_refuses [OF g] False by simp
  next
    case True
    then obtain w where w: "g = Pass w" ..
    obtain v2 res where r: "run_reporting utc_of c a v1 = (v2, res)" by (cases "run_reporting utc_of c a v1")
    have b: "restore_boot utc_of c removes a v = (if datadir_is_initialized v1 then \<lparr>r_volume = v1, r_ran = False, r_end = Serves\<rparr>
        else \<lparr>r_volume = v2, r_ran = True, r_end = (case res of Inr t \<Rightarrow> Serves | Inl e \<Rightarrow> Stops)\<rparr>)"
      using g w c r by (simp add: restore_boot_def split: sum.split)
    show ?thesis
    proof (cases rule: gate_passes [OF g [unfolded w]])
      case 1
      then show ?thesis using served ran [OF r] b by (cases "datadir_is_initialized v") auto
    next
      case 2
      then show ?thesis using ran [OF r 2(3,2)] b by simp
    qed
  qed
qed

lemma run_reporting_cases:
  assumes "run_reporting utc_of c a v = (v', res)" and "recovery_target_time c = Some target"
  obtains (completed) t where "res = Inr t" and "v' = \<lparr>rv_marker = Present \<lparr>m_status = Completed, m_target = target,
        m_achieved = Some t, m_attempts = recorded_attempts (rv_marker v) + 1\<rparr>, rv_entries = a_left a\<rparr>"
      and "achieved_point_within_bound target t (achieved_lag_bound_seconds (word_of_nat (rotate_interval_seconds c)))"
  | (recorded) e st where "res = Inl e" and "st \<in> {Refused, Failed}" and "a_writes a st"
      and "rv_marker v' = Present \<lparr>m_status = st, m_target = target, m_achieved = None, m_attempts = recorded_attempts (rv_marker v) + 1\<rparr>"
  | (unrecorded) e st where "res = Inl e" and "st \<in> {Refused, Failed}" and "\<not> a_writes a st"
      and "run utc_of c a (recorded_attempts (rv_marker v) + 1) v = (v', Inl e)" and "e = Broken \<longrightarrow> st = Failed"
proof -
  let ?n = "recorded_attempts (rv_marker v) + 1"
  obtain v0 r where r: "run utc_of c a ?n v = (v0, r)" by (cases "run utc_of c a ?n v")
  show ?thesis
  proof (cases r)
    case (Inr t)
    then have eq: "v' = v0" "res = Inr t" using assms r by (simp_all add: run_reporting_def Let_def)
    show ?thesis
    proof (cases rule: run_cases [OF r])
      case (4 t' target')
      then show ?thesis using completed [of t] eq Inr assms(2) by simp
    qed (simp_all add: Inr)
  next
    case (Inl e)
    define st where "st = (case e of Refusal k \<Rightarrow> Refused | Broken \<Rightarrow> Failed)"
    have st: "st \<in> {Refused, Failed}" "e = Broken \<longrightarrow> st = Failed" by (auto simp: st_def split: restore_error.splits)
    have eq: "v' = fst (write_restore_marker (a_writes a) st target None ?n v0)" "res = Inl e"
      using assms r Inl by (simp_all add: run_reporting_def Let_def st_def)
    show ?thesis
    proof (cases "a_writes a st")
      case True
      then show ?thesis using recorded [OF eq(2) st(1) True] eq(1) by (simp add: write_restore_marker_def)
    next
      case False
      then have "v' = v0" using eq(1) by (simp add: write_restore_marker_def)
      then show ?thesis using unrecorded [OF eq(2) st(1) False] r Inl st(2) by simp
    qed
  qed
qed

text \<open>An attempt whose start is on record once it has touched the data directory.\<close>

definition marked :: "restore_attempt \<Rightarrow> bool" where
  "marked a \<longleftrightarrow> a_first_write a \<and> a_writes a InProgress \<or> a_writes a Failed"

definition restorable :: "config \<Rightarrow> restore_volume \<Rightarrow> bool" where
  "restorable c v \<longleftrightarrow> crashed_mid_restore (rv_marker v) \<or> verified c (rv_marker v) \<or>
     (rv_marker v = Absent \<and> \<not> datadir_is_initialized v)"

lemma verified_not_crashed: "verified c f \<Longrightarrow> \<not> crashed_mid_restore f"
  by (auto simp: verified_def crashed_mid_restore_def split: marker_file.splits)

lemma attempt_restorable:
  assumes "run_reporting utc_of c a v = (v', res)" and "standalone_restore c" and "marked a" and "restorable c v"
  shows "restorable c v' \<and> (\<forall>t. res = Inr t \<longrightarrow> verified c (rv_marker v'))"
proof -
  obtain target where t: "recovery_target_time c = Some target" using assms(2) by (auto simp: standalone_restore_def)
  show ?thesis
  proof (cases rule: run_reporting_cases [OF assms(1) t])
    case (1 t')
    then show ?thesis using t by (simp add: restorable_def verified_def)
  next
    case (2 e st)
    then show ?thesis by (auto simp: restorable_def crashed_mid_restore_def)
  next
    case (3 e st)
    have "restorable c v'"
    proof (cases rule: run_cases [OF 3(4)])
      case (2)
      then show ?thesis using 3 assms(3) by (auto simp: marked_def)
    qed (use assms(4) in \<open>simp_all add: restorable_def crashed_mid_restore_def\<close>)
    then show ?thesis using 3(1) by simp
  qed
qed

lemma boot_restorable:
  assumes "standalone_restore c" and "marked a" and "restorable c v"
  shows "restorable c (r_volume (restore_boot utc_of c removes a v))"
    and "r_end (restore_boot utc_of c removes a v) = Serves \<Longrightarrow> verified c (rv_marker (r_volume (restore_boot utc_of c removes a v)))"
proof -
  have "restorable c (r_volume (restore_boot utc_of c removes a v)) \<and>
    (r_end (restore_boot utc_of c removes a v) = Serves \<longrightarrow> verified c (rv_marker (r_volume (restore_boot utc_of c removes a v))))"
  proof (cases rule: boot_cases [OF assms(1), where utc_of = utc_of and removes = removes and a = a and v = v])
    case 1
    then show ?thesis by (simp add: restorable_def)
  next
    case 2
    then show ?thesis using assms(3) by (auto simp: restorable_def)
  next
    case (3 v1 v2 res)
    have "restorable c v1" using assms(3) 3(2,3) unfolding restorable_def by auto
    from attempt_restorable [OF 3(1) assms(1,2) this] show ?thesis by (auto simp: 3(4) split: sum.splits)
  qed
  then show "restorable c (r_volume (restore_boot utc_of c removes a v))"
    and "r_end (restore_boot utc_of c removes a v) = Serves \<Longrightarrow> verified c (rv_marker (r_volume (restore_boot utc_of c removes a v)))"
    by blast+
qed

text \<open>
  C14: Behind a marker nothing half-restored is served. On a fresh volume with a restore
  configured, whatever the bucket, the server and the clients do in each attempt and however
  often the boot is repeated (an attempt killed part-way is one whose last marker was not
  written): as long as every attempt gets its in-progress marker down or, failing that, its failure
  marker, a boot that goes on to serve finds a completed marker
  whose recovery point is within the rotation bound of the target. (Without any marker the
  conclusion fails: \<open>unmarked_attempt_is_served\<close>.)
\<close>

theorem only_verified_restores_are_served:
  assumes "standalone_restore c" and "list_all (\<lambda>(removes, a). marked a) bs"
    and "rv_marker v = Absent" and "\<not> datadir_is_initialized v"
    and "r \<in> set (restore_boots utc_of c bs v)" and "r_end r = Serves"
  shows "verified c (rv_marker (r_volume r))"
proof -
  have "restorable c v" using assms(3,4) by (simp add: restorable_def)
  then show ?thesis using assms(2,5)
  proof (induction bs arbitrary: v)
    case (Cons b bs)
    obtain removes a where b: "b = (removes, a)" by (cases b)
    have m: "marked a" "list_all (\<lambda>(removes, a). marked a) bs" using Cons.prems(2) b by simp_all
    note step = boot_restorable [OF assms(1) m(1) Cons.prems(1), of utc_of removes]
    show ?case
    proof (cases "r = restore_boot utc_of c removes a v")
      case True
      then show ?thesis using step(2) assms(6) by simp
    next
      case False
      then show ?thesis using Cons.IH [OF step(1) m(2)] Cons.prems(3) b by (simp add: Let_def)
    qed
  qed simp
qed

section \<open>The attempts are bounded\<close>

text \<open>How many attempts a volume has left, when every marker could be written.\<close>

definition budget :: "restore_volume \<Rightarrow> nat" where
  "budget v =
     (case rv_marker v of
        Absent \<Rightarrow> if datadir_is_initialized v then 0 else MAX_RESTORE_ATTEMPTS
      | Unparseable \<Rightarrow> MAX_RESTORE_ATTEMPTS
      | Present m \<Rightarrow> if m_status m = Completed then 0 else MAX_RESTORE_ATTEMPTS - m_attempts m)"

definition accounted :: "restore_volume \<Rightarrow> bool" where
  "accounted v \<longleftrightarrow> rv_marker v \<noteq> Unparseable \<and>
     (case rv_marker v of Present m \<Rightarrow> if m_status m = Completed then datadir_is_initialized v else True | _ \<Rightarrow> True)"

text \<open>
  \<open>started\<close>: an attempt whose server comes up as far as the first marker. \<open>recording\<close>: one
  that gets its in-progress marker down and, when it does not come that far, the marker of its
  failure. What follows the in-progress marker is free: an attempt killed after it, or on a volume
  that takes no later marker, is among them.
\<close>

definition started :: "config \<Rightarrow> restore_attempt \<Rightarrow> bool" where
  "started c a =
     (case (recovery_target_time c, restore_s3_location c) of
        (Some target, Some loc) \<Rightarrow>
          (case select_full a loc target of
             Inl e \<Rightarrow> False
           | Inr (full, shared) \<Rightarrow> a_spawn a (restore_args (a_own_args a) shared) \<and> a_first_write a)
      | _ \<Rightarrow> False)"

definition recording :: "config \<Rightarrow> restore_attempt \<Rightarrow> bool" where
  "recording c a \<longleftrightarrow> a_writes a InProgress \<and> ''mysql'' \<in> set (a_left a) \<and>
     (started c a \<or> a_writes a Refused \<and> a_writes a Failed)"

lemma started_is_in_progress:
  assumes "run utc_of c a n v = (v', Inl e)" and "started c a" and "a_writes a InProgress"
  shows "\<exists>target. rv_marker v' = Present \<lparr>m_status = InProgress, m_target = target, m_achieved = None, m_attempts = n\<rparr>"
proof -
  obtain target loc full shared where t: "recovery_target_time c = Some target" "restore_s3_location c = Some loc"
    "select_full a loc target = Inr (full, shared)" "a_spawn a (restore_args (a_own_args a) shared)" "a_first_write a"
    using assms(2) by (auto simp: started_def split: option.splits sum.splits)
  show ?thesis
    using assms(1,3) t
    by (auto simp: run_def write_restore_marker_def Let_def split: sum.splits if_splits)
qed

lemma attempt_spends:
  assumes "run_reporting utc_of c a v = (v', res)" and "standalone_restore c" and "recording c a"
    and "rv_marker v = Absent \<and> \<not> datadir_is_initialized v \<or>
      crashed_mid_restore (rv_marker v) \<and> rv_marker v \<noteq> Unparseable \<and> recorded_attempts (rv_marker v) < MAX_RESTORE_ATTEMPTS"
  shows "accounted v' \<and> budget v' < budget v"
proof -
  obtain target where t: "recovery_target_time c = Some target" using assms(2) by (auto simp: standalone_restore_def)
  have b: "budget v = MAX_RESTORE_ATTEMPTS - recorded_attempts (rv_marker v)" "recorded_attempts (rv_marker v) < MAX_RESTORE_ATTEMPTS"
    using assms(4) by (auto simp: budget_def recorded_attempts_def crashed_mid_restore_def MAX_RESTORE_ATTEMPTS_def split: marker_file.splits)
  show ?thesis
  proof (cases rule: run_reporting_cases [OF assms(1) t])
    case (1 t')
    then show ?thesis using assms(3) b by (simp add: accounted_def budget_def recording_def datadir_is_initialized_def)
  next
    case (2 e st)
    then show ?thesis using b by (auto simp: accounted_def budget_def)
  next
    case (3 e st)
    then have "started c a" using assms(3) by (auto simp: recording_def)
    then obtain target' where "rv_marker v' = Present \<lparr>m_status = InProgress, m_target = target', m_achieved = None,
        m_attempts = recorded_attempts (rv_marker v) + 1\<rparr>"
      using started_is_in_progress [OF 3(4)] assms(3) by (auto simp: recording_def)
    then show ?thesis using b by (simp add: accounted_def budget_def)
  qed
qed

lemma boot_spends:
  assumes "standalone_restore c" and "recording c a" and "accounted v" and r: "r = restore_boot utc_of c removes a v"
  shows "accounted (r_volume r)" and "(if r_ran r then 1 else 0) + budget (r_volume r) \<le> budget v"
proof -
  have "accounted (r_volume r) \<and> (if r_ran r then 1 else 0) + budget (r_volume r) \<le> budget v"
  proof (cases rule: boot_cases [OF assms(1), where utc_of = utc_of and removes = removes and a = a and v = v])
    case 1
    have "accounted (r_volume (restore_boot utc_of c removes a v))"
      using 1(3,4) assms(3) by (auto simp: accounted_def crashed_mid_restore_def split: marker_file.splits)
    moreover have "budget (r_volume (restore_boot utc_of c removes a v)) = budget v"
      using 1(3,4) by (auto simp: budget_def crashed_mid_restore_def split: marker_file.splits)
    ultimately show ?thesis using 1(2) by (simp add: r)
  next
    case 2
    then show ?thesis using assms(3) by (simp add: r)
  next
    case (3 v1 v2 res)
    have "rv_marker v1 = Absent \<and> \<not> datadir_is_initialized v1 \<or>
      crashed_mid_restore (rv_marker v1) \<and> rv_marker v1 \<noteq> Unparseable \<and> recorded_attempts (rv_marker v1) < MAX_RESTORE_ATTEMPTS"
      using 3(2,3,5,6) assms(3) by (auto simp: accounted_def crashed_mid_restore_def split: marker_file.splits if_splits)
    from attempt_spends [OF 3(1) assms(1,2) this] have "accounted v2" "budget v2 < budget v1" by simp_all
    moreover have "budget v1 = budget v"
      using 3(3,5) by (auto simp: budget_def crashed_mid_restore_def split: marker_file.splits)
    ultimately show ?thesis by (simp add: r 3(4))
  qed
  then show "accounted (r_volume r)" and "(if r_ran r then 1 else 0) + budget (r_volume r) \<le> budget v" by blast+
qed

lemma budget_le: "budget v \<le> MAX_RESTORE_ATTEMPTS"
  by (auto simp: budget_def split: marker_file.splits)

definition spending_boot :: "config \<Rightarrow> restore_volume \<Rightarrow> (string \<Rightarrow> bool) \<times> restore_attempt \<Rightarrow> bool" where
  "spending_boot c v b \<longleftrightarrow> standalone_restore c \<and> accounted v \<and> recording c (snd b)"

text \<open>The recorded attempts are a capped counter of the library.\<close>

interpretation restore_budget: attempt_budget
  "\<lambda>v b. r_volume (restore_boot utc_of c (fst b) (snd b) v)"
  "\<lambda>v b. r_ran (restore_boot utc_of c (fst b) (snd b) v)"
  "\<lambda>v. MAX_RESTORE_ATTEMPTS - budget v" MAX_RESTORE_ATTEMPTS "spending_boot c" for utc_of c
proof
  fix v b
  assume "spending_boot c v b"
  then have "(if r_ran (restore_boot utc_of c (fst b) (snd b) v) then 1 else 0)
      + budget (r_volume (restore_boot utc_of c (fst b) (snd b) v)) \<le> budget v"
    using boot_spends(2) [OF _ _ _ refl] unfolding spending_boot_def by blast
  then show "r_ran (restore_boot utc_of c (fst b) (snd b) v) \<Longrightarrow> MAX_RESTORE_ATTEMPTS - budget v < MAX_RESTORE_ATTEMPTS"
    "r_ran (restore_boot utc_of c (fst b) (snd b) v) \<Longrightarrow>
       MAX_RESTORE_ATTEMPTS - budget v < MAX_RESTORE_ATTEMPTS - budget (r_volume (restore_boot utc_of c (fst b) (snd b) v))"
    "MAX_RESTORE_ATTEMPTS - budget v \<le> MAX_RESTORE_ATTEMPTS - budget (r_volume (restore_boot utc_of c (fst b) (snd b) v))"
    using budget_le [of v] by (auto split: if_splits)
qed

lemma restore_boots_attempts:
  "length (filter r_ran (restore_boots utc_of c bs v)) = restore_budget.attempts utc_of c v bs"
  by (induction bs arbitrary: v) (auto simp: Let_def)

lemma restore_boots_ok:
  assumes "standalone_restore c" and "list_all (\<lambda>(removes, a). recording c a) bs" and "accounted v"
  shows "restore_budget.all_ok utc_of c v bs"
  using assms(2,3)
proof (induction bs arbitrary: v)
  case (Cons b bs)
  then have "spending_boot c v b" using assms(1) by (auto simp: spending_boot_def)
  moreover have "accounted (r_volume (restore_boot utc_of c (fst b) (snd b) v))"
    using boot_spends(1) [OF assms(1) _ Cons.prems(2) refl] Cons.prems(1) by auto
  ultimately show ?case using Cons.IH Cons.prems(1) by simp
qed simp

text \<open>
  C30: A restore is not tried for ever. On a fresh volume with a restore configured, at most three
  boots of any sequence run an attempt, whatever each of them ends with, as long as every
  attempt leaves itself on record: its in-progress marker is written or, when it ends before its
  server is up, the marker of its failure, and the server it starts leaves its schema behind. An
  attempt killed after the in-progress marker is on record. The boots that run none serve or stop
  at the gate.
\<close>

theorem restore_attempts_are_bounded:
  assumes "standalone_restore c" and "list_all (\<lambda>(removes, a). recording c a) bs"
    and "rv_marker v = Absent" and "\<not> datadir_is_initialized v"
  shows "length (filter r_ran (restore_boots utc_of c bs v)) \<le> MAX_RESTORE_ATTEMPTS"
proof -
  have "accounted v" using assms(3) by (simp add: accounted_def)
  then show ?thesis
    using restore_budget.attempts_le [OF restore_boots_ok [OF assms(1,2) \<open>accounted v\<close>, of utc_of]] unfolding restore_boots_attempts by linarith
qed

section \<open>An attempt without a marker\<close>

text \<open>
  A half-made database can be served after all. When an attempt that has already made the server
  create its schema can write neither its first marker nor its last, the next boot finds no
  marker and an initialized data directory, takes the restore for done, and serves.
\<close>

theorem unmarked_attempt_is_served:
  assumes "standalone_restore c" and "rv_marker v = Absent" and "\<not> datadir_is_initialized v"
    and "recovery_target_time c = Some target" and "restore_s3_location c = Some loc"
    and "select_full a loc target = Inr (full, shared)" and "a_spawn a (restore_args (a_own_args a) shared)"
    and "''mysql'' \<in> set (a_first_entries a)" and "\<And>st. \<not> a_writes a st"
  shows "map (\<lambda>r. (r_ran r, r_end r)) (restore_boots utc_of c [(removes, a), (removes', a')] v) = [(True, Stops), (False, Serves)]"
proof -
  have r: "run utc_of c a n v = (v\<lparr>rv_entries := a_first_entries a\<rparr>, Inl Broken)" for n
    using assms(4-7,9) by (simp add: run_def write_restore_marker_def Let_def)
  have "run_reporting utc_of c a v = (v\<lparr>rv_entries := a_first_entries a\<rparr>, Inl Broken)"
    using r assms(4,9) by (simp add: run_reporting_def write_restore_marker_def Let_def)
  moreover have "restore_gate c rm w = (w, Pass 0)" if "rv_marker w = Absent" for rm w
    using that by (simp add: restore_gate_def crashed_mid_restore_def)
  ultimately show ?thesis using assms(1-3,8)
    by (simp add: restore_boot_def standalone_restore_def gr_enabled_def Let_def datadir_is_initialized_def)
qed

section \<open>A sample restore\<close>

definition restoring_config :: config where
  "restoring_config = (config_of_env (\<lambda>_. None) None)
     \<lparr>recover_from := \<lparr>bv_bucket = Some ''b'', bv_key = Some ''k'', bv_secret = Some ''s'', bv_region = Some ''r'',
        bv_endpoint = Some ''http://e'', bv_path = []\<rparr>, recovery_target_time := Some (6 * ns_per_s)\<rparr>"

definition restoring_loc :: s3_location where
  "restoring_loc = \<lparr>bucket = ''b'', access_key = ''k'', secret_key = ''s'', region = ''r'', endpoint = ''http://e'', path = []\<rparr>"

lemma restoring_config_simps [simp]:
  "recovery_target_time restoring_config = Some (6 * ns_per_s)" "restore_s3_location restoring_config = Some restoring_loc"
  "restore_enabled restoring_config" "gr_seeds restoring_config = None" "rotate_interval_seconds restoring_config = 60"
  "standalone_restore restoring_config"
  by (simp_all add: restoring_config_def restore_s3_location_def s3_of_vars_def restoring_loc_def restore_enabled_def
      config_of_env_def env_parse_def non_empty_def standalone_restore_def)

definition restoring_full :: full_backup_ref where
  "restoring_full = sample_full ''u'' ''server-u/full/x'' (5 * ns_per_s) ''b.1'' None"

definition restoring_io :: restore_io where
  "restoring_io = hole_io\<lparr>io_list := (\<lambda>prefix. Some (filter (starts_with prefix) (''server-u/full/x.meta.json'' # hole_keys))),
     io_download := (\<lambda>k. if k = ''server-u/full/x.meta.json'' then Some [1] else io_download hole_io k)\<rparr>"

definition restoring_attempt :: "bool \<Rightarrow> restore_attempt" where
  "restoring_attempt writes =
     \<lparr>a_own_args = [], a_client = True, a_parse = (\<lambda>b. Some (meta restoring_full)), a_shared_marker = Some False, a_spawn = (\<lambda>args. True),
      a_first_entries = [''mysql''], a_first_write = True, a_writes = (\<lambda>st. writes), a_ready = True, a_bind = Some (Some ''127.0.0.1''),
      a_load = (\<lambda>f. True), a_left = [''mysql''], a_accounts = (True, True), a_io = restoring_io\<rparr>"

lemma restoring_keys:
  "filter (starts_with (base_prefix restoring_loc)) (''server-u/full/x.meta.json'' # hole_keys) = ''server-u/full/x.meta.json'' # hole_keys"
  "filter (starts_with (binlog_prefix restoring_loc ''u'')) (''server-u/full/x.meta.json'' # hole_keys) = hole_keys"
  "binlog_key restoring_loc ''u'' ''b.1'' = ''server-u/binlog/b.1''"
  "map (ends_with ''.meta.json'') hole_keys = [False, False]"
  "ends_with ''.meta.json'' ''server-u/full/x.meta.json''" "contains_str ''/full/'' ''server-u/full/x.meta.json''"
  "server_uuid_from_key restoring_loc ''server-u/full/x.meta.json'' = Some ''u''"
  "strip_suffix ''.meta.json'' ''server-u/full/x.meta.json'' = Some ''server-u/full/x''"
  by code_simp+

lemma restoring_discovers:
  "discover_fulls (\<lambda>b. Some (meta restoring_full)) (io_download restoring_io) (io_list restoring_io) restoring_loc = Some [restoring_full]"
proof -
  have f: "full_of_key (\<lambda>b. Some (meta restoring_full)) (io_download restoring_io) restoring_loc ''server-u/full/x.meta.json'' = Some restoring_full"
    using restoring_keys(5-8) by (simp add: full_of_key_def restoring_io_def restoring_full_def sample_full_def)
  have "full_of_key (\<lambda>b. Some (meta restoring_full)) (io_download restoring_io) restoring_loc k = None" if "k \<in> set hole_keys" for k
    using restoring_keys(4) that by (auto simp: full_of_key_def hole_keys_def)
  then have "List.map_filter (full_of_key (\<lambda>b. Some (meta restoring_full)) (io_download restoring_io) restoring_loc) hole_keys = []"
    by (simp add: map_filter_def filter_empty_conv)
  then show ?thesis
    using f restoring_keys(1) by (simp add: discover_fulls_def restoring_io_def map_filter_simps del: filter.simps)
qed

lemma restoring_selects: "select_full (restoring_attempt w) restoring_loc (6 * ns_per_s) = Inr (restoring_full, False)"
proof -
  have "recover_config_refusal restoring_loc = None" by code_simp
  moreover have "newest_qualifying_full [restoring_full] (6 * ns_per_s) = Some restoring_full"
    by (simp add: newest_qualifying_full_def qualifies_def floor_to_millis_def restoring_full_def sample_full_def ns_per_s_def ns_per_ms_def)
  ultimately show ?thesis
    using restoring_discovers by (simp add: select_full_def restoring_attempt_def) (simp add: restoring_full_def sample_full_def)
qed

lemma restoring_replays:
  "replay_archive day_clock (restoring_attempt w) False restoring_loc restoring_full (6 * ns_per_s) i = Inr (6 * ns_per_s)"
proof -
  have t: "binlog_pos (meta restoring_full) = 4" "lineage_uuid restoring_full = ''u''" "binlog_file (meta restoring_full) = ''b.1''"
    by (simp_all add: restoring_full_def sample_full_def)
  have io: "io_list restoring_io (binlog_prefix restoring_loc ''u'') = Some hole_keys" "io_scratch restoring_io" "io_apply restoring_io st fs sec"
    "io_download restoring_io ''server-u/binlog/b.1'' \<noteq> None" for st fs sec
    using restoring_keys(2) by (simp_all add: restoring_io_def hole_io_def del: filter.simps)
  have "last_binlog_event_time day_clock restoring_io k = last_binlog_event_time day_clock hole_io k" for k
    by (simp add: last_binlog_event_time_def restoring_io_def)
  then have d: "replay_downloaded day_clock restoring_io [''server-u/binlog/b.1''] (Some 4) (6 * ns_per_s) =
      Some \<lparr>rp_achieved = 6 * ns_per_s, rp_last_event = 6 * ns_per_s\<rparr>"
    by (simp add: replay_downloaded_def io hole_last_event)
  have "a_io (restoring_attempt w) = restoring_io" by (simp add: restoring_attempt_def)
  then show ?thesis
    using io(4) by (simp add: replay_archive_def replay_binlogs_def io t hole_keys_of(4) hole_plan restoring_keys(3) d
        gap_blocks_target_def verify_achieved_point_def achieved_point_within_bound_def num_seconds_def i64_max_def)
qed

definition fresh_volume :: restore_volume where
  "fresh_volume = \<lparr>rv_marker = Absent, rv_entries = [RUNTIME_LOCK_FILE]\<rparr>"

lemma fresh_volume_simps [simp]: "rv_marker fresh_volume = Absent" "\<not> datadir_is_initialized fresh_volume"
  using lock_is_not_mysql by (simp_all add: fresh_volume_def datadir_is_initialized_def)

lemma restoring_runs: "\<exists>w. run day_clock restoring_config (restoring_attempt True) n fresh_volume = (w, Inr (6 * ns_per_s))"
proof -
  have "bind_refusal (Some (Some ''127.0.0.1'')) = None" by code_simp
  then have "load_and_replay day_clock (restoring_attempt True) False restoring_loc restoring_full (6 * ns_per_s) i = Inr (6 * ns_per_s)" for i
    using restoring_replays [of True] by (simp add: load_and_replay_def) (simp add: restoring_attempt_def)
  moreover have "a_spawn (restoring_attempt True) args" "a_first_write (restoring_attempt True)" "a_writes (restoring_attempt True) st" for args st
    by (simp_all add: restoring_attempt_def)
  ultimately show ?thesis
    using restoring_selects [of True] by (simp add: run_def write_restore_marker_def Let_def)
qed

lemma restoring_boot:
  "r_end (restore_boot day_clock restoring_config (\<lambda>_. True) (restoring_attempt True) fresh_volume) = Serves"
proof -
  obtain w where "run day_clock restoring_config (restoring_attempt True) (recorded_attempts (rv_marker fresh_volume) + 1) fresh_volume =
      (w, Inr (6 * ns_per_s))" using restoring_runs by blast
  then have "run_reporting day_clock restoring_config (restoring_attempt True) fresh_volume = (w, Inr (6 * ns_per_s))"
    unfolding run_reporting_def Let_def by simp
  moreover have "restore_gate restoring_config (\<lambda>_. True) fresh_volume = (fresh_volume, Pass 0)"
    by (simp add: restore_gate_def crashed_mid_restore_def)
  ultimately show ?thesis by (simp add: restore_boot_def gr_enabled_def)
qed

lemma only_verified_restores_are_served_witness:
  "verified restoring_config (rv_marker (r_volume (restore_boot day_clock restoring_config (\<lambda>_. True) (restoring_attempt True) fresh_volume)))"
  by (rule only_verified_restores_are_served [where bs = "[(\<lambda>_. True, restoring_attempt True)]" and v = fresh_volume and utc_of = day_clock])
     (simp_all add: restoring_boot marked_def, simp_all add: restoring_attempt_def)

lemma restore_attempts_are_bounded_witness:
  "length (filter r_ran (restore_boots day_clock restoring_config
     (replicate 5 (\<lambda>_. True, (restoring_attempt True)\<lparr>a_client := False\<rparr>)) fresh_volume)) \<le> MAX_RESTORE_ATTEMPTS"
  by (rule restore_attempts_are_bounded) (simp_all add: recording_def restoring_attempt_def list_all_iff)

lemma unmarked_attempt_is_served_witness:
  "map (\<lambda>r. (r_ran r, r_end r)) (restore_boots day_clock restoring_config
     [(\<lambda>_. True, restoring_attempt False), (\<lambda>_. True, restoring_attempt False)] fresh_volume) = [(True, Stops), (False, Serves)]"
  by (rule unmarked_attempt_is_served [OF _ _ _ restoring_config_simps(1,2) restoring_selects]) (simp_all add: restoring_attempt_def)

end
