(* ===== verification/Finish_Upgrade.thy ===== *)
theory Finish_Upgrade
  imports Credentials Pitr
begin

text \<open>
  \<open>finish_upgrade.rs\<close>: the pass that finishes a server upgrade an earlier boot was killed
  in. Server versions and their order, the upgrade history and the wrapper's own record of
  the version that last served, the decision whether the pass is due, the names of the
  intermediate tables it drops, and the pass itself over a script of what the server, the
  clock and the signals did. Decoding the history's JSON is the parameter
  \<open>decode_history\<close>; log lines are left out.
\<close>

type_synonym u32 = "32 word"

section \<open>Server versions\<close>

datatype server_version = Server_version (major: u32) (minor: u32) (patch: u32)

instantiation server_version :: linorder
begin

fun less_server_version :: "server_version \<Rightarrow> server_version \<Rightarrow> bool" where
  "less_server_version (Server_version a b c) (Server_version x y z) =
     (a < x \<or> a = x \<and> (b < y \<or> b = y \<and> c < z))"

definition less_eq_server_version :: "server_version \<Rightarrow> server_version \<Rightarrow> bool" where
  "less_eq_server_version v w \<longleftrightarrow> v < w \<or> v = w"

instance
proof
  fix u v w :: server_version
  show "(v < w) = (v \<le> w \<and> \<not> w \<le> v)"
    by (cases v; cases w) (auto simp: less_eq_server_version_def)
  show "v \<le> v"
    by (simp add: less_eq_server_version_def)
  show "u \<le> v \<Longrightarrow> v \<le> w \<Longrightarrow> u \<le> w"
    by (cases u; cases v; cases w) (auto simp: less_eq_server_version_def)
  show "v \<le> w \<Longrightarrow> w \<le> v \<Longrightarrow> v = w"
    by (cases v; cases w) (auto simp: less_eq_server_version_def)
  show "v \<le> w \<or> w \<le> v"
    by (cases v; cases w) (auto simp: less_eq_server_version_def)
qed

end

definition parse_u32 :: "string \<Rightarrow> u32 option" where
  "parse_u32 s = map_option word_of_nat (parse_uint u32_max s)"

definition parse_version :: "string \<Rightarrow> server_version option" where
  "parse_version raw =
     (case split_once (CHR ''.'') (trim raw) of
        None \<Rightarrow> None
      | Some (a, r) \<Rightarrow>
          Option.bind (parse_u32 a) (\<lambda>ma.
            case split_once (CHR ''.'') r of
              None \<Rightarrow> None
            | Some (b, rest) \<Rightarrow>
                Option.bind (parse_u32 b) (\<lambda>mi.
                  map_option (Server_version ma mi) (parse_u32 (takeWhile is_digit rest)))))"

text \<open>The piece between the first two occurrences of the separator, or to the end.\<close>

fun before_str :: "string \<Rightarrow> string \<Rightarrow> string" where
  "before_str p [] = []"
| "before_str p (c # s) = (if starts_with p (c # s) then [] else c # before_str p s)"

definition from_mysqld_version_output :: "string \<Rightarrow> server_version option" where
  "from_mysqld_version_output out =
     (case after_str '' Ver '' out of
        None \<Rightarrow> None
      | Some r \<Rightarrow> (case split_ws (before_str '' Ver '' r) of [] \<Rightarrow> None | w # _ \<Rightarrow> parse_version w))"

definition show_u32 :: "u32 \<Rightarrow> string" where
  "show_u32 w = show_nat (unat w)"

definition show_version :: "server_version \<Rightarrow> string" where
  "show_version v = show_u32 (major v) @ ''.'' @ show_u32 (minor v) @ ''.'' @ show_u32 (patch v)"

text \<open>
  \<open>binary_version\<close>: \<open>output\<close> is what \<open>mysqld --version\<close> printed in time, \<open>env\<close> the
  image's \<open>MYSQL_VERSION\<close>.
\<close>

definition binary_version :: "string option \<Rightarrow> string option \<Rightarrow> server_version option" where
  "binary_version output env =
     (case Option.bind output from_mysqld_version_output of
        Some v \<Rightarrow> Some v
      | None \<Rightarrow> Option.bind env parse_version)"

section \<open>The history and the record of serving\<close>

datatype upgrade_history = No_history | Unreadable_history | Newest server_version bool

definition parse_history :: "(string \<Rightarrow> (string \<times> bool) list option) \<Rightarrow> string \<Rightarrow> upgrade_history" where
  "parse_history decode_history raw =
     (case decode_history raw of
        None \<Rightarrow> Unreadable_history
      | Some entries \<Rightarrow>
          if entries = [] then Unreadable_history
          else (case parse_version (fst (last entries)) of
                  Some v \<Rightarrow> Newest v (snd (last entries))
                | None \<Rightarrow> Unreadable_history))"

definition read_history :: "(string \<Rightarrow> (string \<times> bool) list option) \<Rightarrow> file_read \<Rightarrow> upgrade_history" where
  "read_history decode_history f =
     (case f of Content raw \<Rightarrow> parse_history decode_history raw
      | Missing \<Rightarrow> No_history
      | Unreadable \<Rightarrow> Unreadable_history)"

definition read_served_version :: "file_read \<Rightarrow> server_version option" where
  "read_served_version f = Option.bind (read_text f) parse_version"

text \<open>Write to a temporary file, then rename: \<open>io\<close> is whether both succeeded.\<close>

definition write_served_version :: "bool \<Rightarrow> server_version \<Rightarrow> file_read \<Rightarrow> file_read" where
  "write_served_version io v f = (if io then line (show_version v) else f)"

section \<open>The decision\<close>

datatype skip_reason = No_upgrade_recorded | History_unreadable | Not_opened_yet | Opened_by_newer | Initialized_here | Already_served

datatype pending_reason = Never_served | No_served_record

datatype upgrade_verdict = Skip skip_reason | Pending pending_reason

definition decide_upgrade :: "server_version \<Rightarrow> upgrade_history \<Rightarrow> server_version option \<Rightarrow> upgrade_verdict" where
  "decide_upgrade binary h served =
     (case h of
        No_history \<Rightarrow> Skip No_upgrade_recorded
      | Unreadable_history \<Rightarrow> Skip History_unreadable
      | Newest newest initialized_by_it \<Rightarrow>
          if newest < binary then Skip Not_opened_yet
          else if newest > binary then Skip Opened_by_newer
          else if initialized_by_it then Skip Initialized_here
          else (case served of
                  Some s \<Rightarrow> if s \<ge> binary then Skip Already_served else Pending Never_served
                | None \<Rightarrow> Pending No_served_record))"

section \<open>Intermediate tables\<close>

definition is_hex :: "char \<Rightarrow> bool" where
  "is_hex c \<longleftrightarrow> is_digit c \<or> 97 \<le> char_code (ascii_lower c) \<and> char_code (ascii_lower c) \<le> 102"

definition hex_val :: "char \<Rightarrow> nat" where
  "hex_val c = (if is_digit c then digit_val c else char_code (ascii_lower c) - 87)"

definition hex_digits_val :: "string \<Rightarrow> nat" where
  "hex_digits_val s = foldl (\<lambda>a c. a * 16 + hex_val c) 0 s"

text \<open>\<open>u32::from_str_radix(_, 16)\<close> on at most four characters, where it cannot overflow.\<close>

definition from_hex :: "string \<Rightarrow> nat option" where
  "from_hex s =
     (let t = (case s of [] \<Rightarrow> s | c # r \<Rightarrow> if char_code c = 43 then r else s) in
      if t \<noteq> [] \<and> list_all is_hex t then Some (hex_digits_val t) else None)"

text \<open>
  \<open>char::from_u32\<close> refuses surrogates; \<open>push\<close> appends the UTF-8 bytes. Codes here have
  four hexadecimal digits, so three bytes are the longest encoding.
\<close>

definition from_u32 :: "nat \<Rightarrow> nat option" where
  "from_u32 n = (if n < 55296 \<or> 57344 \<le> n \<and> n < 1114112 then Some n else None)"

definition utf8 :: "nat \<Rightarrow> string" where
  "utf8 n =
     (if n < 128 then [char_of n]
      else if n < 2048 then [char_of (192 + n div 64), char_of (128 + n mod 64)]
      else [char_of (224 + n div 4096), char_of (128 + n div 64 mod 64), char_of (128 + n mod 64)])"

fun decode_filename :: "string \<Rightarrow> string option" where
  "decode_filename [] = Some []"
| "decode_filename (c # s) =
     (if c = CHR ''@'' then
        (if length (take 4 s) \<noteq> 4 then None
         else Option.bind (from_hex (take 4 s)) (\<lambda>code.
                Option.bind (from_u32 code) (\<lambda>ch.
                  map_option ((@) (utf8 ch)) (decode_filename (drop 4 s)))))
      else map_option ((#) c) (decode_filename s))"

definition rsplit_once :: "char \<Rightarrow> string \<Rightarrow> (string \<times> string) option" where
  "rsplit_once d s = map_option (\<lambda>(a, b). (rev b, rev a)) (split_once d (rev s))"

definition orphan_table_name :: "string \<Rightarrow> string option" where
  "orphan_table_name file_name =
     Option.bind (strip_suffix ''.sdi'' file_name) (\<lambda>stem.
       Option.bind (rsplit_once (CHR ''_'') stem) (\<lambda>(encoded, sdi_id).
         if sdi_id = [] \<or> \<not> list_all is_digit sdi_id then None
         else Option.bind (decode_filename encoded) (\<lambda>name.
                if starts_with ''#sql'' name then Some name else None)))"

text \<open>\<open>listing\<close>: the file names of the \<open>mysql\<close> schema directory; \<open>None\<close> when it cannot be read.\<close>

definition orphan_tables :: "string list option \<Rightarrow> string list" where
  "orphan_tables listing =
     (case listing of None \<Rightarrow> [] | Some fs \<Rightarrow> remdups_adj (sort (List.map_filter orphan_table_name fs)))"

abbreviation backtick :: char where "backtick \<equiv> CHR 0x60"

definition quote_identifier :: "string \<Rightarrow> string" where
  "quote_identifier name = [backtick] @ replace_char backtick [backtick, backtick] name @ [backtick]"

section \<open>The pass\<close>

text \<open>
  Seconds since the loop at hand started are natural numbers. A script says, round by round,
  what the server, the clock and the signals did; a script that is exhausted leaves the pass
  still running, which is \<open>None\<close>.
\<close>

datatype wait_end = Server_exited | Stop_requested | Slept

datatype connect_reply = Connected | Refused_password | Not_answered

datatype drive_failure = Exited | Every_password_refused | Never_accepted | Rollback_stalled
  | Log_not_disabled | Drops_failed "string list"

datatype drive_error = Signaled | Drive_failed drive_failure

fun try_candidates :: "(string \<Rightarrow> connect_reply) \<Rightarrow> string list \<Rightarrow> nat \<Rightarrow> bool \<times> nat" where
  "try_candidates reply [] denied = (False, denied)"
| "try_candidates reply (p # ps) denied =
     (case reply p of
        Connected \<Rightarrow> (True, denied)
      | Refused_password \<Rightarrow> try_candidates reply ps (denied + 1)
      | Not_answered \<Rightarrow> try_candidates reply ps denied)"

record connect_round =
  cr_wait :: wait_end
  cr_reply :: "string \<Rightarrow> connect_reply"
  cr_elapsed :: nat

fun connect_loop :: "nat \<Rightarrow> string list \<Rightarrow> connect_round list \<Rightarrow> (drive_error + unit) option" where
  "connect_loop budget pws [] = None"
| "connect_loop budget pws (r # rs) =
     (case cr_wait r of
        Server_exited \<Rightarrow> Some (Inl (Drive_failed Exited))
      | Stop_requested \<Rightarrow> Some (Inl Signaled)
      | Slept \<Rightarrow>
          (case try_candidates (cr_reply r) pws 0 of (connected, denied) \<Rightarrow>
             if connected then Some (Inr ())
             else if denied = length pws then Some (Inl (Drive_failed Every_password_refused))
             else if cr_elapsed r \<ge> budget then Some (Inl (Drive_failed Never_accepted))
             else connect_loop budget pws rs))"

definition ROLLBACK_STALL_LIMIT :: nat where "ROLLBACK_STALL_LIMIT = 600"

text \<open>
  What one read of \<open>innodb_trx\<close> gave; when it failed, how the server answers a
  reconnection with the first candidate. Sessions are numbered: \<open>SET SESSION\<close> holds for
  one of them.
\<close>

datatype trx_reply = Rows nat nat | No_row | Read_failed connect_reply

record rollback_round =
  rb_reply :: trx_reply
  rb_now :: nat
  rb_wait :: wait_end

record rollback_state =
  rs_last :: "(nat \<times> nat) option"
  rs_progress :: nat
  rs_session :: nat

definition observe_rollback :: "string list \<Rightarrow> rollback_round \<Rightarrow> rollback_state \<Rightarrow> rollback_state" where
  "observe_rollback pws r st =
     (case rb_reply r of
        Rows n m \<Rightarrow>
          if rs_last st \<noteq> Some (n, m) then st\<lparr>rs_last := Some (n, m), rs_progress := rb_now r\<rparr> else st
      | No_row \<Rightarrow> st
      | Read_failed fresh \<Rightarrow>
          if pws \<noteq> [] \<and> fresh = Connected then st\<lparr>rs_session := rs_session st + 1\<rparr> else st)"

definition rolled_back :: "rollback_round \<Rightarrow> bool" where
  "rolled_back r = (case rb_reply r of Rows n m \<Rightarrow> n = 0 | _ \<Rightarrow> False)"

fun rollback_loop :: "string list \<Rightarrow> rollback_state \<Rightarrow> rollback_round list \<Rightarrow> (drive_error + nat) option" where
  "rollback_loop pws st [] = None"
| "rollback_loop pws st (r # rs) =
     (if rolled_back r then Some (Inr (rs_session st))
      else
        (let st' = observe_rollback pws r st in
         if rb_now r - rs_progress st' \<ge> ROLLBACK_STALL_LIMIT then Some (Inl (Drive_failed Rollback_stalled))
         else
           (case rb_wait r of
              Server_exited \<Rightarrow> Some (Inl (Drive_failed Exited))
            | Stop_requested \<Rightarrow> Some (Inl Signaled)
            | Slept \<Rightarrow> rollback_loop pws st' rs)))"

definition log_off :: string where
  "log_off = ''SET SESSION sql_log_bin = 0''"

definition drop_statement :: "string \<Rightarrow> string" where
  "drop_statement name = ''DROP TABLE IF EXISTS mysql.'' @ quote_identifier name"

text \<open>The statements sent, with the session each one ran in, and how the cleanup ended.\<close>

definition drop_orphans :: "bool \<Rightarrow> (string \<Rightarrow> bool) \<Rightarrow> nat \<Rightarrow> string list \<Rightarrow> (nat \<times> string) list \<times> (drive_error + unit)" where
  "drop_orphans log_off_ok drop_ok session orphans =
     (if orphans = [] then ([], Inr ())
      else if \<not> log_off_ok then ([(session, log_off)], Inl (Drive_failed Log_not_disabled))
      else
        (let sent = (session, log_off) # map (\<lambda>n. (session, drop_statement n)) orphans;
             failed = filter (\<lambda>n. \<not> drop_ok (drop_statement n)) orphans in
         (sent, if failed \<noteq> [] then Inl (Drive_failed (Drops_failed failed)) else Inr ())))"

record drive_script =
  ds_connect :: "connect_round list"
  ds_rollback_start :: nat
  ds_rollback :: "rollback_round list"
  ds_listing :: "string list option"
  ds_log_off_ok :: bool
  ds_drop_ok :: "string \<Rightarrow> bool"

definition drive :: "nat \<Rightarrow> string list \<Rightarrow> drive_script \<Rightarrow> ((nat \<times> string) list \<times> (drive_error + unit)) option" where
  "drive budget pws sc =
     (case connect_loop budget pws (ds_connect sc) of
        None \<Rightarrow> None
      | Some (Inl e) \<Rightarrow> Some ([], Inl e)
      | Some (Inr _) \<Rightarrow>
          (case rollback_loop pws \<lparr>rs_last = None, rs_progress = ds_rollback_start sc, rs_session = 0\<rparr> (ds_rollback sc) of
             None \<Rightarrow> None
           | Some (Inl e) \<Rightarrow> Some ([], Inl e)
           | Some (Inr session) \<Rightarrow>
               Some (drop_orphans (ds_log_off_ok sc) (ds_drop_ok sc) session (orphan_tables (ds_listing sc)))))"

section \<open>Around the pass\<close>

text \<open>The candidates of the pin resolver, each once and none empty.\<close>

definition root_candidates :: "string option \<Rightarrow> string \<Rightarrow> string option \<Rightarrow> string list" where
  "root_candidates pending env pin =
     filter (\<lambda>p. p \<noteq> [])
       (foldl (\<lambda>ps (_, p). if p \<in> set ps then ps else ps @ [p])
          (case pending of Some p \<Rightarrow> [p] | None \<Rightarrow> []) (candidates env pin))"

definition private_socket :: string where
  "private_socket = ''/var/run/mysqld/finish-upgrade.sock''"

definition minimal_boot_args :: "string list \<Rightarrow> string list" where
  "minimal_boot_args args = args @
     [''--upgrade=MINIMAL'', ''--skip-networking'', ''--socket='' @ private_socket, ''--mysqlx=OFF'',
      ''--event-scheduler=DISABLED'', ''--skip-replica-start'']"

datatype stop_action = Sigterm | Sigkill

definition stop :: "bool \<Rightarrow> bool \<Rightarrow> bool \<Rightarrow> stop_action list" where
  "stop already_exited has_pid exits_in_time =
     (if already_exited then []
      else (if has_pid then [Sigterm] else []) @ (if exits_in_time then [] else [Sigkill]))"

record upgrade_boot =
  ub_initialized :: bool
  ub_binary :: "server_version option"
  ub_history :: file_read
  ub_served :: file_read
  ub_pending :: "string option"
  ub_pin :: "string option"
  ub_signals_ok :: bool
  ub_spawn_ok :: bool
  ub_script :: drive_script
  ub_exited :: bool
  ub_has_pid :: bool
  ub_exits_in_time :: bool

datatype pass_outcome = Continue | ShutdownRequested

datatype pass_report = No_password_known | Not_spawned | Not_finished drive_failure

record pass_run =
  pr_outcome :: pass_outcome
  pr_reports :: "pass_report list"
  pr_args :: "string list option"
  pr_sent :: "(nat \<times> string) list"
  pr_stop :: "stop_action list"

definition fall_through :: "pass_report list \<Rightarrow> pass_run" where
  "fall_through reports = \<lparr>pr_outcome = Continue, pr_reports = reports, pr_args = None, pr_sent = [], pr_stop = []\<rparr>"

definition run_if_pending :: "(string \<Rightarrow> (string \<times> bool) list option) \<Rightarrow> config \<Rightarrow> string list \<Rightarrow> upgrade_boot \<Rightarrow> pass_run option" where
  "run_if_pending decode_history c args b =
     (if \<not> ub_initialized b then Some (fall_through [])
      else
        (case ub_binary b of
           None \<Rightarrow> Some (fall_through [])
         | Some binary \<Rightarrow>
             (case decide_upgrade binary (read_history decode_history (ub_history b)) (read_served_version (ub_served b)) of
                Skip _ \<Rightarrow> Some (fall_through [])
              | Pending _ \<Rightarrow>
                  (let passwords = root_candidates (ub_pending b) (mysql_root_password c) (read_pin (ub_pin b)) in
                   if passwords = [] then Some (fall_through [No_password_known])
                   else if \<not> ub_signals_ok b then Some (fall_through [])
                   else if \<not> ub_spawn_ok b then Some (fall_through [Not_spawned])
                   else map_option (\<lambda>(sent, result).
                          \<lparr>pr_outcome = (if result = Inl Signaled then ShutdownRequested else Continue),
                           pr_reports = (case result of Inl (Drive_failed e) \<Rightarrow> [Not_finished e] | _ \<Rightarrow> []),
                           pr_args = Some (minimal_boot_args args), pr_sent = sent,
                           pr_stop = stop (ub_exited b) (ub_has_pid b) (ub_exits_in_time b)\<rparr>)
                        (drive (boot_ready_budget_seconds c) passwords (ub_script b))))))"

text \<open>
  \<open>record_served_version\<close>: one element per poll, what \<open>is_init_temp_server\<close> answered:
  the flag, or an error and whether it is a denial. The first answer of the serving server
  ends the loop.
\<close>

datatype serving_poll = Init_temp_server bool | Poll_failed bool

definition poll_answered :: "serving_poll \<Rightarrow> bool" where
  "poll_answered p = (case p of Init_temp_server t \<Rightarrow> \<not> t | Poll_failed denied \<Rightarrow> denied)"

fun record_served_version :: "bool \<Rightarrow> server_version option \<Rightarrow> serving_poll list \<Rightarrow> file_read \<Rightarrow> file_read option" where
  "record_served_version io None polls f = Some f"
| "record_served_version io (Some binary) [] f = None"
| "record_served_version io (Some binary) (p # ps) f =
     (if poll_answered p
      then Some (if read_served_version f \<noteq> Some binary then write_served_version io binary f else f)
      else record_served_version io (Some binary) ps f)"

section \<open>Versions and markers read back\<close>

lemma parse_u32_show [simp]: "parse_u32 (show_u32 w) = Some w"
proof -
  have "unat w < 2 ^ LENGTH(32)"
    by (rule unsigned_less)
  then have "unat w \<le> u32_max"
    by (simp add: u32_max_def)
  then show ?thesis by (simp add: parse_u32_def show_u32_def)
qed

lemma split_once_append: "d \<notin> set a \<Longrightarrow> split_once d (a @ d # r) = Some (a, r)"
  by (simp add: split_once_Some)

lemma dot_props [simp]: "\<not> is_digit (CHR ''.'')" "\<not> is_ws (CHR ''.'')"
  by (simp_all add: is_digit_def is_ws_def char_code_def)

lemma show_u32_props [simp]: "list_all is_digit (show_u32 w)" "CHR ''.'' \<notin> set (show_u32 w)" "show_u32 w \<noteq> []"
  using digits_no_char [OF show_nat_digits dot_props(1)] by (simp_all add: show_u32_def show_nat_digits)

lemma takeWhile_digits:
  assumes "list_all is_digit s" and "r = [] \<or> \<not> is_digit (hd r)"
  shows "takeWhile is_digit (s @ r) = s"
  using assms by (cases r) (auto simp: takeWhile_append list_all_iff)

lemma show_version_plain: "plain_line (show_version v)"
  using show_nat_no_ws by (auto simp: plain_line_def show_version_def show_u32_def)

lemma parse_version_suffix:
  assumes "trim raw = show_version v @ r" and "r = [] \<or> \<not> is_digit (hd r)"
  shows "parse_version raw = Some v"
proof -
  have "trim raw = show_u32 (major v) @ CHR ''.'' # show_u32 (minor v) @ CHR ''.'' # show_u32 (patch v) @ r"
    using assms(1) by (simp add: show_version_def)
  then show ?thesis
    using assms(2) by (simp add: parse_version_def split_once_append takeWhile_digits)
qed

lemma served_version_read_back: "read_served_version (write_served_version True v f) = Some v"
  by (simp add: read_served_version_def write_served_version_def line_def read_text_def
      parse_version_suffix [where r = "[]"] show_version_plain)

interpretation served_marker: volume_marker read_served_version "write_served_version True" Some "\<lambda>_. True"
  by unfold_locales (simp add: served_version_read_back)

lemma decide_pending:
  "(\<exists>r. decide_upgrade binary h served = Pending r) \<longleftrightarrow>
     h = Newest binary False \<and> (case served of None \<Rightarrow> True | Some s \<Rightarrow> s < binary)"
  by (auto simp: decide_upgrade_def not_le split: upgrade_history.splits option.splits if_splits)

section \<open>Intermediate table names read back\<close>

text \<open>
  The server's file-name encoding of the ASCII characters, as its manual gives it: letters, digits
  and underscores stand for themselves, every other character is its code in four hexadecimal
  digits. (The letters of other alphabets, some of which the server writes with two
  characters, are left out.)
\<close>

definition hex_char :: "nat \<Rightarrow> char" where
  "hex_char d = (if d < 10 then digit_char d else char_of (87 + d))"

definition hex4 :: "nat \<Rightarrow> string" where
  "hex4 n = [hex_char (n div 4096), hex_char (n div 256 mod 16), hex_char (n div 16 mod 16), hex_char (n mod 16)]"

definition stands_for_itself :: "nat \<Rightarrow> bool" where
  "stands_for_itself n \<longleftrightarrow> 48 \<le> n \<and> n \<le> 57 \<or> 65 \<le> n \<and> n \<le> 90 \<or> 97 \<le> n \<and> n \<le> 122 \<or> n = 95"

definition encode_char :: "nat \<Rightarrow> string" where
  "encode_char n = (if stands_for_itself n then [char_of n] else CHR ''@'' # hex4 n)"

definition encode_filename :: "nat list \<Rightarrow> string" where
  "encode_filename cs = concat (map encode_char cs)"

definition in_table_name :: "nat \<Rightarrow> bool" where
  "in_table_name n \<longleftrightarrow> 0 < n \<and> n < 128"

lemma hex_char_props:
  assumes "d < 16"
  shows "is_hex (hex_char d)" and "hex_val (hex_char d) = d" and "char_code (hex_char d) \<noteq> 43"
  using assms
  by (auto simp: hex_char_def is_hex_def hex_val_def ascii_lower_def is_digit_def char_code_def digit_val_def digit_char_def)

lemma from_hex_hex4:
  assumes "n < 65536"
  shows "from_hex (hex4 n) = Some n"
proof -
  have "n div 4096 * 16 + n div 256 mod 16 = n div 256"
    using div_mult_mod_eq [of "n div 256" 16] by (simp add: div_mult2_eq [symmetric])
  moreover have "n div 256 * 16 + n div 16 mod 16 = n div 16"
    using div_mult_mod_eq [of "n div 16" 16] by (simp add: div_mult2_eq [symmetric])
  moreover have "n div 4096 < 16"
    using assms by (simp add: less_mult_imp_div_less)
  ultimately show ?thesis
    by (simp add: from_hex_def hex4_def hex_char_props hex_digits_val_def Let_def)
qed

lemma decode_encode_char:
  assumes "in_table_name n"
  shows "decode_filename (encode_char n @ s) = map_option ((@) (utf8 n)) (decode_filename s)"
proof (cases "stands_for_itself n")
  case True
  then have "n < 128" and "char_of n \<noteq> CHR ''@''"
    by (auto simp: stands_for_itself_def char_of_eq_iff take_bit_eq_mod)
  then show ?thesis
    using True by (simp add: encode_char_def utf8_def fun_eq_iff cong: option.map_cong)
next
  case False
  have "from_hex (hex4 n) = Some n" and "from_u32 n = Some n"
    using assms by (auto simp: in_table_name_def from_u32_def intro!: from_hex_hex4)
  then show ?thesis
    using False by (simp add: encode_char_def) (simp add: hex4_def)
qed

lemma decode_encode_filename:
  "list_all in_table_name cs \<Longrightarrow> decode_filename (encode_filename cs) = Some (concat (map utf8 cs))"
  by (induction cs) (auto simp: encode_filename_def decode_encode_char)

lemma rsplit_once_append: "d \<notin> set b \<Longrightarrow> rsplit_once d (a @ d # b) = Some (a, b)"
  by (simp add: rsplit_once_def split_once_append)

lemma orphan_name_reads_back:
  assumes "list_all in_table_name cs" and "starts_with ''#sql'' (concat (map utf8 cs))"
  shows "orphan_table_name (encode_filename cs @ ''_'' @ show_nat n @ ''.sdi'') = Some (concat (map utf8 cs))"
proof -
  have u: "CHR ''_'' \<notin> set (show_nat n)"
    by (intro digits_no_char show_nat_digits) (simp add: is_digit_def char_code_def)
  have "strip_suffix ''.sdi'' (encode_filename cs @ CHR ''_'' # show_nat n @ ''.sdi'') = Some (encode_filename cs @ CHR ''_'' # show_nat n)"
    using strip_suffix_append [of "''.sdi''" "encode_filename cs @ CHR ''_'' # show_nat n"] by simp
  then show ?thesis
    using assms u by (simp add: orphan_table_name_def rsplit_once_append decode_encode_filename show_nat_digits)
qed

text \<open>How the server reads a quoted identifier: a doubled backtick is one, a single one ends it.\<close>

fun read_quoted :: "string \<Rightarrow> (string \<times> string) option" where
  "read_quoted [] = None"
| "read_quoted (c # s) =
     (if c = backtick then
        (case s of d # r \<Rightarrow> if d = backtick then map_option (\<lambda>(v, t). (d # v, t)) (read_quoted r) else Some ([], s)
         | [] \<Rightarrow> Some ([], []))
      else map_option (\<lambda>(v, t). (c # v, t)) (read_quoted s))"

lemma read_quote_identifier:
  "rest = [] \<or> hd rest \<noteq> backtick \<Longrightarrow> map_option fst (read_quoted (tl (quote_identifier name @ rest))) = Some name"
proof -
  assume r: "rest = [] \<or> hd rest \<noteq> backtick"
  have "read_quoted (replace_char backtick [backtick, backtick] name @ backtick # rest) = Some (name, rest)"
    using r by (induction name) (auto simp: replace_char_Cons split: list.splits)
  then show ?thesis by (simp add: quote_identifier_def)
qed

lemma orphan_tables_set:
  "name \<in> set (orphan_tables listing) \<longleftrightarrow> (\<exists>fs f. listing = Some fs \<and> f \<in> set fs \<and> orphan_table_name f = Some name)"
  by (auto simp: orphan_tables_def List.map_filter_def split: option.splits) force

lemma distinct_dedup: "sorted xs \<Longrightarrow> distinct (remdups_adj (xs :: 'a::linorder list))"
proof (induction xs rule: remdups_adj.induct)
  case (3 x y xs)
  then show ?case by (cases "x = y") (fastforce simp: antisym)+
qed auto

lemma orphan_tables_distinct: "distinct (orphan_tables listing)"
  by (simp add: orphan_tables_def distinct_dedup split: option.splits)

section \<open>The pass ends\<close>

lemma connect_loop_returns:
  "r \<in> set rs \<Longrightarrow> budget \<le> cr_elapsed r \<Longrightarrow> connect_loop budget pws rs \<noteq> None"
  by (induction rs) (auto split: wait_end.splits prod.splits)

definition changed :: "rollback_state \<Rightarrow> rollback_round \<Rightarrow> bool" where
  "changed st r \<longleftrightarrow> (case rb_reply r of Rows n m \<Rightarrow> rs_last st \<noteq> Some (n, m) | _ \<Rightarrow> False)"

abbreviation observed :: "string list \<Rightarrow> rollback_state \<Rightarrow> rollback_round list \<Rightarrow> rollback_state" where
  "observed pws st rs \<equiv> foldl (\<lambda>s r. observe_rollback pws r s) st rs"

lemma observe_progress: "rs_progress (observe_rollback pws r st) = (if changed st r then rb_now r else rs_progress st)"
  by (auto simp: observe_rollback_def changed_def split: trx_reply.splits)

text \<open>The clock of the stall is never behind a read that brought something new.\<close>

lemma progress_after_changes:
  assumes "sorted (map rb_now rs)" and "j < length rs" and "changed (observed pws st (take j rs)) (rs ! j)"
  shows "rb_now (rs ! j) \<le> rs_progress (observed pws st rs)"
  using assms
proof (induction rs rule: rev_induct)
  case (snoc r rs)
  then show ?case
    by (cases "j < length rs") (auto simp: nth_append observe_progress sorted_append)
qed simp

lemma rollback_loop_cases:
  assumes "rollback_loop pws st rs = out"
  obtains (running) "out = None" and "\<forall>i < length rs. rb_now (rs ! i) - rs_progress (observed pws st (take (Suc i) rs)) < ROLLBACK_STALL_LIMIT"
  | (clean) i s where "out = Some (Inr s)" and "i < length rs" and "rolled_back (rs ! i)"
  | (stalled) i where "out = Some (Inl (Drive_failed Rollback_stalled))" and "i < length rs"
      and "ROLLBACK_STALL_LIMIT \<le> rb_now (rs ! i) - rs_progress (observed pws st (take (Suc i) rs))"
  | (stopped) i where "i < length rs" and "out = Some (Inl (if rb_wait (rs ! i) = Server_exited then Drive_failed Exited else Signaled))"
      and "rb_wait (rs ! i) \<noteq> Slept"
  using assms
proof (induction rs arbitrary: st thesis)
  case Nil
  then show ?case by simp
next
  case (Cons r rs)
  let ?st = "observe_rollback pws r st"
  let ?late = "ROLLBACK_STALL_LIMIT \<le> rb_now r - rs_progress ?st"
  consider "rolled_back r" | "\<not> rolled_back r" "?late" | "\<not> rolled_back r" "\<not> ?late" "rb_wait r \<noteq> Slept"
    | "\<not> rolled_back r" "\<not> ?late" "rb_wait r = Slept"
    by blast
  then show ?case
  proof cases
    case 1
    then show ?thesis using Cons.prems(5) Cons.prems(2) [of "rs_session st" 0] by auto
  next
    case 2
    then show ?thesis using Cons.prems(5) Cons.prems(3) [of 0] by (simp add: Let_def)
  next
    case 3
    then show ?thesis using Cons.prems(5) Cons.prems(4) [of 0] by (cases "rb_wait r") (simp_all add: Let_def)
  next
    case 4
    then have o: "rollback_loop pws ?st rs = out"
      using Cons.prems(5) by (simp add: Let_def)
    show ?thesis
    proof (rule Cons.IH [OF _ _ _ _ o])
      assume "out = None"
        and *: "\<forall>i < length rs. rb_now (rs ! i) - rs_progress (observed pws ?st (take (Suc i) rs)) < ROLLBACK_STALL_LIMIT"
      moreover have "rb_now ((r # rs) ! i) - rs_progress (observed pws st (take (Suc i) (r # rs))) < ROLLBACK_STALL_LIMIT"
        if "i < length (r # rs)" for i
        using that * 4(2) by (cases i) auto
      ultimately show thesis
        using Cons.prems(1) by blast
    next
      fix i s assume "out = Some (Inr s)" and "i < length rs" and "rolled_back (rs ! i)"
      then show thesis using Cons.prems(2) [of s "Suc i"] by simp
    next
      fix i assume "out = Some (Inl (Drive_failed Rollback_stalled))" and "i < length rs"
        and "ROLLBACK_STALL_LIMIT \<le> rb_now (rs ! i) - rs_progress (observed pws ?st (take (Suc i) rs))"
      then show thesis using Cons.prems(3) [of "Suc i"] by simp
    next
      fix i assume "i < length rs" and "out = Some (Inl (if rb_wait (rs ! i) = Server_exited then Drive_failed Exited else Signaled))"
        and "rb_wait (rs ! i) \<noteq> Slept"
      then show thesis using Cons.prems(4) [of "Suc i"] by simp
    qed
  qed
qed

lemma stalled_reads:
  assumes "rollback_loop pws st rs = Some (Inl (Drive_failed Rollback_stalled))" and "sorted (map rb_now rs)"
  shows "\<exists>i < length rs. \<forall>j \<le> i. changed (observed pws st (take j rs)) (rs ! j) \<longrightarrow>
    rb_now (rs ! j) + ROLLBACK_STALL_LIMIT \<le> rb_now (rs ! i)"
  using assms(1)
proof (cases rule: rollback_loop_cases)
  case (stalled i)
  have "rb_now (rs ! j) + ROLLBACK_STALL_LIMIT \<le> rb_now (rs ! i)"
    if "j \<le> i" and "changed (observed pws st (take j rs)) (rs ! j)" for j
  proof -
    have "rb_now (take (Suc i) rs ! j) \<le> rs_progress (observed pws st (take (Suc i) rs))"
      using that stalled(2) assms(2)
      by (intro progress_after_changes) (auto simp: take_map [symmetric] sorted_wrt_take min_absorb1)
    then show ?thesis
      using that stalled(3) by (simp add: ROLLBACK_STALL_LIMIT_def)
  qed
  then show ?thesis using stalled(2) by blast
qed (auto split: if_splits)

lemma still_rolling_back:
  assumes "rollback_loop pws st rs = None" and "rs \<noteq> []"
  shows "rb_now (last rs) < rs_progress (observed pws st rs) + ROLLBACK_STALL_LIMIT"
  using assms(1)
proof (cases rule: rollback_loop_cases)
  case running
  then show ?thesis
    using assms(2) by (cases rs rule: rev_cases) (auto simp: ROLLBACK_STALL_LIMIT_def dest!: spec [of _ "length (butlast rs)"])
qed auto

section \<open>What the pass sends\<close>

lemma drop_not_log_off [simp]: "drop_statement n \<noteq> log_off"
  by (simp add: drop_statement_def log_off_def)

lemma drive_sends:
  assumes "drive budget pws sc = Some (sent, result)"
  obtains (nothing) "sent = []" and "result = Inr () \<longrightarrow> orphan_tables (ds_listing sc) = []"
  | (refused) s where "sent = [(s, log_off)]" and "result \<noteq> Inr ()"
  | (drops) s where "sent = (s, log_off) # map (\<lambda>n. (s, drop_statement n)) (orphan_tables (ds_listing sc))"
      and "result = Inr () \<longrightarrow> (\<forall>n \<in> set (orphan_tables (ds_listing sc)). ds_drop_ok sc (drop_statement n))"
  using assms
  by (auto simp: drive_def drop_orphans_def Let_def filter_empty_conv split: option.splits sum.splits if_splits)

definition unlogged :: "(nat \<times> string) list \<Rightarrow> bool" where
  "unlogged sent \<longleftrightarrow> (\<forall>i < length sent. snd (sent ! i) \<noteq> log_off \<longrightarrow> (\<exists>j < i. sent ! j = (fst (sent ! i), log_off)))"

lemma unlogged_drops: "unlogged ((s, log_off) # map (\<lambda>n. (s, q n)) ns)"
  by (auto simp: unlogged_def nth_Cons split: nat.splits)

section \<open>The candidates\<close>

lemma root_candidates_props:
  "set (root_candidates pending env pin) = {p. p \<noteq> [] \<and> (pending = Some p \<or> pin = Some p \<or> p = env)}"
  "distinct (root_candidates pending env pin)"
  by (auto simp: root_candidates_def candidates_def split: option.splits)

lemma run_if_pending_cases:
  assumes "run_if_pending decode_history c args b = Some run"
  obtains (not_run) reports where "run = fall_through reports"
  | (run) v r sent result where "ub_initialized b" and "ub_binary b = Some v"
      and "decide_upgrade v (read_history decode_history (ub_history b)) (read_served_version (ub_served b)) = Pending r"
      and "root_candidates (ub_pending b) (mysql_root_password c) (read_pin (ub_pin b)) \<noteq> []"
      and "ub_signals_ok b" and "ub_spawn_ok b"
      and "drive (boot_ready_budget_seconds c) (root_candidates (ub_pending b) (mysql_root_password c) (read_pin (ub_pin b)))
             (ub_script b) = Some (sent, result)"
      and "run = \<lparr>pr_outcome = (if result = Inl Signaled then ShutdownRequested else Continue),
             pr_reports = (case result of Inl (Drive_failed e) \<Rightarrow> [Not_finished e] | _ \<Rightarrow> []),
             pr_args = Some (minimal_boot_args args), pr_sent = sent,
             pr_stop = stop (ub_exited b) (ub_has_pid b) (ub_exits_in_time b)\<rparr>"
  using assms
  by (auto simp: run_if_pending_def Let_def split: if_splits option.splits upgrade_verdict.splits)

lemma fall_through_simps [simp]:
  "pr_outcome (fall_through r) = Continue" "pr_args (fall_through r) = None" "pr_sent (fall_through r) = []"
  by (simp_all add: fall_through_def)

lemma record_served_reads:
  "record_served_version True (Some v) polls f = Some f' \<Longrightarrow> read_served_version f' = Some v"
  by (induction polls) (auto simp: served_marker.get_put split: if_splits)

lemma already_served_skips: "\<nexists>r. decide_upgrade v h (Some v) = Pending r"
  by (simp add: decide_pending)

section \<open>The properties\<close>

text \<open>
  C28: The pass runs only on an initialised data directory whose last recorded opening
  is by exactly this binary, that this binary did not initialise, and that no boot of this
  binary or a newer one has served; and the boot is held back afterwards only when a stop was
  asked for, with the private server told to stop.
\<close>
theorem upgrade_pass_runs_only_when_owed:
  assumes "run_if_pending decode_history c args b = Some run"
  shows "(pr_args run \<noteq> None \<longrightarrow>
      (\<exists>v. ub_initialized b \<and> ub_binary b = Some v \<and> read_history decode_history (ub_history b) = Newest v False \<and>
         (case read_served_version (ub_served b) of None \<Rightarrow> True | Some s \<Rightarrow> s < v))) \<and>
    (pr_outcome run = ShutdownRequested \<longrightarrow> pr_args run \<noteq> None \<and> pr_reports run = [] \<and>
       pr_stop run = stop (ub_exited b) (ub_has_pid b) (ub_exits_in_time b))"
  using assms
proof (cases rule: run_if_pending_cases)
  case (not_run reports)
  then show ?thesis by simp
next
  case (run v r sent result)
  have "read_history decode_history (ub_history b) = Newest v False \<and>
      (case read_served_version (ub_served b) of None \<Rightarrow> True | Some s \<Rightarrow> s < v)"
    using run(3) decide_pending by blast
  then show ?thesis using run by auto
qed

definition killed_history :: "string \<Rightarrow> (string \<times> bool) list option" where
  "killed_history raw = (if raw = ''{}'' then Some [(show_version (Server_version 9 4 0), True), (show_version (Server_version 9 7 2), False)] else None)"

definition quiet_script :: drive_script where
  "quiet_script = \<lparr>ds_connect = [\<lparr>cr_wait = Slept, cr_reply = (\<lambda>_. Connected), cr_elapsed = 1\<rparr>],
     ds_rollback_start = 0,
     ds_rollback = [\<lparr>rb_reply = Rows 1 5, rb_now = 0, rb_wait = Slept\<rparr>,
       \<lparr>rb_reply = Read_failed Connected, rb_now = 1, rb_wait = Slept\<rparr>, \<lparr>rb_reply = Rows 0 0, rb_now = 2, rb_wait = Slept\<rparr>],
     ds_listing = Some [encode_filename (map of_char ''#sql-4_4'') @ ''_'' @ show_nat 566 @ ''.sdi''], ds_log_off_ok = True, ds_drop_ok = (\<lambda>_. True)\<rparr>"

definition stalled_script :: drive_script where
  "stalled_script = quiet_script\<lparr>ds_rollback := [\<lparr>rb_reply = Rows 1 5, rb_now = 3, rb_wait = Slept\<rparr>,
     \<lparr>rb_reply = Rows 1 5, rb_now = 604, rb_wait = Slept\<rparr>]\<rparr>"

definition killed_boot :: "file_read \<Rightarrow> drive_script \<Rightarrow> upgrade_boot" where
  "killed_boot served sc = \<lparr>ub_initialized = True, ub_binary = Some (Server_version 9 7 2), ub_history = Content ''{}'',
     ub_served = served, ub_pending = None, ub_pin = Some ''pw'', ub_signals_ok = True, ub_spawn_ok = True,
     ub_script = sc, ub_exited = False, ub_has_pid = True, ub_exits_in_time = True\<rparr>"

lemma parse_show_version [simp]: "parse_version (show_version v) = Some v"
proof -
  have "trim (show_version v) = show_version v"
    using show_version_plain [of v]
    by (auto simp: plain_line_def trim_def dropWhile_none trim_end_by_none)
  then show ?thesis by (simp add: parse_version_suffix [where r = "[]"])
qed

lemma killed_history_reads: "read_history killed_history (Content ''{}'') = Newest (Server_version 9 7 2) False"
  by (simp add: read_history_def parse_history_def killed_history_def)

lemma sample_orphan_chars: "concat (map utf8 (map of_char ''#sql-4_4'')) = ''#sql-4_4''"
  "list_all in_table_name (map of_char ''#sql-4_4'')" "starts_with ''#sql'' ''#sql-4_4''"
  by (simp_all add: utf8_def in_table_name_def starts_with_def char_of_def bit_0)

lemma killed_orphans: "orphan_tables (ds_listing quiet_script) = [''#sql-4_4'']"
proof -
  have "orphan_table_name (encode_filename (map of_char ''#sql-4_4'') @ ''_'' @ show_nat 566 @ ''.sdi'') = Some ''#sql-4_4''"
    using orphan_name_reads_back [of "map of_char ''#sql-4_4''" 566] sample_orphan_chars by metis
  then show ?thesis
    by (simp only: quiet_script_def orphan_tables_def drive_script.simps option.case List.map_filter_simps sort_key_simps) simp
qed

lemma killed_candidates: "root_candidates None [] (read_pin (Some ''pw'')) = [''pw'']"
  by code_simp

lemma quiet_drive: "drive budget [''pw''] quiet_script = Some ([(1, log_off), (1, drop_statement ''#sql-4_4'')], Inr ())"
proof -
  have "connect_loop budget [''pw''] (ds_connect quiet_script) = Some (Inr ())"
    by (simp add: quiet_script_def)
  moreover have "rollback_loop [''pw''] \<lparr>rs_last = None, rs_progress = ds_rollback_start quiet_script, rs_session = 0\<rparr>
      (ds_rollback quiet_script) = Some (Inr 1)"
    by (simp add: quiet_script_def rolled_back_def observe_rollback_def ROLLBACK_STALL_LIMIT_def Let_def)
  ultimately show ?thesis
    by (simp add: drive_def killed_orphans drop_orphans_def Let_def) (simp add: quiet_script_def)
qed

lemma killed_run: "run_if_pending killed_history (sample_config ''a'') args (killed_boot Missing quiet_script) =
    Some \<lparr>pr_outcome = Continue, pr_reports = [], pr_args = Some (minimal_boot_args args),
      pr_sent = [(1, log_off), (1, drop_statement ''#sql-4_4'')], pr_stop = [Sigterm]\<rparr>"
proof -
  have "mysql_root_password (sample_config ''a'') = []"
    by (simp add: sample_config_def config_of_env_def env_or_def)
  then show ?thesis
    by (simp add: run_if_pending_def killed_boot_def killed_history_reads decide_upgrade_def read_served_version_def read_text_def
        killed_candidates quiet_drive stop_def Let_def)
qed

lemma upgrade_pass_runs_only_when_owed_witness:
  "\<exists>v. read_history killed_history (Content ''{}'') = Newest v False"
  using upgrade_pass_runs_only_when_owed [OF killed_run [of "[]"]] by (auto simp: killed_boot_def)

text \<open>
  Once a boot of a binary has recorded that it serves, no later boot of that binary
  runs the pass again, whatever the history says; and a record is only written after the
  serving server answered.
\<close>
theorem served_upgrade_is_not_repeated:
  assumes "record_served_version True (Some v) polls f = Some f'"
    and "ub_binary b = Some v" and "ub_served b = f'"
  shows "run_if_pending decode_history c args b = Some (fall_through []) \<and> list_ex poll_answered polls"
proof -
  have "list_ex poll_answered polls"
    using assms(1) by (induction polls) (auto split: if_splits)
  moreover have "\<exists>s. decide_upgrade v (read_history decode_history (ub_history b)) (read_served_version (ub_served b)) = Skip s"
    using already_served_skips record_served_reads [OF assms(1)] assms(3)
    by (metis upgrade_verdict.exhaust)
  ultimately show ?thesis
    using assms(2) by (auto simp: run_if_pending_def)
qed

lemma served_upgrade_is_not_repeated_witness:
  "run_if_pending killed_history (sample_config ''a'') []
     (killed_boot (line (show_version (Server_version 9 7 2))) quiet_script) = Some (fall_through [])"
proof -
  have "record_served_version True (Some (Server_version 9 7 2)) [Init_temp_server True, Poll_failed True] Missing =
      Some (line (show_version (Server_version 9 7 2)))"
    by (simp add: poll_answered_def read_served_version_def read_text_def write_served_version_def)
  then show ?thesis
    by (rule served_upgrade_is_not_repeated [THEN conjunct1]) (simp_all add: killed_boot_def)
qed

lemma utf8_of_ascii: "list_all (\<lambda>c. in_table_name (char_code c)) name \<Longrightarrow> concat (map utf8 (map char_code name)) = name"
  by (induction name) (auto simp: utf8_def in_table_name_def char_code_def)

text \<open>
  C37: The file of an intermediate table, as the server names it, decodes to the table's name, for
  every name in ASCII: the characters that are neither letters, digits nor underscores are read
  back from their four hexadecimal digits, the serial number and the extension are dropped.
\<close>
theorem orphan_name_roundtrip:
  assumes "list_all (\<lambda>c. in_table_name (char_code c)) name" and "starts_with ''#sql'' name"
  shows "orphan_table_name (encode_filename (map char_code name) @ ''_'' @ show_nat n @ ''.sdi'') = Some name"
  using orphan_name_reads_back [of "map char_code name" n] assms utf8_of_ascii [OF assms(1)]
  by (simp add: list_all_iff)

lemma orphan_name_roundtrip_witness: "orphan_table_name ''@0023sql@002d4_4_566.sdi'' = Some ''#sql-4_4''"
proof -
  have "encode_filename (map char_code ''#sql-4_4'') @ ''_'' @ show_nat 566 @ ''.sdi'' = ''@0023sql@002d4_4_566.sdi''" by code_simp
  moreover have "list_all (\<lambda>c. in_table_name (char_code c)) ''#sql-4_4''" "starts_with ''#sql'' ''#sql-4_4''" by code_simp+
  ultimately show ?thesis using orphan_name_roundtrip [of "''#sql-4_4''" 566] by metis
qed

text \<open>
  Every statement of the pass other than the one that turns the binary log off comes
  after that one on the same session, and drops a table whose intermediate file is in the
  listing, under a quoted name the server reads back as that table's.
\<close>
theorem orphan_drops_are_unlogged:
  assumes "run_if_pending decode_history c args b = Some run"
  shows "unlogged (pr_sent run) \<and>
    (\<forall>(s, q) \<in> set (pr_sent run). q \<noteq> log_off \<longrightarrow>
      (\<exists>fs f n. ds_listing (ub_script b) = Some fs \<and> f \<in> set fs \<and> orphan_table_name f = Some n \<and>
         q = drop_statement n \<and>
         map_option fst (read_quoted (tl (quote_identifier n))) = Some n))"
  using assms
proof (cases rule: run_if_pending_cases)
  case (not_run reports)
  then show ?thesis by (simp add: unlogged_def)
next
  case (run v r sent result)
  have q: "map_option fst (read_quoted (tl (quote_identifier n))) = Some n" for n
    using read_quote_identifier [of "[]" n] by simp
  from run(7) show ?thesis
  proof (cases rule: drive_sends)
    case (drops s)
    then show ?thesis
      using q by (auto simp: run(8) unlogged_drops orphan_tables_set) blast+
  qed (simp_all add: run(8) unlogged_def)
qed

lemma orphan_drops_are_unlogged_witness: "unlogged [(1, log_off), (1, drop_statement ''#sql-4_4'')]"
  using orphan_drops_are_unlogged [OF killed_run [of "[]"]] by simp

text \<open>
  With the clock running forward, the pass gives the rollback up only when for 600
  seconds no read of the transaction table showed anything new.
\<close>
theorem rollback_given_up_only_when_stalled:
  assumes "drive budget pws sc = Some (sent, Inl (Drive_failed Rollback_stalled))"
    and "sorted (map rb_now (ds_rollback sc))"
  shows "\<exists>i < length (ds_rollback sc). \<forall>j \<le> i.
    changed (observed pws \<lparr>rs_last = None, rs_progress = ds_rollback_start sc, rs_session = 0\<rparr> (take j (ds_rollback sc)))
      (ds_rollback sc ! j) \<longrightarrow> rb_now (ds_rollback sc ! j) + 600 \<le> rb_now (ds_rollback sc ! i)"
proof -
  have c: "connect_loop budget pws rs \<noteq> Some (Inl (Drive_failed Rollback_stalled))" for rs
    by (induction rs) (auto split: wait_end.splits prod.splits if_splits)
  have "rollback_loop pws \<lparr>rs_last = None, rs_progress = ds_rollback_start sc, rs_session = 0\<rparr> (ds_rollback sc) =
      Some (Inl (Drive_failed Rollback_stalled))"
    using assms(1) c by (auto simp: drive_def drop_orphans_def Let_def split: option.splits sum.splits if_splits)
  from stalled_reads [OF this assms(2)] show ?thesis
    by (simp add: ROLLBACK_STALL_LIMIT_def)
qed

lemma rollback_given_up_only_when_stalled_witness:
  "\<exists>i < length (ds_rollback stalled_script). rb_now (ds_rollback stalled_script ! i) \<ge> 603"
proof -
  have s: "drive 300 [''pw''] stalled_script = Some ([], Inl (Drive_failed Rollback_stalled))"
    by (simp add: drive_def stalled_script_def quiet_script_def rolled_back_def observe_rollback_def ROLLBACK_STALL_LIMIT_def Let_def)
  have "sorted (map rb_now (ds_rollback stalled_script))"
    by (simp add: stalled_script_def)
  from rollback_given_up_only_when_stalled [OF s this] obtain i where i: "i < length (ds_rollback stalled_script)"
    and *: "\<forall>j \<le> i. changed (observed [''pw''] \<lparr>rs_last = None, rs_progress = ds_rollback_start stalled_script, rs_session = 0\<rparr>
        (take j (ds_rollback stalled_script))) (ds_rollback stalled_script ! j) \<longrightarrow>
      rb_now (ds_rollback stalled_script ! j) + 600 \<le> rb_now (ds_rollback stalled_script ! i)" by blast
  have "rb_now (ds_rollback stalled_script ! i) \<ge> 603"
    using spec [OF *, of 0] by (simp add: stalled_script_def changed_def)
  then show ?thesis using i by blast
qed

text \<open>
  The reads of the transaction table that gave a row, and a round whose row is not the one of the
  last such read before it.
\<close>

definition rows_read :: "rollback_round list \<Rightarrow> (nat \<times> nat) list" where
  "rows_read rs = List.map_filter (\<lambda>r. case rb_reply r of Rows n m \<Rightarrow> Some (n, m) | _ \<Rightarrow> None) rs"

definition moved :: "rollback_round list \<Rightarrow> nat \<Rightarrow> bool" where
  "moved rs j \<longleftrightarrow> (\<exists>n m. rb_reply (rs ! j) = Rows n m \<and> (rows_read (take j rs) = [] \<or> last (rows_read (take j rs)) \<noteq> (n, m)))"

lemma rows_read_snoc:
  "rows_read (rs @ [r]) = rows_read rs @ (case rb_reply r of Rows n m \<Rightarrow> [(n, m)] | _ \<Rightarrow> [])"
  by (simp add: rows_read_def map_filter_def split: trx_reply.split)

lemma last_row_observed:
  "rs_last st = None \<Longrightarrow> rs_last (observed pws st rs) = (if rows_read rs = [] then None else Some (last (rows_read rs)))"
proof (induction rs rule: rev_induct)
  case Nil
  then show ?case by (simp add: rows_read_def map_filter_def)
next
  case (snoc r rs)
  then show ?case by (auto simp: rows_read_snoc observe_rollback_def split: trx_reply.split)
qed

lemma progress_is_a_move:
  assumes "rs_last st = None"
  shows "rs_progress (observed pws st rs) = rs_progress st \<or>
    (\<exists>j < length rs. moved rs j \<and> rs_progress (observed pws st rs) = rb_now (rs ! j))"
proof (induction rs rule: rev_induct)
  case (snoc r rs)
  show ?case
  proof (cases "changed (observed pws st rs) r")
    case True
    then have "moved (rs @ [r]) (length rs)"
      using last_row_observed [OF assms, of pws rs] by (auto simp: moved_def changed_def split: trx_reply.splits if_splits)
    then show ?thesis using True by (intro disjI2 exI [of _ "length rs"]) (simp add: observe_progress)
  next
    case False
    have "moved (rs @ [r]) j" if "j < length rs" "moved rs j" for j
      using that by (simp add: moved_def nth_append)
    then show ?thesis using False snoc by (fastforce simp: observe_progress nth_append)
  qed
qed simp

text \<open>
  C29: The pass cannot hang: once a round of the connection phase is past the boot budget, a pass
  that is still running watches a rollback of which, at its last read, a new row was seen less
  than 600 seconds before, a row other than the one read last, or which it has watched for less
  than 600 seconds altogether.
\<close>
theorem upgrade_pass_waits_only_for_progress:
  assumes "drive budget pws sc = None" and "r \<in> set (ds_connect sc)" and "budget \<le> cr_elapsed r"
    and "ds_rollback sc \<noteq> []"
  shows "(\<exists>j < length (ds_rollback sc). moved (ds_rollback sc) j \<and> rb_now (last (ds_rollback sc)) < rb_now (ds_rollback sc ! j) + 600) \<or>
    rb_now (last (ds_rollback sc)) < ds_rollback_start sc + 600"
proof -
  let ?st = "\<lparr>rs_last = None, rs_progress = ds_rollback_start sc, rs_session = 0\<rparr>"
  have "rollback_loop pws ?st (ds_rollback sc) = None"
    using assms(1) connect_loop_returns [OF assms(2,3), of pws] by (auto simp: drive_def split: option.splits sum.splits)
  from still_rolling_back [OF this assms(4)]
  have "rb_now (last (ds_rollback sc)) < rs_progress (observed pws ?st (ds_rollback sc)) + 600"
    by (simp add: ROLLBACK_STALL_LIMIT_def)
  then show ?thesis using progress_is_a_move [of ?st pws "ds_rollback sc"] by auto
qed

lemma upgrade_pass_waits_only_for_progress_witness:
  "\<exists>j < 2. moved [\<lparr>rb_reply = Rows 1 5, rb_now = 3, rb_wait = Slept\<rparr>, \<lparr>rb_reply = Rows 1 4, rb_now = 601, rb_wait = Slept\<rparr>] j"
proof -
  let ?sc = "stalled_script\<lparr>ds_rollback := [\<lparr>rb_reply = Rows 1 5, rb_now = 3, rb_wait = Slept\<rparr>, \<lparr>rb_reply = Rows 1 4, rb_now = 601, rb_wait = Slept\<rparr>]\<rparr>"
  have "drive 1 [''pw''] ?sc = None"
    by (simp add: drive_def stalled_script_def quiet_script_def rolled_back_def observe_rollback_def ROLLBACK_STALL_LIMIT_def Let_def)
  from upgrade_pass_waits_only_for_progress [OF this, of "hd (ds_connect ?sc)"] show ?thesis
    by (auto simp: stalled_script_def quiet_script_def numeral_2_eq_2)
qed

end
