(* ===== verification/Mysql_Conf.thy ===== *)
theory Mysql_Conf
  imports Volume Finish_Upgrade Shipping
begin

text \<open>
  \<open>mysql_conf.rs\<close>: the server id derived from the host name, the memory-derived sizes, and
  the two rendered option files. A file is its section line and its settings, one per line;
  the comment lines of the templates, which the server skips, are left out.
\<close>

unbundle bit_operations_syntax

section \<open>The server id\<close>

definition fnv_step :: "u32 \<Rightarrow> char \<Rightarrow> u32" where
  "fnv_step hash c = (hash XOR word_of_nat (char_code c)) * 0x01000193"

definition fnv1a :: "string \<Rightarrow> u32" where
  "fnv1a s = foldl fnv_step 0x811c9dc5 s"

definition derive_server_id :: "string \<Rightarrow> u32" where
  "derive_server_id d = (let hash = fnv1a d in if hash = 0 then 1 else hash)"

section \<open>Sizes from the memory limit\<close>

definition pool_min :: u64 where "pool_min = 128 * 1024 * 1024"

text \<open>A product past 64 bits wraps, as the release build's arithmetic does.\<close>

definition buffer_pool_bytes :: "u64 option \<Rightarrow> u64 option \<Rightarrow> u64" where
  "buffer_pool_bytes cgroup_limit override_mb =
     (case override_mb of
        Some mb \<Rightarrow> max (mb * 1024 * 1024) pool_min
      | None \<Rightarrow>
          (case cgroup_limit of
             Some limit \<Rightarrow> max (limit div 2) pool_min
           | None \<Rightarrow> 512 * 1024 * 1024))"

definition max_connections :: "u64 option \<Rightarrow> u64 option \<Rightarrow> u64" where
  "max_connections cgroup_limit override_conns =
     (case override_conns of
        Some n \<Rightarrow> max n 1
      | None \<Rightarrow>
          (case cgroup_limit of
             Some limit \<Rightarrow> max 151 (min 1000 (limit div (8 * 1024 * 1024)))
           | None \<Rightarrow> 151))"

text \<open>The two files in order; \<open>max\<close> and the unlimited sentinel both end the search.\<close>

fun memory_limit :: "file_read list \<Rightarrow> u64 option" where
  "memory_limit [] = None"
| "memory_limit (f # fs) =
     (case read_text f of
        None \<Rightarrow> memory_limit fs
      | Some s \<Rightarrow>
          let raw = trim s in
          if raw = ''max'' then None
          else (case parse_uint u64_max raw of
                  Some n \<Rightarrow> if n > 2 ^ 60 then None else Some (word_of_nat n)
                | None \<Rightarrow> memory_limit fs))"

definition read_cgroup_memory_limit :: "file_read \<Rightarrow> file_read \<Rightarrow> u64 option" where
  "read_cgroup_memory_limit v2 v1 = memory_limit [v2, v1]"

section \<open>The option files\<close>

type_synonym settings = "(string \<times> string) list"

definition conf_line :: "string \<times> string \<Rightarrow> string" where
  "conf_line kv = fst kv @ '' = '' @ snd kv"

definition render_settings :: "settings \<Rightarrow> string" where
  "render_settings kvs = concat (map (\<lambda>l. l @ [newline]) (''[mysqld]'' # map conf_line kvs))"

record gr_conf_input =
  gi_server_id :: u32
  gi_group_name :: string
  gi_gr_seeds :: string
  gi_private_domain :: string
  gi_mysql_port :: nat
  gi_buffer_pool_bytes :: u64
  gi_max_connections :: u64

definition show_u64 :: "u64 \<Rightarrow> string" where
  "show_u64 w = show_nat (unat w)"

definition gr_settings :: "gr_conf_input \<Rightarrow> settings" where
  "gr_settings i =
     [(''server_id'', show_u32 (gi_server_id i)),
      (''report_host'', gi_private_domain i),
      (''report_port'', show_nat (gi_mysql_port i)),
      (''gtid_mode'', ''ON''),
      (''enforce_gtid_consistency'', ''ON''),
      (''log_bin'', ''binlog''),
      (''performance_schema'', ''ON''),
      (''innodb_buffer_pool_size'', show_u64 (gi_buffer_pool_bytes i)),
      (''max_connections'', show_u64 (gi_max_connections i)),
      (''binlog_expire_logs_seconds'', show_nat GR_BINLOG_EXPIRE_SECONDS),
      (''host_cache_size'', ''0''),
      (''plugin-load-add'', ''group_replication.so''),
      (''plugin-load-add'', ''mysql_clone.so''),
      (''loose-group_replication_group_name'', gi_group_name i),
      (''loose-group_replication_start_on_boot'', ''OFF''),
      (''loose-group_replication_single_primary_mode'', ''ON''),
      (''loose-group_replication_enforce_update_everywhere_checks'', ''OFF''),
      (''loose-group_replication_communication_stack'', ''MYSQL''),
      (''loose-group_replication_local_address'', gi_private_domain i @ '':'' @ show_nat (gi_mysql_port i)),
      (''loose-group_replication_group_seeds'', gi_gr_seeds i),
      (''loose-group_replication_paxos_single_leader'', ''ON''),
      (''loose-group_replication_gtid_assignment_block_size'', ''1''),
      (''loose-group_replication_recovery_get_public_key'', ''ON'')]"

definition render_gr_conf :: "gr_conf_input \<Rightarrow> string" where
  "render_gr_conf i = render_settings (gr_settings i)"

record archive_conf_input =
  ai_server_id :: u32
  ai_buffer_pool_bytes :: u64
  ai_former_group_member :: bool

definition former_member_gtid_settings :: settings where
  "former_member_gtid_settings = [(''gtid_mode'', ''ON''), (''enforce_gtid_consistency'', ''ON'')]"

definition archive_settings :: "archive_conf_input \<Rightarrow> settings" where
  "archive_settings i =
     [(''server_id'', show_u32 (ai_server_id i)),
      (''log_bin'', ''binlog''),
      (''binlog_format'', ''ROW''),
      (''sync_binlog'', ''1''),
      (''innodb_use_native_aio'', ''0''),
      (''performance_schema'', ''OFF''),
      (''innodb_buffer_pool_size'', show_u64 (ai_buffer_pool_bytes i)),
      (''binlog_expire_logs_seconds'', ''0'')]
     @ (if ai_former_group_member i then former_member_gtid_settings else [])"

definition render_standalone_archive_conf :: "archive_conf_input \<Rightarrow> string" where
  "render_standalone_archive_conf i = render_settings (archive_settings i)"

text \<open>
  What the two writers put in the file, from the configuration, the memory limit and the
  volume; \<open>None\<close> is the panic on a configuration without seeds.
\<close>

definition write_gr_conf :: "config \<Rightarrow> u64 option \<Rightarrow> string \<Rightarrow> u32 \<Rightarrow> string option" where
  "write_gr_conf c cgroup_limit gname sid =
     map_option (\<lambda>seeds. render_gr_conf
       \<lparr>gi_server_id = sid, gi_group_name = gname, gi_gr_seeds = seeds,
        gi_private_domain = private_domain c, gi_mysql_port = mysql_port c,
        gi_buffer_pool_bytes = buffer_pool_bytes cgroup_limit (map_option word_of_nat (innodb_buffer_pool_mb c)),
        gi_max_connections = max_connections cgroup_limit (map_option word_of_nat (mysql_max_connections c))\<rparr>)
     (gr_seeds c)"

definition write_standalone_archive_conf :: "(string \<Rightarrow> bool) \<Rightarrow> config \<Rightarrow> u64 option \<Rightarrow> volume \<Rightarrow> u32 \<Rightarrow> string" where
  "write_standalone_archive_conf is_uuid c cgroup_limit v sid =
     render_standalone_archive_conf
       \<lparr>ai_server_id = sid,
        ai_buffer_pool_bytes = buffer_pool_bytes cgroup_limit (map_option word_of_nat (innodb_buffer_pool_mb c)),
        ai_former_group_member = (read_group_name_marker is_uuid v \<noteq> None)\<rparr>"

text \<open>The id each mode renders: the override, else the derived one or the standalone default.\<close>

definition gr_server_id :: "config \<Rightarrow> u32" where
  "gr_server_id c = (case server_id c of Some n \<Rightarrow> word_of_nat n | None \<Rightarrow> derive_server_id (private_domain c))"

definition standalone_server_id :: "config \<Rightarrow> u32" where
  "standalone_server_id c = (case server_id c of Some n \<Rightarrow> word_of_nat n | None \<Rightarrow> 1)"

section \<open>Server ids differ\<close>

lemma fnv_multiplier: "(h :: u32) * 0x01000193 * 899433627 = h"
proof -
  have "(0x01000193 :: u32) * 899433627 = 1" by simp
  then show ?thesis by (simp only: mult.assoc mult_1_right)
qed

lemma fnv_step_state: "fnv_step h c = fnv_step h' c \<Longrightarrow> h = h'"
proof -
  assume "fnv_step h c = fnv_step h' c"
  then have "h XOR word_of_nat (char_code c) = h' XOR word_of_nat (char_code c)"
    unfolding fnv_step_def by (metis fnv_multiplier)
  then have "(h XOR word_of_nat (char_code c)) XOR word_of_nat (char_code c) = (h' XOR word_of_nat (char_code c)) XOR word_of_nat (char_code c)"
    by simp
  then show "h = h'" by (simp only: xor.assoc xor_self_eq xor.right_neutral)
qed

lemma char_code_less [simp]: "char_code c < 256"
  by (simp add: char_code_def)

lemma char_code_inj: "char_code a = char_code b \<longleftrightarrow> a = b"
  by (simp add: char_code_def)

lemma fnv_step_char: "fnv_step h a = fnv_step h b \<Longrightarrow> a = b"
proof -
  assume "fnv_step h a = fnv_step h b"
  then have "h XOR (word_of_nat (char_code a) :: u32) = h XOR word_of_nat (char_code b)"
    unfolding fnv_step_def by (metis fnv_multiplier)
  then have "h XOR (h XOR (word_of_nat (char_code a) :: u32)) = h XOR (h XOR word_of_nat (char_code b))"
    by simp
  then have "(word_of_nat (char_code a) :: u32) = word_of_nat (char_code b)"
    by (simp only: xor.assoc [symmetric] xor_self_eq xor.left_neutral)
  then have "unat (word_of_nat (char_code a) :: u32) = unat (word_of_nat (char_code b) :: u32)"
    by simp
  moreover have "unat (word_of_nat (char_code c) :: u32) = char_code c" for c
  proof -
    have "char_code c < 4294967296"
      using char_code_less [of c] by linarith
    then show ?thesis by (simp add: unat_of_nat)
  qed
  ultimately show "a = b" by (simp add: char_code_inj)
qed

lemma fnv_fold_state: "foldl fnv_step h s = foldl fnv_step h' s \<Longrightarrow> h = h'"
  by (induction s arbitrary: h h') (auto dest: fnv_step_state)

lemma fnv_one_byte: "fnv1a (p @ a # s) = fnv1a (p @ b # s) \<Longrightarrow> a = b"
  by (auto simp: fnv1a_def dest!: fnv_fold_state fnv_step_char)

section \<open>The files read back\<close>

text \<open>
  How the server reads an option file, for the lines the program writes: the section line is
  skipped, a line is split at its first equals sign, and blanks around both parts go.
\<close>

definition read_setting :: "string \<Rightarrow> (string \<times> string) option" where
  "read_setting l = map_option (\<lambda>(k, v). (trim k, trim v)) (split_once (CHR ''='') l)"

definition read_settings :: "string \<Rightarrow> settings" where
  "read_settings s = List.map_filter read_setting (split_on newline s)"

definition plain_key :: "string \<Rightarrow> bool" where
  "plain_key k \<longleftrightarrow> plain_line k \<and> CHR ''='' \<notin> set k"

definition plain_value :: "string \<Rightarrow> bool" where
  "plain_value v \<longleftrightarrow> trim v = v \<and> newline \<notin> set v"

definition clean :: "settings \<Rightarrow> bool" where
  "clean kvs \<longleftrightarrow> list_all (\<lambda>(k, v). plain_key k \<and> plain_value v) kvs"

lemma split_on_line: "d \<notin> set l \<Longrightarrow> split_on d (l @ d # s) = l # split_on d s"
  by (induction l) auto

lemma trim_plain: "plain_line s \<Longrightarrow> trim s = s"
  by (simp add: plain_line_def trim_def dropWhile_none trim_end_by_none)

lemma is_ws_space [simp]: "is_ws (CHR '' '')"
  by (simp add: is_ws_def char_code_def)

lemma read_setting_line:
  assumes "plain_key k" and "plain_value v"
  shows "read_setting (conf_line (k, v)) = Some (k, v)"
proof -
  have "trim (k @ '' '') = k"
    using assms(1) by (cases k) (simp_all add: plain_key_def plain_line_def trim_def trim_end_by_def dropWhile_none list_all_rev)
  moreover have "trim (CHR '' '' # v) = v"
    using assms(2) by (simp add: plain_value_def trim_def)
  moreover have "conf_line (k, v) = (k @ '' '') @ CHR ''='' # CHR '' '' # v"
    by (simp add: conf_line_def)
  ultimately show ?thesis
    using assms(1) by (simp add: read_setting_def split_once_append plain_key_def del: append_assoc)
qed

lemma plain_no_newline: "plain_line s \<Longrightarrow> newline \<notin> set s"
  by (auto simp: plain_line_def list_all_iff)

lemma conf_line_no_newline:
  assumes "plain_key k" and "plain_value v"
  shows "newline \<notin> set (conf_line (k, v))"
proof -
  have "newline \<noteq> CHR '' ''" "newline \<noteq> CHR ''=''"
    by (simp_all add: newline_char)
  then show ?thesis
    using assms plain_no_newline by (auto simp: conf_line_def plain_key_def plain_value_def)
qed

lemma read_rendered:
  assumes "clean kvs"
  shows "read_settings (render_settings kvs) = kvs"
proof -
  have lines: "split_on newline (concat (map (\<lambda>l. l @ [newline]) ls)) = ls @ [[]]"
    if "\<And>l. l \<in> set ls \<Longrightarrow> newline \<notin> set l" for ls
    using that by (induction ls) (auto simp: split_on_line)
  have n: "newline \<notin> set ''[mysqld]''"
    by (simp add: newline_char)
  have "split_on newline (render_settings kvs) = (''[mysqld]'' # map conf_line kvs) @ [[]]"
    unfolding render_settings_def
    using assms n conf_line_no_newline by (intro lines) (auto simp: clean_def list_all_iff)
  moreover have "read_setting ''[mysqld]'' = None" "read_setting [] = None"
    by (simp_all add: read_setting_def split_once_def)
  moreover have "List.map_filter read_setting (map conf_line kvs) = kvs"
    using assms by (induction kvs) (auto simp: clean_def List.map_filter_simps read_setting_line)
  ultimately show ?thesis
    by (simp add: read_settings_def List.map_filter_simps List.map_filter_def)
qed

lemma plain_value_plain_line: "plain_line s \<Longrightarrow> plain_value s"
  by (simp add: plain_value_def trim_plain plain_no_newline)

lemma plain_line_numbers [simp]: "plain_line (show_nat n)" "plain_line (show_u32 w)" "plain_line (show_u64 x)"
  by (simp_all add: plain_line_def show_nat_no_ws show_u32_def show_u64_def)

lemma plain_value_numbers [simp]: "plain_value (show_nat n)" "plain_value (show_u32 w)" "plain_value (show_u64 x)"
  by (simp_all add: plain_value_plain_line)

lemma clean_gr_settings:
  assumes "plain_line (gi_private_domain i)" and "plain_value (gi_group_name i)" and "plain_value (gi_gr_seeds i)"
  shows "clean (gr_settings i)"
proof -
  have "plain_line (gi_private_domain i @ '':'' @ show_nat (gi_mysql_port i))"
    using assms(1) show_nat_no_ws [of "gi_mysql_port i"] by (simp add: plain_line_def is_ws_def char_code_def)
  then show ?thesis
    using assms
    by (simp add: clean_def gr_settings_def plain_key_def plain_value_plain_line)
      (simp add: plain_line_def plain_value_def trim_def trim_end_by_def is_ws_def char_code_def newline_char)
qed

lemma clean_archive_settings: "clean (archive_settings i)"
  by (simp add: clean_def archive_settings_def former_member_gtid_settings_def plain_key_def)
    (simp add: plain_line_def plain_value_def trim_def trim_end_by_def is_ws_def char_code_def newline_char)

section \<open>Sizes\<close>

lemma pool_min_le: "pool_min \<le> buffer_pool_bytes l ov"
  by (simp add: buffer_pool_bytes_def pool_min_def split: option.splits)

lemma unat_mega: "unat (mb * 1024 * 1024 :: u64) = unat mb * 1048576 mod 2 ^ 64"
proof -
  have "mb * 1024 * 1024 = mb * 1048576"
    by (simp add: mult.assoc)
  then show ?thesis
    by (simp add: unat_word_ariths mult.commute)
qed

lemma buffer_pool_override: "unat (buffer_pool_bytes l (Some mb)) = max (unat mb * 1048576 mod 2 ^ 64) (unat pool_min)"
  unfolding buffer_pool_bytes_def option.case unat_mega [symmetric]
  by (simp add: max_def word_le_nat_alt)

lemma max_connections_derived: "unat (max_connections l None) = (case l of None \<Rightarrow> 151 | Some b \<Rightarrow> max 151 (min 1000 (unat b div 8388608)))"
  by (auto simp: max_connections_def max_def min_def word_le_nat_alt word_less_nat_alt unat_div split: option.splits)

section \<open>The properties\<close>

text \<open>
  A derived server id is never zero, and two host names that differ in one
  character get different ids, unless the id is the substitute for zero.
\<close>
theorem server_ids_differ:
  assumes "a \<noteq> b"
  shows "derive_server_id (p @ a # s) \<noteq> 0 \<and>
    (if derive_server_id (p @ a # s) = 1 then True else derive_server_id (p @ a # s) \<noteq> derive_server_id (p @ b # s))"
  using fnv_one_byte [of p a s b] assms by (auto simp: derive_server_id_def Let_def)

lemma server_ids_differ_witness:
  "derive_server_id ''mysql-1'' \<noteq> 0"
  using server_ids_differ [of "CHR ''1''" "CHR ''2''" "''mysql-''" "[]"] by simp

text \<open>
  C40: The option file of a group member reads back, for a host name without blanks and
  values on one line, with the node's id, name and seeds, with Group Replication left for the
  orchestrator to start, and with no read-only setting.
\<close>
theorem group_conf_reads_back:
  assumes "write_gr_conf c l gname sid = Some conf" and "gr_seeds c = Some seeds"
    and "plain_line (private_domain c)" and "plain_value gname" and "plain_value seeds"
  shows "map_of (read_settings conf) ''server_id'' = Some (show_u32 sid) \<and>
    map_of (read_settings conf) ''report_host'' = Some (private_domain c) \<and>
    map_of (read_settings conf) ''loose-group_replication_group_name'' = Some gname \<and>
    map_of (read_settings conf) ''loose-group_replication_group_seeds'' = Some seeds \<and>
    map_of (read_settings conf) ''loose-group_replication_start_on_boot'' = Some ''OFF'' \<and>
    map_of (read_settings conf) ''super_read_only'' = None"
proof -
  obtain i where i: "conf = render_settings (gr_settings i)" "gi_server_id i = sid" "gi_private_domain i = private_domain c"
    "gi_group_name i = gname" "gi_gr_seeds i = seeds"
    using assms(1,2) by (auto simp: write_gr_conf_def render_gr_conf_def)
  have "read_settings conf = gr_settings i"
    unfolding i(1) using assms(3-5) i by (intro read_rendered clean_gr_settings) simp_all
  then show ?thesis
    using i by (simp add: gr_settings_def)
qed

lemma plain_samples: "plain_line ''a''" "plain_value ''g''" "plain_value ''a:3306,b:3306,c:3306''"
  by (simp_all add: plain_line_def plain_value_def trim_def trim_end_by_def is_ws_def char_code_def newline_char)

lemma group_conf_reads_back_witness:
  "\<exists>conf. map_of (read_settings conf) ''report_host'' = Some ''a''"
proof -
  have "\<exists>conf. write_gr_conf (sample_config ''a'') None ''g'' 7 = Some conf"
    by (simp add: write_gr_conf_def)
  then obtain conf where t: "write_gr_conf (sample_config ''a'') None ''g'' 7 = Some conf" ..
  have "map_of (read_settings conf) ''report_host'' = Some (private_domain (sample_config ''a''))"
    using group_conf_reads_back [OF t, of "''a:3306,b:3306,c:3306''"] plain_samples by simp
  then show ?thesis by auto
qed

text \<open>
  The option file of an archiving standalone server always reads back with the
  binary log on and the server's own expiry off, and with GTIDs on exactly when the volume
  carries the marker of a former group member.
\<close>
theorem archive_conf_keeps_every_binlog:
  "(let kvs = map_of (read_settings (write_standalone_archive_conf is_uuid c l v sid)) in
     kvs ''log_bin'' = Some ''binlog'' \<and> kvs ''binlog_expire_logs_seconds'' = Some ''0'' \<and>
     kvs ''gtid_mode'' = (if read_group_name_marker is_uuid v = None then None else Some ''ON''))"
proof -
  have "read_settings (render_settings (archive_settings i)) = archive_settings i" for i
    by (intro read_rendered clean_archive_settings)
  then show ?thesis
    by (simp add: write_standalone_archive_conf_def render_standalone_archive_conf_def Let_def)
      (simp add: archive_settings_def former_member_gtid_settings_def)
qed

text \<open>
  The buffer pool is never below 128 MB. An override in megabytes is honoured
  modulo the width of the arithmetic: it wraps from 2^44 on, where the pool falls back to
  the minimum.
\<close>
theorem buffer_pool_bounds:
  "pool_min \<le> buffer_pool_bytes l ov \<and>
   unat (buffer_pool_bytes l (Some mb)) = max (unat mb * 1048576 mod 2 ^ 64) (unat pool_min) \<and>
   buffer_pool_bytes l (Some (2 ^ 44)) = pool_min"
proof -
  have "buffer_pool_bytes l (Some (2 ^ 44)) = pool_min"
    by (simp add: buffer_pool_bytes_def pool_min_def)
  then show ?thesis
    using pool_min_le buffer_pool_override by blast
qed

end
