(* ===== verification/Edge.thy ===== *)
theory Edge
  imports Finish_Upgrade Shipping
begin

text \<open>
  The edge (\<open>src/haproxy\<close>): the configuration from the environment, the list of nodes, the
  rendered proxy configuration and the loop that watches the write backend. The rendered
  lines are the template's, less its comment lines, which the proxy skips; the proxy itself
  is outside the program.
\<close>

section \<open>Configuration\<close>

record stats_auth =
  sa_user :: string
  sa_password :: string

record edge_config =
  mysql_nodes :: string
  edge_health_port :: nat
  edge_mysql_port :: nat
  max_conn :: string
  timeout_connect :: string
  timeout_client :: string
  timeout_server :: string
  timeout_check :: string
  check_interval :: string
  check_fastinter :: string
  check_downinter :: string
  stats_auth :: "stats_auth option"

definition not_blank :: "string option \<Rightarrow> string option" where
  "not_blank v = (case v of Some s \<Rightarrow> if trim s \<noteq> [] then Some s else None | None \<Rightarrow> None)"

definition or_else :: "'a option \<Rightarrow> 'a option \<Rightarrow> 'a option" where
  "or_else a b = (case a of Some x \<Rightarrow> Some x | None \<Rightarrow> b)"

definition resolve_stats_auth :: "string option \<Rightarrow> string option \<Rightarrow> string option \<Rightarrow> string option \<Rightarrow> stats_auth option" where
  "resolve_stats_auth stats_user stats_password mysql_user mysql_password =
     map_option (\<lambda>password.
       \<lparr>sa_user = (case or_else (not_blank stats_user) (not_blank mysql_user) of Some u \<Rightarrow> u | None \<Rightarrow> ''root''),
        sa_password = password\<rparr>)
     (or_else (not_blank stats_password) (not_blank mysql_password))"

text \<open>\<open>None\<close>: \<open>MYSQL_NODES\<close> is not set.\<close>

definition edge_from_env :: "env \<Rightarrow> edge_config option" where
  "edge_from_env e = map_option (\<lambda>ns.
     \<lparr>mysql_nodes = ns,
      edge_health_port = env_parse e (parse_uint u16_max) ''HEALTH_CHECK_PORT'' 8080,
      edge_mysql_port = env_parse e (parse_uint u16_max) ''MYSQL_PORT'' 3306,
      max_conn = env_or e ''HAPROXY_MAX_CONN'' ''10000'',
      timeout_connect = env_or e ''HAPROXY_TIMEOUT_CONNECT'' ''10s'',
      timeout_client = env_or e ''HAPROXY_TIMEOUT_CLIENT'' ''1d'',
      timeout_server = env_or e ''HAPROXY_TIMEOUT_SERVER'' ''1d'',
      timeout_check = env_or e ''HAPROXY_TIMEOUT_CHECK'' ''3s'',
      check_interval = env_or e ''HAPROXY_CHECK_INTERVAL'' ''3s'',
      check_fastinter = env_or e ''HAPROXY_CHECK_FASTINTER'' ''500ms'',
      check_downinter = env_or e ''HAPROXY_CHECK_DOWNINTER'' ''500ms'',
      stats_auth = resolve_stats_auth (e ''HAPROXY_STATS_USER'') (e ''HAPROXY_STATS_PASSWORD'') (e ''MYSQLUSER'') (e ''MYSQLPASSWORD'')\<rparr>)
   (e ''MYSQL_NODES'')"

section \<open>Nodes\<close>

record mysql_node =
  node_name :: string
  node_host :: string
  node_port :: nat

datatype node_error = Invalid_format string | Invalid_port string string

definition parse_node :: "string \<Rightarrow> node_error + mysql_node" where
  "parse_node raw =
     (let entry = trim raw in
      case split_once (CHR '':'') entry of
        None \<Rightarrow> Inl (Invalid_format entry)
      | Some (host, port) \<Rightarrow>
          (case parse_uint u16_max port of
             None \<Rightarrow> Inl (Invalid_port entry port)
           | Some p \<Rightarrow> Inr \<lparr>node_name = hd (split_on (CHR ''.'') host), node_host = host, node_port = p\<rparr>))"

text \<open>\<open>collect\<close> into a result: the first error ends it.\<close>

fun collect_nodes :: "string list \<Rightarrow> node_error + mysql_node list" where
  "collect_nodes [] = Inr []"
| "collect_nodes (s # ss) =
     (case parse_node s of
        Inl e \<Rightarrow> Inl e
      | Inr n \<Rightarrow> (case collect_nodes ss of Inl e \<Rightarrow> Inl e | Inr ns \<Rightarrow> Inr (n # ns)))"

definition parse_nodes :: "string \<Rightarrow> node_error + mysql_node list" where
  "parse_nodes s = collect_nodes (split_on (CHR '','') s)"

section \<open>The proxy configuration\<close>

abbreviation dquote :: char where "dquote \<equiv> CHR 0x22"

definition server_entry :: "edge_config \<Rightarrow> mysql_node \<Rightarrow> string" where
  "server_entry c n =
     ''    server '' @ node_name n @ '' '' @ node_host n @ '':'' @ show_nat (node_port n) @
     '' check port '' @ show_nat (edge_health_port c) @ '' resolvers railway inter '' @ check_interval c @
     '' fastinter '' @ check_fastinter c @ '' downinter '' @ check_downinter c"

definition userlist_lines :: "string list" where
  "userlist_lines =
     [''userlist stats_users'',
      ''    user '' @ [dquote] @ ''${HAPROXY_STATS_USER}'' @ [dquote] @ '' insecure-password '' @
        [dquote] @ ''${HAPROXY_STATS_PASSWORD}'' @ [dquote],
      []]"

definition remote_rule :: "edge_config \<Rightarrow> string" where
  "remote_rule c =
     (if stats_auth c \<noteq> None then ''http-request auth unless { http_auth(stats_users) }'' else ''http-request deny'')"

definition stats_listener_lines :: "edge_config \<Rightarrow> string list" where
  "stats_listener_lines c =
     (if stats_auth c \<noteq> None then userlist_lines else []) @
     [''listen stats'',
      ''    bind :::8404 v4v6'',
      ''    mode http'',
      ''    no log'',
      ''    acl LOCALHOST src 127.0.0.1 ::1 ::ffff:127.0.0.1'',
      ''    http-request allow if LOCALHOST'',
      ''    '' @ remote_rule c,
      ''    stats enable'',
      ''    stats uri /stats'',
      ''    stats refresh 10s'']"

definition global_lines :: "edge_config \<Rightarrow> string list" where
  "global_lines c =
     [''global'',
      ''    maxconn '' @ max_conn c,
      ''    log stdout format raw local0'',
      [],
      ''defaults'',
      ''    log global'',
      ''    mode tcp'',
      ''    option tcpka'',
      ''    option clitcpka'',
      ''    option srvtcpka'',
      ''    option redispatch'',
      ''    retries 3'',
      ''    timeout connect '' @ timeout_connect c,
      ''    timeout client '' @ timeout_client c,
      ''    timeout server '' @ timeout_server c,
      ''    timeout check '' @ timeout_check c,
      [],
      ''resolvers railway'',
      ''    parse-resolv-conf'',
      ''    resolve_retries 3'',
      ''    timeout resolve 1s'',
      ''    timeout retry   1s'',
      ''    hold other      10s'',
      ''    hold refused    10s'',
      ''    hold nx         10s'',
      ''    hold timeout    10s'',
      ''    hold valid      10s'',
      ''    hold obsolete   10s'',
      []]"

definition write_lines :: "edge_config \<Rightarrow> string list" where
  "write_lines c =
     [''frontend mysql_writes'',
      ''    bind :::'' @ show_nat (edge_mysql_port c) @ '' v4v6'',
      ''    default_backend mysql_primary_backend'',
      [],
      ''backend mysql_primary_backend'',
      ''    option httpchk'',
      ''    http-check send meth GET uri /role'',
      ''    http-check expect status 200'',
      ''    default-server fall 2 rise 2 on-marked-down shutdown-sessions'']"

definition config_lines :: "edge_config \<Rightarrow> mysql_node list \<Rightarrow> string list" where
  "config_lines c ns = global_lines c @ stats_listener_lines c @ [[]] @ write_lines c @ map (server_entry c) ns"

definition generate_config :: "edge_config \<Rightarrow> mysql_node list \<Rightarrow> string" where
  "generate_config c ns = concat (map (\<lambda>l. l @ [newline]) (config_lines c ns))"

text \<open>The credential reaches the proxy through its environment.\<close>

definition haproxy_env :: "edge_config \<Rightarrow> (string \<times> string) list" where
  "haproxy_env c =
     (case stats_auth c of
        Some a \<Rightarrow> [(''HAPROXY_STATS_USER'', sa_user a), (''HAPROXY_STATS_PASSWORD'', sa_password a)]
      | None \<Rightarrow> [])"

section \<open>Start\<close>

text \<open>
  \<open>main\<close> of the edge: what it does in order, and whether it gets to the monitor. Arguments:
  whether the file could be written and the proxy started.
\<close>

datatype edge_action =
    Write_conf string
  | Announce_edge
  | Start_proxy "(string \<times> string) list"

datatype edge_end = No_nodes_variable | Bad_node node_error | Conf_not_written | Proxy_not_started | Monitoring

definition edge_main :: "env \<Rightarrow> bool \<Rightarrow> bool \<Rightarrow> edge_action list \<times> edge_end" where
  "edge_main e conf_written proxy_starts =
     (case edge_from_env e of
        None \<Rightarrow> ([], No_nodes_variable)
      | Some c \<Rightarrow>
          (case parse_nodes (mysql_nodes c) of
             Inl err \<Rightarrow> ([], Bad_node err)
           | Inr ns \<Rightarrow>
               (let conf = [Write_conf (generate_config c ns)] in
                if \<not> conf_written then (conf, Conf_not_written)
                else
                  (let acts = conf @ [Announce_edge, Start_proxy (haproxy_env c)] in
                   (acts, if proxy_starts then Monitoring else Proxy_not_started)))))"

section \<open>The monitor\<close>

definition primary_row :: "string \<Rightarrow> bool" where
  "primary_row l =
     (let cols = split_on (CHR '','') l in
      if length cols < 18 then False
      else cols ! 0 = ''mysql_primary_backend'' \<and> cols ! 1 \<noteq> ''BACKEND'' \<and> cols ! 17 = ''UP'')"

text \<open>The statistics page as fetched; \<open>None\<close> when it was not.\<close>

definition check_primary_health :: "string option \<Rightarrow> bool option" where
  "check_primary_health page = map_option (\<lambda>text. list_ex primary_row (lines_of text)) page"

datatype child_poll = Child_exited "int option" | Child_running | Child_unknown

record monitor_round =
  mr_child :: child_poll
  mr_page :: "string option"

text \<open>
  One round: the exit code that ends the container, or whether the alert went out and the
  new value of \<open>no_primary_alerted\<close>.
\<close>

definition monitor_step :: "bool \<Rightarrow> monitor_round \<Rightarrow> int + bool \<times> bool" where
  "monitor_step down r =
     (case mr_child r of
        Child_exited code \<Rightarrow> Inl (case code of Some n \<Rightarrow> n | None \<Rightarrow> 1)
      | Child_unknown \<Rightarrow> Inl 1
      | Child_running \<Rightarrow>
          Inr (case check_primary_health (mr_page r) of
                 Some True \<Rightarrow> (False, False)
               | Some False \<Rightarrow> (\<not> down, True)
               | None \<Rightarrow> (False, down)))"

text \<open>Per round whether an alert was sent, and the exit code if the loop ended.\<close>

fun monitoring_loop :: "bool \<Rightarrow> monitor_round list \<Rightarrow> bool list \<times> int option" where
  "monitoring_loop down [] = ([], None)"
| "monitoring_loop down (r # rs) =
     (case monitor_step down r of
        Inl code \<Rightarrow> ([], Some code)
      | Inr (sent, down') \<Rightarrow> (case monitoring_loop down' rs of (sents, code) \<Rightarrow> (sent # sents, code)))"

section \<open>The list of nodes reads back\<close>

definition show_node :: "mysql_node \<Rightarrow> string" where
  "show_node n = node_host n @ '':'' @ show_nat (node_port n)"

definition proper_node :: "mysql_node \<Rightarrow> bool" where
  "proper_node n \<longleftrightarrow> plain_line (node_host n) \<and> CHR '':'' \<notin> set (node_host n) \<and> CHR '','' \<notin> set (node_host n) \<and>
     node_port n \<le> u16_max \<and> node_name n = hd (split_on (CHR ''.'') (node_host n))"

lemma not_digit_sep [simp]: "\<not> is_digit (CHR '':'')" "\<not> is_digit (CHR '','')" "\<not> is_ws (CHR '':'')"
  by (simp_all add: is_digit_def is_ws_def char_code_def)

lemma show_node_plain: "proper_node n \<Longrightarrow> plain_line (show_node n)"
  using show_nat_no_ws by (simp add: proper_node_def plain_line_def show_node_def)

lemma trim_plain_line_id: "plain_line s \<Longrightarrow> trim s = s"
  by (simp add: plain_line_def trim_def dropWhile_none trim_end_by_none)

lemma parse_show_node: "proper_node n \<Longrightarrow> parse_node (show_node n) = Inr n"
  using trim_plain_line_id [OF show_node_plain]
  by (simp add: parse_node_def Let_def) (simp add: show_node_def proper_node_def split_once_append)

lemma show_node_no_comma: "proper_node n \<Longrightarrow> CHR '','' \<notin> set (show_node n)"
  using digits_no_char [OF show_nat_digits not_digit_sep(2)] by (simp add: proper_node_def show_node_def)

lemma split_join:
  "\<forall>l \<in> set ls. d \<notin> set l \<Longrightarrow> ls \<noteq> [] \<Longrightarrow> split_on d (join_with [d] ls) = ls"
proof (induction ls rule: induct_list012)
  case (3 a b ls)
  then show ?case by (simp add: join_with_def split_on_piece)
qed (simp_all add: join_with_def split_on_fresh)

lemma collect_show: "\<forall>n \<in> set ns. proper_node n \<Longrightarrow> collect_nodes (map show_node ns) = Inr ns"
  by (induction ns) (simp_all add: parse_show_node)

lemma collect_first_error:
  "collect_nodes (map show_node ns @ raw # rest) = Inl e"
  if "\<forall>n \<in> set ns. proper_node n" and "parse_node raw = Inl e"
  using that by (induction ns) (simp_all add: parse_show_node)

section \<open>The statistics page is guarded\<close>

text \<open>
  How the proxy evaluates the \<open>http-request\<close> rules of the listener, in order: the first
  rule that decides does. A client is local or not, and authenticated or not.
\<close>

fun stats_admitted :: "bool \<Rightarrow> bool \<Rightarrow> string list \<Rightarrow> bool" where
  "stats_admitted local authenticated [] = True"
| "stats_admitted local authenticated (r # rs) =
     (if r = ''    http-request allow if LOCALHOST'' \<and> local then True
      else if r = ''    http-request deny'' then False
      else if r = ''    http-request auth unless { http_auth(stats_users) }'' \<and> \<not> authenticated then False
      else stats_admitted local authenticated rs)"

lemma stats_admitted_iff: "stats_admitted local authenticated (stats_listener_lines c) \<longleftrightarrow> local \<or> stats_auth c \<noteq> None \<and> authenticated"
  by (cases "stats_auth c") (auto simp: stats_listener_lines_def userlist_lines_def remote_rule_def)

section \<open>The monitor alerts on the edge\<close>

text \<open>
  What the proxy tells in a poll, from its manual: rows of fields, the first the proxy, the second
  the server, the eighteenth its status; on the page, comma separated, one row a line. \<open>None\<close>
  when there was no answer.
\<close>

type_synonym stats_row = "string list"

definition row_ok :: "stats_row \<Rightarrow> bool" where
  "row_ok r \<longleftrightarrow> 18 \<le> length r \<and> list_all (\<lambda>f. CHR '','' \<notin> set f \<and> newline \<notin> set f) r"

definition stats_page :: "stats_row list \<Rightarrow> string" where
  "stats_page rows = concat (map (\<lambda>r. join_with '','' r @ [newline]) rows)"

definition shows_primary :: "stats_row list \<Rightarrow> bool" where
  "shows_primary rows \<longleftrightarrow> list_ex (\<lambda>r. r ! 0 = ''mysql_primary_backend'' \<and> r ! 1 \<noteq> ''BACKEND'' \<and> r ! 17 = ''UP'') rows"

definition polled :: "stats_row list option \<Rightarrow> monitor_round" where
  "polled p = \<lparr>mr_child = Child_running, mr_page = map_option stats_page p\<rparr>"

text \<open>A poll shows no primary, and the last one before it that was answered, if any, showed one.\<close>

definition outage_starts :: "stats_row list option list \<Rightarrow> nat \<Rightarrow> bool" where
  "outage_starts ps i \<longleftrightarrow>
     (case ps ! i of
        None \<Rightarrow> False
      | Some rows \<Rightarrow> \<not> shows_primary rows \<and>
          (let answered = List.map_filter id (take i ps) in if answered = [] then True else shows_primary (last answered)))"

lemma join_fields: "row_ok r \<Longrightarrow> newline \<notin> set (join_with '','' r) \<and> split_on (CHR '','') (join_with '','' r) = r"
proof -
  assume r: "row_ok r"
  then have "r \<noteq> []" "\<forall>f \<in> set r. CHR '','' \<notin> set f" by (auto simp: row_ok_def list_all_iff)
  moreover have "newline \<notin> set (join_with '','' r)"
    using r by (cases r) (auto simp: row_ok_def join_with_def list_all_iff newline_char)
  ultimately show ?thesis using split_join [of r "CHR '',''"] by simp
qed

lemma split_lines: "\<forall>l \<in> set ls. newline \<notin> set l \<Longrightarrow> split_on newline (concat (map (\<lambda>l. l @ [newline]) ls)) = ls @ [[]]"
  by (induction ls) (simp_all add: split_on_piece)

lemma health_of_page:
  assumes "list_all row_ok rows"
  shows "check_primary_health (Some (stats_page rows)) = Some (shows_primary rows)"
proof -
  have "stats_page rows = concat (map (\<lambda>l. l @ [newline]) (map (join_with '','') rows))"
    by (simp add: stats_page_def comp_def)
  moreover have "\<forall>l \<in> set (map (join_with '','') rows). newline \<notin> set l"
    using assms join_fields by (auto simp: list_all_iff)
  ultimately have "lines_of (stats_page rows) = map (join_with '','') rows"
    using split_lines [of "map (join_with '','') rows"] by (simp add: lines_of_def Let_def del: map_map)
  moreover have "primary_row (join_with '','' r) \<longleftrightarrow> r ! 0 = ''mysql_primary_backend'' \<and> r ! 1 \<noteq> ''BACKEND'' \<and> r ! 17 = ''UP''"
    if "r \<in> set rows" for r
    using assms that join_fields [of r] by (auto simp: primary_row_def Let_def list_all_iff row_ok_def)
  ultimately show ?thesis by (auto simp: check_primary_health_def shows_primary_def list_ex_iff)
qed

definition pages :: "monitor_round list \<Rightarrow> bool option list" where
  "pages rs = map (\<lambda>r. check_primary_health (mr_page r)) rs"

definition alerted_by :: "bool \<Rightarrow> bool option list \<Rightarrow> bool" where
  "alerted_by a ps = (let decided = filter (\<lambda>p. p \<noteq> None) ps in if decided = [] then a else last decided = Some False)"

lemma alerted_by_Cons: "alerted_by a (p # ps) = alerted_by (case p of None \<Rightarrow> a | Some up \<Rightarrow> \<not> up) ps"
  by (cases p) (auto simp: alerted_by_def Let_def)

lemma monitoring_alerts:
  assumes "\<forall>r \<in> set rs. mr_child r = Child_running"
  shows "monitoring_loop a rs = (map (\<lambda>i. pages rs ! i = Some False \<and> \<not> alerted_by a (take i (pages rs))) [0 ..< length rs], None)"
  using assms
proof (induction rs arbitrary: a)
  case (Cons r rs)
  define a' where "a' = (case check_primary_health (mr_page r) of None \<Rightarrow> a | Some up \<Rightarrow> \<not> up)"
  have step: "monitor_step a r = Inr (check_primary_health (mr_page r) = Some False \<and> \<not> a, a')"
    using Cons.prems by (auto simp: monitor_step_def a'_def split: option.splits bool.splits)
  have "map f [0 ..< Suc n] = f 0 # map (\<lambda>i. f (Suc i)) [0 ..< n]" for f :: "nat \<Rightarrow> bool" and n
    by (simp add: upt_conv_Cons map_Suc_upt [symmetric] del: upt_Suc)
  moreover have "alerted_by a [] = a"
    by (simp add: alerted_by_def)
  ultimately show ?case
    using Cons.IH [of a'] Cons.prems by (simp add: step pages_def alerted_by_Cons a'_def [symmetric] del: upt_Suc)
qed (simp add: pages_def)

lemma answered_polls:
  "\<forall>rows \<in> set ps. case rows of None \<Rightarrow> True | Some rows \<Rightarrow> list_all row_ok rows \<Longrightarrow>
    filter (\<lambda>p. p \<noteq> None) (pages (map polled ps)) = map (\<lambda>rows. Some (shows_primary rows)) (List.map_filter id ps)"
proof (induction ps)
  case (Cons p ps)
  then show ?case
    by (cases p) (simp_all add: pages_def polled_def health_of_page map_filter_simps check_primary_health_def [of None])
qed (simp add: pages_def map_filter_def)

lemma alerted_by_outage:
  assumes "\<forall>rows \<in> set ps. case rows of None \<Rightarrow> True | Some rows \<Rightarrow> list_all row_ok rows" and "i < length ps"
  shows "(pages (map polled ps) ! i = Some False \<and> \<not> alerted_by False (take i (pages (map polled ps)))) = outage_starts ps i"
proof -
  have "\<forall>rows \<in> set (take i ps). case rows of None \<Rightarrow> True | Some rows \<Rightarrow> list_all row_ok rows"
    using assms(1) by (auto dest: in_set_takeD)
  from answered_polls [OF this]
  have before: "filter (\<lambda>p. p \<noteq> None) (take i (pages (map polled ps))) = map (\<lambda>rows. Some (shows_primary rows)) (List.map_filter id (take i ps))"
    by (simp add: pages_def take_map)
  have "pages (map polled ps) ! i = map_option shows_primary (ps ! i)"
    using assms(2) bspec [OF assms(1) nth_mem [OF assms(2)]]
    by (cases "ps ! i") (simp_all add: pages_def polled_def health_of_page check_primary_health_def [of None])
  then show ?thesis
    using before by (cases "ps ! i") (auto simp: outage_starts_def alerted_by_def last_map Let_def)
qed

section \<open>The properties\<close>

text \<open>
  A list of nodes written as host:port, comma separated, parses back to exactly
  those nodes, each named by the first label of its host; and a list with an entry that does
  not parse is refused with the error of that entry, whatever follows it.
\<close>
theorem node_list_reads_back:
  assumes "\<forall>n \<in> set ns. proper_node n" and "ns \<noteq> []"
    and "parse_node raw = Inl e" and "CHR '','' \<notin> set raw"
  shows "parse_nodes (join_with '','' (map show_node ns)) = Inr ns \<and>
    parse_nodes (join_with '','' (map show_node ns @ [raw])) = Inl e"
proof -
  have "\<forall>l \<in> set (map show_node ns @ [raw]). CHR '','' \<notin> set l"
    using assms(1,4) show_node_no_comma by auto
  moreover from this have "\<forall>l \<in> set (map show_node ns). CHR '','' \<notin> set l"
    by auto
  ultimately show ?thesis
    using assms collect_show [of ns] collect_first_error [of ns raw e "[]"]
    by (simp add: parse_nodes_def split_join)
qed

lemma node_list_reads_back_witness:
  "parse_nodes ''mysql-1.internal:3306'' = Inr [\<lparr>node_name = ''mysql-1'', node_host = ''mysql-1.internal'', node_port = 3306\<rparr>]"
proof -
  let ?n = "\<lparr>node_name = ''mysql-1'', node_host = ''mysql-1.internal'', node_port = 3306\<rparr>"
  have n: "proper_node ?n"
    by (simp add: proper_node_def plain_line_def is_ws_def char_code_def u16_max_def)
  have s: "join_with '','' (map show_node [?n]) = ''mysql-1.internal:3306''"
    by (simp add: join_with_def show_node_def show_nat.simps digit_char_def char_of_def bit_0)
  have "parse_node ''x'' = Inl (Invalid_format ''x'')"
    by (simp add: parse_node_def split_once_def trim_def trim_end_by_def is_ws_def char_code_def)
  then have "parse_nodes (join_with '','' (map show_node [?n])) = Inr [?n]"
    using node_list_reads_back [of "[?n]" "''x''"] n by simp
  then show ?thesis by (simp only: s)
qed

text \<open>
  The statistics page answers a local client, and a remote one only when a
  credential is configured and presented; the rendered configuration is the same whatever the
  credential is, so it never contains it.
\<close>
theorem statistics_page_is_guarded:
  "(stats_admitted local authenticated (stats_listener_lines c) \<longleftrightarrow> local \<or> stats_auth c \<noteq> None \<and> authenticated) \<and>
   generate_config (c\<lparr>stats_auth := Some a\<rparr>) ns = generate_config (c\<lparr>stats_auth := Some b\<rparr>) ns \<and>
   haproxy_env (c\<lparr>stats_auth := Some a\<rparr>) = [(''HAPROXY_STATS_USER'', sa_user a), (''HAPROXY_STATS_PASSWORD'', sa_password a)]"
proof -
  have "config_lines (c\<lparr>stats_auth := Some a\<rparr>) ns = config_lines (c\<lparr>stats_auth := Some b\<rparr>) ns"
    by (simp add: config_lines_def global_lines_def stats_listener_lines_def remote_rule_def write_lines_def server_entry_def)
  then show ?thesis
    by (simp add: stats_admitted_iff generate_config_def haproxy_env_def)
qed

text \<open>
  The proxy is started on a file that was written for the nodes of this environment, with the
  credential in its environment.
\<close>

theorem proxy_starts_on_written_conf:
  assumes "Start_proxy vars \<in> set (fst (edge_main e conf_written proxy_starts))"
  shows "conf_written \<and> (\<exists>c ns. edge_from_env e = Some c \<and> parse_nodes (mysql_nodes c) = Inr ns \<and> vars = haproxy_env c \<and>
    Write_conf (generate_config c ns) \<in> set (fst (edge_main e conf_written proxy_starts)))"
  using assms by (auto simp: edge_main_def Let_def split: option.splits sum.splits if_splits)

text \<open>
  C40: While the proxy runs, the monitor reports a loss of the primary on exactly those polls whose
  page shows no server of the write backend with the status \<open>UP\<close> while the last page before
  that was answered, if any, showed one. Polls that fail neither raise nor rearm the alert. (The
  pages are rows of at least 18 fields without commas or line ends in them. A server that is up and has
  begun to fail its checks has another status, such as \<open>UP 1/2\<close>, and does not count.)
\<close>
theorem outage_is_reported_once:
  assumes "\<forall>rows \<in> set ps. case rows of None \<Rightarrow> True | Some rows \<Rightarrow> list_all row_ok rows"
  shows "monitoring_loop False (map polled ps) = (map (outage_starts ps) [0 ..< length ps], None)"
proof -
  have "\<forall>r \<in> set (map polled ps). mr_child r = Child_running" by (simp add: polled_def)
  from monitoring_alerts [OF this, of False] show ?thesis
    using alerted_by_outage [OF assms] by simp
qed

definition sample_row :: "string \<Rightarrow> stats_row" where
  "sample_row status = [''mysql_primary_backend'', ''mysql-1''] @ replicate 15 [] @ [status, []]"

lemma outage_is_reported_once_witness:
  "monitoring_loop False (map polled [Some [sample_row ''UP''], Some [sample_row ''UP 1/2''], None, Some [sample_row ''DOWN'']]) =
     ([False, True, False, False], None)"
proof -
  let ?ps = "[Some [sample_row ''UP''], Some [sample_row ''UP 1/2''], None, Some [sample_row ''DOWN'']]"
  have ok: "\<forall>rows \<in> set ?ps. case rows of None \<Rightarrow> True | Some rows \<Rightarrow> list_all row_ok rows"
    by (simp add: row_ok_def sample_row_def newline_char list_all_iff)
  have "map (outage_starts ?ps) [0 ..< length ?ps] = [False, True, False, False]" by code_simp
  then show ?thesis using outage_is_reported_once [OF ok] by simp
qed

end
