(* ===== verification/Telemetry.thy ===== *)
theory Telemetry
  imports Config
begin

text \<open>
  \<open>common/src/telemetry.rs\<close>: the events, the request built from one, the classification of
  the answer, and the bounded sending. The JSON text of an event is the parameter
  \<open>to_json\<close>; what each post gave is a script.
\<close>

datatype telemetry_event =
    NodeStarted string string
  | RoleChanged string string string
  | ProcessDied string string "int option"
  | NoPrimary "string list"
  | ComponentError string string string

definition event_type :: "telemetry_event \<Rightarrow> string" where
  "event_type ev =
     (case ev of
        NodeStarted _ _ \<Rightarrow> ''mysql_ha.node_started''
      | RoleChanged _ _ _ \<Rightarrow> ''mysql_ha.role_changed''
      | ProcessDied _ _ _ \<Rightarrow> ''mysql_ha.process_died''
      | NoPrimary _ \<Rightarrow> ''mysql_ha.no_primary''
      | ComponentError _ _ _ \<Rightarrow> ''mysql_ha.component_error'')"

definition show_int :: "int \<Rightarrow> string" where
  "show_int i = (if i < 0 then ''-'' @ show_nat (nat (- i)) else show_nat (nat i))"

definition event_message :: "telemetry_event \<Rightarrow> string" where
  "event_message ev =
     (case ev of
        NodeStarted n r \<Rightarrow> n @ '' started as '' @ r
      | RoleChanged n old new \<Rightarrow> n @ '' changed role from '' @ old @ '' to '' @ new
      | ProcessDied n p code \<Rightarrow>
          n @ '': '' @ p @ '' died with exit code '' @ (case code of Some c \<Rightarrow> show_int c | None \<Rightarrow> ''unknown'')
      | NoPrimary bs \<Rightarrow> ''no healthy primary backend among ['' @ join_with '', '' bs @ '']''
      | ComponentError c err ctx \<Rightarrow> c @ '' failed during '' @ ctx @ '': '' @ err)"

record telemetry =
  t_endpoint :: string
  t_service_id :: string
  t_project_id :: string
  t_environment_id :: string
  t_component :: string
  t_enabled :: bool

definition telemetry_from_env :: "env \<Rightarrow> string \<Rightarrow> telemetry" where
  "telemetry_from_env e component =
     \<lparr>t_endpoint = env_or e ''RAILWAY_GRAPHQL_ENDPOINT'' ''https://backboard.railway.app/graphql/internal'',
      t_service_id = env_or e ''RAILWAY_SERVICE_ID'' [],
      t_project_id = env_or e ''RAILWAY_PROJECT_ID'' [],
      t_environment_id = env_or e ''RAILWAY_ENVIRONMENT_ID'' [],
      t_component = component,
      t_enabled = (e ''RAILWAY_ENVIRONMENT'' \<noteq> None)\<rparr>"

text \<open>The fields of the request's \<open>input\<close>.\<close>

definition build_payload :: "(telemetry_event \<Rightarrow> string) \<Rightarrow> telemetry \<Rightarrow> telemetry_event \<Rightarrow> (string \<times> string) list" where
  "build_payload to_json t ev =
     [(''command'', event_type ev),
      (''error'', event_message ev),
      (''stacktrace'', to_json ev),
      (''projectId'', t_project_id t),
      (''environmentId'', t_environment_id t),
      (''serviceId'', t_service_id t),
      (''version'', t_component t)]"

datatype send_outcome = Sent | Rejected_status | Rejected_errors

definition classify :: "nat \<Rightarrow> string \<Rightarrow> send_outcome" where
  "classify status body =
     (if \<not> (200 \<le> status \<and> status < 300) then Rejected_status
      else if contains_str ([CHR 0x22] @ ''errors'' @ [CHR 0x22]) body then Rejected_errors
      else Sent)"

definition SEND_ATTEMPTS :: nat where "SEND_ATTEMPTS = 2"

text \<open>
  \<open>post\<close> is what the next posts give, a status and body or a transport error. The result is
  the number of posts made and how the last one was classified, if one was answered.
\<close>

fun posting :: "nat \<Rightarrow> (nat \<times> string) option list \<Rightarrow> nat \<times> send_outcome option" where
  "posting 0 post = (0, None)"
| "posting (Suc n) [] = (0, None)"
| "posting (Suc n) (Some (status, body) # post) = (1, Some (classify status body))"
| "posting (Suc n) (None # post) = (case posting n post of (k, out) \<Rightarrow> (k + 1, out))"

definition send_with_attempts :: "telemetry \<Rightarrow> nat \<Rightarrow> (nat \<times> string) option list \<Rightarrow> nat \<times> send_outcome option" where
  "send_with_attempts t n post = (if \<not> t_enabled t then (0, None) else posting n post)"

definition send :: "telemetry \<Rightarrow> (nat \<times> string) option list \<Rightarrow> nat \<times> send_outcome option" where
  "send t post = send_with_attempts t SEND_ATTEMPTS post"

definition send_once :: "telemetry \<Rightarrow> (nat \<times> string) option list \<Rightarrow> nat \<times> send_outcome option" where
  "send_once t post = send_with_attempts t 1 post"

section \<open>Truncating a body\<close>

text \<open>A byte that continues a character of UTF-8 is not a boundary.\<close>

definition continuation :: "char \<Rightarrow> bool" where
  "continuation c \<longleftrightarrow> 128 \<le> char_code c \<and> char_code c < 192"

definition is_char_boundary :: "string \<Rightarrow> nat \<Rightarrow> bool" where
  "is_char_boundary s i \<longleftrightarrow> i = 0 \<or> i = length s \<or> i < length s \<and> \<not> continuation (s ! i)"

fun back_up :: "string \<Rightarrow> nat \<Rightarrow> nat" where
  "back_up s 0 = 0"
| "back_up s (Suc i) = (if is_char_boundary s (Suc i) then Suc i else back_up s i)"

definition ellipsis :: string where
  "ellipsis = [CHR 0xE2, CHR 0x80, CHR 0xA6]"

definition truncate_body :: "string \<Rightarrow> string" where
  "truncate_body body = (if length body \<le> 300 then body else take (back_up body 300) body @ ellipsis)"

text \<open>Text in UTF-8: characters of one to four bytes, of which the first is not a continuation.\<close>

definition utf8_char :: "string \<Rightarrow> bool" where
  "utf8_char w \<longleftrightarrow> w \<noteq> [] \<and> length w \<le> 4 \<and> \<not> continuation (hd w) \<and> list_all continuation (tl w)"

lemma back_up_boundary: "is_char_boundary s (back_up s i)"
  by (induction s i rule: back_up.induct) (auto simp: is_char_boundary_def)

lemma back_up_le: "back_up s i \<le> i"
  by (induction s i rule: back_up.induct) auto

lemma back_up_ge: "is_char_boundary s j \<Longrightarrow> j \<le> i \<Longrightarrow> j \<le> back_up s i"
  by (induction s i rule: back_up.induct) (auto simp: le_Suc_eq)

text \<open>A boundary of the bytes is a boundary of the characters.\<close>

lemma nth_concat_utf8:
  assumes "list_all utf8_char ws" and "i < length (concat ws)"
  shows "\<exists>k < length ws. length (concat (take k ws)) \<le> i \<and> i < length (concat (take k ws)) + length (ws ! k) \<and>
    (continuation (concat ws ! i) \<longleftrightarrow> i \<noteq> length (concat (take k ws)))"
  using assms
proof (induction ws arbitrary: i)
  case (Cons w ws)
  show ?case
  proof (cases "i < length w")
    case True
    have "continuation (w ! i) \<longleftrightarrow> i \<noteq> 0"
      using Cons.prems True by (cases w; cases i) (auto simp: utf8_char_def list_all_length)
    then show ?thesis
      using True by (intro exI [of _ 0]) (simp add: nth_append)
  next
    case False
    then obtain m where m: "i = length w + m"
      by (metis le_add_diff_inverse not_less)
    then obtain k where "k < length ws" "length (concat (take k ws)) \<le> m"
      "m < length (concat (take k ws)) + length (ws ! k)"
      "continuation (concat ws ! m) \<longleftrightarrow> m \<noteq> length (concat (take k ws))"
      using Cons.IH [of m] Cons.prems by auto
    then show ?thesis
      using m by (intro exI [of _ "Suc k"]) (auto simp: nth_append)
  qed
qed simp

lemma boundary_of_chars:
  assumes "list_all utf8_char ws" and "is_char_boundary (concat ws) i"
  shows "\<exists>k \<le> length ws. i = length (concat (take k ws))"
proof (cases "i < length (concat ws)")
  case True
  then show ?thesis
    using nth_concat_utf8 [OF assms(1) True] assms(2)
    by (cases "i = 0") (auto simp: is_char_boundary_def intro: exI [of _ 0] less_imp_le)
next
  case False
  then show ?thesis
    using assms(2) by (intro exI [of _ "length ws"]) (auto simp: is_char_boundary_def)
qed

lemma boundary_near:
  assumes "list_all utf8_char ws" and "i < length (concat ws)"
  shows "\<exists>j \<le> i. i \<le> j + 3 \<and> is_char_boundary (concat ws) j"
proof -
  obtain k where k: "k < length ws" "length (concat (take k ws)) \<le> i"
    "i < length (concat (take k ws)) + length (ws ! k)"
    using nth_concat_utf8 [OF assms] by blast
  let ?j = "length (concat (take k ws))"
  have "length (ws ! k) \<le> 4"
    using assms(1) k(1) by (simp add: list_all_length utf8_char_def)
  moreover have "is_char_boundary (concat ws) ?j"
  proof -
    have "concat ws = concat (take k ws) @ ws ! k @ concat (drop (Suc k) ws)"
      using k(1) by (metis append_take_drop_id Cons_nth_drop_Suc concat.simps(2) concat_append)
    then have "concat ws ! ?j = hd (ws ! k)"
      using assms(1) k(1) by (auto simp: nth_append list_all_length utf8_char_def hd_conv_nth)
    then show ?thesis
      using assms k by (auto simp: is_char_boundary_def list_all_length utf8_char_def)
  qed
  ultimately show ?thesis
    using k by (intro exI [of _ ?j]) auto
qed

section \<open>The properties\<close>

text \<open>
  Cutting a rejected answer for the log keeps whole characters, drops at most three
  bytes more than the limit asks for, and cannot fail: the kept part is a prefix of the
  body's characters of 297 to 300 bytes.
\<close>
theorem truncation_keeps_whole_characters:
  assumes "list_all utf8_char ws" and "300 < length (concat ws)"
  shows "\<exists>k \<le> length ws. truncate_body (concat ws) = concat (take k ws) @ ellipsis \<and>
    297 \<le> length (concat (take k ws)) \<and> length (concat (take k ws)) \<le> 300"
proof -
  let ?e = "back_up (concat ws) 300"
  obtain k where k: "k \<le> length ws" "?e = length (concat (take k ws))"
    using boundary_of_chars [OF assms(1) back_up_boundary] by blast
  have "take ?e (concat ws) = concat (take k ws)"
    unfolding k(2) by (metis append_take_drop_id append_eq_conv_conj concat_append)
  moreover have "297 \<le> ?e"
    using boundary_near [OF assms] back_up_ge [of "concat ws" _ 300] by force
  ultimately show ?thesis
    using k assms(2) back_up_le [of "concat ws" 300] by (auto simp: truncate_body_def)
qed

definition euro :: string where
  "euro = [CHR 0xE2, CHR 0x82, CHR 0xAC]"

lemma truncation_keeps_whole_characters_witness:
  "\<exists>k. truncate_body (concat (''x'' # replicate 100 euro)) = concat (take k (''x'' # replicate 100 euro)) @ ellipsis"
proof -
  have "list_all utf8_char (''x'' # replicate 100 euro)"
    by (simp add: utf8_char_def euro_def continuation_def char_code_def list_all_iff)
  moreover have "300 < length (concat (''x'' # replicate 100 euro))"
    by (simp add: length_concat euro_def sum_list_replicate)
  ultimately show ?thesis
    using truncation_keeps_whole_characters by blast
qed

text \<open>
  C40: Sending posts nothing off the platform, posts at most twice, posts a second time
  only after a transport error, and reports success only for a 2xx answer whose body carries
  no GraphQL errors.
\<close>
theorem telemetry_sending_is_bounded:
  "fst (send t post) \<le> (if t_enabled t then 2 else 0) \<and> fst (send_once t post) \<le> 1 \<and>
   (if fst (send t post) = 2 then post ! 0 = None else True) \<and>
   (if snd (send t post) = Some Sent
    then \<exists>status body. Some (status, body) \<in> set (take 2 post) \<and> 200 \<le> status \<and> status < 300 \<and>
      \<not> contains_str ([CHR 0x22] @ ''errors'' @ [CHR 0x22]) body
    else True)"
proof -
  consider "post = []" | s b r where "post = Some (s, b) # r" | "post = [None]" | s b r where "post = None # Some (s, b) # r"
    | r where "post = None # None # r"
    by (metis list.exhaust option.exhaust surj_pair)
  then show ?thesis
    by cases (auto simp: send_def send_once_def send_with_attempts_def SEND_ATTEMPTS_def numeral_2_eq_2 classify_def split: if_splits)
qed

end
