(* ===== verification/Process.thy ===== *)
theory Process
  imports Volume
begin

text \<open>
  The life of one container around mysqld: the runtime lock on the volume
  (\<open>volume_lock.rs\<close>), the stale socket locks and the supervision of the server process
  (\<open>process_manager.rs\<close>); and the system of all containers that share a volume, as a step
  relation whose steps are these operations.
\<close>

section \<open>The runtime lock\<close>

datatype lock_end = Held | FailedOpen | Not_released

definition lock_wait_seconds :: "env \<Rightarrow> nat" where
  "lock_wait_seconds e = env_parse e (parse_uint u64_max) ''RUNTIME_LOCK_WAIT_SECONDS'' 300"

text \<open>
  One element per attempt: whether the non-blocking \<open>flock\<close> succeeded, and the seconds since
  the first one. \<open>None\<close>: still waiting when the script ends.
\<close>

fun lock_loop :: "nat \<Rightarrow> (bool \<times> nat) list \<Rightarrow> lock_end option" where
  "lock_loop wait_secs [] = None"
| "lock_loop wait_secs ((locked, now) # rs) =
     (if locked then Some Held
      else if now \<ge> wait_secs then Some Not_released
      else lock_loop wait_secs rs)"

definition acquire_with_wait :: "bool \<Rightarrow> nat \<Rightarrow> (bool \<times> nat) list \<Rightarrow> lock_end option" where
  "acquire_with_wait opened wait_secs rs = (if \<not> opened then Some FailedOpen else lock_loop wait_secs rs)"

section \<open>Stale socket locks\<close>

text \<open>
  The two candidates of a socket \<open>dir/name\<close>. \<open>with_extension\<close> of \<open>ext.lock\<close>, or of
  \<open>lock\<close> without an extension, appends to the name in both cases.
\<close>

definition socket_lock_files :: "string \<Rightarrow> string \<Rightarrow> string list" where
  "socket_lock_files dir name = [dir @ ''/'' @ name @ ''.lock'', dir @ ''/mysqlx.sock.lock'']"

definition names_live_mysqld :: "(nat \<Rightarrow> file_read) \<Rightarrow> string \<Rightarrow> bool" where
  "names_live_mysqld comm contents =
     (case parse_uint u32_max (trim contents) of
        None \<Rightarrow> False
      | Some pid \<Rightarrow> trim (case read_text (comm pid) of Some s \<Rightarrow> s | None \<Rightarrow> []) = ''mysqld'')"

text \<open>The files on disk after the call; \<open>removes\<close> says which removals succeed.\<close>

fun clear_locks :: "(nat \<Rightarrow> file_read) \<Rightarrow> (string \<Rightarrow> bool) \<Rightarrow> string list \<Rightarrow> (string \<Rightarrow> file_read) \<Rightarrow> (string \<Rightarrow> file_read)" where
  "clear_locks comm removes [] fs = fs"
| "clear_locks comm removes (p # ps) fs =
     clear_locks comm removes ps
       (case read_text (fs p) of
          None \<Rightarrow> fs
        | Some contents \<Rightarrow>
            if names_live_mysqld comm contents then fs
            else if removes p then fs(p := Missing) else fs)"

definition clear_stale_socket_locks :: "(nat \<Rightarrow> file_read) \<Rightarrow> (string \<Rightarrow> bool) \<Rightarrow> string \<Rightarrow> string \<Rightarrow> (string \<Rightarrow> file_read) \<Rightarrow> (string \<Rightarrow> file_read)" where
  "clear_stale_socket_locks comm removes dir name fs = clear_locks comm removes (socket_lock_files dir name) fs"

section \<open>Supervision\<close>

text \<open>
  What ends the wait: mysqld's exit with its code (\<open>None\<close> when a signal killed it), an
  error of the wait, or a signal to the wrapper.
\<close>

datatype supervise_event = Child_exit "int option" | Wait_error | Sigterm_received | Sigint_received

datatype supervise_action = Note_planned_shutdown | Demote_if_primary | Term_mysqld | Reap_mysqld | Kill_mysqld | Exit int

definition graceful_shutdown :: "bool \<Rightarrow> bool \<Rightarrow> supervise_action list" where
  "graceful_shutdown has_pid exits_in_time =
     (if has_pid then [Term_mysqld] @ (if exits_in_time then [Reap_mysqld] else [Kill_mysqld, Reap_mysqld]) else [])"

definition exit_code :: "int \<Rightarrow> int" where
  "exit_code code = (if code = 0 then 1 else code)"

definition supervise :: "bool \<Rightarrow> bool \<Rightarrow> bool \<Rightarrow> bool \<Rightarrow> supervise_event \<Rightarrow> supervise_action list" where
  "supervise demote boot_note has_pid exits_in_time ev =
     (let stop = (if boot_note then [Note_planned_shutdown] else []) @
                 (if demote then [Demote_if_primary] else []) @
                 graceful_shutdown has_pid exits_in_time @ [Exit 0] in
      case ev of
        Child_exit code \<Rightarrow> [Reap_mysqld, Exit (exit_code (case code of Some c \<Rightarrow> c | None \<Rightarrow> 1))]
      | Wait_error \<Rightarrow> [Exit (exit_code 1)]
      | Sigterm_received \<Rightarrow> stop
      | Sigint_received \<Rightarrow> stop)"

section \<open>The containers on a volume\<close>

text \<open>
  A container boots, holds the lock or runs without it, has its mysqld up or not, and ends. The
  kernel drops a lock with its holder and lets an attempt succeed only when nobody holds it: that
  is the premise of \<open>acquire\<close> on the attempts, and what the container makes of them is
  \<open>acquire_with_wait\<close>. A container ends in one of two ways. \<open>supervised\<close>: the supervisor
  runs its arm for an event, and mysqld is down if that arm reaps it. \<open>cut_off\<close>: the
  wrapper is gone at any other point, killed (SIGKILL, the memory limit) or returning an error, as
  a restore does while its server runs; whatever mysqld it has is left as it is. A wait that
  failed also leaves mysqld as it is, so that container counts as cut off.
\<close>

datatype phase = Booting | Locked | Unlocked | Ended | Cut_off

record volume_system =
  holder :: "nat option"
  phase_of :: "nat \<Rightarrow> phase"
  mysqld_up :: "nat \<Rightarrow> bool"

definition nobody :: volume_system where
  "nobody = \<lparr>holder = None, phase_of = (\<lambda>_. Booting), mysqld_up = (\<lambda>_. False)\<rparr>"

definition leave :: "nat \<Rightarrow> phase \<Rightarrow> volume_system \<Rightarrow> volume_system" where
  "leave i p s = s\<lparr>holder := (if holder s = Some i then None else holder s), phase_of := (phase_of s)(i := p)\<rparr>"

definition enter :: "nat \<Rightarrow> lock_end \<Rightarrow> volume_system \<Rightarrow> volume_system" where
  "enter i l s =
     (case l of
        Held \<Rightarrow> s\<lparr>holder := Some i, phase_of := (phase_of s)(i := Locked)\<rparr>
      | FailedOpen \<Rightarrow> s\<lparr>phase_of := (phase_of s)(i := Unlocked)\<rparr>
      | Not_released \<Rightarrow> s\<lparr>phase_of := (phase_of s)(i := Ended)\<rparr>)"

definition end_supervised :: "nat \<Rightarrow> supervise_event \<Rightarrow> supervise_action list \<Rightarrow> volume_system \<Rightarrow> volume_system" where
  "end_supervised i ev acts s =
     leave i (if ev = Wait_error then Cut_off else Ended)
       (s\<lparr>mysqld_up := (mysqld_up s)(i := mysqld_up s i \<and> Reap_mysqld \<notin> set acts)\<rparr>)"

text \<open>The premises on \<open>supervised\<close>: a server has a process id until it is reaped.\<close>

inductive volume_step :: "volume_system \<Rightarrow> volume_system \<Rightarrow> bool" where
  acquire: "phase_of s i = Booting \<Longrightarrow> acquire_with_wait opened secs rs = Some l \<Longrightarrow>
    (\<forall>n. (True, n) \<in> set rs \<longrightarrow> holder s = None) \<Longrightarrow> volume_step s (enter i l s)"
| start: "phase_of s i \<in> {Locked, Unlocked} \<Longrightarrow> volume_step s (s\<lparr>mysqld_up := (mysqld_up s)(i := True)\<rparr>)"
| goes_down: "volume_step s (s\<lparr>mysqld_up := (mysqld_up s)(i := False)\<rparr>)"
| supervised: "phase_of s i \<in> {Locked, Unlocked} \<Longrightarrow> (mysqld_up s i \<longrightarrow> has_pid) \<Longrightarrow>
    volume_step s (end_supervised i ev (supervise demote boot_note has_pid exits_in_time ev) s)"
| cut_off: "phase_of s i \<in> {Booting, Locked, Unlocked} \<Longrightarrow> volume_step s (leave i Cut_off s)"

inductive reachable :: "volume_system \<Rightarrow> bool" where
  start_nobody: "reachable nobody"
| next_step: "reachable s \<Longrightarrow> volume_step s t \<Longrightarrow> reachable t"

inductive_cases volume_stepE: "volume_step s t"

definition lock_invariant :: "volume_system \<Rightarrow> bool" where
  "lock_invariant s \<longleftrightarrow> (\<forall>i. phase_of s i = Locked \<longleftrightarrow> holder s = Some i) \<and>
     (\<forall>i. mysqld_up s i \<longrightarrow> phase_of s i \<in> {Locked, Unlocked, Cut_off})"

lemma lock_invariant_nobody: "lock_invariant nobody"
  by (simp add: lock_invariant_def nobody_def)

lemma lock_invariant_enter:
  assumes "lock_invariant s" and "phase_of s i = Booting" and "l = Held \<longrightarrow> holder s = None"
  shows "lock_invariant (enter i l s)"
proof -
  have "holder s \<noteq> Some i" and "\<not> mysqld_up s i"
    using assms(1,2) unfolding lock_invariant_def by (metis phase.distinct(1), force)
  then show ?thesis
    using assms by (cases l) (auto simp: lock_invariant_def enter_def)
qed

lemma lock_invariant_leave:
  "lock_invariant s \<Longrightarrow> p \<in> {Ended, Cut_off} \<Longrightarrow> (mysqld_up s i \<longrightarrow> p = Cut_off) \<Longrightarrow> lock_invariant (leave i p s)"
  by (auto simp: lock_invariant_def leave_def)

text \<open>Every arm of the supervisor but the one of the failed wait reaps the server.\<close>

lemma supervise_reaps: "has_pid \<Longrightarrow> ev \<noteq> Wait_error \<Longrightarrow> Reap_mysqld \<in> set (supervise demote boot_note has_pid exits_in_time ev)"
  by (cases ev) (auto simp: supervise_def graceful_shutdown_def Let_def)

lemma lock_invariant_end:
  assumes "lock_invariant s" and "mysqld_up s i \<longrightarrow> has_pid"
  shows "lock_invariant (end_supervised i ev (supervise demote boot_note has_pid exits_in_time ev) s)"
  unfolding end_supervised_def
proof (rule lock_invariant_leave)
  show "lock_invariant (s\<lparr>mysqld_up := (mysqld_up s)(i := mysqld_up s i \<and>
      Reap_mysqld \<notin> set (supervise demote boot_note has_pid exits_in_time ev))\<rparr>)"
    using assms(1) by (auto simp: lock_invariant_def)
qed (use assms(2) supervise_reaps in auto)

lemma lock_loop_result:
  "lock_loop wait_secs rs = Some l \<Longrightarrow> (l = Held \<longrightarrow> (\<exists>n. (True, n) \<in> set rs)) \<and>
    (l = Not_released \<longrightarrow> (\<exists>n \<ge> wait_secs. (False, n) \<in> set rs)) \<and> l \<noteq> FailedOpen"
  by (induction rs) (auto split: if_splits)

lemma held_was_free:
  "acquire_with_wait opened wait_secs rs = Some l \<Longrightarrow> \<forall>n. (True, n) \<in> set rs \<longrightarrow> holder s = None \<Longrightarrow>
    l = Held \<longrightarrow> holder s = None"
  by (auto simp: acquire_with_wait_def split: if_splits dest: lock_loop_result)

lemma lock_invariant_step:
  assumes "lock_invariant s" and "volume_step s t"
  shows "lock_invariant t"
  using assms(2)
proof cases
  case (acquire i opened secs rs l)
  then show ?thesis using lock_invariant_enter [OF assms(1)] held_was_free by blast
next
  case (cut_off i)
  then show ?thesis using lock_invariant_leave [OF assms(1)] by simp
next
  case (supervised i)
  then show ?thesis using lock_invariant_end [OF assms(1)] by blast
qed (use assms(1) in \<open>auto simp: lock_invariant_def\<close>)

lemma lock_invariant_reachable: "reachable s \<Longrightarrow> lock_invariant s"
  by (induction rule: reachable.induct) (auto intro: lock_invariant_nobody lock_invariant_step)

section \<open>What the operations guarantee\<close>

lemma lock_loop_ends: "(b, n) \<in> set rs \<Longrightarrow> wait_secs \<le> n \<Longrightarrow> lock_loop wait_secs rs \<noteq> None"
  by (induction rs) (auto split: if_splits)

lemma clear_locks_other: "p \<notin> set ps \<Longrightarrow> clear_locks comm removes ps fs p = fs p"
  by (induction ps arbitrary: fs) (auto split: option.splits)

lemma clear_locks_at:
  "clear_locks comm removes ps fs p =
    (if p \<in> set ps \<and> removes p \<and> (case read_text (fs p) of None \<Rightarrow> False | Some c \<Rightarrow> \<not> names_live_mysqld comm c)
     then Missing else fs p)"
proof (induction ps arbitrary: fs)
  case (Cons q ps)
  then show ?case
    by (cases "q = p") (auto simp: read_text_def split: option.splits file_read.splits if_splits)
qed simp

section \<open>The properties\<close>


definition overlapping :: volume_system where
  "overlapping = nobody\<lparr>phase_of := (\<lambda>_. Booting)(0 := Unlocked, 1 := Locked), holder := Some 1,
     mysqld_up := (\<lambda>_. False)(0 := True, 1 := True)\<rparr>"

lemma overlapping_reachable: "reachable overlapping"
proof -
  have "reachable (enter 0 FailedOpen nobody)"
    by (rule next_step [OF start_nobody acquire [of _ _ False 0 "[]"]]) (simp_all add: nobody_def acquire_with_wait_def)
  then have "reachable (enter 1 Held (enter 0 FailedOpen nobody))"
    by (rule next_step [OF _ acquire [of _ _ True 0 "[(True, 0)]"]]) (simp_all add: nobody_def enter_def acquire_with_wait_def)
  then have "reachable ((enter 1 Held (enter 0 FailedOpen nobody))\<lparr>mysqld_up := (mysqld_up (enter 1 Held (enter 0 FailedOpen nobody)))(0 := True)\<rparr>)"
    by (rule next_step [OF _ start]) (simp add: enter_def nobody_def)
  then have "reachable (\<lparr>holder = Some 1, phase_of = (\<lambda>_. Booting)(0 := Unlocked, 1 := Locked), mysqld_up = (\<lambda>_. False)(0 := True)\<rparr>)"
    by (simp add: enter_def nobody_def)
  then have "reachable (\<lparr>holder = Some 1, phase_of = (\<lambda>_. Booting)(0 := Unlocked, 1 := Locked), mysqld_up = (\<lambda>_. False)(0 := True)\<rparr>
      \<lparr>mysqld_up := ((\<lambda>_. False)(0 := True))(1 := True)\<rparr>)"
    by (rule next_step) (use start [of "\<lparr>holder = Some 1, phase_of = (\<lambda>_. Booting)(0 := Unlocked, 1 := Locked), mysqld_up = (\<lambda>_. False)(0 := True)\<rparr>" 1] in simp)
  then show ?thesis by (simp add: overlapping_def nobody_def)
qed


text \<open>
  The wait for the lock ends: once an attempt is past the bound it has been decided,
  held only on a successful attempt and given up only on a failed one past the bound; and an
  unopenable lock file is the only way to boot without it.
\<close>
theorem lock_wait_is_bounded:
  assumes "(b, n) \<in> set rs" and "wait_secs \<le> n"
  shows "\<exists>l. acquire_with_wait opened wait_secs rs = Some l \<and> (l = FailedOpen \<longleftrightarrow> \<not> opened) \<and>
    (l = Held \<longrightarrow> (\<exists>m. (True, m) \<in> set rs)) \<and> (l = Not_released \<longrightarrow> (\<exists>m \<ge> wait_secs. (False, m) \<in> set rs))"
proof (cases opened)
  case True
  obtain l where "lock_loop wait_secs rs = Some l"
    using lock_loop_ends [OF assms] by auto
  then show ?thesis
    using True lock_loop_result by (auto simp: acquire_with_wait_def)
qed (simp add: acquire_with_wait_def)

lemma lock_wait_is_bounded_witness:
  "\<exists>l. acquire_with_wait True 2 [(False, 0), (False, 1), (False, 2)] = Some l"
  using lock_wait_is_bounded [of False 2 "[(False, 0), (False, 1), (False, 2)]" 2 True] by auto

text \<open>
  The wrapper exits with code 0 exactly when it was asked to stop, and then the
  planned shutdown is noted before the primary is handed off, the hand-off comes before
  mysqld is signalled, and mysqld is reaped before the exit.
\<close>
theorem exit_zero_only_when_asked:
  "(Exit 0 \<in> set (supervise demote boot_note has_pid exits_in_time ev) \<longleftrightarrow> ev = Sigterm_received \<or> ev = Sigint_received) \<and>
   (if Exit 0 \<in> set (supervise demote boot_note has_pid exits_in_time ev)
    then \<exists>kill. supervise demote boot_note has_pid exits_in_time ev =
      (if boot_note then [Note_planned_shutdown] else []) @ (if demote then [Demote_if_primary] else []) @
      (if has_pid then Term_mysqld # kill @ [Reap_mysqld] else []) @ [Exit 0]
    else True)"
  by (cases ev) (auto simp: supervise_def graceful_shutdown_def exit_code_def Let_def)

text \<open>
  Clearing the stale socket locks removes, of the two candidates, exactly the readable
  ones that do not name a live mysqld and can be removed; every other file stays.
\<close>
theorem stale_locks_cleared:
  "clear_stale_socket_locks comm removes dir name fs p =
    (if p \<in> {dir @ ''/'' @ name @ ''.lock'', dir @ ''/mysqlx.sock.lock''} \<and> removes p \<and>
        (case read_text (fs p) of None \<Rightarrow> False | Some c \<Rightarrow> \<not> names_live_mysqld comm c)
     then Missing else fs p)"
  unfolding clear_stale_socket_locks_def clear_locks_at socket_lock_files_def by simp

end
