(* ===== verification/Wrapper.thy ===== *)
theory Wrapper
  imports Process Finish_Upgrade Restore
begin

text \<open>
  \<open>main.rs\<close>: the boot of a node from the lock on the volume to the supervised server, as the
  list of the actions taken in order and how the boot ended. The actions themselves are the
  operations of the other theories; the restore and its gate are taken from \<open>Restore\<close> with
  their effects on the volume.
\<close>

section \<open>The boot\<close>

datatype boot_action =
    Acquire_lock | Report_no_lock | Clear_socket_locks | Reset_restore | Preboot | Start_resolver
  | Report_archive_refusal | Warn_restore_skipped | Render_gr_conf | Look_at_datadir | Finish_upgrade
  | Note_stop | Start_health bool | Start_group_archiver | Start_boot_watch | Start_stuck_watch
  | Start_orchestrate | Run_restore | Warn_archiving_skipped | Render_archive_conf | Announce_standalone
  | Retire_recovery_user | Start_archiver | Start_served_record | Spawn_mysqld

text \<open>An error stops the wrapper with a non-zero code; a stop asked for during the pass exits 0.\<close>

datatype boot_finish = Boot_error | Boot_stopped | Supervising bool bool

record boot_facts =
  bf_lock :: lock_end
  bf_removes :: "string \<Rightarrow> bool"
  bf_attempt :: restore_attempt
  bf_volume :: restore_volume
  bf_conf_written :: bool
  bf_pass :: pass_outcome
  bf_spawned :: bool

definition after_arm :: "config \<Rightarrow> boot_facts \<Rightarrow> boot_action list \<Rightarrow> boot_action list \<times> boot_finish" where
  "after_arm c f acts =
     (acts @ [Start_served_record, Spawn_mysqld],
      if bf_spawned f then Supervising (gr_enabled c) (gr_enabled c) else Boot_error)"

definition group_arm :: "config \<Rightarrow> boot_facts \<Rightarrow> boot_action list \<Rightarrow> boot_action list \<times> boot_finish" where
  "group_arm c f acts =
     (let a = acts @ (if restore_enabled c then [Warn_restore_skipped] else []) @ [Render_gr_conf] in
      if \<not> bf_conf_written f then (a, Boot_error)
      else
        (let b = a @ [Look_at_datadir, Finish_upgrade] in
         if bf_pass f = ShutdownRequested then (b @ [Note_stop], Boot_stopped)
         else after_arm c f (b @ [Start_health False] @
                (if archive_enabled c then [Start_group_archiver] else []) @
                [Start_boot_watch, Start_stuck_watch, Start_orchestrate])))"

text \<open>Whether the boot restores, and what becomes of the volume and the boot.\<close>

definition restore_part :: "calendar \<Rightarrow> config \<Rightarrow> boot_facts \<Rightarrow> restore_volume \<Rightarrow> boot_action list \<times> restore_volume \<times> bool" where
  "restore_part utc_of c f v =
     (if \<not> restore_enabled c then ([], v, True)
      else if gr_seeds c \<noteq> None then ([Warn_restore_skipped], v, True)
      else if datadir_is_initialized v then ([], v, True)
      else (case run_reporting utc_of c (bf_attempt f) v of
              (v', Inr _) \<Rightarrow> ([Run_restore], v', True)
            | (v', Inl _) \<Rightarrow> ([Run_restore], v', False)))"

definition standalone_arm :: "calendar \<Rightarrow> config \<Rightarrow> boot_facts \<Rightarrow> restore_volume \<Rightarrow> boot_action list \<Rightarrow> boot_action list \<times> boot_finish" where
  "standalone_arm utc_of c f v acts =
     (case restore_part utc_of c f v of
        (r, v', ok) \<Rightarrow>
          (let archiving = (archive_enabled c \<and> gr_seeds c = None);
               a = acts @ r in
           if \<not> ok then (a, Boot_error)
           else
             (let b = a @ (if archive_enabled c \<and> gr_seeds c \<noteq> None then [Warn_archiving_skipped] else []) @
                          (if archiving then [Render_archive_conf] else []) in
              if archiving \<and> \<not> bf_conf_written f then (b, Boot_error)
              else
                (let d = b @ [Finish_upgrade] in
                 if bf_pass f = ShutdownRequested then (d, Boot_stopped)
                 else after_arm c f (d @ [Start_health True, Announce_standalone, Retire_recovery_user] @
                        (if archiving then [Start_archiver] else []))))))"

definition early_actions :: "boot_facts \<Rightarrow> boot_action list" where
  "early_actions f = [Acquire_lock] @ (if bf_lock f = FailedOpen then [Report_no_lock] else []) @ [Clear_socket_locks]"

definition common_actions :: "config \<Rightarrow> boot_facts \<Rightarrow> boot_action list" where
  "common_actions c f =
     early_actions f @ (if crashed_mid_restore (rv_marker (bf_volume f)) then [Reset_restore] else []) @
     (if gr_enabled c then [Preboot] else []) @ [Start_resolver] @
     (if archive_refusal c \<noteq> None then [Report_archive_refusal] else [])"

definition main_plan :: "calendar \<Rightarrow> config \<Rightarrow> boot_facts \<Rightarrow> boot_action list \<times> boot_finish" where
  "main_plan utc_of c f =
     (if bf_lock f = Not_released then ([Acquire_lock], Boot_error)
      else
        (case restore_gate c (bf_removes f) (bf_volume f) of
           (v, Pass wait) \<Rightarrow>
             if gr_enabled c then group_arm c f (common_actions c f)
             else standalone_arm utc_of c f v (common_actions c f)
         | (v, Reset_failed) \<Rightarrow> (early_actions f @ [Reset_restore], Boot_error)
         | (v, _) \<Rightarrow> (early_actions f, Boot_error)))"

section \<open>Lemmas on a boot\<close>

text \<open>What may stand before the server is started, arm by arm.\<close>

lemma common_actions_no_spawn [simp]: "Spawn_mysqld \<notin> set (common_actions c f)" "Spawn_mysqld \<notin> set (early_actions f)"
  by (simp_all add: common_actions_def early_actions_def)

lemma restore_part_actions: "restore_part utc_of c f v = (r, v', ok) \<Longrightarrow> set r \<subseteq> {Warn_restore_skipped, Run_restore}"
  by (auto simp: restore_part_def split: if_splits prod.splits sum.splits)

lemma group_arm_spawn:
  assumes "group_arm c f b = (acts, fin)" and "Spawn_mysqld \<in> set acts" and "Spawn_mysqld \<notin> set b"
  shows "bf_conf_written f \<and> bf_pass f \<noteq> ShutdownRequested \<and>
    fin = (if bf_spawned f then Supervising (gr_enabled c) (gr_enabled c) else Boot_error) \<and>
    (\<exists>ts. Spawn_mysqld \<notin> set ts \<and>
      acts = b @ (if restore_enabled c then [Warn_restore_skipped] else []) @ Render_gr_conf # Look_at_datadir # Finish_upgrade # ts @
        [Start_served_record, Spawn_mysqld])"
  using assms by (auto simp: group_arm_def after_arm_def Let_def split: if_splits)

lemma standalone_arm_spawn:
  assumes "standalone_arm utc_of c f v b = (acts, fin)" and "Spawn_mysqld \<in> set acts" and "Spawn_mysqld \<notin> set b"
  shows "bf_pass f \<noteq> ShutdownRequested \<and> snd (snd (restore_part utc_of c f v)) \<and>
    fin = (if bf_spawned f then Supervising (gr_enabled c) (gr_enabled c) else Boot_error) \<and>
    (if archive_enabled c \<and> gr_seeds c = None then bf_conf_written f else True) \<and>
    (\<exists>ts. Spawn_mysqld \<notin> set ts \<and>
      acts = b @ fst (restore_part utc_of c f v) @
        (if archive_enabled c then if gr_seeds c = None then [Render_archive_conf] else [Warn_archiving_skipped] else []) @
        Finish_upgrade # ts @ [Start_served_record, Spawn_mysqld])"
proof -
  obtain r v' ok where p: "restore_part utc_of c f v = (r, v', ok)"
    by (metis prod_cases3)
  with restore_part_actions have "Spawn_mysqld \<notin> set r" by fastforce
  then show ?thesis
    using assms by (simp add: standalone_arm_def p Let_def after_arm_def split: if_splits) auto
qed

lemma main_plan_spawn:
  assumes "main_plan utc_of c f = (acts, fin)" and "Spawn_mysqld \<in> set acts"
  obtains v wait where "bf_lock f \<noteq> Not_released" and "restore_gate c (bf_removes f) (bf_volume f) = (v, Pass wait)"
    and "(acts, fin) = (if gr_enabled c then group_arm c f (common_actions c f) else standalone_arm utc_of c f v (common_actions c f))"
  using assms by (auto simp: main_plan_def split: if_splits prod.splits gate_end.splits)

lemma main_plan_shape:
  assumes "main_plan utc_of c f = (acts, fin)" and "Spawn_mysqld \<in> set acts"
  shows "\<exists>pre. acts = Acquire_lock # pre @ [Start_served_record, Spawn_mysqld] \<and> Spawn_mysqld \<notin> set pre \<and> Finish_upgrade \<in> set pre"
proof -
  obtain rest where c: "common_actions c f = Acquire_lock # rest" "Spawn_mysqld \<notin> set rest"
    using common_actions_no_spawn(1) [of c f] by (simp add: common_actions_def early_actions_def)
  from assms show ?thesis
  proof (cases rule: main_plan_spawn)
    case (1 v wait)
    show ?thesis
    proof (cases "gr_enabled c")
      case True
      then show ?thesis
        using group_arm_spawn [of c f "common_actions c f" acts fin] 1(3) assms(2) c by auto
    next
      case False
      obtain r v' ok where p: "restore_part utc_of c f v = (r, v', ok)"
        by (metis prod_cases3)
      with restore_part_actions have "Spawn_mysqld \<notin> set r" by fastforce
      then show ?thesis
        using standalone_arm_spawn [of utc_of c f v "common_actions c f" acts fin] 1(3) False assms(2) c by (auto simp: p)
    qed
  qed
qed

section \<open>The properties\<close>

text \<open>
  mysqld is started at most once, as the last action of a boot that began by taking
  the volume lock without timing out, whose restore gate passed, whose upgrade pass ran and
  was not asked to stop, and which ends supervised if the server could be spawned.
\<close>
theorem server_started_last:
  assumes "main_plan utc_of c f = (acts, fin)" and "Spawn_mysqld \<in> set acts"
  shows "(\<exists>pre. acts = Acquire_lock # pre @ [Start_served_record, Spawn_mysqld] \<and> Spawn_mysqld \<notin> set pre \<and> Finish_upgrade \<in> set pre) \<and>
    bf_lock f \<noteq> Not_released \<and> bf_pass f = Continue \<and>
    (\<exists>v wait. restore_gate c (bf_removes f) (bf_volume f) = (v, Pass wait)) \<and>
    fin = (if bf_spawned f then Supervising (gr_enabled c) (gr_enabled c) else Boot_error)"
proof -
  have pass: "bf_pass f = Continue" if "bf_pass f \<noteq> ShutdownRequested"
    using that by (cases "bf_pass f") auto
  from assms show ?thesis
  proof (cases rule: main_plan_spawn)
    case (1 v wait)
    then show ?thesis
      using main_plan_shape [OF assms] pass assms(2) group_arm_spawn [of c f "common_actions c f" acts fin]
        standalone_arm_spawn [of utc_of c f v "common_actions c f" acts fin]
      by (cases "gr_enabled c") auto
  qed
qed

text \<open>
  C15: The boot of \<open>main\<close> refines the abstract boot of \<open>Restore\<close>: with the lock taken, the
  option files written, no stop asked for and the server spawned, it ends supervised exactly
  when the abstract boot serves, and it runs a restore exactly when that one does.
\<close>
theorem main_refines_restore_boot:
  assumes "bf_lock f \<noteq> Not_released" and "bf_conf_written f" and "bf_pass f = Continue" and "bf_spawned f"
  shows "(case snd (main_plan utc_of c f) of Supervising _ _ \<Rightarrow> Serves | _ \<Rightarrow> Stops) =
      r_end (restore_boot utc_of c (bf_removes f) (bf_attempt f) (bf_volume f)) \<and>
    (Run_restore \<in> set (fst (main_plan utc_of c f)) \<longleftrightarrow>
      r_ran (restore_boot utc_of c (bf_removes f) (bf_attempt f) (bf_volume f)))"
proof -
  obtain v g where g: "restore_gate c (bf_removes f) (bf_volume f) = (v, g)"
    by fastforce
  have n: "Run_restore \<notin> set (common_actions c f)" "Run_restore \<notin> set (early_actions f)"
    by (simp_all add: common_actions_def early_actions_def)
  show ?thesis
  proof (cases g)
    case (Pass wait)
    show ?thesis
    proof (cases "gr_enabled c")
      case True
      then show ?thesis
        using assms g Pass n by (simp add: main_plan_def restore_boot_def group_arm_def after_arm_def Let_def)
    next
      case False
      then show ?thesis
        using assms g Pass n
        by (cases "run_reporting utc_of c (bf_attempt f) v")
          (auto simp: main_plan_def restore_boot_def standalone_arm_def restore_part_def after_arm_def Let_def split: sum.splits)
    qed
  qed (use assms g n in \<open>simp_all add: main_plan_def restore_boot_def\<close>)
qed

definition serving_facts :: boot_facts where
  "serving_facts = \<lparr>bf_lock = Held, bf_removes = (\<lambda>_. True), bf_attempt = restoring_attempt True, bf_volume = fresh_volume,
     bf_conf_written = True, bf_pass = Continue, bf_spawned = True\<rparr>"

lemma serving_facts_simps [simp]:
  "bf_lock serving_facts = Held" "bf_removes serving_facts = (\<lambda>_. True)" "bf_attempt serving_facts = restoring_attempt True"
  "bf_volume serving_facts = fresh_volume" "bf_conf_written serving_facts" "bf_pass serving_facts = Continue" "bf_spawned serving_facts"
  by (simp_all add: serving_facts_def)

lemma main_refines_restore_boot_witness:
  "(case snd (main_plan day_clock restoring_config serving_facts) of Supervising _ _ \<Rightarrow> Serves | _ \<Rightarrow> Stops) = Serves"
  using main_refines_restore_boot [of serving_facts day_clock restoring_config] restoring_boot by simp

lemma serving_plan: "main_plan day_clock (sample_config ''a'') serving_facts =
    ([Acquire_lock, Clear_socket_locks, Preboot, Start_resolver, Render_gr_conf, Look_at_datadir, Finish_upgrade,
      Start_health False, Start_boot_watch, Start_stuck_watch, Start_orchestrate, Start_served_record, Spawn_mysqld],
     Supervising True True)"
proof -
  have c: "gr_enabled (sample_config ''a'')" "\<not> archive_enabled (sample_config ''a'')" "\<not> restore_enabled (sample_config ''a'')"
    "archive_refusal (sample_config ''a'') = None"
    by (simp_all add: gr_enabled_def archive_enabled_def archive_configured_def restore_enabled_def sample_config_def
        config_of_env_def env_bool_def bucket_vars_from_env_def non_empty_def)
  have "restore_gate (sample_config ''a'') (\<lambda>_. True) fresh_volume = (fresh_volume, Pass 0)"
    by (simp add: restore_gate_def crashed_mid_restore_def)
  then show ?thesis
    using c by (simp add: main_plan_def group_arm_def after_arm_def common_actions_def early_actions_def crashed_mid_restore_def Let_def)
qed

lemma server_started_last_witness: "\<exists>v wait. restore_gate (sample_config ''a'') (\<lambda>_. True) fresh_volume = (v, Pass wait)"
  using server_started_last [OF serving_plan] by simp

text \<open>
  The two modes do not mix: a group member never restores, renders the standalone
  archive file, starts the standalone archiver or retires the recovery account, a standalone
  never renders the group file or starts a group task, and at most one archiver starts,
  which on a standalone has its option file rendered.
\<close>
theorem boot_modes_do_not_mix:
  "(if gr_enabled c
    then set (fst (main_plan utc_of c f)) \<inter> {Run_restore, Render_archive_conf, Start_archiver, Retire_recovery_user, Start_health True} = {}
    else set (fst (main_plan utc_of c f)) \<inter> {Preboot, Render_gr_conf, Start_group_archiver, Start_boot_watch, Start_stuck_watch,
           Start_orchestrate, Start_health False} = {}) \<and>
   length (filter (\<lambda>a. a = Start_archiver \<or> a = Start_group_archiver) (fst (main_plan utc_of c f))) \<le> 1 \<and>
   (if Start_archiver \<in> set (fst (main_plan utc_of c f)) then Render_archive_conf \<in> set (fst (main_plan utc_of c f)) else True)"
proof -
  obtain v g where g: "restore_gate c (bf_removes f) (bf_volume f) = (v, g)"
    by fastforce
  obtain r v' ok where p: "restore_part utc_of c f v = (r, v', ok)"
    by (metis prod_cases3)
  have r: "x \<notin> set r" if "x \<notin> {Warn_restore_skipped, Run_restore}" for x
    using restore_part_actions [OF p] that by blast
  have "filter (\<lambda>a. a = Start_archiver \<or> a = Start_group_archiver) r = []"
    using r by (auto simp: filter_empty_conv)
  then show ?thesis
    using r
    by (cases "gr_enabled c"; cases g)
      (simp_all add: main_plan_def g p group_arm_def standalone_arm_def after_arm_def common_actions_def early_actions_def Let_def)
qed

end
