(* ===== verification/Statements.thy ===== *)
theory Statements
  imports Shipping
begin

text \<open>
  The statements of \<open>sql.rs\<close>: the operations that send more than one statement on a
  connection, with the early return on an error, and the readings of the server's answers.
  A session knows the answer each statement will get, by its position, and keeps the history
  of what was sent. What a history leaves in the server is a function of the history: the
  session's binary logging, the write fence and the bootstrap flag, each set by the last
  statement on it that succeeded. A statement whose effect took place although its answer was
  lost is not such a statement.
\<close>

section \<open>Sessions\<close>

datatype sql_error = Server_error nat string | Connection_error

type_synonym reply = "sql_error option"

record session =
  replies :: "nat \<Rightarrow> reply"
  sent :: "(string \<times> reply) list"

definition exec :: "string \<Rightarrow> session \<Rightarrow> session \<times> reply" where
  "exec q s = (let a = replies s (length (sent s)) in (s\<lparr>sent := sent s @ [(q, a)]\<rparr>, a))"

text \<open>Statements in a row, each followed by the question mark operator.\<close>

fun exec_all :: "string list \<Rightarrow> session \<Rightarrow> session \<times> reply" where
  "exec_all [] s = (s, None)"
| "exec_all (q # qs) s = (case exec q s of (s', None) \<Rightarrow> exec_all qs s' | (s', Some e) \<Rightarrow> (s', Some e))"

section \<open>Reading errors\<close>

definition error_code :: "sql_error \<Rightarrow> nat option" where
  "error_code e = (case e of Server_error c _ \<Rightarrow> Some c | Connection_error \<Rightarrow> None)"

definition is_access_denied :: "sql_error \<Rightarrow> bool" where
  "is_access_denied e \<longleftrightarrow> error_code e = Some 1045"

definition lock_wait_ran_out :: "sql_error \<Rightarrow> bool" where
  "lock_wait_ran_out e \<longleftrightarrow> error_code e = Some 1205"

definition purge_refused_by_backup_lock :: "sql_error \<Rightarrow> bool" where
  "purge_refused_by_backup_lock e \<longleftrightarrow> error_code e = Some 4085"

definition is_recovery_credential_refusal :: "sql_error \<Rightarrow> bool" where
  "is_recovery_credential_refusal e =
     (case e of
        Connection_error \<Rightarrow> False
      | Server_error code msg \<Rightarrow>
          if code = 1045 then True
          else if code = 3862 then contains_str ''1045'' msg \<or> contains_str ''Access denied'' msg
          else False)"

definition answers_ping :: "reply \<Rightarrow> reply" where
  "answers_ping ping = (case ping of Some e \<Rightarrow> if is_access_denied e then None else Some e | None \<Rightarrow> None)"

text \<open>The rotation of a dump's coordinates: the new statement first, the old name when it fails.\<close>

definition binary_log_status_on :: "sql_error + (string \<times> nat) option \<Rightarrow> sql_error + (string \<times> nat) option \<Rightarrow> (string \<times> nat) option" where
  "binary_log_status_on new_name old_name =
     (case (case new_name of Inr row \<Rightarrow> Inr row | Inl _ \<Rightarrow> old_name) of Inr (Some row) \<Rightarrow> Some row | _ \<Rightarrow> None)"

definition group_pre_gtid_flag :: "sql_error + string option \<Rightarrow> sql_error + bool" where
  "group_pre_gtid_flag row =
     (case row of
        Inr v \<Rightarrow> Inr (v = Some ''1'')
      | Inl e \<Rightarrow> if error_code e = Some 1146 \<or> error_code e = Some 1049 then Inr False else Inl e)"

definition normalized_gtid_set :: "string option \<Rightarrow> string" where
  "normalized_gtid_set gtids = concat (split_ws (case gtids of Some s \<Rightarrow> s | None \<Rightarrow> []))"

definition purge_binary_logs_to :: "string \<Rightarrow> session \<Rightarrow> session \<times> (sql_error + purge_outcome)" where
  "purge_binary_logs_to f s =
     (case exec (''PURGE BINARY LOGS TO '' @ sql_string_literal f) s of
        (s', None) \<Rightarrow> (s', Inr Purged)
      | (s', Some e) \<Rightarrow> (s', if purge_refused_by_backup_lock e then Inr DeferredByBackupLock else Inl e))"

section \<open>Accounts\<close>

definition log_bin_off :: string where "log_bin_off = ''SET SESSION sql_log_bin = 0''"
definition log_bin_on :: string where "log_bin_on = ''SET SESSION sql_log_bin = 1''"

definition unlogged_batch :: "string list \<Rightarrow> string list" where
  "unlogged_batch qs = [log_bin_off] @ qs @ [log_bin_on]"

definition recovery_user_statements :: "string \<Rightarrow> string \<Rightarrow> string list" where
  "recovery_user_statements user password =
     (let u = sql_string_literal user; p = sql_string_literal password; a = u @ ''@'' @ sql_string_literal ''%'' in
      [''CREATE USER IF NOT EXISTS '' @ a @ '' IDENTIFIED BY '' @ p,
       ''ALTER USER '' @ a @ '' IDENTIFIED BY '' @ p,
       ''GRANT REPLICATION SLAVE, CONNECTION_ADMIN, BACKUP_ADMIN, GROUP_REPLICATION_STREAM ON *.* TO '' @ a])"

definition ensure_recovery_user :: "string \<Rightarrow> string \<Rightarrow> session \<Rightarrow> session \<times> reply" where
  "ensure_recovery_user user password s = exec_all (unlogged_batch (recovery_user_statements user password)) s"

definition drop_user_unlogged :: "string \<Rightarrow> string \<Rightarrow> session \<Rightarrow> session \<times> reply" where
  "drop_user_unlogged user host s =
     exec_all (unlogged_batch [''DROP USER IF EXISTS '' @ sql_string_literal user @ ''@'' @ sql_string_literal host]) s"

datatype reconcile_error = Statement_failed sql_error | No_root_account

definition root_alter :: "string \<Rightarrow> string \<Rightarrow> string" where
  "root_alter password host =
     ''ALTER USER '' @ sql_string_literal ''root'' @ ''@'' @ sql_string_literal host @ '' IDENTIFIED BY '' @ sql_string_literal password"

definition root_hosts_query :: string where
  "root_hosts_query = ''SELECT host FROM mysql.user WHERE user = '' @ sql_string_literal ''root''"

text \<open>\<open>hosts\<close> are the rows of the host query when it succeeds.\<close>

definition set_root_password_everywhere :: "string \<Rightarrow> string list \<Rightarrow> session \<Rightarrow> session \<times> reconcile_error option" where
  "set_root_password_everywhere password hosts s =
     (case exec_all [log_bin_off, ''FLUSH PRIVILEGES'', root_hosts_query] s of
        (s1, Some e) \<Rightarrow> (s1, Some (Statement_failed e))
      | (s1, None) \<Rightarrow>
          if hosts = [] then (s1, Some No_root_account)
          else (case exec_all (map (root_alter password) hosts @ [log_bin_on]) s1 of
                  (s2, r) \<Rightarrow> (s2, map_option Statement_failed r)))"

definition configure_recovery_channel :: "string \<Rightarrow> string \<Rightarrow> session \<Rightarrow> session \<times> reply" where
  "configure_recovery_channel user password s =
     exec (''CHANGE REPLICATION SOURCE TO SOURCE_USER = '' @ sql_string_literal user @ '', SOURCE_PASSWORD = '' @
       sql_string_literal password @ '' FOR CHANNEL '' @ sql_string_literal ''group_replication_recovery'') s"

section \<open>The group\<close>

definition set_group_name :: "string \<Rightarrow> session \<Rightarrow> session \<times> reply" where
  "set_group_name n s = exec (''SET GLOBAL group_replication_group_name = '' @ sql_string_literal n) s"

definition reset_fresh_instance_gtid_history :: "session \<Rightarrow> session \<times> reply" where
  "reset_fresh_instance_gtid_history s =
     (case exec ''RESET BINARY LOGS AND GTIDS'' s of
        (s', None) \<Rightarrow> (s', None)
      | (s', Some _) \<Rightarrow> exec ''RESET MASTER'' s')"

definition bootstrap_on :: string where "bootstrap_on = ''SET GLOBAL group_replication_bootstrap_group = ON''"
definition bootstrap_off :: string where "bootstrap_off = ''SET GLOBAL group_replication_bootstrap_group = OFF''"
definition start_group :: string where "start_group = ''START GROUP_REPLICATION''"

text \<open>The flag is cleared whether or not the start succeeded; its own failure is reported first.\<close>

definition bootstrap_group :: "session \<Rightarrow> session \<times> reply" where
  "bootstrap_group s =
     (case exec bootstrap_on s of
        (s1, Some e) \<Rightarrow> (s1, Some e)
      | (s1, None) \<Rightarrow>
          (case exec start_group s1 of
             (s2, start) \<Rightarrow>
               (case exec bootstrap_off s2 of
                  (s3, Some e) \<Rightarrow> (s3, Some e)
                | (s3, None) \<Rightarrow> (s3, start))))"

definition set_group_pre_gtid_flag :: "session \<Rightarrow> session \<times> reply" where
  "set_group_pre_gtid_flag s = exec_all
     [''CREATE SCHEMA IF NOT EXISTS railway_ha'',
      ''CREATE TABLE IF NOT EXISTS railway_ha.meta (k VARCHAR(64) PRIMARY KEY, v VARCHAR(255) NOT NULL)'',
      ''INSERT INTO railway_ha.meta (k, v) VALUES ('' @ sql_string_literal ''pre_gtid_data'' @ '', '' @ sql_string_literal ''1'' @
        '') ON DUPLICATE KEY UPDATE v = '' @ sql_string_literal ''1''] s"

section \<open>The write fence and the clone\<close>

definition super_on :: string where "super_on = ''SET GLOBAL super_read_only = ON''"
definition super_off :: string where "super_off = ''SET GLOBAL super_read_only = OFF''"
definition ro_on :: string where "ro_on = ''SET GLOBAL read_only = ON''"
definition ro_off :: string where "ro_off = ''SET GLOBAL read_only = OFF''"

definition set_super_read_only :: "session \<Rightarrow> session \<times> reply" where
  "set_super_read_only s = exec super_on s"

definition clear_super_read_only :: "session \<Rightarrow> session \<times> reply" where
  "clear_super_read_only s = exec_all [super_off, ro_off] s"

definition clone_statements :: "string \<Rightarrow> nat \<Rightarrow> string \<Rightarrow> string \<Rightarrow> string list" where
  "clone_statements donor_host donor_port user password =
     [super_off, ro_off,
      ''SET GLOBAL clone_valid_donor_list = '' @ sql_string_literal (donor_host @ '':'' @ show_nat donor_port),
      ''CLONE INSTANCE FROM '' @ sql_string_literal user @ ''@'' @ sql_string_literal donor_host @ '':'' @ show_nat donor_port @
        '' IDENTIFIED BY '' @ sql_string_literal password @ '' REQUIRE SSL'']"

definition clone_from_donor :: "string \<Rightarrow> nat \<Rightarrow> string \<Rightarrow> string \<Rightarrow> session \<Rightarrow> session \<times> reply" where
  "clone_from_donor donor_host donor_port user password s =
     (case exec_all (clone_statements donor_host donor_port user password) s of
        (s1, None) \<Rightarrow> (s1, None)
      | (s1, Some e) \<Rightarrow>
          (case exec super_on s1 of
             (s2, Some _) \<Rightarrow> (s2, Some e)
           | (s2, None) \<Rightarrow> (fst (exec ro_on s2), Some e)))"

section \<open>Locks\<close>

text \<open>
  The two locks of a backup, on connections of their own: the answers are those of the
  connection and of the bounded acquisition, where \<open>None\<close> is the bound running out.
\<close>

datatype lock_attempt = Read_locked | Read_lock_busy | Read_lock_failed

definition flush_tables_with_read_lock :: "bool \<Rightarrow> reply option \<Rightarrow> lock_attempt" where
  "flush_tables_with_read_lock connected acquired =
     (if \<not> connected then Read_lock_failed
      else (case acquired of
              Some None \<Rightarrow> Read_locked
            | Some (Some e) \<Rightarrow> if lock_wait_ran_out e then Read_lock_busy else Read_lock_failed
            | None \<Rightarrow> Read_lock_busy))"

text \<open>
  The guard of the read lock holds its session until it is released. Both the release and the
  drop of the guard unlock and close the session, the drop in the background; after a release
  the drop that follows finds no session. The closed session is returned to show what it sent.
\<close>

type_synonym read_guard = "session option"

definition unlock_tables :: string where "unlock_tables = ''UNLOCK TABLES''"

definition guarded_status ::
  "read_guard \<Rightarrow> sql_error + (string \<times> nat) option \<Rightarrow> sql_error + (string \<times> nat) option \<Rightarrow> (string \<times> nat) option" where
  "guarded_status g new_name old_name = (case g of None \<Rightarrow> None | Some _ \<Rightarrow> binary_log_status_on new_name old_name)"

definition release_read_lock :: "read_guard \<Rightarrow> session option \<times> read_guard \<times> reply" where
  "release_read_lock g =
     (case g of
        None \<Rightarrow> (None, None, None)
      | Some s \<Rightarrow> (case exec unlock_tables s of (s', r) \<Rightarrow> (Some s', None, r)))"

definition drop_read_lock :: "read_guard \<Rightarrow> session option \<times> read_guard" where
  "drop_read_lock g = (case g of None \<Rightarrow> (None, None) | Some s \<Rightarrow> (Some (fst (exec unlock_tables s)), None))"

text \<open>
  The backup locks handed out by one \<open>Sql\<close>: how many guards live, how many dropped ones
  still wait for their unlock to run, and the shared flag.
\<close>

record backup_locks =
  guards :: nat
  unlocking :: nat
  held_flag :: bool

definition lock_instance_for_backup :: "bool \<Rightarrow> reply option \<Rightarrow> backup_locks \<Rightarrow> backup_locks" where
  "lock_instance_for_backup connected acquired b =
     (if connected \<and> acquired = Some None then b\<lparr>guards := guards b + 1, held_flag := True\<rparr> else b)"

inductive lock_step :: "backup_locks \<Rightarrow> backup_locks \<Rightarrow> bool" where
  lock: "lock_step b (lock_instance_for_backup connected acquired b)"
| drop: "0 < guards b \<Longrightarrow> lock_step b (b\<lparr>guards := guards b - 1, unlocking := unlocking b + 1\<rparr>)"
| unlocked: "0 < unlocking b \<Longrightarrow> lock_step b (b\<lparr>unlocking := unlocking b - 1, held_flag := False\<rparr>)"

inductive lock_reachable :: "backup_locks \<Rightarrow> bool" where
  none: "lock_reachable \<lparr>guards = 0, unlocking = 0, held_flag = False\<rparr>"
| more: "lock_reachable b \<Longrightarrow> lock_step b b' \<Longrightarrow> guards b' + unlocking b' \<le> 1 \<Longrightarrow> lock_reachable b'"

inductive_cases lock_stepE: "lock_step b b'"

text \<open>
  However the guard ends, exactly one \<open>UNLOCK TABLES\<close> is sent on its session and the
  session is closed: a drop after a release does nothing.
\<close>

lemma read_lock_is_let_go_once:
  "drop_read_lock (fst (snd (release_read_lock g))) = (None, None)"
  "fst (release_read_lock g) = fst (drop_read_lock g)"
  "map_option (map fst \<circ> sent) (fst (drop_read_lock g)) = map_option (\<lambda>s. map fst (sent s) @ [unlock_tables]) g"
  by (simp_all add: release_read_lock_def drop_read_lock_def exec_def Let_def split: option.splits)

section \<open>Histories\<close>

lemma switches_differ [simp]:
  "log_bin_off \<noteq> log_bin_on" "log_bin_on \<noteq> log_bin_off" "bootstrap_on \<noteq> bootstrap_off" "bootstrap_off \<noteq> bootstrap_on"
  "start_group \<noteq> bootstrap_on" "start_group \<noteq> bootstrap_off" "super_on \<noteq> super_off" "super_off \<noteq> super_on"
  "ro_on \<noteq> super_on" "ro_on \<noteq> super_off" "ro_off \<noteq> super_on" "ro_off \<noteq> super_off"
  "bootstrap_on \<noteq> start_group" "bootstrap_off \<noteq> start_group"
  "super_on \<noteq> ro_on" "super_off \<noteq> ro_on" "super_on \<noteq> ro_off" "super_off \<noteq> ro_off"
  by (simp_all add: log_bin_off_def log_bin_on_def bootstrap_on_def bootstrap_off_def start_group_def super_on_def super_off_def
      ro_on_def ro_off_def)

definition last_set :: "string \<Rightarrow> string \<Rightarrow> bool \<Rightarrow> (string \<times> reply) list \<Rightarrow> bool" where
  "last_set on off b h = foldl (\<lambda>b (q, a). if a = None then if q = on then True else if q = off then False else b else b) b h"

definition logging :: "(string \<times> reply) list \<Rightarrow> bool" where
  "logging h = last_set log_bin_on log_bin_off True h"

definition fenced :: "bool \<Rightarrow> (string \<times> reply) list \<Rightarrow> bool" where
  "fenced b h = last_set super_on super_off b h"

definition bootstrapping :: "(string \<times> reply) list \<Rightarrow> bool" where
  "bootstrapping h = last_set bootstrap_on bootstrap_off False h"

definition fresh_session :: "(nat \<Rightarrow> reply) \<Rightarrow> session" where
  "fresh_session r = \<lparr>replies = r, sent = []\<rparr>"

definition history :: "(session \<Rightarrow> session \<times> 'a) \<Rightarrow> (nat \<Rightarrow> reply) \<Rightarrow> (string \<times> reply) list" where
  "history p r = sent (fst (p (fresh_session r)))"

definition outcome_of :: "(session \<Rightarrow> session \<times> 'a) \<Rightarrow> (nat \<Rightarrow> reply) \<Rightarrow> 'a" where
  "outcome_of p r = snd (p (fresh_session r))"

lemma last_set_simps [simp]:
  "last_set on off b [] = b"
  "last_set on off b ((q, a) # h) =
     last_set on off (if a = None then if q = on then True else if q = off then False else b else b) h"
  "last_set on off b (h @ h') = last_set on off (last_set on off b h) h'"
  by (simp_all add: last_set_def)

lemma last_set_other:
  "\<forall>(q, a) \<in> set h. q \<noteq> on \<and> q \<noteq> off \<Longrightarrow> last_set on off b h = b"
  by (induction h arbitrary: b) (auto split: if_splits)

lemma exec_sent: "exec q s = (s', a) \<Longrightarrow> sent s' = sent s @ [(q, a)]"
  by (auto simp: exec_def Let_def)

lemma exec_all_sent:
  assumes "exec_all qs s = (s', r)"
  obtains (all_ok) "r = None" and "sent s' = sent s @ map (\<lambda>q. (q, None)) qs"
  | (failed) as q bs e where "r = Some e" and "qs = as @ q # bs"
      and "sent s' = sent s @ map (\<lambda>q. (q, None)) as @ [(q, Some e)]"
  using assms
proof (induction qs arbitrary: s thesis)
  case (Cons q qs)
  obtain s1 a where e: "exec q s = (s1, a)"
    by fastforce
  show ?case
  proof (cases a)
    case None
    then have "exec_all qs s1 = (s', r)"
      using Cons.prems(3) e by simp
    then show ?thesis
    proof (rule Cons.IH [rotated 2])
      assume "r = None" "sent s' = sent s1 @ map (\<lambda>q. (q, None)) qs"
      then show thesis
        using Cons.prems(1) exec_sent [OF e] None by simp
    next
      fix as p bs er
      assume "r = Some er" "qs = as @ p # bs" "sent s' = sent s1 @ map (\<lambda>q. (q, None)) as @ [(p, Some er)]"
      then show thesis
        using Cons.prems(2) [of er "q # as" p bs] exec_sent [OF e] None by simp
    qed
  next
    case (Some er)
    then show ?thesis
      using Cons.prems(2) [of er "[]" q qs] Cons.prems(3) e exec_sent [OF e] by auto
  qed
qed simp

text \<open>No statement of the history other than the two switches is logged.\<close>

definition unlogged_history :: "(string \<times> reply) list \<Rightarrow> bool" where
  "unlogged_history h \<longleftrightarrow> (\<forall>i < length h. fst (h ! i) \<noteq> log_bin_off \<longrightarrow> fst (h ! i) \<noteq> log_bin_on \<longrightarrow> \<not> logging (take i h))"

text \<open>A batch: the history of a run of statements between the two switches.\<close>

lemma no_switch_logging:
  assumes "\<forall>q \<in> set qs. q \<noteq> log_bin_off \<and> q \<noteq> log_bin_on"
  shows "last_set log_bin_on log_bin_off b (map (\<lambda>q. (q, None)) qs) = b"
  using assms by (intro last_set_other) auto

lemma batch_unlogged:
  assumes "\<forall>q \<in> set qs. q \<noteq> log_bin_off \<and> q \<noteq> log_bin_on" and "\<forall>(q, a) \<in> set h. q \<in> set qs \<or> q = log_bin_on"
    and "h = [] \<or> list_all (\<lambda>(q, a). q \<noteq> log_bin_on) (butlast h)"
  shows "unlogged_history ((log_bin_off, None) # h)"
proof -
  have "\<not> logging (take i ((log_bin_off, None) # h))" if i: "0 < i" "i < Suc (length h)" for i
  proof -
    obtain j where j: "i = Suc j" "j < length h"
      using i by (cases i) auto
    have "\<forall>(q, a) \<in> set (take j h). q \<noteq> log_bin_on \<and> q \<noteq> log_bin_off"
    proof -
      have "take j h = take j (butlast h)"
        using j(2) by (simp add: take_butlast)
      then have "set (take j h) \<subseteq> set (butlast h)"
        by (metis set_take_subset)
      moreover have "set (take j h) \<subseteq> set h"
        by (rule set_take_subset)
      ultimately show ?thesis
        using assms j(2) by (fastforce simp: list_all_iff)
    qed
    then have "last_set log_bin_on log_bin_off False (take j h) = False"
      by (rule last_set_other)
    then show ?thesis
      by (simp add: logging_def j(1))
  qed
  then show ?thesis
    unfolding unlogged_history_def by (metis One_nat_def fst_conv length_Cons neq0_conv nth_Cons_0)
qed

lemma unlogged_batch_history:
  assumes "\<forall>q \<in> set qs. q \<noteq> log_bin_off \<and> q \<noteq> log_bin_on"
  shows "unlogged_history (history (exec_all (unlogged_batch qs)) r) \<and>
    (outcome_of (exec_all (unlogged_batch qs)) r = None \<longrightarrow> logging (history (exec_all (unlogged_batch qs)) r)) \<and>
    (outcome_of (exec_all (unlogged_batch qs)) r \<noteq> None \<longrightarrow>
      logging (history (exec_all (unlogged_batch qs)) r) = (length (history (exec_all (unlogged_batch qs)) r) = 1))"
proof -
  obtain s' res where e: "exec_all (unlogged_batch qs) (fresh_session r) = (s', res)"
    by fastforce
  have h: "history (exec_all (unlogged_batch qs)) r = sent s'" "outcome_of (exec_all (unlogged_batch qs)) r = res"
    by (simp_all add: history_def outcome_of_def e)
  from e show ?thesis
  proof (cases rule: exec_all_sent)
    case all_ok
    then have "sent s' = (log_bin_off, None) # map (\<lambda>q. (q, None)) qs @ [(log_bin_on, None)]"
      by (simp add: unlogged_batch_def fresh_session_def)
    moreover have "unlogged_history \<dots>"
      using assms by (intro batch_unlogged [of qs]) (auto simp: list_all_iff)
    ultimately show ?thesis
      using all_ok no_switch_logging [OF assms] by (simp add: h logging_def)
  next
    case (failed as q bs er)
    show ?thesis
    proof (cases as)
      case Nil
      then have "sent s' = [(log_bin_off, Some er)]"
        using failed by (simp add: unlogged_batch_def fresh_session_def)
      then show ?thesis
        unfolding h using failed(1) by (simp add: unlogged_history_def logging_def)
    next
      case (Cons a as')
      then have a: "a = log_bin_off" "qs @ [log_bin_on] = as' @ q # bs"
        using failed(2) by (simp_all add: unlogged_batch_def)
      have as': "set as' \<subseteq> set qs" "q \<in> set qs \<or> q = log_bin_on"
      proof -
        have "as' = take (length as') (qs @ [log_bin_on])"
          using a(2) by simp
        moreover have "length as' \<le> length qs"
          using arg_cong [OF a(2), of length] by simp
        ultimately have "as' = take (length as') qs"
          by simp
        then show "set as' \<subseteq> set qs"
          by (metis set_take_subset)
        show "q \<in> set qs \<or> q = log_bin_on"
          using arg_cong [OF a(2), of set] by auto
      qed
      have s: "sent s' = (log_bin_off, None) # map (\<lambda>q. (q, None)) as' @ [(q, Some er)]"
        using failed(3) Cons a(1) by (simp add: fresh_session_def)
      have "unlogged_history (sent s')"
        unfolding s using assms as' by (intro batch_unlogged [of qs]) (auto simp: list_all_iff)
      moreover have "\<not> logging (sent s')"
        using no_switch_logging [of as' False] assms as'(1) by (auto simp: s logging_def)
      ultimately show ?thesis
        using failed(1) s by (simp add: h)
    qed
  qed
qed

text \<open>The reconciliation of the root accounts is a batch cut in two by the host query.\<close>

lemma set_root_history:
  "\<exists>qs. history (set_root_password_everywhere password hosts) r =
     history (exec_all (unlogged_batch qs)) r \<and> (\<forall>q \<in> set qs. q \<noteq> log_bin_off \<and> q \<noteq> log_bin_on) \<or>
   history (set_root_password_everywhere password hosts) r = map (\<lambda>q. (q, None)) [log_bin_off, ''FLUSH PRIVILEGES'', root_hosts_query] \<and> hosts = []"
proof (cases "hosts = []")
  case True
  obtain s' res where e: "exec_all [log_bin_off, ''FLUSH PRIVILEGES'', root_hosts_query] (fresh_session r) = (s', res)"
    by fastforce
  show ?thesis
  proof (cases res)
    case None
    with e have "sent s' = map (\<lambda>q. (q, None)) [log_bin_off, ''FLUSH PRIVILEGES'', root_hosts_query]"
      by (cases rule: exec_all_sent) (auto simp: fresh_session_def)
    then show ?thesis
      using None e True by (simp add: history_def set_root_password_everywhere_def)
  next
    case (Some er)
    then have "history (set_root_password_everywhere password hosts) r = sent s'"
      using e by (simp add: history_def set_root_password_everywhere_def)
    moreover have "exec_all (unlogged_batch [''FLUSH PRIVILEGES'', root_hosts_query]) (fresh_session r) = (s', Some er)"
      using e Some by (auto simp: unlogged_batch_def split: prod.splits option.splits)
    ultimately have "history (set_root_password_everywhere password hosts) r = history (exec_all (unlogged_batch [''FLUSH PRIVILEGES'', root_hosts_query])) r"
      by (simp add: history_def)
    moreover have "\<forall>q \<in> set [''FLUSH PRIVILEGES'', root_hosts_query]. q \<noteq> log_bin_off \<and> q \<noteq> log_bin_on"
      by (simp add: root_hosts_query_def log_bin_off_def log_bin_on_def)
    ultimately show ?thesis by blast
  qed
next
  case False
  let ?qs = "[''FLUSH PRIVILEGES'', root_hosts_query] @ map (root_alter password) hosts"
  have a: "exec_all (as @ bs) s = (case exec_all as s of (s1, None) \<Rightarrow> exec_all bs s1 | (s1, Some e) \<Rightarrow> (s1, Some e))" for as bs s
    by (induction as arbitrary: s) (auto split: prod.splits option.splits)
  have "unlogged_batch ?qs = [log_bin_off, ''FLUSH PRIVILEGES'', root_hosts_query] @ map (root_alter password) hosts @ [log_bin_on]"
    by (simp add: unlogged_batch_def)
  then have "history (set_root_password_everywhere password hosts) r = history (exec_all (unlogged_batch ?qs)) r"
    using False by (simp only: history_def set_root_password_everywhere_def a if_False) (simp split: prod.splits option.splits)
  moreover have "\<forall>q \<in> set ?qs. q \<noteq> log_bin_off \<and> q \<noteq> log_bin_on"
    by (auto simp: root_hosts_query_def root_alter_def log_bin_off_def log_bin_on_def)
  ultimately show ?thesis by blast
qed

lemma set_root_unlogged: "unlogged_history (history (set_root_password_everywhere password hosts) r)"
  using set_root_history [of password hosts r]
proof (elim exE disjE conjE)
  fix qs
  assume "history (set_root_password_everywhere password hosts) r = history (exec_all (unlogged_batch qs)) r"
    and "\<forall>q \<in> set qs. q \<noteq> log_bin_off \<and> q \<noteq> log_bin_on"
  then show ?thesis
    using unlogged_batch_history by simp
next
  assume "history (set_root_password_everywhere password hosts) r =
    map (\<lambda>q. (q, None)) [log_bin_off, ''FLUSH PRIVILEGES'', root_hosts_query]"
  moreover have "unlogged_history ((log_bin_off, None) # [(''FLUSH PRIVILEGES'', None), (root_hosts_query, None)])"
    by (rule batch_unlogged [of "[''FLUSH PRIVILEGES'', root_hosts_query]"])
      (simp_all add: root_hosts_query_def log_bin_off_def log_bin_on_def)
  ultimately show ?thesis by simp
qed

lemma recovery_user_no_switch: "\<forall>q \<in> set (recovery_user_statements user password). q \<noteq> log_bin_off \<and> q \<noteq> log_bin_on"
  by (simp add: recovery_user_statements_def Let_def log_bin_off_def log_bin_on_def)

lemma ensure_recovery_user_batch: "ensure_recovery_user user password = exec_all (unlogged_batch (recovery_user_statements user password))"
  by (simp add: ensure_recovery_user_def fun_eq_iff)

lemma drop_user_no_switch:
  "\<forall>q \<in> set [''DROP USER IF EXISTS '' @ sql_string_literal user @ ''@'' @ sql_string_literal host]. q \<noteq> log_bin_off \<and> q \<noteq> log_bin_on"
  by (simp add: log_bin_off_def log_bin_on_def)

lemma drop_user_batch: "drop_user_unlogged user host =
    exec_all (unlogged_batch [''DROP USER IF EXISTS '' @ sql_string_literal user @ ''@'' @ sql_string_literal host])"
  by (simp add: drop_user_unlogged_def fun_eq_iff)

section \<open>The fence after a clone\<close>

lemma clone_cases:
  assumes "clone_from_donor h p u w (fresh_session r) = (s', res)"
  obtains (cloned) "res = None" and "sent s' = map (\<lambda>q. (q, None)) (clone_statements h p u w)"
  | (failed) h1 a rest where "res \<noteq> None" and "sent s' = h1 @ (super_on, a) # rest"
      and "a = None \<Longrightarrow> \<forall>(q, x) \<in> set rest. q = ro_on"
proof -
  obtain s1 r1 where e: "exec_all (clone_statements h p u w) (fresh_session r) = (s1, r1)"
    by fastforce
  show thesis
  proof (cases r1)
    case None
    from e show thesis
    proof (cases rule: exec_all_sent)
      case all_ok
      then show thesis
        using assms e by (intro cloned) (auto simp: clone_from_donor_def fresh_session_def)
    qed (use None in simp)
  next
    case (Some er)
    obtain s2 a where e2: "exec super_on s1 = (s2, a)"
      by fastforce
    obtain s3 b where e3: "exec ro_on s2 = (s3, b)"
      by fastforce
    show thesis
    proof (cases a)
      case None
      then show thesis
        using assms e Some e2 e3 exec_sent [OF e2] exec_sent [OF e3]
        by (intro failed [of "sent s1" None "[(ro_on, b)]"]) (auto simp: clone_from_donor_def)
    next
      case (Some er2)
      then show thesis
        using assms e \<open>r1 = Some er\<close> e2 exec_sent [OF e2]
        by (intro failed [of "sent s1" a "[]"]) (auto simp: clone_from_donor_def)
    qed
  qed
qed

lemma lock_flag_invariant:
  "lock_reachable b \<Longrightarrow> guards b + unlocking b \<le> 1 \<and> (held_flag b \<longleftrightarrow> 0 < guards b + unlocking b)"
proof (induction rule: lock_reachable.induct)
  case (more b b')
  then show ?case
    by (elim lock_stepE) (auto simp: lock_instance_for_backup_def split: if_splits)
qed simp

lemma bootstrap_history:
  "history bootstrap_group r =
     (case r 0 of Some e \<Rightarrow> [(bootstrap_on, Some e)]
      | None \<Rightarrow> [(bootstrap_on, None), (start_group, r 1), (bootstrap_off, r 2)])"
  "outcome_of bootstrap_group r = (case r 0 of Some e \<Rightarrow> Some e | None \<Rightarrow> (case r 2 of Some e \<Rightarrow> Some e | None \<Rightarrow> r 1))"
proof -
  have e: "exec q s = (s\<lparr>sent := sent s @ [(q, replies s (length (sent s)))]\<rparr>, replies s (length (sent s)))" for q s
    by (simp add: exec_def Let_def)
  have two: "Suc (Suc 0) = 2" "Suc 0 = 1" by simp_all
  show "history bootstrap_group r =
     (case r 0 of Some e \<Rightarrow> [(bootstrap_on, Some e)]
      | None \<Rightarrow> [(bootstrap_on, None), (start_group, r 1), (bootstrap_off, r 2)])"
    by (cases "r 0"; cases "r 2") (simp_all add: history_def bootstrap_group_def e fresh_session_def two del: One_nat_def)
  show "outcome_of bootstrap_group r = (case r 0 of Some e \<Rightarrow> Some e | None \<Rightarrow> (case r 2 of Some e \<Rightarrow> Some e | None \<Rightarrow> r 1))"
    by (cases "r 0"; cases "r 2") (simp_all add: outcome_of_def bootstrap_group_def e fresh_session_def two del: One_nat_def)
qed

section \<open>The properties\<close>

text \<open>
  C31: Creating the recovery account, dropping an account and rewriting the root
  accounts of a restored server never send a statement that the binary log would record,
  whatever the server answers; and after a success of the first two the session logs again.
\<close>
theorem account_changes_are_unlogged:
  "unlogged_history (history (ensure_recovery_user user password) r) \<and>
   unlogged_history (history (drop_user_unlogged user host) r) \<and>
   unlogged_history (history (set_root_password_everywhere password hosts) r) \<and>
   (if outcome_of (ensure_recovery_user user password) r = None then logging (history (ensure_recovery_user user password) r) else True) \<and>
   (if outcome_of (drop_user_unlogged user host) r = None then logging (history (drop_user_unlogged user host) r) else True)"
  unfolding ensure_recovery_user_batch drop_user_batch if_bool_eq_conj
  using unlogged_batch_history [OF recovery_user_no_switch, of user password r]
    unlogged_batch_history [OF drop_user_no_switch, of user host r] set_root_unlogged [of password hosts r]
  by blast

text \<open>
  When a statement on the recovery account fails after the first one succeeded, the
  session is handed back with its binary log off.
\<close>
theorem failed_account_change_leaves_log_off:
  assumes "outcome_of (ensure_recovery_user user password) r \<noteq> None" and "1 < length (history (ensure_recovery_user user password) r)"
  shows "\<not> logging (history (ensure_recovery_user user password) r)"
  using unlogged_batch_history [OF recovery_user_no_switch, of user password r] assms
  unfolding ensure_recovery_user_batch by (metis less_irrefl)

lemma failed_account_change_leaves_log_off_witness:
  "\<not> logging (history (ensure_recovery_user ''u'' ''p'') (\<lambda>n. if n = 1 then Some Connection_error else None))"
proof (rule failed_account_change_leaves_log_off)
  let ?r = "\<lambda>n. if n = 1 then Some Connection_error else None"
  have "exec_all (a # b # qs) (fresh_session ?r) = (\<lparr>replies = ?r, sent = [(a, None), (b, Some Connection_error)]\<rparr>, Some Connection_error)" for a b qs
    by (simp add: exec_def fresh_session_def Let_def)
  moreover obtain b qs where "unlogged_batch (recovery_user_statements ''u'' ''p'') = log_bin_off # b # qs"
    unfolding unlogged_batch_def recovery_user_statements_def Let_def append_Cons append_Nil by blast
  ultimately have "ensure_recovery_user ''u'' ''p'' (fresh_session ?r) =
      (\<lparr>replies = ?r, sent = [(log_bin_off, None), (b, Some Connection_error)]\<rparr>, Some Connection_error)"
    by (simp only: ensure_recovery_user_def)
  then show "outcome_of (ensure_recovery_user ''u'' ''p'') ?r \<noteq> None" "1 < length (history (ensure_recovery_user ''u'' ''p'') ?r)"
    by (simp_all only: outcome_of_def history_def) simp_all
qed

text \<open>
  Bootstrapping a group: once the flag was raised its clearing is sent whatever the
  start came to, the flag stays up only if that statement failed, and success means that the
  group was started and the flag cleared.
\<close>
theorem bootstrap_flag_is_cleared:
  "(let h = history bootstrap_group r in
     (if (bootstrap_on, None) \<in> set h then \<exists>a. last h = (bootstrap_off, a) \<and> (bootstrapping h \<longleftrightarrow> a \<noteq> None) else \<not> bootstrapping h) \<and>
     (if outcome_of bootstrap_group r = None then (start_group, None) \<in> set h \<and> \<not> bootstrapping h else True))"
  using bootstrap_history [of r] by (cases "r 0") (simp_all add: bootstrapping_def Let_def split: option.splits)

text \<open>
  C32: A clone that fails always tries to put the write fence back, and when that
  statement is accepted the server is fenced, whatever was fenced before and wherever the
  clone failed. A clone that succeeds leaves the fence down.
\<close>
theorem failed_clone_restores_the_fence:
  "if outcome_of (clone_from_donor h p u w) r = None then \<not> fenced b (history (clone_from_donor h p u w) r)
   else \<exists>a. (super_on, a) \<in> set (history (clone_from_donor h p u w) r) \<and>
     (if a = None then fenced b (history (clone_from_donor h p u w) r) else True)"
proof -
  obtain s' res where e: "clone_from_donor h p u w (fresh_session r) = (s', res)"
    by fastforce
  then have o: "outcome_of (clone_from_donor h p u w) r = res"
    by (simp add: outcome_of_def)
  from e have s: "history (clone_from_donor h p u w) r = sent s'"
    by (simp add: history_def)
  from e show ?thesis
  proof (cases rule: clone_cases)
    case cloned
    then show ?thesis
      unfolding s o by (simp add: fenced_def clone_statements_def super_on_def super_off_def ro_on_def ro_off_def)
  next
    case (failed h1 a rest)
    have "last_set super_on super_off True rest" if "a = None"
    proof -
      have "last_set super_on super_off True rest = True"
        using failed(3) [OF that] by (intro last_set_other) (auto dest!: bspec)
      then show ?thesis by simp
    qed
    then show ?thesis
      unfolding s o using failed(1,2) by (auto simp: fenced_def)
  qed
qed

text \<open>
  The flag that tells the purge apart: with one backup at a time, it is up exactly
  while a guard lives or its unlock has still to run, so a purge that finds it down does not
  meet this process's own lock.
\<close>
theorem backup_lock_flag_is_exact:
  assumes "lock_reachable b"
  shows "held_flag b \<longleftrightarrow> 0 < guards b + unlocking b"
  using lock_flag_invariant [OF assms] by simp

lemma backup_lock_flag_is_exact_witness:
  "held_flag \<lparr>guards = 0, unlocking = 1, held_flag = True\<rparr> \<longleftrightarrow> 0 < guards \<lparr>guards = 0, unlocking = 1, held_flag = True\<rparr> + (1::nat)"
proof -
  have "lock_reachable (lock_instance_for_backup True (Some None) \<lparr>guards = 0, unlocking = 0, held_flag = False\<rparr>)"
    by (rule more [OF none lock]) (simp add: lock_instance_for_backup_def)
  then have "lock_reachable \<lparr>guards = 1, unlocking = 0, held_flag = True\<rparr>"
    by (simp add: lock_instance_for_backup_def)
  from more [OF this drop] have "lock_reachable \<lparr>guards = 0, unlocking = 1, held_flag = True\<rparr>"
    by simp
  from backup_lock_flag_is_exact [OF this] show ?thesis by simp
qed

end
