(* ===== verification/Queries.thy ===== *)
theory Queries
  imports Statements
begin

text \<open>
  The readers of \<open>sql.rs\<close>: what each makes of the rows its query returned, under the time
  limit \<open>short\<close> puts on it. The rows and the server's answers are arguments.
\<close>

section \<open>Answers\<close>

datatype query_error = Timed_out | Query_failed sql_error | No_row | Peer_mismatch

text \<open>\<open>None\<close> is the limit running out.\<close>

definition short :: "(sql_error + 'a) option \<Rightarrow> query_error + 'a" where
  "short answer =
     (case answer of None \<Rightarrow> Inl Timed_out | Some (Inl e) \<Rightarrow> Inl (Query_failed e) | Some (Inr x) \<Rightarrow> Inr x)"

definition or_no_row :: "query_error + 'a option \<Rightarrow> query_error + 'a" where
  "or_no_row r = (case r of Inl e \<Rightarrow> Inl e | Inr None \<Rightarrow> Inl No_row | Inr (Some x) \<Rightarrow> Inr x)"

definition map_answer :: "('a \<Rightarrow> 'b) \<Rightarrow> query_error + 'a \<Rightarrow> query_error + 'b" where
  "map_answer f r = (case r of Inl e \<Rightarrow> Inl e | Inr x \<Rightarrow> Inr (f x))"

section \<open>The readers\<close>

definition read_server_uuid :: "(sql_error + string option) option \<Rightarrow> query_error + string" where
  "read_server_uuid a = or_no_row (short a)"

definition read_block_size :: "(sql_error + u64 option) option \<Rightarrow> query_error + u64" where
  "read_block_size a = or_no_row (short a)"

definition read_mysql_version :: "(sql_error + string option) option \<Rightarrow> query_error + string" where
  "read_mysql_version a = or_no_row (short a)"

definition read_bind_address :: "(sql_error + string option) option \<Rightarrow> query_error + string option" where
  "read_bind_address a = short a"

definition is_init_temp_server :: "(sql_error + int option) option \<Rightarrow> query_error + bool" where
  "is_init_temp_server a = map_answer (\<lambda>skip. skip = Some 1) (short a)"

definition read_super_read_only :: "(sql_error + int option) option \<Rightarrow> query_error + bool" where
  "read_super_read_only a = map_answer (\<lambda>v. v = Some 1) (short a)"

definition user_exists :: "(sql_error + int option) option \<Rightarrow> query_error + bool" where
  "user_exists a = map_answer (\<lambda>n. (case n of Some k \<Rightarrow> k | None \<Rightarrow> 0) > 0) (short a)"

definition member_of_row :: "string \<times> string option \<times> string \<times> string \<Rightarrow> member_row" where
  "member_of_row r =
     (case r of (i, h, s, p) \<Rightarrow>
        \<lparr>member_id = i, m_host = (case h of Some x \<Rightarrow> x | None \<Rightarrow> []), m_state = s, m_role = p\<rparr>)"

definition group_members :: "(sql_error + (string \<times> string option \<times> string \<times> string) list) option \<Rightarrow> query_error + member_row list" where
  "group_members a = map_answer (map member_of_row) (short a)"

definition executed_gtid_set :: "(sql_error + string option) option \<Rightarrow> query_error + string" where
  "executed_gtid_set a = map_answer normalized_gtid_set (short a)"

definition gtid_subtract :: "(sql_error + string option) option \<Rightarrow> query_error + string" where
  "gtid_subtract a = map_answer normalized_gtid_set (short a)"

definition compare_row :: "(sql_error + (int \<times> int) option) option \<Rightarrow> query_error + bool \<times> bool" where
  "compare_row a = map_answer (\<lambda>(p, m). (p = 1, m = 1)) (or_no_row (short a))"

text \<open>A peer's block size, read together with its identity and verified.\<close>

definition peer_gtid_block_size ::
  "(sql_error + (string \<times> string \<times> u64 \<times> string) option) option \<Rightarrow> string \<Rightarrow> string \<Rightarrow> query_error + u64" where
  "peer_gtid_block_size a expected_uuid expected_group =
     (case or_no_row (short a) of
        Inl e \<Rightarrow> Inl e
      | Inr (uuid, grp, bsize, state) \<Rightarrow>
          (case verified_peer_block_size uuid grp bsize state expected_uuid expected_group of
             Some n \<Rightarrow> Inr n
           | None \<Rightarrow> Inl Peer_mismatch))"

record running_statement =
  rs_seconds :: nat
  rs_command :: string
  rs_info_head :: string

definition longest_running_statement :: "(sql_error + (int \<times> string \<times> string) option) option \<Rightarrow> query_error + running_statement option" where
  "longest_running_statement a =
     map_answer (map_option (\<lambda>(secs, command, info).
       \<lparr>rs_seconds = nat (max secs 0), rs_command = command, rs_info_head = info\<rparr>)) (short a)"

section \<open>The signature of recovery progress\<close>

definition debug_option :: "('a \<Rightarrow> string) \<Rightarrow> 'a option \<Rightarrow> string" where
  "debug_option f v = (case v of None \<Rightarrow> ''None'' | Some x \<Rightarrow> ''Some('' @ f x @ '')'')"

definition debug_clone_row :: "string option \<times> string option \<times> u64 option \<Rightarrow> string" where
  "debug_clone_row r =
     (case r of (stage, state, dat) \<Rightarrow>
        ''('' @ debug_option debug_quote stage @ '', '' @ debug_option debug_quote state @ '', '' @
        debug_option (\<lambda>n. show_nat (unat n)) dat @ '')'')"

text \<open>
  The executed set, which must be read; the received sets and the clone rows, for which a
  query that fails counts as nothing.
\<close>

definition recovery_progress_signature ::
  "sql_error + string option \<Rightarrow> sql_error + string option option \<Rightarrow>
   sql_error + (string option \<times> string option \<times> u64 option) list \<Rightarrow> sql_error + string" where
  "recovery_progress_signature executed received rows =
     (case executed of
        Inl e \<Rightarrow> Inl e
      | Inr g \<Rightarrow> Inr
          (normalized_gtid_set g @ ''|'' @
           (case received of Inr (Some (Some s)) \<Rightarrow> s | _ \<Rightarrow> []) @ ''|'' @
           ''['' @ join_with '', '' (map debug_clone_row (case rows of Inr rs \<Rightarrow> rs | Inl _ \<Rightarrow> [])) @ '']''))"

section \<open>Single statements\<close>

definition set_gtid_assignment_block_size :: "u64 \<Rightarrow> session \<Rightarrow> session \<times> reply" where
  "set_gtid_assignment_block_size n s =
     exec (''SET GLOBAL group_replication_gtid_assignment_block_size = '' @ show_nat (unat n)) s"

definition shutdown_server :: "session \<Rightarrow> session \<times> reply" where
  "shutdown_server s = exec ''SHUTDOWN'' s"

definition start_group_replication :: "session \<Rightarrow> session \<times> reply" where
  "start_group_replication s = exec start_group s"

definition stop_group_replication :: "session \<Rightarrow> session \<times> reply" where
  "stop_group_replication s = exec ''STOP GROUP_REPLICATION'' s"

definition set_as_primary :: "string \<Rightarrow> nat \<Rightarrow> session \<Rightarrow> session \<times> reply" where
  "set_as_primary uuid timeout_secs s =
     exec (''SELECT group_replication_set_as_primary('' @ sql_string_literal uuid @ '', '' @ show_nat timeout_secs @ '')'') s"

definition flush_binary_logs :: "session \<Rightarrow> session \<times> reply" where
  "flush_binary_logs s = exec ''FLUSH BINARY LOGS'' s"

definition set_global_binlog_expire_logs_seconds :: "nat \<Rightarrow> session \<Rightarrow> session \<times> reply" where
  "set_global_binlog_expire_logs_seconds secs s =
     exec (''SET GLOBAL binlog_expire_logs_seconds = '' @ show_nat secs) s"

section \<open>Lemmas\<close>

lemma bar_separates:
  "d \<notin> set a \<Longrightarrow> d \<notin> set b \<Longrightarrow> a @ d # x = b @ d # y \<longleftrightarrow> a = b \<and> x = y"
proof (induction a arbitrary: b)
  case Nil
  then show ?case by (cases b) auto
next
  case (Cons c a)
  then show ?case by (cases b) auto
qed

lemma set_split_ws_go: "set (concat (split_ws_go w s)) = set w \<union> {c \<in> set s. \<not> is_ws c}"
  by (induction w s rule: split_ws_go.induct) auto

lemma set_normalized: "set (normalized_gtid_set (Some s)) = {c \<in> set s. \<not> is_ws c}"
  by (simp add: normalized_gtid_set_def split_ws_def set_split_ws_go del: set_concat)

section \<open>The properties\<close>

text \<open>
  A signature that stays the same means that no transaction was applied and none was
  received: with GTID sets free of the separator, two equal signatures carry the same executed
  set, up to blanks, and the same received sets.
\<close>
theorem unchanged_signature_means_no_transaction:
  assumes "recovery_progress_signature (Inr (Some g)) (Inr (Some (Some r))) rows =
      recovery_progress_signature (Inr (Some g')) (Inr (Some (Some r'))) rows'"
    and "CHR ''|'' \<notin> set g \<union> set g' \<union> set r \<union> set r'"
  shows "normalized_gtid_set (Some g) = normalized_gtid_set (Some g') \<and> r = r'"
proof -
  have "CHR ''|'' \<notin> set (normalized_gtid_set (Some g))" "CHR ''|'' \<notin> set (normalized_gtid_set (Some g'))"
    using assms(2) by (auto simp: set_normalized)
  with assms show ?thesis
    by (simp add: recovery_progress_signature_def bar_separates)
qed

lemma unchanged_signature_means_no_transaction_witness:
  "normalized_gtid_set (Some ''u:1-3'') = normalized_gtid_set (Some ''u:1-3 '') \<and> ''x'' = ''x''"
proof (rule unchanged_signature_means_no_transaction)
  show "recovery_progress_signature (Inr (Some ''u:1-3'')) (Inr (Some (Some ''x''))) (Inr []) =
      recovery_progress_signature (Inr (Some ''u:1-3 '')) (Inr (Some (Some ''x''))) (Inr [])"
    by (simp add: recovery_progress_signature_def normalized_gtid_set_def split_ws_def is_ws_def char_code_def)
qed simp

text \<open>
  The server is only taken for the final one when it answered in time and its
  \<open>skip_networking\<close> is not on; an answer that could not be read is an error, never a no.
\<close>
theorem unread_server_is_not_final:
  "(is_init_temp_server a = Inr False \<longleftrightarrow> (\<exists>v. a = Some (Inr v) \<and> v \<noteq> Some 1)) \<and>
   (read_super_read_only a = Inr False \<longleftrightarrow> (\<exists>v. a = Some (Inr v) \<and> v \<noteq> Some 1))"
  by (auto simp: is_init_temp_server_def read_super_read_only_def map_answer_def short_def split: option.splits sum.splits)

end
