(* ===== verification/Upload.thy ===== *)
theory Upload
  imports Prelude
begin

text \<open>
  The streaming upload of \<open>s3.rs\<close>: a source of unknown length is read into parts of 8 MiB,
  each sent as one part of a multipart upload. A source is the bytes it will give and how
  many of them each read gives, or an error; the bucket's answers are arguments. The object a
  completed upload leaves is, by the service's contract, its parts in the order of their
  numbers.
\<close>

section \<open>The source\<close>

datatype read_event = Gives nat | Read_fails

record source =
  left :: string
  reads :: "read_event list"

text \<open>
  One read of at most \<open>room\<close> bytes: none at the end of the data, at least one before it.
  An exhausted schedule fills the room.
\<close>

definition read_source :: "nat \<Rightarrow> source \<Rightarrow> source \<times> string option" where
  "read_source room src =
     (case reads src of
        [] \<Rightarrow> (src\<lparr>left := drop room (left src)\<rparr>, Some (take room (left src)))
      | Read_fails # rs \<Rightarrow> (src\<lparr>reads := rs\<rparr>, None)
      | Gives n # rs \<Rightarrow>
          (let k = min room (max 1 n) in
           (src\<lparr>left := drop k (left src), reads := rs\<rparr>, Some (take k (left src)))))"

lemma read_source_data: "read_source room src = (src', Some b) \<Longrightarrow> left src = b @ left src' \<and> length b \<le> room"
  by (auto simp: read_source_def Let_def split: list.splits read_event.splits)

lemma read_source_end: "read_source room src = (src', Some []) \<Longrightarrow> 0 < room \<Longrightarrow> left src = []"
  by (auto simp: read_source_def Let_def split: list.splits read_event.splits if_splits)

text \<open>Reads until the buffer of \<open>psize\<close> bytes is full or the source ends.\<close>

function fill :: "nat \<Rightarrow> string \<Rightarrow> source \<Rightarrow> source \<times> string option" where
  "fill psize buf src =
     (if length buf < psize then
        (case read_source (psize - length buf) src of
           (src', None) \<Rightarrow> (src', None)
         | (src', Some b) \<Rightarrow> if b = [] then (src', Some buf) else fill psize (buf @ b) src')
      else (src, Some buf))"
  by pat_completeness auto
termination
  by (relation "measure (\<lambda>(psize, buf, src). psize - length buf)") (auto simp: length_greater_0_conv [symmetric] simp del: length_greater_0_conv)

declare fill.simps [simp del]

lemma fill_data:
  assumes "fill psize buf src = (src', Some out)" and "length buf \<le> psize"
  shows "buf @ left src = out @ left src' \<and> length out \<le> psize \<and> (length out < psize \<longrightarrow> left src' = [])"
  using assms
proof (induction psize buf src rule: fill.induct)
  case (1 psize buf src)
  show ?case
  proof (cases "length buf < psize")
    case True
    obtain s b where r: "read_source (psize - length buf) src = (s, b)"
      by fastforce
    show ?thesis
    proof (cases b)
      case None
      then show ?thesis
        using 1(2) True r by (simp add: fill.simps [of psize buf src])
    next
      case (Some x)
      note d = read_source_data [OF r [unfolded Some]]
      show ?thesis
      proof (cases "x = []")
        case True
        then show ?thesis
          using 1(2,3) \<open>length buf < psize\<close> r Some d read_source_end [of "psize - length buf" src s]
          by (auto simp: fill.simps [of psize buf src])
      next
        case False
        then have "fill psize (buf @ x) s = (src', Some out)"
          using 1(2) True r Some by (simp add: fill.simps [of psize buf src])
        moreover have "length x \<le> psize - length buf"
          using d by blast
        then have "length (buf @ x) \<le> psize"
          using True by simp
        ultimately show ?thesis
          using 1(1) [OF True r [symmetric] Some False] d by simp
      qed
    qed
  next
    case False
    then show ?thesis
      using 1(2,3) by (simp add: fill.simps [of psize buf src])
  qed
qed

lemma fill_shortens: "(src', Some buf) = fill psize [] src \<Longrightarrow> buf \<noteq> [] \<Longrightarrow> length (left src') < length (left src)"
  using fill_data [of psize "[]" src src' buf] by simp

section \<open>The parts\<close>

definition part_size :: nat where "part_size = 8 * 1024 * 1024"

definition i32_max :: nat where "i32_max = 2147483647"

datatype upload_error = Reading_source | Part_refused nat | Too_many_parts

text \<open>
  \<open>accepts\<close> is whether the bucket took a part; \<open>num\<close> is the number of the next one. The
  parts sent are returned in any case, to see what an upload left behind.
\<close>

function upload_from :: "nat \<Rightarrow> (nat \<Rightarrow> bool) \<Rightarrow> nat \<Rightarrow> source \<Rightarrow> (nat \<times> string) list \<times> upload_error option" where
  "upload_from psize accepts num src =
     (case fill psize [] src of
        (src', None) \<Rightarrow> ([], Some Reading_source)
      | (src', Some buf) \<Rightarrow>
          if buf = [] then ([], None)
          else if \<not> accepts num then ([], Some (Part_refused num))
          else if num \<ge> i32_max then ([(num, buf)], Some Too_many_parts)
          else (case upload_from psize accepts (num + 1) src' of (ps, r) \<Rightarrow> ((num, buf) # ps, r)))"
  by pat_completeness auto
termination
  by (relation "measure (\<lambda>(psize, accepts, num, src). length (left src))") (auto dest!: fill_shortens)

declare upload_from.simps [simp del]

definition upload_parts :: "(nat \<Rightarrow> bool) \<Rightarrow> source \<Rightarrow> (nat \<times> string) list \<times> upload_error option" where
  "upload_parts accepts src = upload_from part_size accepts 1 src"

section \<open>The upload\<close>

datatype upload_action = Create | Part nat string | Complete "nat list" | Abort | Put_empty

datatype upload_result = Uploaded | Create_failed | Parts_failed upload_error | Complete_failed | Put_failed

record bucket_answers =
  ba_upload_id :: bool
  ba_part :: "nat \<Rightarrow> bool"
  ba_complete :: bool
  ba_put :: bool

definition upload_multipart :: "bucket_answers \<Rightarrow> source \<Rightarrow> upload_action list \<times> upload_result" where
  "upload_multipart b src =
     (if \<not> ba_upload_id b then ([Create], Create_failed)
      else
        (case upload_parts (ba_part b) src of
           (ps, Some e) \<Rightarrow> ([Create] @ map (\<lambda>(n, w). Part n w) ps @ [Abort], Parts_failed e)
         | (ps, None) \<Rightarrow>
             if ps \<noteq> [] then
               ([Create] @ map (\<lambda>(n, w). Part n w) ps @ [Complete (map fst ps)],
                if ba_complete b then Uploaded else Complete_failed)
             else ([Create, Abort, Put_empty], if ba_put b then Uploaded else Put_failed)))"

text \<open>The object a history of calls leaves, and whether an upload is left open.\<close>

definition stored :: "upload_action list \<Rightarrow> string option" where
  "stored acts =
     (if Put_empty \<in> set acts then Some []
      else (case last acts of
              Complete ns \<Rightarrow> Some (concat (map (\<lambda>n. concat (List.map_filter (\<lambda>a. case a of Part m w \<Rightarrow> if m = n then Some w else None | _ \<Rightarrow> None) acts)) ns))
            | _ \<Rightarrow> None))"

section \<open>What is uploaded\<close>

lemma upload_from_parts:
  assumes "upload_from psize accepts num src = (ps, None)" and "0 < psize"
  shows "concat (map snd ps) = left src \<and> map fst ps = [num ..< num + length ps] \<and>
    list_all (\<lambda>(n, w). w \<noteq> [] \<and> length w \<le> psize) ps \<and>
    (\<forall>i. Suc i < length ps \<longrightarrow> length (snd (ps ! i)) = psize)"
  using assms
proof (induction psize accepts num src arbitrary: ps rule: upload_from.induct)
  case (1 psize accepts num src)
  obtain src' r where f: "fill psize [] src = (src', r)"
    by fastforce
  show ?case
  proof (cases r)
    case None
    then show ?thesis
      using 1(2) f by (simp add: upload_from.simps [of psize accepts num src])
  next
    case (Some buf)
    note d = fill_data [OF f [unfolded Some]]
    show ?thesis
    proof (cases "buf = []")
      case True
      then show ?thesis
        using 1(2,3) f Some d by (simp add: upload_from.simps [of psize accepts num src])
    next
      case False
      then have a: "accepts num" "num < i32_max"
        using 1(2) f Some by (auto simp: upload_from.simps [of psize accepts num src] split: if_splits)
      obtain qs q where u: "upload_from psize accepts (num + 1) src' = (qs, q)"
        by fastforce
      then have p: "ps = (num, buf) # qs" "q = None"
        using 1(2) f Some False a by (auto simp: upload_from.simps [of psize accepts num src])
      have IH: "concat (map snd qs) = left src'" "map fst qs = [num + 1 ..< num + 1 + length qs]"
        "list_all (\<lambda>(n, w). w \<noteq> [] \<and> length w \<le> psize) qs" "\<forall>i. Suc i < length qs \<longrightarrow> length (snd (qs ! i)) = psize"
        using 1(1) [OF f [symmetric] Some False, of qs] a u p 1(3) by auto
      have full: "length buf = psize" if "qs \<noteq> []"
      proof (rule ccontr)
        assume "length buf \<noteq> psize"
        then have "left src' = []"
          using d by simp
        then have "concat (map snd qs) = []"
          using IH(1) by simp
        with that IH(3) show False
          by (cases qs) auto
      qed
      have "length (snd (ps ! i)) = psize" if "Suc i < length ps" for i
        using that full IH(4) p(1) by (cases i) auto
      moreover have "map fst ps = [num ..< num + length ps]"
        using IH(2) p(1) by (simp add: upt_conv_Cons del: upt_Suc)
      ultimately show ?thesis
        using IH(1,3) d False p(1) by auto
    qed
  qed
qed

lemma stored_parts:
  assumes "distinct (map fst ps)"
  shows "map (\<lambda>n. concat (List.map_filter (\<lambda>a. case a of Part m w \<Rightarrow> if m = n then Some w else None | _ \<Rightarrow> None)
      ([Create] @ map (\<lambda>(n, w). Part n w) ps @ [Complete ns]))) (map fst ps) = map snd ps"
proof -
  have "concat (List.map_filter (\<lambda>a. case a of Part m w \<Rightarrow> if m = n then Some w else None | _ \<Rightarrow> None)
      ([Create] @ map (\<lambda>(n, w). Part n w) ps @ [Complete ns])) = w" if m: "(n, w) \<in> set ps" for n w
  proof -
    obtain as bs where ps: "ps = as @ (n, w) # bs"
      using m by (meson split_list)
    have "List.map_filter (\<lambda>a. case a of Part m w \<Rightarrow> if m = n then Some w else None | _ \<Rightarrow> None) (map (\<lambda>(n, w). Part n w) qs) = []"
      if "n \<notin> fst ` set qs" for qs
      using that by (induction qs) (auto simp: List.map_filter_simps)
    moreover have "n \<notin> fst ` set as" "n \<notin> fst ` set bs"
      using assms by (auto simp: ps)
    moreover have "List.map_filter f (xs @ ys) = List.map_filter f xs @ List.map_filter f ys" for f :: "upload_action \<Rightarrow> string option" and xs ys
      by (simp add: List.map_filter_def)
    ultimately show ?thesis
      by (simp add: ps List.map_filter_simps)
  qed
  then show ?thesis by auto
qed

section \<open>The properties\<close>

text \<open>
  C36: An upload that succeeds leaves exactly the bytes of the source, whatever the reads
  gave at a time: an empty source as an empty object, any other in parts numbered from 1, none
  empty or over 8 MiB, all but the last of exactly 8 MiB.
\<close>
theorem uploaded_object_is_the_source:
  assumes "upload_multipart b src = (acts, Uploaded)"
  shows "stored acts = Some (left src) \<and>
    (\<exists>ps. upload_parts (ba_part b) src = (ps, None) \<and> map fst ps = [1 ..< 1 + length ps] \<and>
      list_all (\<lambda>(n, w). w \<noteq> [] \<and> length w \<le> part_size) ps \<and> (\<forall>i. Suc i < length ps \<longrightarrow> length (snd (ps ! i)) = part_size))"
proof -
  obtain ps where u: "upload_parts (ba_part b) src = (ps, None)"
    using assms by (auto simp: upload_multipart_def split: if_splits prod.splits option.splits)
  have "0 < part_size" by (simp add: part_size_def)
  note p = upload_from_parts [OF u [unfolded upload_parts_def] this]
  have d: "distinct (map fst ps)"
    using p by (metis distinct_upt)
  have "stored acts = Some (left src)"
  proof (cases "ps = []")
    case True
    then show ?thesis
      using assms u p by (auto simp: upload_multipart_def stored_def split: if_splits)
  next
    case False
    then have "acts = [Create] @ map (\<lambda>(n, w). Part n w) ps @ [Complete (map fst ps)]"
      using assms u by (simp add: upload_multipart_def split: if_splits)
    then show ?thesis
      using stored_parts [OF d, of "map fst ps"] p by (auto simp: stored_def)
  qed
  then show ?thesis
    using u p by blast
qed

definition short_source :: source where
  "short_source = \<lparr>left = ''abcde'', reads = [Gives 2, Gives 1]\<rparr>"

lemma short_fill: "fill part_size [] short_source = (\<lparr>left = [], reads = []\<rparr>, Some ''abcde'')"
  "fill part_size [] \<lparr>left = [], reads = []\<rparr> = (\<lparr>left = [], reads = []\<rparr>, Some [])"
  by (simp_all add: fill.simps read_source_def short_source_def part_size_def)

lemma short_parts: "upload_parts (\<lambda>_. True) short_source = ([(1, ''abcde'')], None)"
  by (simp add: upload_parts_def upload_from.simps short_fill i32_max_def)

definition willing :: bucket_answers where
  "willing = \<lparr>ba_upload_id = True, ba_part = (\<lambda>_. True), ba_complete = True, ba_put = True\<rparr>"

lemma uploaded_object_is_the_source_witness: "stored [Create, Part 1 ''abcde'', Complete [1]] = Some ''abcde''"
proof -
  have "upload_multipart willing short_source = ([Create, Part 1 ''abcde'', Complete [1]], Uploaded)"
    by (simp add: upload_multipart_def willing_def short_parts)
  from uploaded_object_is_the_source [OF this] show ?thesis
    by (simp add: short_source_def)
qed

text \<open>
  Of the uploads that fail after they were created, exactly those whose parts could
  not be sent and those that turned out empty are aborted: one whose completion is refused
  is left open.
\<close>
theorem only_a_refused_completion_is_left_open:
  assumes "upload_multipart b src = (acts, res)" and "res \<noteq> Uploaded" and "res \<noteq> Create_failed"
  shows "Abort \<in> set acts \<longleftrightarrow> res \<noteq> Complete_failed"
  using assms
  by (auto simp: upload_multipart_def split: if_splits prod.splits option.splits)

lemma only_a_refused_completion_is_left_open_witness:
  "Abort \<notin> set (fst (upload_multipart (willing\<lparr>ba_complete := False\<rparr>) short_source))"
proof -
  have "upload_multipart (willing\<lparr>ba_complete := False\<rparr>) short_source = ([Create, Part 1 ''abcde'', Complete [1]], Complete_failed)"
    by (simp add: upload_multipart_def willing_def short_parts)
  from only_a_refused_completion_is_left_open [OF this] show ?thesis
    by (simp add: \<open>upload_multipart (willing\<lparr>ba_complete := False\<rparr>) short_source = _\<close>)
qed

end
