(* ===== verification/Services.thy ===== *)
theory Services
  imports Full_Backup Boot Statements
begin

text \<open>
  The long-running tasks around the components: the waits for mysqld (\<open>gr.rs\<close>,
  \<open>archiver.rs\<close>), what follows a bootstrap (\<open>gr.rs\<close>), the respawning supervisor and the
  \<open>/pitr\<close> routes of the health server (\<open>health_server.rs\<close>), the periodic loops of the
  archiver with the fault they leave on \<open>/pitr\<close>, and the size of the data directory
  (\<open>archiver.rs\<close>). A loop is a function of what each of its rounds met.
\<close>

section \<open>Waiting for mysqld\<close>

text \<open>
  One element per poll: whether the server that answered is the entrypoint's temporary one,
  or an error. The result is the number of waits before the final server answered.
\<close>

fun wait_for_final_mysqld :: "(sql_error + bool) list \<Rightarrow> nat option" where
  "wait_for_final_mysqld [] = None"
| "wait_for_final_mysqld (p # ps) =
     (case p of Inr False \<Rightarrow> Some 0 | _ \<Rightarrow> map_option Suc (wait_for_final_mysqld ps))"

section \<open>After a bootstrap\<close>

text \<open>One round of \<open>post_bootstrap\<close>: the own id, the members, and the half seconds gone.\<close>

record promotion_round =
  po_uuid :: "string option"
  po_members :: "member_row list option"
  po_elapsed_ms :: nat

datatype promotion_end = Promoted | Promotion_unread | Promotion_late

fun post_bootstrap :: "promotion_round list \<Rightarrow> promotion_end option" where
  "post_bootstrap [] = None"
| "post_bootstrap (r # rs) =
     (case (po_uuid r, po_members r) of
        (Some uuid, Some ms) \<Rightarrow>
          if role_is_writable_primary ms uuid then Some Promoted
          else if po_elapsed_ms r > 60000 then Some Promotion_late
          else post_bootstrap rs
      | _ \<Rightarrow> Some Promotion_unread)"

text \<open>
  Up to five writes of the group's pre-GTID flag; \<open>writes\<close> says which succeed. The result is
  how many were made and whether the last one succeeded.
\<close>

definition write_pre_gtid_flag :: "(nat \<Rightarrow> bool) \<Rightarrow> nat \<times> bool" where
  "write_pre_gtid_flag writes =
     (case find writes [0 ..< 5] of Some i \<Rightarrow> (i + 1, True) | None \<Rightarrow> (5, False))"

datatype bootstrap_report = Bootstrap_failed | Post_bootstrap_failed | Flag_not_persisted | Became_primary

text \<open>
  What follows the bootstrap statement: whether the flag is now in the group, and the reports
  in order. \<open>adopted\<close> is the marker of adopted data on this volume.
\<close>

definition after_bootstrap :: "bool \<Rightarrow> promotion_end \<Rightarrow> bool \<Rightarrow> (nat \<Rightarrow> bool) \<Rightarrow> bool \<times> bootstrap_report list" where
  "after_bootstrap started promotion adopted writes =
     (if \<not> started then (False, [Bootstrap_failed])
      else if promotion \<noteq> Promoted then (False, [Post_bootstrap_failed, Became_primary])
      else if adopted then
        (if snd (write_pre_gtid_flag writes) then (True, [Became_primary]) else (False, [Flag_not_persisted, Became_primary]))
      else (False, [Became_primary]))"

text \<open>A wait reason is logged, and reported, only when it changes.\<close>

definition wait_log_once :: "string \<Rightarrow> string \<Rightarrow> string \<times> bool" where
  "wait_log_once shown reason = (if shown \<noteq> reason then (reason, True) else (shown, False))"

section \<open>The supervisor of the health server\<close>

datatype run_end = Returned | Bind_or_serve_failed string | Panicked | Cancelled

definition run_failure :: "run_end \<Rightarrow> string" where
  "run_failure r =
     (case r of
        Returned \<Rightarrow> ''run loop returned cleanly''
      | Bind_or_serve_failed e \<Rightarrow> ''bind/serve failed: '' @ e
      | Panicked \<Rightarrow> ''task panicked''
      | Cancelled \<Rightarrow> ''task cancelled'')"

definition HEALTHY_RUN_THRESHOLD :: nat where "HEALTHY_RUN_THRESHOLD = 60"

definition respawn_step :: "bool \<Rightarrow> run_end \<times> nat \<Rightarrow> bool \<times> string option" where
  "respawn_step reported r =
     (let prior = (if snd r \<ge> HEALTHY_RUN_THRESHOLD then False else reported) in
      (True, if prior then None else Some (run_failure (fst r))))"

text \<open>The report, if any, of each run of the server, each with the seconds it lasted.\<close>

fun run_health_server_supervised :: "bool \<Rightarrow> (run_end \<times> nat) list \<Rightarrow> string option list" where
  "run_health_server_supervised reported [] = []"
| "run_health_server_supervised reported (r # rs) =
     (case respawn_step reported r of (reported', report) \<Rightarrow> report # run_health_server_supervised reported' rs)"

section \<open>The /pitr routes\<close>

definition trigger_full_backup :: "pitr_status \<Rightarrow> pitr_status \<times> response" where
  "trigger_full_backup s =
     (case queue_full_backup False s of
        (s', None) \<Rightarrow> (s', (202, Text ''full backup queued''))
      | (s', Some Not_configured) \<Rightarrow> (s', (409, Text ''PITR archiving is not configured''))
      | (s', Some Not_archiving) \<Rightarrow> (s', (409, Text ''this node is not currently archiving''))
      | (s', Some Already_queued) \<Rightarrow> (s', (409, Text ''a full backup is already queued or running'')))"

text \<open>
  The fault shown on \<open>/pitr\<close>: a failure is noted with its text, an upload or a full that
  landed clears it, and a fault that ended clears it if the text is its own.
\<close>

datatype fault_event = Fault_noted string | Archive_landed | Fault_over "string \<Rightarrow> bool"

definition fault_step :: "string option \<Rightarrow> fault_event \<Rightarrow> string option" where
  "fault_step shown ev =
     (case ev of
        Fault_noted t \<Rightarrow> Some t
      | Archive_landed \<Rightarrow> None
      | Fault_over ours \<Rightarrow> (case shown of Some t \<Rightarrow> if ours t then None else Some t | None \<Rightarrow> None))"

section \<open>The periodic loops of the archiver\<close>

datatype loop_action = Ship_pass | Retention_pass int | Loop_panics | Flush_logs | Sleep nat | Note_fault string | Report_failure string

definition binlog_shipping_round :: "string option \<Rightarrow> loop_action list" where
  "binlog_shipping_round failure =
     [Ship_pass] @ (case failure of Some e \<Rightarrow> [Note_fault e, Report_failure ''pitr_binlog_shipping''] | None \<Rightarrow> []) @ [Sleep 10]"

definition retention_round :: "int \<Rightarrow> string option \<Rightarrow> loop_action list" where
  "retention_round span failure =
     [Retention_pass span] @ (case failure of Some e \<Rightarrow> [Report_failure ''pitr_retention''] | None \<Rightarrow> []) @ [Sleep 3600]"

text \<open>
  The horizon of a number of days, in nanoseconds: the cast to \<open>i64\<close> wraps, and chrono's
  \<open>Duration::days\<close> panics (\<open>None\<close>) past the milliseconds an \<open>i64\<close> holds.
\<close>

definition retention_horizon :: "nat \<Rightarrow> int option" where
  "retention_horizon days =
     (let d = sint (word_of_nat days :: 64 word) in
      if \<bar>d * 86400\<bar> \<le> (2 ^ 63 - 1) div 1000 then Some (d * 86400 * ns_per_s) else None)"

text \<open>Nothing at all without a retention horizon; otherwise a first delay, then the rounds.\<close>

definition retention_loop :: "config \<Rightarrow> string option list \<Rightarrow> loop_action list" where
  "retention_loop c rounds =
     (case retention_days c of
        None \<Rightarrow> []
      | Some days \<Rightarrow>
          (case retention_horizon days of
             None \<Rightarrow> [Loop_panics]
           | Some span \<Rightarrow> Sleep 300 # concat (map (retention_round span) rounds)))"

definition rotation_round :: "config \<Rightarrow> string option \<Rightarrow> loop_action list" where
  "rotation_round c failure =
     [Sleep (rotate_interval_seconds c), Flush_logs] @
     (case failure of Some e \<Rightarrow> [Report_failure ''pitr_binlog_rotation''] | None \<Rightarrow> [])"

section \<open>The size of the data directory\<close>

text \<open>
  A directory tree as the walk meets it: a file and its length, a directory whose listing may
  fail, an entry that cannot be read, or something else.
\<close>

datatype tree_entry = File_of nat | Directory "tree_entry list option" | Unreadable_entry | Other_entry

function walk :: "tree_entry list option \<Rightarrow> nat option" where
  "walk None = None"
| "walk (Some []) = Some 0"
| "walk (Some (File_of n # es)) = map_option (\<lambda>t. n + t) (walk (Some es))"
| "walk (Some (Directory d # es)) = Option.bind (walk d) (\<lambda>n. map_option (\<lambda>t. n + t) (walk (Some es)))"
| "walk (Some (Unreadable_entry # es)) = None"
| "walk (Some (Other_entry # es)) = walk (Some es)"
  by pat_completeness auto
termination
  by (relation "measure (\<lambda>d. case d of None \<Rightarrow> 0 | Some es \<Rightarrow> Suc (size_list size es))") (auto split: option.splits)

definition dir_size_bytes :: "tree_entry list option \<Rightarrow> nat option" where
  "dir_size_bytes root = walk root"

section \<open>Lemmas\<close>

lemma wait_for_final_mysqld_iff: "wait_for_final_mysqld ps = Some n \<longleftrightarrow> n < length ps \<and> ps ! n = Inr False \<and> (\<forall>i < n. ps ! i \<noteq> Inr False)"
proof (induction ps arbitrary: n)
  case (Cons p ps)
  show ?case
  proof (cases n)
    case 0
    then show ?thesis by (auto split: sum.splits bool.splits)
  next
    case (Suc m)
    have "(\<forall>i < Suc m. (p # ps) ! i \<noteq> Inr False) \<longleftrightarrow> p \<noteq> Inr False \<and> (\<forall>i < m. ps ! i \<noteq> Inr False)"
      by (auto simp: less_Suc_eq_0_disj)
    then show ?thesis
      using Suc Cons.IH [of m] by (auto split: sum.splits bool.splits)
  qed
qed simp

lemma respawn_after_first: "run_health_server_supervised True rs = map (\<lambda>r. if snd r \<ge> HEALTHY_RUN_THRESHOLD then Some (run_failure (fst r)) else None) rs"
  by (induction rs) (auto simp: respawn_step_def Let_def)

lemma fault_over_kept: "fault_step shown (Fault_over ours) = Some t \<Longrightarrow> shown = Some t \<and> \<not> ours t"
  by (auto simp: fault_step_def split: option.splits if_splits)

lemma fault_kept: "foldl fault_step None es = Some t \<Longrightarrow>
    \<exists>i < length es. es ! i = Fault_noted t \<and>
      (\<forall>j. i < j \<and> j < length es \<longrightarrow> (case es ! j of Fault_noted _ \<Rightarrow> False | Archive_landed \<Rightarrow> False | Fault_over ours \<Rightarrow> \<not> ours t))"
proof (induction es arbitrary: t rule: rev_induct)
  case (snoc e es)
  show ?case
  proof (cases e)
    case (Fault_noted u)
    then show ?thesis
      using snoc.prems by (intro exI [of _ "length es"]) (auto simp: fault_step_def)
  next
    case Archive_landed
    then show ?thesis
      using snoc.prems by (simp add: fault_step_def)
  next
    case (Fault_over ours)
    then have "foldl fault_step None es = Some t" and "\<not> ours t"
      using snoc.prems fault_over_kept [of "foldl fault_step None es" ours t] by simp_all
    then obtain i where "i < length es" "es ! i = Fault_noted t"
      "\<forall>j. i < j \<and> j < length es \<longrightarrow> (case es ! j of Fault_noted _ \<Rightarrow> False | Archive_landed \<Rightarrow> False | Fault_over ours \<Rightarrow> \<not> ours t)"
      using snoc.IH by blast
    then show ?thesis
      using Fault_over \<open>\<not> ours t\<close> by (intro exI [of _ i]) (auto simp: nth_append less_Suc_eq)
  qed
qed simp

lemma retention_horizon_exact: "days \<le> 106751991167 \<Longrightarrow> retention_horizon days = Some (int days * 86400 * ns_per_s)"
proof -
  assume "days \<le> 106751991167"
  then have "sint (word_of_nat days :: 64 word) = int days"
    by (simp add: sint_uint unsigned_of_nat signed_take_bit_int_eq_self take_bit_nat_eq_self)
  with \<open>days \<le> 106751991167\<close> show ?thesis
    by (simp add: retention_horizon_def)
qed

text \<open>The largest day counts wrap to a horizon that is not positive; below them they panic.\<close>

lemma retention_horizon_wraps: "retention_horizon (2 ^ 64 - 1) = Some (- 86400 * ns_per_s) \<and> retention_horizon (2 ^ 63 - 1) = None"
  by (simp add: retention_horizon_def)

section \<open>The properties\<close>

text \<open>
  When the check of the promotion fails, for a single unanswered query too, the
  pre-GTID flag of the group is never written, however the writes would have gone, and the
  node is reported as primary all the same.
\<close>
theorem failed_promotion_check_loses_the_flag:
  "(if promotion \<noteq> Promoted then after_bootstrap True promotion adopted writes = (False, [Post_bootstrap_failed, Became_primary])
    else True) \<and>
   post_bootstrap (\<lparr>po_uuid = None, po_members = ms, po_elapsed_ms = n\<rparr> # rs) = Some Promotion_unread"
  by (simp add: after_bootstrap_def)

text \<open>
  The supervisor of the health server reports each incident once: the first failed
  run, and then every run that was up for a minute before it failed.
\<close>
theorem health_server_incidents_reported_once:
  "run_health_server_supervised False (r # rs) = Some (run_failure (fst r)) #
     map (\<lambda>r. if snd r \<ge> 60 then Some (run_failure (fst r)) else None) rs"
  by (simp add: respawn_step_def respawn_after_first HEALTHY_RUN_THRESHOLD_def Let_def)

text \<open>
  A fault shown on \<open>/pitr\<close> was noted with that text, and since then nothing else was
  noted, nothing landed in the archive, and no fault of that text was declared over.
\<close>
theorem fault_shown_is_live:
  assumes "foldl fault_step None es = Some t"
  shows "\<exists>i < length es. es ! i = Fault_noted t \<and>
    (\<forall>j. i < j \<and> j < length es \<longrightarrow> (case es ! j of Fault_noted _ \<Rightarrow> False | Archive_landed \<Rightarrow> False | Fault_over ours \<Rightarrow> \<not> ours t))"
  using assms by (rule fault_kept)

lemma fault_shown_is_live_witness:
  "\<exists>i < 3. [Archive_landed, Fault_noted ''x'', Fault_over (\<lambda>t. t = ''y'')] ! i = Fault_noted ''x''"
proof -
  let ?es = "[Archive_landed, Fault_noted ''x'', Fault_over (\<lambda>t. t = ''y'')]"
  have "foldl fault_step None ?es = Some ''x''"
    by (simp add: fault_step_def)
  from fault_shown_is_live [OF this] obtain i where "i < length ?es" "?es ! i = Fault_noted ''x''"
    by blast
  then show ?thesis by (intro exI [of _ i]) simp
qed

end
