(* ===== verification/Booted_Config.thy ===== *)
theory Booted_Config
  imports Mysql_Conf Services
begin

text \<open>
  What a configuration read from the environment (\<open>from_env\<close>) guarantees to the rest of
  the program: every number fits the integer type of its field, so that no cast of the
  program changes it, and the values behind the \<open>expect\<close>s of \<open>config.rs\<close> and
  \<open>mysql_conf.rs\<close> are present.
\<close>

definition fits :: "nat \<Rightarrow> nat option \<Rightarrow> bool" where
  "fits hi v \<longleftrightarrow> (case v of None \<Rightarrow> True | Some n \<Rightarrow> n \<le> hi)"

definition numbers_fit :: "config \<Rightarrow> bool" where
  "numbers_fit c \<longleftrightarrow>
     mysql_port c \<le> u16_max \<and> health_port c \<le> u16_max \<and> fits u32_max (server_id c) \<and>
     boot_loop_threshold c \<le> u32_max \<and> self_heal_attempt_cap c \<le> u32_max \<and>
     fits u64_max (innodb_buffer_pool_mb c) \<and> fits u64_max (mysql_max_connections c) \<and> fits u64_max (retention_days c) \<and>
     (\<forall>n \<in> {peer_query_timeout_ms c, bootstrap_dwell_seconds c, demote_timeout_ms c, peer_gone_dwell_seconds c,
        boot_ready_budget_seconds c, stuck_member_dwell_seconds c, self_heal_backoff_base_seconds c,
        test_adoption_detection_delay_ms c, full_backup_interval_seconds c, rotate_interval_seconds c}. n \<le> u64_max) \<and>
     - (2 ^ 63) \<le> retention_min_object_age_seconds c \<and> retention_min_object_age_seconds c < 2 ^ 63"

definition present :: "string option \<Rightarrow> bool" where
  "present v \<longleftrightarrow> (case v of None \<Rightarrow> True | Some s \<Rightarrow> s \<noteq> [])"

text \<open>Optional strings are absent or non-empty, and the data directory has a name.\<close>

definition strings_present :: "config \<Rightarrow> bool" where
  "strings_present c \<longleftrightarrow>
     data_dir c \<noteq> [] \<and>
     (\<forall>v \<in> {gr_seeds c, gr_group_name c, gr_replication_password c, health_api_password c}. present v) \<and>
     (\<forall>b \<in> {archive c, recover_from c}.
        \<forall>v \<in> {bv_bucket b, bv_key b, bv_secret b, bv_region b, bv_endpoint b}. present v)"

lemma env_parse_fits: "d \<le> hi \<Longrightarrow> env_parse e (parse_uint hi) name d \<le> hi"
  by (auto simp: env_parse_def bind_eq_Some_conv split: option.split dest: parse_uint_le)

lemma parse_i64_fits: "parse_i64 s = Some n \<Longrightarrow> - (2 ^ 63) \<le> n \<and> n < 2 ^ 63"
  by (auto simp: parse_i64_def split: list.splits if_splits dest!: parse_uint_le)

lemma object_age_fits:
  "- (2 ^ 63) \<le> env_parse e parse_i64 name 3600 \<and> env_parse e parse_i64 name 3600 < 2 ^ 63"
  using parse_i64_fits by (auto simp: env_parse_def bind_eq_Some_conv split: option.split)

lemma fits_bind: "fits hi (Option.bind v (parse_uint hi))"
  by (cases v) (auto simp: fits_def split: option.split dest: parse_uint_le)

lemma present_non_empty [simp]: "present (non_empty v)"
  by (auto simp: present_def non_empty_def split: option.split)

lemma retention_days_fit: "fits u64_max (retention_days_from_env e) \<and> retention_days_from_env e \<noteq> Some 0"
  by (auto simp: retention_days_from_env_def fits_def default_retention_days_def u64_max_def split: option.splits dest: parse_uint_le)

lemma numbers_fit_of_env: "numbers_fit (config_of_env e target)"
  using retention_days_fit [of e] object_age_fits [of e]
  by (simp add: numbers_fit_def config_of_env_def fits_bind del: numeral_power_eq_of_int_cancel_iff)
    (intro conjI env_parse_fits; simp add: u16_max_def u32_max_def u64_max_def)

lemma non_empty_some: "non_empty v = Some s \<Longrightarrow> s \<noteq> []"
  by (auto simp: non_empty_def split: option.splits if_splits)

lemma strings_present_of_env: "strings_present (config_of_env e target)"
proof -
  have "data_dir (config_of_env e target) \<noteq> []"
    by (simp add: config_of_env_def split: option.split) (blast dest: non_empty_some)
  then show ?thesis
    by (simp add: strings_present_def) (simp add: config_of_env_def bucket_vars_from_env_def)
qed

lemma from_env_shape: "from_env pt ini e = Inr c \<Longrightarrow> \<exists>target r. c = (config_of_env e target)\<lparr>archive_refusal := r\<rparr>"
  by (auto simp: from_env_def Let_def split: if_splits)

section \<open>The properties\<close>

text \<open>
  C38: A configuration the boot accepts is well typed: its numbers fit the fields' integer
  types, its optional strings are non-empty where they are set, archiving or a restore is only
  enabled with a whole bucket contract (and a target), a root password is there unless the
  data directory is initialized, and a retention horizon is never of zero days.
\<close>
theorem booted_configuration_is_well_typed:
  assumes "from_env parse_time initialized e = Inr c"
  shows "numbers_fit c \<and> strings_present c \<and>
    (if archive_enabled c then archive_s3_location c \<noteq> None else True) \<and>
    (if restore_enabled c then restore_s3_location c \<noteq> None \<and> recovery_target_time c \<noteq> None else True) \<and>
    (initialized \<or> mysql_root_password c \<noteq> [] \<and> (gr_enabled c \<longrightarrow> gr_replication_password c \<noteq> None)) \<and>
    retention_days c \<noteq> Some 0"
proof -
  obtain target r where c: "c = (config_of_env e target)\<lparr>archive_refusal := r\<rparr>"
    using from_env_shape [OF assms] by blast
  have "numbers_fit c" "strings_present c"
    using numbers_fit_of_env [of e target] strings_present_of_env [of e target]
    unfolding c by (simp_all add: numbers_fit_def strings_present_def)
  moreover have "retention_days c \<noteq> Some 0"
    using retention_days_fit [of e] unfolding c by (simp add: config_of_env_def)
  moreover have "initialized \<or> mysql_root_password c \<noteq> [] \<and> (gr_enabled c \<longrightarrow> gr_replication_password c \<noteq> None)"
    using assms by (auto simp: from_env_def Let_def gr_enabled_def split: if_splits)
  ultimately show ?thesis
    using from_env_refusal [OF assms] from_env_recover [OF assms] archive_enabled_location [of c] by auto
qed

definition plain_env :: env where
  "plain_env = [''MYSQL_ROOT_PASSWORD'' \<mapsto> ''pw'', ''MYSQL_PORT'' \<mapsto> ''70000'', ''BINLOG_RETENTION_DAYS'' \<mapsto> ''0'']"

lemma booted_configuration_is_well_typed_witness:
  "\<exists>c. from_env (\<lambda>_. None) False plain_env = Inr c \<and> numbers_fit c"
proof -
  obtain c where c: "from_env (\<lambda>_. None) False plain_env = Inr c"
    by (simp add: from_env_def plain_env_def config_of_env_def non_empty_def env_or_def gr_enabled_def bucket_vars_from_env_def Let_def)
  with booted_configuration_is_well_typed [OF c] show ?thesis by blast
qed

end
