(* ===== verification/Durable.thy ===== *)
theory Durable
  imports Finish_Upgrade Self_Heal
begin

text \<open>
  How the files kept on the volume are written, against a power cut: the markers are
  published through a temporary file (\<open>persist_atomically\<close> of \<open>gr.rs\<close> and its copies in
  \<open>archiver.rs\<close>, \<open>password_pin.rs\<close>, \<open>self_heal.rs\<close>, \<open>restore.rs\<close> and
  \<open>credentials.rs\<close>), the served version without a flush (\<open>finish_upgrade.rs\<close>) and the
  boot counter in place (\<open>self_heal.rs\<close>). The volume keeps the listings of the directory that
  a power cut may bring back, and for each file whether its bytes were flushed.
\<close>

section \<open>A volume and its power cuts\<close>

record volume_disk =
  listings :: "(string \<Rightarrow> nat option) list"
  bytes_at :: "nat \<Rightarrow> string"
  flushed :: "nat \<Rightarrow> bool"
  next_inode :: nat

definition listing :: "volume_disk \<Rightarrow> string \<Rightarrow> nat option" where
  "listing s = last (listings s)"

definition blank_volume :: volume_disk where
  "blank_volume = \<lparr>listings = [\<lambda>_. None], bytes_at = (\<lambda>_. []), flushed = (\<lambda>_. True), next_inode = 0\<rparr>"

text \<open>
  A power cut keeps one of the listings, and of a file that was not flushed the first bytes
  only. \<open>may_read\<close> is what such a volume holds under a name.
\<close>

definition power_cut :: "nat \<Rightarrow> (nat \<Rightarrow> nat) \<Rightarrow> volume_disk \<Rightarrow> volume_disk" where
  "power_cut k kept s =
     s\<lparr>listings := [listings s ! (k mod length (listings s))],
       bytes_at := (\<lambda>i. if flushed s i then bytes_at s i else take (kept i) (bytes_at s i)),
       flushed := (\<lambda>_. True)\<rparr>"

definition may_hold :: "volume_disk \<Rightarrow> nat \<Rightarrow> string \<Rightarrow> bool" where
  "may_hold s i v \<longleftrightarrow> (if flushed s i then v = bytes_at s i else (\<exists>k. v = take k (bytes_at s i)))"

definition may_read :: "volume_disk \<Rightarrow> string \<Rightarrow> string option \<Rightarrow> bool" where
  "may_read s n v \<longleftrightarrow>
     (\<exists>d \<in> set (listings s). case d n of None \<Rightarrow> v = None | Some i \<Rightarrow> \<exists>x. v = Some x \<and> may_hold s i x)"

section \<open>The writers\<close>

datatype write_step = Open_tmp | Write_tmp | Sync_tmp | Rename_tmp | Sync_dir

definition write_step_on :: "string \<Rightarrow> string \<Rightarrow> string \<Rightarrow> volume_disk \<Rightarrow> write_step \<Rightarrow> volume_disk" where
  "write_step_on name tmp c s st =
     (case st of
        Open_tmp \<Rightarrow>
          (case listing s tmp of
             Some i \<Rightarrow> s\<lparr>bytes_at := (bytes_at s)(i := []), flushed := (flushed s)(i := False)\<rparr>
           | None \<Rightarrow>
               s\<lparr>listings := listings s @ [(listing s)(tmp := Some (next_inode s))],
                 bytes_at := (bytes_at s)(next_inode s := []), flushed := (flushed s)(next_inode s := False),
                 next_inode := next_inode s + 1\<rparr>)
      | Write_tmp \<Rightarrow>
          (case listing s tmp of
             Some i \<Rightarrow> s\<lparr>bytes_at := (bytes_at s)(i := c), flushed := (flushed s)(i := False)\<rparr>
           | None \<Rightarrow> s)
      | Sync_tmp \<Rightarrow>
          (case listing s tmp of Some i \<Rightarrow> s\<lparr>flushed := (flushed s)(i := True)\<rparr> | None \<Rightarrow> s)
      | Rename_tmp \<Rightarrow> s\<lparr>listings := listings s @ [(listing s)(name := listing s tmp, tmp := None)]\<rparr>
      | Sync_dir \<Rightarrow> s\<lparr>listings := [listing s]\<rparr>)"

definition atomic_steps :: "write_step list" where
  "atomic_steps = [Open_tmp, Write_tmp, Sync_tmp, Rename_tmp]"

definition save_pending_steps :: "write_step list" where
  "save_pending_steps = [Open_tmp, Write_tmp, Sync_tmp, Rename_tmp, Sync_dir]"

definition served_version_steps :: "write_step list" where
  "served_version_steps = [Open_tmp, Write_tmp, Rename_tmp]"

definition boot_attempts_steps :: "write_step list" where
  "boot_attempts_steps = [Open_tmp, Write_tmp]"

text \<open>\<open>Path::with_extension\<close> on a file name: the part after the last dot goes, unless the dot leads.\<close>

definition with_extension :: "string \<Rightarrow> string \<Rightarrow> string" where
  "with_extension name ext =
     (case rsplit_once (CHR ''.'') name of
        Some (stem, _) \<Rightarrow> (if stem = [] then name else stem) @ ''.'' @ ext
      | None \<Rightarrow> name @ ''.'' @ ext)"

text \<open>The markers published after a flush, each with its temporary file.\<close>

definition flushed_markers :: "(string \<times> string) list" where
  "flushed_markers =
     map (\<lambda>n. (n, with_extension n ''tmp''))
       [''.railway_gr_group_name'', ''.railway_pre_gtid_data'', ''.railway_gr_waiver_generation'', ''.railway_gr_member'',
        ''.railway_gr_high_water'', ''.pitr_uploaded_binlogs.json'', ''.railway_selfheal_attempts''] @
     map (\<lambda>n. (n, n @ ''.tmp''))
       [''.railway_active_root_password'', ''.pitr_restore_state.json'', ''.railway_rotation'']"

definition served_version_file :: "string \<times> string" where
  "served_version_file =
     (''.railway_served_server_version'', with_extension ''.railway_served_server_version'' ''tmp'')"

definition boot_attempts_file :: string where
  "boot_attempts_file = ''.railway_boot_attempts''"

text \<open>
  What happens to the volume: a publication cut off after some of its steps (an error, a
  crash) or complete, the unflushed and the in-place write, and power cuts.
\<close>

datatype volume_event =
    Publish "string \<times> string" string nat
  | Publish_pending string nat
  | Publish_served string nat
  | Count_boot string nat
  | Cut_power nat "nat \<Rightarrow> nat"

definition writing :: "string \<times> string \<Rightarrow> string \<Rightarrow> write_step list \<Rightarrow> volume_disk \<Rightarrow> volume_disk" where
  "writing f c sts s = foldl (write_step_on (fst f) (snd f) c) s sts"

definition rotation_file :: "string \<times> string" where
  "rotation_file = (''.railway_rotation'', ''.railway_rotation.tmp'')"

definition happens :: "volume_disk \<Rightarrow> volume_event \<Rightarrow> volume_disk" where
  "happens s ev =
     (case ev of
        Publish f c k \<Rightarrow> if f \<in> set flushed_markers then writing f c (take k atomic_steps) s else s
      | Publish_pending c k \<Rightarrow> writing rotation_file c (take k save_pending_steps) s
      | Publish_served c k \<Rightarrow> writing served_version_file c (take k served_version_steps) s
      | Count_boot c k \<Rightarrow> writing (boot_attempts_file, boot_attempts_file) c (take k boot_attempts_steps) s
      | Cut_power k kept \<Rightarrow> power_cut k kept s)"

section \<open>Temporary files belong to nobody else\<close>

text \<open>
  \<open>ts\<close> are the names written into, \<open>ms\<close> the names published. A file being written has
  no other name in any listing, and is under none of the published names.
\<close>

definition bounded :: "volume_disk \<Rightarrow> bool" where
  "bounded s \<longleftrightarrow> (\<forall>d \<in> set (listings s). \<forall>n i. d n = Some i \<longrightarrow> i < next_inode s)"

definition unaliased :: "string set \<Rightarrow> volume_disk \<Rightarrow> bool" where
  "unaliased ts s \<longleftrightarrow> (\<forall>d \<in> set (listings s). \<forall>t \<in> ts. \<forall>n i. d t = Some i \<longrightarrow> d n = Some i \<longrightarrow> n = t)"

definition unpublished :: "string set \<Rightarrow> string set \<Rightarrow> volume_disk \<Rightarrow> bool" where
  "unpublished ts ms s \<longleftrightarrow> (\<forall>d \<in> set (listings s). \<forall>t \<in> ts. \<forall>m \<in> ms. \<forall>i. listing s t = Some i \<longrightarrow> d m \<noteq> Some i)"

definition apart :: "string set \<Rightarrow> string set \<Rightarrow> volume_disk \<Rightarrow> bool" where
  "apart ts ms s \<longleftrightarrow> listings s \<noteq> [] \<and> bounded s \<and> unaliased ts s \<and> unpublished ts ms s"

lemma listing_in: "apart ts ms s \<Longrightarrow> listing s \<in> set (listings s)"
  by (simp add: apart_def listing_def)

lemma boundedD: "apart ts ms s \<Longrightarrow> d \<in> set (listings s) \<Longrightarrow> d n = Some i \<Longrightarrow> i < next_inode s"
  by (auto simp: apart_def bounded_def)

lemma unaliasedD: "apart ts ms s \<Longrightarrow> d \<in> set (listings s) \<Longrightarrow> t \<in> ts \<Longrightarrow> d t = Some i \<Longrightarrow> d n = Some i \<Longrightarrow> n = t"
  by (auto simp: apart_def unaliased_def)

lemma unpublishedD: "apart ts ms s \<Longrightarrow> d \<in> set (listings s) \<Longrightarrow> t \<in> ts \<Longrightarrow> m \<in> ms \<Longrightarrow> listing s t = Some i \<Longrightarrow> d m \<noteq> Some i"
  by (auto simp: apart_def unpublished_def)

lemma listing_update [simp]:
  "listing (s\<lparr>bytes_at := b\<rparr>) = listing s" "listing (s\<lparr>flushed := f\<rparr>) = listing s" "listing (s\<lparr>next_inode := n\<rparr>) = listing s"
  "listing (s\<lparr>listings := ls @ [d]\<rparr>) = d" "listing (s\<lparr>listings := [d]\<rparr>) = d"
  by (simp_all add: listing_def)

lemma apart_content [simp]:
  "apart ts ms (s\<lparr>bytes_at := b\<rparr>) = apart ts ms s" "apart ts ms (s\<lparr>flushed := f\<rparr>) = apart ts ms s"
  by (simp_all add: apart_def bounded_def unaliased_def unpublished_def)

lemma apart_blank: "apart ts ms blank_volume"
  by (simp add: apart_def bounded_def unaliased_def unpublished_def blank_volume_def)

lemma apart_one:
  assumes "apart ts ms s" and "ts \<inter> ms = {}" and "d \<in> set (listings s)"
  shows "apart ts ms (s\<lparr>listings := [d]\<rparr>)"
proof -
  have "d m \<noteq> Some i" if "t \<in> ts" "m \<in> ms" "d t = Some i" for t m i
    using unaliasedD [OF assms(1,3) that(1,3), of m] assms(2) that by blast
  then show ?thesis
    using assms(1,3) by (simp add: apart_def bounded_def unaliased_def unpublished_def)
qed

lemma apart_power_cut:
  assumes "apart ts ms s" and "ts \<inter> ms = {}"
  shows "apart ts ms (power_cut k kept s)"
  using apart_one [OF assms, of "listings s ! (k mod length (listings s))"] assms(1)
  by (simp add: power_cut_def apart_def bounded_def unaliased_def unpublished_def)

lemma apart_open:
  assumes a: "apart ts ms s" and "tmp \<in> ts" and "ts \<inter> ms = {}" and "listing s tmp = None"
  shows "apart ts ms (s\<lparr>listings := listings s @ [(listing s)(tmp := Some (next_inode s))], next_inode := next_inode s + 1\<rparr>)"
proof -
  have l: "listing s \<in> set (listings s)" by (rule listing_in [OF a])
  have new: "d n \<noteq> Some (next_inode s)" if "d \<in> set (listings s)" for d n
    using boundedD [OF a that] by force
  show ?thesis
    unfolding apart_def
  proof (intro conjI)
    show "bounded (s\<lparr>listings := listings s @ [(listing s)(tmp := Some (next_inode s))], next_inode := next_inode s + 1\<rparr>)"
      using boundedD [OF a] l by (auto simp: bounded_def intro: less_SucI)
    show "unaliased ts (s\<lparr>listings := listings s @ [(listing s)(tmp := Some (next_inode s))], next_inode := next_inode s + 1\<rparr>)"
      using unaliasedD [OF a] new l by (auto simp: unaliased_def split: if_splits)
    show "unpublished ts ms (s\<lparr>listings := listings s @ [(listing s)(tmp := Some (next_inode s))], next_inode := next_inode s + 1\<rparr>)"
      using unpublishedD [OF a] new l assms(2,3) by (auto simp: unpublished_def split: if_splits)
  qed simp
qed

lemma apart_rename:
  assumes a: "apart ts ms s" and "tmp \<in> ts" and "name \<in> ms" and "ts \<inter> ms = {}"
  shows "apart ts ms (s\<lparr>listings := listings s @ [(listing s)(name := listing s tmp, tmp := None)]\<rparr>)"
proof -
  have l: "listing s \<in> set (listings s)" by (rule listing_in [OF a])
  have own: "n = tmp" if "listing s tmp = Some i" "listing s n = Some i" for n i
    using unaliasedD [OF a l assms(2) that] .
  show ?thesis
    unfolding apart_def
  proof (intro conjI)
    show "bounded (s\<lparr>listings := listings s @ [(listing s)(name := listing s tmp, tmp := None)]\<rparr>)"
      using boundedD [OF a] l by (auto simp: bounded_def split: if_splits)
    have "n = t" if t: "t \<in> ts" and e: "((listing s)(name := listing s tmp, tmp := None)) t = Some i"
      "((listing s)(name := listing s tmp, tmp := None)) n = Some i" for t n i
    proof -
      have "t \<noteq> tmp" "n \<noteq> tmp" "t \<noteq> name"
        using e t assms(3,4) by auto
      then show ?thesis
        using e own [of i t] unaliasedD [OF a l t, of i n] by (cases "n = name") auto
    qed
    then show "unaliased ts (s\<lparr>listings := listings s @ [(listing s)(name := listing s tmp, tmp := None)]\<rparr>)"
      using a by (auto simp: unaliased_def apart_def simp del: fun_upd_apply)
    have "d m \<noteq> Some i" if "t \<in> ts" "m \<in> ms" "t \<noteq> tmp" "listing s t = Some i"
      "d \<in> set (listings s) \<or> d = (listing s)(name := listing s tmp, tmp := None)" for t m i d
    proof (cases "d \<in> set (listings s)")
      case True
      then show ?thesis using unpublishedD [OF a True that(1,2,4)] by simp
    next
      case False
      then show ?thesis
        using that own [of i t] unpublishedD [OF a l that(1,2,4)] by (cases "m = name") auto
    qed
    moreover have "t \<noteq> name" if "t \<in> ts" for t
      using that assms(3,4) by blast
    ultimately show "unpublished ts ms (s\<lparr>listings := listings s @ [(listing s)(name := listing s tmp, tmp := None)]\<rparr>)"
      by (fastforce simp: unpublished_def split: if_splits)
  qed simp
qed

lemma apart_step:
  assumes "apart ts ms s" and "tmp \<in> ts" and "st = Rename_tmp \<Longrightarrow> name \<in> ms" and "ts \<inter> ms = {}"
  shows "apart ts ms (write_step_on name tmp c s st)"
proof (cases st)
  case Open_tmp
  then show ?thesis
    using assms(1) apart_open [OF assms(1,2,4)] by (auto simp: write_step_on_def apart_def bounded_def unaliased_def unpublished_def split: option.split)
next
  case Rename_tmp
  then show ?thesis
    using apart_rename [OF assms(1,2) assms(3) [OF Rename_tmp] assms(4)] by (simp add: write_step_on_def)
next
  case Sync_dir
  then show ?thesis
    using apart_one [OF assms(1,4) listing_in [OF assms(1)]] by (simp add: write_step_on_def)
qed (use assms(1) in \<open>auto simp: write_step_on_def split: option.split\<close>)

section \<open>What a power cut may bring back\<close>

text \<open>A step that renames nothing leaves every published name as it was.\<close>

lemma may_read_keeps:
  assumes a: "apart ts ms s" and "tmp \<in> ts" and "m \<in> ms" and "ts \<inter> ms = {}"
    and "st \<noteq> Rename_tmp \<or> m \<noteq> name" and r: "may_read (write_step_on name tmp c s st) m v"
  shows "may_read s m v"
proof -
  have "m \<noteq> tmp" using assms(2-4) by blast
  have other: "d m \<noteq> Some i" if "d \<in> set (listings s)" "listing s tmp = Some i" for d i
    using unpublishedD [OF a that(1) assms(2,3) that(2)] .
  have l: "listing s \<in> set (listings s)" by (rule listing_in [OF a])
  have fresh: "d m \<noteq> Some (next_inode s)" if "d \<in> set (listings s)" for d
    using boundedD [OF a that] by force
  have "may_read s m v" if "d \<in> set (listings s)"
    "case d m of None \<Rightarrow> v = None | Some i \<Rightarrow> \<exists>x. v = Some x \<and> may_hold (write_step_on name tmp c s st) i x" for d
  proof -
    have "may_hold (write_step_on name tmp c s st) i x = may_hold s i x" if "d m = Some i" for i x
      using that other [OF \<open>d \<in> set (listings s)\<close>] fresh [OF \<open>d \<in> set (listings s)\<close>]
      by (cases st) (auto simp: write_step_on_def may_hold_def split: option.split)
    then show ?thesis
      using that unfolding may_read_def by (intro bexI [of _ d]) (auto split: option.splits)
  qed
  moreover have "\<exists>d' \<in> set (listings s). d' m = d m" if "d \<in> set (listings (write_step_on name tmp c s st))" for d
    using that l \<open>m \<noteq> tmp\<close> assms(5) by (cases st) (auto simp: write_step_on_def split: option.splits)
  ultimately show ?thesis
    using r unfolding may_read_def [of "write_step_on name tmp c s st"] by metis
qed

lemma may_read_renamed:
  assumes a: "apart ts ms s" and "name \<noteq> tmp" and i: "listing s tmp = Some i"
    and r: "may_read (write_step_on name tmp c s Rename_tmp) name v"
  shows "may_read s name v \<or> (\<exists>x. v = Some x \<and> may_hold s i x)"
proof -
  have h: "may_hold (write_step_on name tmp c s Rename_tmp) = may_hold s"
    by (simp add: write_step_on_def may_hold_def fun_eq_iff)
  obtain d where d: "d \<in> set (listings (write_step_on name tmp c s Rename_tmp))"
    and v: "case d name of None \<Rightarrow> v = None | Some i \<Rightarrow> \<exists>x. v = Some x \<and> may_hold s i x"
    using r unfolding may_read_def h by blast
  show ?thesis
  proof (cases "d \<in> set (listings s)")
    case True
    then show ?thesis using v unfolding may_read_def by blast
  next
    case False
    then have "d name = Some i"
      using d i assms(2) by (simp add: write_step_on_def)
    then show ?thesis using v by simp
  qed
qed

lemma may_read_power_cut:
  assumes "listings s \<noteq> []" and "may_read (power_cut k kept s) n v"
  shows "may_read s n v"
proof -
  let ?d = "listings s ! (k mod length (listings s))"
  have "?d \<in> set (listings s)" using assms(1) by simp
  then show ?thesis
    using assms(2) unfolding may_read_def by (intro bexI [of _ ?d]) (auto simp: power_cut_def may_hold_def split: option.splits)
qed

text \<open>The written file, step by step.\<close>

lemma opened: "\<exists>i. listing (write_step_on name tmp c s Open_tmp) tmp = Some i"
  by (auto simp: write_step_on_def split: option.split)

lemma written:
  "listing s tmp = Some i \<Longrightarrow> listing (write_step_on name tmp c s Write_tmp) tmp = Some i \<and> bytes_at (write_step_on name tmp c s Write_tmp) i = c"
  by (simp add: write_step_on_def)

lemma synced:
  "listing s tmp = Some i \<Longrightarrow> listing (write_step_on name tmp c s Sync_tmp) tmp = Some i \<and> flushed (write_step_on name tmp c s Sync_tmp) i \<and>
     bytes_at (write_step_on name tmp c s Sync_tmp) = bytes_at s"
  by (simp add: write_step_on_def)

lemma writing_simps [simp]:
  "writing f c [] s = s" "writing f c (st # sts) s = writing f c sts (write_step_on (fst f) (snd f) c s st)"
  by (simp_all add: writing_def)

lemma apart_writing:
  assumes "apart ts ms s" and "snd f \<in> ts" and "Rename_tmp \<in> set sts \<Longrightarrow> fst f \<in> ms" and "ts \<inter> ms = {}"
  shows "apart ts ms (writing f c sts s)"
  using assms(1,3)
proof (induction sts arbitrary: s)
  case (Cons st sts)
  have "apart ts ms (write_step_on (fst f) (snd f) c s st)"
    by (rule apart_step [OF Cons.prems(1) assms(2) _ assms(4)]) (use Cons.prems(2) in simp)
  then show ?case
    using Cons.IH Cons.prems(2) by simp
qed simp

lemma writing_keeps:
  assumes "apart ts ms s" and "snd f \<in> ts" and "m \<in> ms" and "ts \<inter> ms = {}"
    and "Rename_tmp \<notin> set sts \<or> m \<noteq> fst f" and "Rename_tmp \<in> set sts \<Longrightarrow> fst f \<in> ms"
    and "may_read (writing f c sts s) m v"
  shows "may_read s m v"
  using assms(1,5-7)
proof (induction sts arbitrary: s)
  case (Cons st sts)
  let ?s = "write_step_on (fst f) (snd f) c s st"
  have "apart ts ms ?s"
    by (rule apart_step [OF Cons.prems(1) assms(2) _ assms(4)]) (use Cons.prems(3) in simp)
  then have "may_read ?s m v"
    using Cons.IH [of ?s] Cons.prems by auto
  then show ?case
    using may_read_keeps [OF Cons.prems(1) assms(2,3,4), of st "fst f" c v] Cons.prems(2) by auto
qed simp

text \<open>A publication renames once, after its other steps; what it may show is the old or its own.\<close>

lemma writing_shows:
  assumes a: "apart ts ms s" and f: "snd f \<in> ts" "fst f \<in> ms" "ts \<inter> ms = {}"
    and pre: "Rename_tmp \<notin> set pre" and post: "Rename_tmp \<notin> set post"
    and tmp: "listing (writing f c pre s) (snd f) = Some i"
    and r: "may_read (writing f c (pre @ Rename_tmp # post) s) (fst f) v"
  shows "may_read s (fst f) v \<or> (\<exists>x. v = Some x \<and> may_hold (writing f c pre s) i x)"
proof -
  let ?s1 = "writing f c pre s" and ?s2 = "writing f c (pre @ [Rename_tmp]) s"
  have a1: "apart ts ms ?s1"
    by (rule apart_writing [OF a f(1) _ f(3)]) (use pre in simp)
  have a2: "apart ts ms ?s2"
    by (rule apart_writing [OF a f(1) _ f(3)]) (use f in simp)
  have "writing f c (pre @ Rename_tmp # post) s = writing f c post ?s2"
    by (simp add: writing_def)
  then have "may_read ?s2 (fst f) v"
    using writing_keeps [OF a2 f(1) f(2) f(3), of post] post r by simp
  moreover have "?s2 = write_step_on (fst f) (snd f) c ?s1 Rename_tmp"
    by (simp add: writing_def)
  moreover have "fst f \<noteq> snd f" using f by auto
  ultimately have "may_read ?s1 (fst f) v \<or> (\<exists>x. v = Some x \<and> may_hold ?s1 i x)"
    using may_read_renamed [OF a1 _ tmp] by simp
  then show ?thesis
    using writing_keeps [OF a f(1) f(2) f(3), of pre] pre by auto
qed

text \<open>The three ways a published file is written, cut off after \<open>k\<close> steps.\<close>

lemma flushed_before_rename:
  "\<exists>i. listing (writing f c [Open_tmp, Write_tmp, Sync_tmp] s) (snd f) = Some i \<and>
     may_hold (writing f c [Open_tmp, Write_tmp, Sync_tmp] s) i = (\<lambda>x. x = c)"
proof -
  obtain i where "listing (write_step_on (fst f) (snd f) c s Open_tmp) (snd f) = Some i"
    using opened by blast
  note w = written [OF this, of "fst f" c]
  note y = synced [OF conjunct1 [OF w], of "fst f" c]
  show ?thesis
    using w y by (intro exI [of _ i]) (simp add: may_hold_def fun_eq_iff)
qed

lemma unflushed_before_rename:
  "\<exists>i. listing (writing f c [Open_tmp, Write_tmp] s) (snd f) = Some i \<and>
     (\<forall>x. may_hold (writing f c [Open_tmp, Write_tmp] s) i x \<longrightarrow> (\<exists>k. x = take k c))"
proof -
  obtain i where "listing (write_step_on (fst f) (snd f) c s Open_tmp) (snd f) = Some i"
    using opened by blast
  note w = written [OF this, of "fst f" c]
  have "\<exists>k. c = take k c" by (rule exI [of _ "length c"]) simp
  then show ?thesis
    using w by (intro exI [of _ i]) (auto simp: may_hold_def split: if_splits)
qed

lemma take_steps:
  "take k atomic_steps = take (min k 4) atomic_steps" "take k save_pending_steps = take (min k 5) save_pending_steps"
  "take k served_version_steps = take (min k 3) served_version_steps"
  by (simp_all add: atomic_steps_def save_pending_steps_def served_version_steps_def take_Cons' min_def)

lemma prefix_cases:
  "(Rename_tmp \<notin> set (take k atomic_steps)) \<or> take k atomic_steps = [Open_tmp, Write_tmp, Sync_tmp] @ Rename_tmp # []"
  "(Rename_tmp \<notin> set (take k save_pending_steps)) \<or>
     (\<exists>post. take k save_pending_steps = [Open_tmp, Write_tmp, Sync_tmp] @ Rename_tmp # post \<and> Rename_tmp \<notin> set post)"
  "(Rename_tmp \<notin> set (take k served_version_steps)) \<or> take k served_version_steps = [Open_tmp, Write_tmp] @ Rename_tmp # []"
  by (auto simp: atomic_steps_def save_pending_steps_def served_version_steps_def take_Cons')

lemma flushed_shows:
  assumes a: "apart ts ms s" and f: "snd f \<in> ts" "fst f \<in> ms" "ts \<inter> ms = {}"
    and "sts = take k atomic_steps \<or> sts = take k save_pending_steps" and r: "may_read (writing f c sts s) (fst f) v"
  shows "may_read s (fst f) v \<or> v = Some c"
proof -
  obtain i where i: "listing (writing f c [Open_tmp, Write_tmp, Sync_tmp] s) (snd f) = Some i"
    and h: "may_hold (writing f c [Open_tmp, Write_tmp, Sync_tmp] s) i = (\<lambda>x. x = c)"
    using flushed_before_rename by blast
  consider (none) "Rename_tmp \<notin> set sts"
    | (renamed) post where "sts = [Open_tmp, Write_tmp, Sync_tmp] @ Rename_tmp # post" "Rename_tmp \<notin> set post"
    using assms(5) prefix_cases(1,2) [of k] by (elim disjE exE conjE) auto
  then show ?thesis
  proof cases
    case none
    then show ?thesis
      using writing_keeps [OF a f(1) f(2) f(3) _ _ r] by simp
  next
    case renamed
    then show ?thesis
      using writing_shows [OF a f _ renamed(2) i] r h by auto
  qed
qed

lemma unflushed_shows:
  assumes a: "apart ts ms s" and f: "snd f \<in> ts" "fst f \<in> ms" "ts \<inter> ms = {}"
    and r: "may_read (writing f c (take k served_version_steps) s) (fst f) v"
  shows "may_read s (fst f) v \<or> (\<exists>j. v = Some (take j c))"
proof -
  obtain i where i: "listing (writing f c [Open_tmp, Write_tmp] s) (snd f) = Some i"
    and h: "\<And>x. may_hold (writing f c [Open_tmp, Write_tmp] s) i x \<Longrightarrow> \<exists>j. x = take j c"
    using unflushed_before_rename by blast
  show ?thesis
    using prefix_cases(3) [of k]
  proof (elim disjE)
    assume "Rename_tmp \<notin> set (take k served_version_steps)"
    then show ?thesis
      using writing_keeps [OF a f(1) f(2) f(3) _ _ r] by simp
  next
    assume "take k served_version_steps = [Open_tmp, Write_tmp] @ Rename_tmp # []"
    then show ?thesis
      using writing_shows [OF a f _ _ i, of "[]"] r h by auto
  qed
qed

section \<open>The volume of a node\<close>

definition published_names :: "string set" where
  "published_names = insert (fst served_version_file) (set (map fst flushed_markers))"

definition written_names :: "string set" where
  "written_names = insert boot_attempts_file (insert (snd served_version_file) (set (map snd flushed_markers)))"

lemma with_extension_simps:
  "with_extension ''.railway_gr_group_name'' ''tmp'' = ''.railway_gr_group_name.tmp''"
  "with_extension ''.railway_pre_gtid_data'' ''tmp'' = ''.railway_pre_gtid_data.tmp''"
  "with_extension ''.railway_gr_waiver_generation'' ''tmp'' = ''.railway_gr_waiver_generation.tmp''"
  "with_extension ''.railway_gr_member'' ''tmp'' = ''.railway_gr_member.tmp''"
  "with_extension ''.railway_gr_high_water'' ''tmp'' = ''.railway_gr_high_water.tmp''"
  "with_extension ''.pitr_uploaded_binlogs.json'' ''tmp'' = ''.pitr_uploaded_binlogs.tmp''"
  "with_extension ''.railway_selfheal_attempts'' ''tmp'' = ''.railway_selfheal_attempts.tmp''"
  "with_extension ''.railway_served_server_version'' ''tmp'' = ''.railway_served_server_version.tmp''"
  by (simp_all add: with_extension_def rsplit_once_def split_once_def)

lemma names_apart: "written_names \<inter> published_names = {}"
  by (simp add: written_names_def published_names_def flushed_markers_def served_version_file_def boot_attempts_file_def
      with_extension_simps)

lemma rotation_in_flushed: "rotation_file \<in> set flushed_markers"
  by (simp add: rotation_file_def flushed_markers_def)

lemma boot_attempts_apart: "boot_attempts_file \<notin> published_names"
  using names_apart by (auto simp: written_names_def)

lemma served_apart: "fst served_version_file \<notin> set (map fst flushed_markers)"
  by (simp add: served_version_file_def flushed_markers_def)

lemma member_names:
  "f \<in> set flushed_markers \<Longrightarrow> snd f \<in> written_names" "f \<in> set flushed_markers \<Longrightarrow> fst f \<in> published_names"
  "snd served_version_file \<in> written_names" "fst served_version_file \<in> published_names" "boot_attempts_file \<in> written_names"
  by (auto simp: written_names_def published_names_def)

lemma no_rename_in_counting: "Rename_tmp \<notin> set (take k boot_attempts_steps)"
  using set_take_subset [of k boot_attempts_steps] by (auto simp: boot_attempts_steps_def)

lemma apart_happens:
  assumes a: "apart written_names published_names s"
  shows "apart written_names published_names (happens s ev)"
proof (cases ev)
  case (Publish f c k)
  then show ?thesis
    using apart_writing [OF a _ _ names_apart, of f "take k atomic_steps" c] member_names a by (simp add: happens_def)
next
  case (Publish_pending c k)
  then show ?thesis
    using apart_writing [OF a _ _ names_apart, of rotation_file "take k save_pending_steps" c] member_names rotation_in_flushed
    by (simp add: happens_def)
next
  case (Publish_served c k)
  then show ?thesis
    using apart_writing [OF a _ _ names_apart, of served_version_file "take k served_version_steps" c] member_names
    by (simp add: happens_def)
next
  case (Count_boot c k)
  then show ?thesis
    using apart_writing [OF a _ _ names_apart, of "(boot_attempts_file, boot_attempts_file)" "take k boot_attempts_steps" c]
      member_names no_rename_in_counting by (simp add: happens_def)
next
  case (Cut_power k kept)
  then show ?thesis
    using apart_power_cut [OF a names_apart] by (simp add: happens_def)
qed

lemma apart_volume: "apart written_names published_names (foldl happens blank_volume es)"
  by (induction es rule: rev_induct) (simp_all add: apart_blank apart_happens)

text \<open>The contents an event writes, or begins to write, under a name.\<close>

fun writes_to :: "string \<Rightarrow> volume_event \<Rightarrow> string list" where
  "writes_to n (Publish f c k) = (if f \<in> set flushed_markers \<and> fst f = n then [c] else [])"
| "writes_to n (Publish_pending c k) = (if fst rotation_file = n then [c] else [])"
| "writes_to n (Publish_served c k) = (if fst served_version_file = n then [c] else [])"
| "writes_to n (Count_boot c k) = (if boot_attempts_file = n then [c] else [])"
| "writes_to n (Cut_power k kept) = []"

definition all_writes :: "string \<Rightarrow> volume_event list \<Rightarrow> string list" where
  "all_writes n es = concat (map (writes_to n) es)"

lemma all_writes_snoc [simp]: "all_writes n (es @ [ev]) = all_writes n es @ writes_to n ev" "all_writes n [] = []"
  by (simp_all add: all_writes_def)

lemma happens_shows:
  assumes a: "apart written_names published_names s" and m: "m \<in> published_names" and r: "may_read (happens s ev) m v"
  shows "may_read s m v \<or> (\<exists>c \<in> set (writes_to m ev). if m = fst served_version_file then \<exists>j. v = Some (take j c) else v = Some c)"
proof (cases ev)
  case (Publish f c k)
  show ?thesis
  proof (cases "f \<in> set flushed_markers")
    case True
    note n = member_names(1,2) [OF True] names_apart
    have "fst f \<noteq> fst served_version_file"
      using served_apart True by (metis imageI set_map)
    then show ?thesis
      using r True Publish flushed_shows [OF a n, of _ k c v] writing_keeps [OF a n(1) m n(3), of _ c v] n(2)
      by (cases "m = fst f") (auto simp: happens_def)
  qed (use r Publish in \<open>simp add: happens_def\<close>)
next
  case (Publish_pending c k)
  note n = member_names(1,2) [OF rotation_in_flushed] names_apart
  have "fst rotation_file \<noteq> fst served_version_file"
    using served_apart rotation_in_flushed by (metis imageI set_map)
  then show ?thesis
    using r Publish_pending flushed_shows [OF a n, of _ k c v] writing_keeps [OF a n(1) m n(3), of _ c v] n(2)
    by (cases "m = fst rotation_file") (auto simp: happens_def)
next
  case (Publish_served c k)
  note n = member_names(3,4) names_apart
  show ?thesis
    using r Publish_served unflushed_shows [OF a n, of c k v] writing_keeps [OF a n(1) m n(3), of _ c v] n(2)
    by (cases "m = fst served_version_file") (auto simp: happens_def)
next
  case (Count_boot c k)
  then have "may_read s m v"
    using r writing_keeps [OF a _ m names_apart, of "(boot_attempts_file, boot_attempts_file)" "take k boot_attempts_steps" c v]
      no_rename_in_counting [of k] member_names(5) by (simp add: happens_def)
  then show ?thesis ..
next
  case (Cut_power k kept)
  then show ?thesis
    using r may_read_power_cut a by (auto simp: happens_def apart_def)
qed

lemma volume_shows:
  assumes "m \<in> published_names" and "may_read (foldl happens blank_volume es) m v"
  shows "v = None \<or> (\<exists>c \<in> set (all_writes m es). if m = fst served_version_file then \<exists>j. v = Some (take j c) else v = Some c)"
  using assms(2)
proof (induction es rule: rev_induct)
  case Nil
  then show ?case by (simp add: may_read_def blank_volume_def)
next
  case (snoc ev es)
  have "may_read (happens (foldl happens blank_volume es) ev) m v"
    using snoc.prems by simp
  from happens_shows [OF apart_volume assms(1) this] show ?case
  proof
    assume "may_read (foldl happens blank_volume es) m v"
    from snoc.IH [OF this] show ?thesis by fastforce
  next
    assume "\<exists>c \<in> set (writes_to m ev). if m = fst served_version_file then \<exists>j. v = Some (take j c) else v = Some c"
    then show ?thesis by fastforce
  qed
qed

section \<open>A torn version\<close>

lemma digits_val_prefix: "digits_val xs \<le> digits_val (xs @ ys)"
proof (induction ys rule: rev_induct)
  case (snoc c ys)
  have "digits_val (xs @ ys @ [c]) = digits_val (xs @ ys) * 10 + digit_val c"
    using digits_val_snoc [of "xs @ ys" c] by simp
  with snoc show ?case by simp
qed simp

lemma take_line: "\<exists>t u. trim (take k (s @ [newline])) = t \<and> s = t @ u" if "list_all (\<lambda>c. \<not> is_ws c) s" "s \<noteq> []"
proof (cases "k \<le> length s")
  case True
  have "list_all (\<lambda>c. \<not> is_ws c) (take k s)"
    using that(1) by (auto simp: list_all_iff dest: in_set_takeD)
  then have "trim (take k s) = take k s"
    by (simp add: trim_def dropWhile_none trim_end_by_none)
  then show ?thesis
    using True by (intro exI [of _ "take k s"] exI [of _ "drop k s"]) simp
next
  case False
  then show ?thesis
    using trim_line [OF that] by (intro exI [of _ s] exI [of _ "[]"]) simp
qed

text \<open>A torn counter reads as at most the count that was being written.\<close>

lemma torn_count_le:
  assumes "parse_uint hi (trim (take k (show_nat n @ [newline]))) = Some j"
  shows "j \<le> n"
proof -
  obtain t u where t: "trim (take k (show_nat n @ [newline])) = t" and s: "show_nat n = t @ u"
    using take_line [OF show_nat_no_ws show_nat_not_Nil] by blast
  have d: "list_all is_digit t"
    using show_nat_digits [of n] s by simp
  have "t \<noteq> []"
    using assms unfolding t by (auto simp: parse_uint_def)
  then have "j = digits_val t"
    using assms d unfolding t by (simp add: parse_uint_digits split: if_splits)
  also have "\<dots> \<le> digits_val (t @ u)" by (rule digits_val_prefix)
  finally show ?thesis by (simp flip: s)
qed

lemma show_version_no_ws: "list_all (\<lambda>c. \<not> is_ws c) (show_version v)" "show_version v \<noteq> []"
  using show_u32_props(1) digit_not_ws
  by (auto simp: show_version_def list_all_iff is_ws_def char_code_def)

lemma torn_version_le:
  assumes "parse_version (take k (show_version v @ [newline])) = Some w"
  shows "w \<le> v"
proof -
  obtain t u where t: "trim (take k (show_version v @ [newline])) = t" and s: "show_version v = t @ u"
    using take_line [OF show_version_no_ws] by blast
  obtain a r b rest ma mi pa where 1: "split_once (CHR ''.'') t = Some (a, r)" "split_once (CHR ''.'') r = Some (b, rest)"
    and p: "parse_u32 a = Some ma" "parse_u32 b = Some mi" "parse_u32 (takeWhile is_digit rest) = Some pa" and w: "w = Server_version ma mi pa"
    using assms unfolding parse_version_def t by (auto simp: bind_eq_Some_conv split: option.splits prod.splits)
  obtain x y z where v: "v = Server_version x y z" by (cases v)
  have e: "show_u32 x @ CHR ''.'' # show_u32 y @ CHR ''.'' # show_u32 z = a @ CHR ''.'' # b @ CHR ''.'' # rest @ u"
    using s 1 by (simp add: show_version_def v split_once_Some)
  have "split_once (CHR ''.'') (show_u32 x @ CHR ''.'' # show_u32 y @ CHR ''.'' # show_u32 z) = Some (a, b @ CHR ''.'' # rest @ u)"
    unfolding e using 1(1) by (simp add: split_once_Some)
  then have ax: "a = show_u32 x" and e2: "show_u32 y @ CHR ''.'' # show_u32 z = b @ CHR ''.'' # rest @ u"
    by (simp_all add: split_once_append)
  have "split_once (CHR ''.'') (show_u32 y @ CHR ''.'' # show_u32 z) = Some (b, rest @ u)"
    unfolding e2 using 1(2) by (simp add: split_once_Some)
  then have bx: "b = show_u32 y" and zr: "show_u32 z = rest @ u"
    by (simp_all add: split_once_append)
  have "list_all is_digit rest"
    using show_u32_props(1) [of z] zr by simp
  then have "takeWhile is_digit rest = rest"
    by (simp add: list_all_iff)
  with p(3) have q: "parse_u32 rest = Some pa" by simp
  have "rest \<noteq> []" using q by (auto simp: parse_u32_def parse_uint_def)
  then obtain n where n: "n = digits_val rest" "pa = word_of_nat n" "n \<le> u32_max"
    using q \<open>list_all is_digit rest\<close> by (auto simp: parse_u32_def parse_uint_digits split: if_splits)
  have "digits_val rest \<le> unat z"
    using digits_val_prefix [of rest u] zr by (simp add: show_u32_def flip: zr)
  then have "pa \<le> z"
    using n by (simp add: word_le_nat_alt unat_of_nat u32_max_def)
  moreover have "ma = x" "mi = y"
    using p(1,2) by (simp_all add: ax bx)
  ultimately show ?thesis
    unfolding w v less_eq_server_version_def by auto
qed

section \<open>The properties\<close>

text \<open>
  Over any sequence of publications, complete or cut off at any step, of other writes
  and of power cuts, a marker published through a flushed temporary file reads as absent or as
  a whole content that was written for it: never as a part of one, and never as the content of
  another file.
\<close>
theorem markers_are_never_torn:
  assumes "m \<in> set (map fst flushed_markers)" and "may_read (foldl happens blank_volume es) m v"
  shows "v = None \<or> (\<exists>c \<in> set (all_writes m es). v = Some c)"
proof -
  have "m \<in> published_names"
    using assms(1) by (simp add: published_names_def)
  moreover have "m \<noteq> fst served_version_file"
    using assms(1) served_apart by metis
  ultimately show ?thesis
    using volume_shows [OF _ assms(2)] by auto
qed

lemma markers_are_never_torn_witness:
  "Some ''3'' = None \<or> (\<exists>c \<in> set (all_writes ''.railway_gr_high_water'' [Publish (''.railway_gr_high_water'', ''.railway_gr_high_water.tmp'') ''3'' 4]).
     Some ''3'' = Some c)"
proof (rule markers_are_never_torn)
  have m: "(''.railway_gr_high_water'', ''.railway_gr_high_water.tmp'') \<in> set flushed_markers"
    by (simp add: flushed_markers_def with_extension_simps)
  then show "''.railway_gr_high_water'' \<in> set (map fst flushed_markers)"
    by force
  show "may_read (foldl happens blank_volume [Publish (''.railway_gr_high_water'', ''.railway_gr_high_water.tmp'') ''3'' 4])
      ''.railway_gr_high_water'' (Some ''3'')"
    using m by (simp add: happens_def atomic_steps_def write_step_on_def blank_volume_def listing_def may_read_def may_hold_def)
qed

text \<open>
  The intent of a password rotation is durable once it is saved: after all five steps,
  whatever was on the volume before, a power cut brings back this intent and nothing else.
\<close>
theorem rotation_intent_is_durable:
  "may_read (happens s (Publish_pending c 5)) (fst rotation_file) v \<longleftrightarrow> v = Some c"
proof -
  obtain i where i: "listing (writing rotation_file c [Open_tmp, Write_tmp, Sync_tmp] s) (snd rotation_file) = Some i"
    and h: "may_hold (writing rotation_file c [Open_tmp, Write_tmp, Sync_tmp] s) i = (\<lambda>x. x = c)"
    using flushed_before_rename by blast
  let ?s = "writing rotation_file c [Open_tmp, Write_tmp, Sync_tmp] s"
  have e: "happens s (Publish_pending c 5) =
      write_step_on (fst rotation_file) (snd rotation_file) c (write_step_on (fst rotation_file) (snd rotation_file) c ?s Rename_tmp) Sync_dir"
    by (simp add: happens_def save_pending_steps_def)
  have "listings (happens s (Publish_pending c 5)) = [(listing ?s)(fst rotation_file := Some i, snd rotation_file := None)]"
    unfolding e using i by (simp add: write_step_on_def del: writing_simps)
  moreover have "may_hold (happens s (Publish_pending c 5)) = may_hold ?s"
    unfolding e by (simp add: write_step_on_def may_hold_def fun_eq_iff del: writing_simps)
  ultimately show ?thesis
    using h by (simp add: may_read_def rotation_file_def)
qed

text \<open>
  The record of the served version is published without a flush, so a power cut may
  leave a part of it; but what is then read as a version is at most a version that was
  recorded, so a torn record makes the upgrade pass run again and never skips one.
\<close>
theorem torn_served_version_only_repeats:
  assumes "\<forall>c \<in> set (all_writes (fst served_version_file) es). \<exists>u. c = show_version u @ [newline]"
    and "may_read (foldl happens blank_volume es) (fst served_version_file) raw"
    and "Option.bind raw parse_version = Some w"
  shows "\<exists>u. show_version u @ [newline] \<in> set (all_writes (fst served_version_file) es) \<and> w \<le> u"
proof -
  have "fst served_version_file \<in> published_names" by (rule member_names(4))
  from volume_shows [OF this assms(2)] assms(3)
  obtain c j where "c \<in> set (all_writes (fst served_version_file) es)" and "parse_version (take j c) = Some w"
    by (auto simp: bind_eq_Some_conv)
  moreover then obtain u where "c = show_version u @ [newline]"
    using assms(1) by blast
  ultimately show ?thesis
    using torn_version_le by blast
qed

text \<open>The record of 8.4.10 cut to 8.4.1.\<close>

lemma torn_served_version_only_repeats_witness:
  "\<exists>u. show_version u @ [newline] \<in>
       set (all_writes (fst served_version_file) [Publish_served (show_version (Server_version 8 4 10) @ [newline]) 3]) \<and>
     Server_version 8 4 1 \<le> u"
proof (rule torn_served_version_only_repeats)
  let ?c = "show_version (Server_version 8 4 10) @ [newline]"
  show "\<forall>c \<in> set (all_writes (fst served_version_file) [Publish_served ?c 3]). \<exists>u. c = show_version u @ [newline]"
    by (auto simp: all_writes_def)
  show "may_read (foldl happens blank_volume [Publish_served ?c 3]) (fst served_version_file) (Some (take 5 ?c))"
    by (auto simp: happens_def served_version_steps_def write_step_on_def blank_volume_def listing_def may_read_def may_hold_def
        served_version_file_def with_extension_simps)
  have "take 5 ?c = show_version (Server_version 8 4 1)"
    by (simp add: show_version_def show_u32_def show_nat.simps)
  then show "Option.bind (Some (take 5 ?c)) parse_version = Some (Server_version 8 4 1)"
    by simp
qed

end
