(* ===== verification/Pipes.thy ===== *)
theory Pipes
  imports Restore
begin

text \<open>
  The processes of a restore attempt (\<open>restore.rs\<close>): the two waits on the restore-phase
  server and the pipe that loads the full backup, each as a function of what the processes
  did, and the attempt of \<open>Restore\<close> put together from them.
\<close>

section \<open>Waiting on the server\<close>

text \<open>
  One element per turn of a wait: the server exited, or the poll found what it looks for or
  not. \<open>None\<close>: still waiting when the script ends.
\<close>

datatype server_poll = Server_exited | Polled bool

fun wait_on_server :: "server_poll list \<Rightarrow> bool option" where
  "wait_on_server [] = None"
| "wait_on_server (p # ps) =
     (case p of Server_exited \<Rightarrow> Some False | Polled True \<Rightarrow> Some True | Polled False \<Rightarrow> wait_on_server ps)"

text \<open>The first write into the data directory: its entries at each poll, \<open>None\<close> when unreadable.\<close>

definition first_write_polls :: "string list option option list \<Rightarrow> server_poll list" where
  "first_write_polls ls =
     map (\<lambda>l. case l of None \<Rightarrow> Server_exited | Some d \<Rightarrow> Polled (case d of Some es \<Rightarrow> es \<noteq> [] | None \<Rightarrow> False)) ls"

definition write_marker_once_datadir_exists :: "string list option option list \<Rightarrow> bool option" where
  "write_marker_once_datadir_exists ls = wait_on_server (first_write_polls ls)"

text \<open>The final server: each poll's answer to whether it is the temporary one.\<close>

definition wait_for_ready_or_exit :: "bool option option list \<Rightarrow> bool option" where
  "wait_for_ready_or_exit ls =
     wait_on_server (map (\<lambda>l. case l of None \<Rightarrow> Server_exited | Some a \<Rightarrow> Polled (a = Some False)) ls)"

section \<open>Loading the full backup\<close>

text \<open>The tail of what a client wrote; \<open>lossy\<close> is the lossy decoding of bytes.\<close>

definition stderr_tail :: "(string \<Rightarrow> string) \<Rightarrow> string \<Rightarrow> string" where
  "stderr_tail lossy said = trim (lossy (drop (length said - 4096) said))"

definition with_said :: "string \<Rightarrow> string \<Rightarrow> string" where
  "with_said what said = (if said = [] then what else what @ '': '' @ said)"

text \<open>A status is \<open>None\<close> for success, or the text of the failure.\<close>

record load_facts =
  lf_get :: bool
  lf_spawns :: "bool \<times> bool"
  lf_waits :: "bool \<times> bool"
  lf_relay_in :: bool
  lf_relay_out :: bool
  lf_mysql_status :: "string option"
  lf_gunzip_status :: "string option"
  lf_said :: string

definition load_full_backup :: "load_facts \<Rightarrow> string + unit" where
  "load_full_backup f =
     (if \<not> lf_get f then Inl ''GET the full backup dump''
      else if \<not> fst (lf_spawns f) then Inl ''spawning gunzip''
      else if \<not> snd (lf_spawns f) then Inl ''spawning mysql''
      else if \<not> fst (lf_waits f) then Inl ''waiting for gunzip''
      else if \<not> snd (lf_waits f) then Inl ''waiting for mysql''
      else
        (case lf_mysql_status f of
           Some st \<Rightarrow> Inl (with_said (''mysql (loading the full backup) exited with '' @ st) (lf_said f))
         | None \<Rightarrow>
             if \<not> lf_relay_in f then Inl ''streaming the dump from S3 into gunzip''
             else if \<not> lf_relay_out f then Inl (with_said ''streaming gunzip's output into mysql'' (lf_said f))
             else (case lf_gunzip_status f of Some st \<Rightarrow> Inl (''gunzip exited with '' @ st) | None \<Rightarrow> Inr ())))"

section \<open>The attempt\<close>

record attempt_processes =
  ap_first :: "string list option option list"
  ap_ready :: "bool option option list"
  ap_load :: "full_backup_ref \<Rightarrow> load_facts"

definition with_processes :: "attempt_processes \<Rightarrow> restore_attempt \<Rightarrow> restore_attempt" where
  "with_processes p a =
     a\<lparr>a_first_write := (write_marker_once_datadir_exists (ap_first p) = Some True),
       a_ready := (wait_for_ready_or_exit (ap_ready p) = Some True),
       a_load := (\<lambda>full. load_full_backup (ap_load p full) = Inr ())\<rparr>"

section \<open>Lemmas\<close>

lemma load_full_backup_iff:
  "load_full_backup f = Inr () \<longleftrightarrow>
     lf_get f \<and> lf_spawns f = (True, True) \<and> lf_waits f = (True, True) \<and> lf_relay_in f \<and> lf_relay_out f \<and>
     lf_mysql_status f = None \<and> lf_gunzip_status f = None"
  by (auto simp: load_full_backup_def prod_eq_iff split: option.splits if_splits)

lemma run_loaded:
  assumes "run utc_of c a n v = (v', Inr achieved)"
  shows "\<exists>loc target full shared. restore_s3_location c = Some loc \<and> recovery_target_time c = Some target \<and>
    select_full a loc target = Inr (full, shared) \<and> a_first_write a \<and> a_ready a \<and> a_load a full"
  using assms by (auto simp: run_def load_and_replay_def Let_def split: option.splits sum.splits prod.splits if_splits bool.splits)

lemma with_processes_keeps [simp]:
  "a_client (with_processes p a) = a_client a" "a_parse (with_processes p a) = a_parse a"
  "a_shared_marker (with_processes p a) = a_shared_marker a" "a_io (with_processes p a) = a_io a"
  by (simp_all add: with_processes_def)

lemma with_processes_changes:
  "a_first_write (with_processes p a) \<longleftrightarrow> write_marker_once_datadir_exists (ap_first p) = Some True"
  "a_ready (with_processes p a) \<longleftrightarrow> wait_for_ready_or_exit (ap_ready p) = Some True"
  "a_load (with_processes p a) full \<longleftrightarrow> load_full_backup (ap_load p full) = Inr ()"
  by (simp_all add: with_processes_def)

section \<open>The properties\<close>

text \<open>
  C21: A restore that completes has loaded the backup it selected from end to end: the dump
  was read, both relays passed everything on, gunzip and mysql both exited with success, and
  before that the server took its first write and answered as the final one, without exiting.
\<close>
theorem completed_restore_loaded_its_dump:
  assumes "run utc_of c (with_processes p a) n v = (v', Inr achieved)"
  shows "\<exists>loc target full shared. restore_s3_location c = Some loc \<and> recovery_target_time c = Some target \<and>
    select_full a loc target = Inr (full, shared) \<and>
    lf_get (ap_load p full) \<and> lf_relay_in (ap_load p full) \<and> lf_relay_out (ap_load p full) \<and>
    lf_mysql_status (ap_load p full) = None \<and> lf_gunzip_status (ap_load p full) = None \<and>
    wait_for_ready_or_exit (ap_ready p) = Some True \<and> write_marker_once_datadir_exists (ap_first p) = Some True"
proof -
  have s: "select_full (with_processes p a) = select_full a"
    unfolding select_full_def with_processes_keeps by (rule refl)
  from run_loaded [OF assms] show ?thesis
    unfolding s with_processes_changes load_full_backup_iff by blast
qed

definition good_processes :: attempt_processes where
  "good_processes =
     \<lparr>ap_first = [Some (Some []), Some (Some [''ibdata1''])], ap_ready = [Some None, Some (Some True), Some (Some False)],
      ap_load = (\<lambda>_. \<lparr>lf_get = True, lf_spawns = (True, True), lf_waits = (True, True), lf_relay_in = True, lf_relay_out = True,
        lf_mysql_status = None, lf_gunzip_status = None, lf_said = []\<rparr>)\<rparr>"

lemma good_processes_attempt: "with_processes good_processes (restoring_attempt True) = restoring_attempt True"
  by (simp add: with_processes_def good_processes_def restoring_attempt_def write_marker_once_datadir_exists_def first_write_polls_def
      wait_for_ready_or_exit_def load_full_backup_def)

lemma completed_restore_loaded_its_dump_witness:
  "\<exists>full. lf_mysql_status (ap_load good_processes full) = None \<and> wait_for_ready_or_exit (ap_ready good_processes) = Some True"
proof -
  obtain w where "run day_clock restoring_config (with_processes good_processes (restoring_attempt True)) 1 fresh_volume = (w, Inr (6 * ns_per_s))"
    using restoring_runs [of 1] by (auto simp: good_processes_attempt)
  from completed_restore_loaded_its_dump [OF this] show ?thesis by blast
qed

end
