(* ===== verification/Startup.thy ===== *)
theory Startup
  imports Services
begin

text \<open>
  What \<open>gr::orchestrate\<close> does between the start of the process and its loop, in order: wait
  for the final mysqld, settle what the volume is, create the recovery account, raise the
  write fence or go down, and make the group's name and the recovery channel ready. The steps
  are the operations of \<open>Services\<close>, \<open>Boot\<close>, \<open>Statements\<close> and \<open>Volume\<close>.
\<close>

datatype startup_action =
    Await_final | Reset_history | Detect_adoption | Open_gate | Ensure_user string | Raise_fence
  | Shut_mysqld_down | Exit_wrapper | Persist_name string | Point_channel string | Enter_loop

text \<open>
  What the steps meet: the polls for the final server, the tries of the adoption detection,
  the attempts at the fence with their clock, the pings after a failed one, and whether the
  marker of the group's name can be written.
\<close>

record startup_facts =
  su_polls :: "(sql_error + bool) list"
  su_adoption :: "adoption_try list"
  su_fence :: "nat \<Rightarrow> bool \<times> nat"
  su_deadline :: nat
  su_pings :: "bool list"
  su_name_io :: bool

definition startup_credential :: "config \<Rightarrow> string \<Rightarrow> string" where
  "startup_credential c active_root =
     recovery_credential (case gr_replication_password c of Some p \<Rightarrow> p | None \<Rightarrow> mysql_root_password c)
       (mysql_root_password c) active_root"

definition identity_actions :: "bool \<Rightarrow> volume \<Rightarrow> startup_action list" where
  "identity_actions fresh_datadir v =
     (if fresh_datadir then [Reset_history] else if \<not> has_pre_gtid_data v then [Detect_adoption] else [])"

definition after_fence :: "string \<Rightarrow> string \<Rightarrow> bool \<Rightarrow> volume \<Rightarrow> startup_action list \<times> node_state option" where
  "after_fence gname credential io v =
     ([Persist_name gname, Point_channel credential, Enter_loop], Some (persist_group_name io gname v, orchestrate_start gname))"

definition orchestrate_startup ::
  "config \<Rightarrow> string \<Rightarrow> string \<Rightarrow> bool \<Rightarrow> startup_facts \<Rightarrow> volume \<Rightarrow> startup_action list \<times> node_state option" where
  "orchestrate_startup c active_root gname fresh_datadir f v =
     (if wait_for_final_mysqld (su_polls f) = None then ([Await_final], None)
      else
        (case settle_identity fresh_datadir (su_adoption f) v of
           (v1, False) \<Rightarrow> (Await_final # identity_actions fresh_datadir v, None)
         | (v1, True) \<Rightarrow>
             (let pw = startup_credential c active_root;
                  acts = Await_final # identity_actions fresh_datadir v @ [Open_gate, Ensure_user pw, Raise_fence] in
              case raise_fence (su_fence f) (su_deadline f) (su_pings f) of
                Fenced k \<Rightarrow> (case after_fence gname pw (su_name_io f) v1 of (rest, s) \<Rightarrow> (acts @ rest, s))
              | Shut_down \<Rightarrow> (acts @ [Shut_mysqld_down], None)
              | Exit_process \<Rightarrow> (acts @ [Shut_mysqld_down, Exit_wrapper], None))))"

section \<open>Lemmas\<close>

lemma enters_after_fence:
  assumes "orchestrate_startup c root gname fresh f v = (acts, Some s)"
  obtains v1 k n where "wait_for_final_mysqld (su_polls f) = Some n" and "settle_identity fresh (su_adoption f) v = (v1, True)"
    and "raise_fence (su_fence f) (su_deadline f) (su_pings f) = Fenced k"
    and "acts = Await_final # identity_actions fresh v @ [Open_gate, Ensure_user (startup_credential c root), Raise_fence,
           Persist_name gname, Point_channel (startup_credential c root), Enter_loop]"
    and "s = (persist_group_name (su_name_io f) gname v1, orchestrate_start gname)"
  using assms
  by (auto simp: orchestrate_startup_def after_fence_def Let_def split: if_splits prod.splits bool.splits fence_end.splits)

lemma fenced_attempt: "raise_fence att d pings = Fenced k \<Longrightarrow> fst (att k)"
  using fence_loop_Some [of att d 0 k] by (auto simp: raise_fence_def split: option.splits if_splits)

lemma no_loop_without_state:
  "orchestrate_startup c root gname fresh f v = (acts, None) \<Longrightarrow> Enter_loop \<notin> set acts"
  by (auto simp: orchestrate_startup_def after_fence_def identity_actions_def Let_def
      split: if_splits prod.splits bool.splits fence_end.splits)

section \<open>The properties\<close>

text \<open>
  C13: The loop that may form or join a group is entered only behind the write fence: the
  final server answered first, the identity of the volume was settled and the gate of
  \<open>/gr/state\<close> opened before the recovery account was written, the account before the
  fence was raised, and some attempt at the fence succeeded. On a data directory that is not
  fresh, the pre-GTID marker is then on the volume or the server had a history.
\<close>
theorem loop_is_entered_fenced:
  assumes "orchestrate_startup c root gname fresh f v = (acts, s)" and "Enter_loop \<in> set acts"
  shows "(\<exists>k. fst (su_fence f k)) \<and> Inr False \<in> set (su_polls f) \<and>
    (\<exists>pre. acts = Await_final # pre @ [Open_gate, Ensure_user (startup_credential c root), Raise_fence,
       Persist_name gname, Point_channel (startup_credential c root), Enter_loop] \<and> set pre \<subseteq> {Reset_history, Detect_adoption}) \<and>
    (\<exists>v'. s = Some (v', orchestrate_start gname) \<and>
      (if fresh then True else has_pre_gtid_data v' \<or> (\<exists>g. g \<noteq> [] \<and> Some g \<in> fst ` set (su_adoption f))))"
proof -
  obtain st where s: "s = Some st"
    using assms no_loop_without_state by (cases s) auto
  show ?thesis
  proof (rule enters_after_fence [OF assms(1) [unfolded s]])
    fix v1 k n
    assume w: "wait_for_final_mysqld (su_polls f) = Some n" and i: "settle_identity fresh (su_adoption f) v = (v1, True)"
      and r: "raise_fence (su_fence f) (su_deadline f) (su_pings f) = Fenced k"
      and acts: "acts = Await_final # identity_actions fresh v @ [Open_gate, Ensure_user (startup_credential c root), Raise_fence,
           Persist_name gname, Point_channel (startup_credential c root), Enter_loop]"
      and st: "st = (persist_group_name (su_name_io f) gname v1, orchestrate_start gname)"
    have "Inr False \<in> set (su_polls f)"
      using w by (auto simp: wait_for_final_mysqld_iff dest: nth_mem)
    moreover have "has_pre_gtid_data v1 \<or> (\<exists>g. g \<noteq> [] \<and> Some g \<in> fst ` set (su_adoption f))" if "\<not> fresh"
      using i that adoption_detection_opens [of "su_adoption f" v v1] by (auto simp: settle_identity_def split: if_splits)
    moreover have "has_pre_gtid_data (persist_group_name io gname v1) = has_pre_gtid_data v1" for io
      by (simp add: has_pre_gtid_data_def marker_frame)
    moreover have "set (identity_actions fresh v) \<subseteq> {Reset_history, Detect_adoption}"
      by (auto simp: identity_actions_def)
    ultimately show ?thesis
      using fenced_attempt [OF r] unfolding acts s st by auto
  qed
qed

definition sample_startup :: startup_facts where
  "sample_startup = \<lparr>su_polls = [Inl Connection_error, Inr True, Inr False], su_adoption = [(None, True), (Some [], True)],
     su_fence = (\<lambda>k. (k = 2, 0)), su_deadline = 100, su_pings = [], su_name_io = True\<rparr>"

lemma loop_is_entered_fenced_witness:
  "\<exists>k. fst (su_fence sample_startup k)"
proof -
  have "fence_loop (su_fence sample_startup) 100 0 = Some 2"
    by (simp add: fence_loop.simps sample_startup_def fence_should_retry_def FENCE_ATTEMPTS_def Let_def)
  then have r: "raise_fence (su_fence sample_startup) (su_deadline sample_startup) (su_pings sample_startup) = Fenced 2"
    by (simp add: raise_fence_def sample_startup_def)
  have w: "wait_for_final_mysqld (su_polls sample_startup) \<noteq> None"
    by (simp add: sample_startup_def)
  have i: "settle_identity True (su_adoption sample_startup) (sample_volume False) = (sample_volume False, True)"
    by (simp add: settle_identity_def)
  obtain acts s where e: "orchestrate_startup (sample_config ''a'') ''pw'' ''n'' True sample_startup (sample_volume False) = (acts, s)"
    by fastforce
  then have "Enter_loop \<in> set acts"
    using w i r by (auto simp: orchestrate_startup_def after_fence_def Let_def)
  from loop_is_entered_fenced [OF e this] show ?thesis by blast
qed

end
