(* ===== verification/S3_Client.thy ===== *)
theory S3_Client
  imports Sweep Archiver
begin

text \<open>
  The single-call operations of \<open>s3.rs\<close>: what each makes of the SDK's answer, with the
  context text its error carries, and the two paginated listings. The answers of the service
  are arguments; \<open>from_timestamp\<close> stands for chrono's conversion of a modification time.
  \<open>view_of\<close> turns a store's answers into the view the retention sweep reads.
\<close>

section \<open>Single calls\<close>

datatype sdk_error = Service_error nat bool | Response_error nat | Other_error

text \<open>
  A service error has its HTTP status and whether it is the modelled \<open>NotFound\<close>. A successful
  HEAD has the modification time, in seconds and nanoseconds, if there is one.
\<close>

type_synonym timestamp = "int \<times> nat"
type_synonym sdk_head = "sdk_error + timestamp option"

definition sdk_status :: "sdk_error \<Rightarrow> nat option" where
  "sdk_status e = (case e of Service_error code _ \<Rightarrow> Some code | Response_error code \<Rightarrow> Some code | Other_error \<Rightarrow> None)"

definition not_found :: "sdk_error \<Rightarrow> bool" where
  "not_found e = (case e of Service_error _ missing \<Rightarrow> missing | _ \<Rightarrow> False)"

definition object_exists :: "string \<Rightarrow> sdk_head \<Rightarrow> string + bool" where
  "object_exists key a =
     (case a of
        Inr _ \<Rightarrow> Inr True
      | Inl e \<Rightarrow> if not_found e then Inr False else Inl (head_failure key (sdk_status e)))"

definition last_modified :: "(timestamp \<Rightarrow> int option) \<Rightarrow> string \<Rightarrow> sdk_head \<Rightarrow> string + int option" where
  "last_modified from_timestamp key a =
     (case a of
        Inr modified \<Rightarrow> Inr (Option.bind modified from_timestamp)
      | Inl e \<Rightarrow> if not_found e then Inr None else Inl (head_failure key (sdk_status e)))"

text \<open>The answer as the archiver's \<open>settle\<close> reads it.\<close>

definition head_result_of :: "sdk_head \<Rightarrow> head_result" where
  "head_result_of a =
     (case a of
        Inr _ \<Rightarrow> Head_says True
      | Inl e \<Rightarrow> if not_found e then Head_says False else Head_failed (sdk_status e))"

text \<open>
  \<open>put_object_from_file\<close>, \<open>put_object_bytes\<close> and \<open>delete_object\<close>: whether the local file
  opened and the request was answered.
\<close>

definition put_object_from_file :: "string \<Rightarrow> string \<Rightarrow> bool \<Rightarrow> bool \<Rightarrow> string + unit" where
  "put_object_from_file key path_text opens accepted =
     (if \<not> opens then Inl (''opening '' @ path_text) else if accepted then Inr () else Inl (''PUT '' @ key))"

definition put_object_bytes :: "string \<Rightarrow> bool \<Rightarrow> string + unit" where
  "put_object_bytes key accepted = (if accepted then Inr () else Inl (''PUT '' @ key))"

definition delete_object :: "string \<Rightarrow> bool \<Rightarrow> string + unit" where
  "delete_object key accepted = (if accepted then Inr () else Inl (''DELETE '' @ key))"

text \<open>
  \<open>download_to_file\<close>: the object's body if the GET was answered, whether the destination
  could be created, and how many bytes were copied, with the failure that ended the copy.
  Second: what the destination holds afterwards, \<open>None\<close> when it was not touched.
\<close>

definition download_to_file ::
  "string \<Rightarrow> string \<Rightarrow> byte list option \<Rightarrow> bool \<Rightarrow> nat option \<Rightarrow> (string + unit) \<times> byte list option" where
  "download_to_file key dest body creates breaks_after =
     (case body of
        None \<Rightarrow> (Inl (''GET '' @ key), None)
      | Some b \<Rightarrow>
          if \<not> creates then (Inl (''creating '' @ dest), None)
          else (case breaks_after of
                  Some n \<Rightarrow> (Inl (''writing '' @ dest), Some (take n b))
                | None \<Rightarrow> (Inr (), Some b)))"

section \<open>Listings\<close>

text \<open>A page is missing when its request failed; an entry may lack its key or its time.\<close>

type_synonym listing_page = "(string option \<times> timestamp option) list option"

fun list_keys_from :: "string list \<Rightarrow> string \<Rightarrow> listing_page list \<Rightarrow> string + string list" where
  "list_keys_from keys prefix [] = Inr keys"
| "list_keys_from keys prefix (None # ps) = Inl (''listing objects under '' @ prefix)"
| "list_keys_from keys prefix (Some es # ps) = list_keys_from (keys @ List.map_filter fst es) prefix ps"

definition list_keys_with_prefix :: "string \<Rightarrow> listing_page list \<Rightarrow> string + string list" where
  "list_keys_with_prefix prefix ps = list_keys_from [] prefix ps"

definition listed_object :: "(timestamp \<Rightarrow> int option) \<Rightarrow> string option \<times> timestamp option \<Rightarrow> (string \<times> int option) option" where
  "listed_object from_timestamp e = map_option (\<lambda>key. (key, Option.bind (snd e) from_timestamp)) (fst e)"

fun list_objects_from ::
  "(timestamp \<Rightarrow> int option) \<Rightarrow> (string \<times> int option) list \<Rightarrow> string \<Rightarrow> listing_page list \<Rightarrow> string + (string \<times> int option) list" where
  "list_objects_from ft objects prefix [] = Inr objects"
| "list_objects_from ft objects prefix (None # ps) = Inl (''listing objects under '' @ prefix)"
| "list_objects_from ft objects prefix (Some es # ps) =
     list_objects_from ft (objects @ List.map_filter (listed_object ft) es) prefix ps"

definition list_objects_with_prefix ::
  "(timestamp \<Rightarrow> int option) \<Rightarrow> string \<Rightarrow> listing_page list \<Rightarrow> string + (string \<times> int option) list" where
  "list_objects_with_prefix ft prefix ps = list_objects_from ft [] prefix ps"

section \<open>The view of a sweep\<close>

definition answer_of :: "string + 'a \<Rightarrow> 'a s3_answer" where
  "answer_of r = (case r of Inl _ \<Rightarrow> S3_err | Inr x \<Rightarrow> S3_ok x)"

record store_answers =
  sa_pages :: "listing_page list"
  sa_head :: "string \<Rightarrow> sdk_head"
  sa_body :: "string \<Rightarrow> byte list option"
  sa_delete :: "string \<Rightarrow> bool"

definition view_of :: "(timestamp \<Rightarrow> int option) \<Rightarrow> string \<Rightarrow> string \<Rightarrow> store_answers \<Rightarrow> s3_view" where
  "view_of ft prefix marker_key a =
     \<lparr>listing = answer_of (list_objects_with_prefix ft prefix (sa_pages a)),
      bytes_of = (\<lambda>key. case sa_body a key of None \<Rightarrow> S3_err | Some b \<Rightarrow> S3_ok b),
      modified_at = (\<lambda>key. answer_of (last_modified ft key (sa_head a key))),
      marker_there = answer_of (object_exists marker_key (sa_head a marker_key)),
      delete_works = (\<lambda>key. delete_object key (sa_delete a key) = Inr ())\<rparr>"

section \<open>Lemmas\<close>

lemma list_keys_from_whole:
  "list_keys_from keys prefix ps =
    (if None \<in> set ps then Inl (''listing objects under '' @ prefix)
     else Inr (keys @ concat (map (\<lambda>p. List.map_filter fst (the p)) ps)))"
  by (induction keys prefix ps rule: list_keys_from.induct) auto

lemma list_objects_from_whole:
  "list_objects_from ft objects prefix ps =
    (if None \<in> set ps then Inl (''listing objects under '' @ prefix)
     else Inr (objects @ concat (map (\<lambda>p. List.map_filter (listed_object ft) (the p)) ps)))"
  by (induction ft objects prefix ps rule: list_objects_from.induct) auto

lemma keys_of_listed: "map fst (List.map_filter (listed_object ft) es) = List.map_filter fst es"
  by (induction es) (auto simp: List.map_filter_def listed_object_def)

section \<open>The properties\<close>

text \<open>
  Both listings are whole or fail: a single page that did not come fails the listing, and the
  one with modification times lists exactly the keys of the one without, in the same order.
\<close>

theorem listings_are_whole_and_agree:
  "list_keys_with_prefix prefix ps =
    (if None \<in> set ps then Inl (''listing objects under '' @ prefix) else Inr (concat (map (\<lambda>p. List.map_filter fst (the p)) ps)))"
  "list_keys_with_prefix prefix ps = map_sum id (map fst) (list_objects_with_prefix ft prefix ps)"
  by (simp_all add: list_keys_with_prefix_def list_objects_with_prefix_def list_keys_from_whole
      list_objects_from_whole map_concat o_def keys_of_listed)

text \<open>
  An object is reported absent on \<open>NotFound\<close> alone, and a HEAD that fails otherwise fails
  the call with its key and status: what \<open>settle\<close> makes of the answer is what the call gives.
\<close>

theorem head_answers_settle:
  "object_exists key a =
    (case head_result_of a of Head_failed status \<Rightarrow> Inl (head_failure key status) | Head_says there \<Rightarrow> Inr there)"
  by (simp add: object_exists_def head_result_of_def split: sum.splits)

text \<open>
  A download that succeeds leaves the whole object; one that fails after the destination was
  created leaves a prefix of it, which the code does not remove.
\<close>

theorem download_leaves_a_prefix:
  "case download_to_file key dest body creates breaks_after of
     (Inr _, got) \<Rightarrow> got = body \<and> body \<noteq> None
   | (Inl _, None) \<Rightarrow> True
   | (Inl _, Some g) \<Rightarrow> body \<noteq> None \<and> (\<exists>rest. the body = g @ rest)"
  by (auto simp: download_to_file_def split: option.split intro: append_take_drop_id [symmetric])

text \<open>
  A sweep over a store whose listing was cut off, or that could not say whether the history
  is shared, deletes nothing.
\<close>

theorem cut_off_listing_expires_nothing:
  assumes "None \<in> set (sa_pages a) \<or> (\<exists>e. sa_head a marker_key = Inl e \<and> \<not> not_found e)"
  shows "retention_pass parse c loc (view_of ft prefix marker_key a) own_uuid now span = Sweep_failed"
  using assms
  by (auto simp: retention_pass_def read_archive_lineages_def view_of_def answer_of_def list_objects_with_prefix_def
      list_objects_from_whole object_exists_def split: option.splits)

text \<open>
  An object the store cannot date, or does not have, is kept by the age rail of a sweep.
\<close>

theorem undated_objects_are_kept:
  assumes "\<nexists>t u. sa_head a key = Inr (Some t) \<and> ft t = Some u"
  shows "\<not> old_enough (view_of ft prefix marker_key a) now min_age key"
  using assms
  by (auto simp: old_enough_def view_of_def answer_of_def last_modified_def split: sum.splits option.splits bind_splits)

end
