(* ===== verification/Formation.thy ===== *)
theory Formation
  imports Join
begin

text \<open>
  Two nodes that run the loop of \<open>orchestrate\<close> side by side. A run is a list of passes,
  each with the instants at which it began, heard every peer and took effect; a node answers
  its peers from the volume and the server it has at that instant. Passes of the two nodes
  overlap in any way: a peer may be heard before, while or after it forms a group itself. The
  theorem is that the bootstrap guard together with its dwell excludes a second group as long
  as no pass takes longer than half the dwell.
\<close>

context dwell_clock
begin

lemma window:
  assumes "since s = None" and "since (foldl step s es) = Some t"
  shows "\<exists>i < length es. time (es ! i) = t \<and> (\<forall>j. i < j \<and> j \<le> length es \<longrightarrow> since (after s es j) = Some t)"
  using assms(2)
proof (induction es arbitrary: t rule: rev_induct)
  case Nil
  with assms(1) show ?case by simp
next
  case (snoc e es)
  from snoc.prems consider "since (foldl step s es) = Some t" | "t = time e"
    using tick [of "foldl step s es" e t] by auto
  then show ?case
  proof cases
    case 1
    then obtain i where "i < length es" "time (es ! i) = t" "\<forall>j. i < j \<and> j \<le> length es \<longrightarrow> since (after s es j) = Some t"
      using snoc.IH by blast
    then show ?thesis
      using snoc.prems by (intro exI [of _ i]) (auto simp: nth_append le_Suc_eq)
  next
    case 2
    then show ?thesis
      using snoc.prems by (intro exI [of _ "length es"]) (auto simp: nth_append le_Suc_eq)
  qed
qed

end

section \<open>Runs\<close>

record timed_pass =
  tp_begin :: nat
  tp_heard :: "string \<Rightarrow> nat"
  tp_end :: nat
  tp_input :: pass_input

record loop_run =
  lr_config :: config
  lr_first :: node_state
  lr_passes :: "timed_pass list"
  lr_server :: "nat \<Rightarrow> sql_view"

definition state_before :: "(string \<Rightarrow> bool) \<Rightarrow> loop_run \<Rightarrow> nat \<Rightarrow> node_state" where
  "state_before u r k = foldl (orch_step u (lr_config r)) (lr_first r) (take k (map tp_input (lr_passes r)))"

definition commands_of :: "(string \<Rightarrow> bool) \<Rightarrow> loop_run \<Rightarrow> nat \<Rightarrow> command set" where
  "commands_of u r k = cmds_of (orchestrate_pass u (lr_config r) (state_before u r k) (tp_input (lr_passes r ! k)))"

text \<open>How many passes have taken effect at \<open>t\<close>, and the node as it is then.\<close>

definition ended_by :: "loop_run \<Rightarrow> nat \<Rightarrow> nat" where
  "ended_by r t = length (takeWhile (\<lambda>p. tp_end p \<le> t) (lr_passes r))"

definition node_at :: "(string \<Rightarrow> bool) \<Rightarrow> loop_run \<Rightarrow> nat \<Rightarrow> node" where
  "node_at u r t = \<lparr>n_cfg = lr_config r, n_vol = fst (state_before u r (ended_by r t)), n_sql = lr_server r t\<rparr>"

text \<open>
  The clock of a run: a pass hears its peers after it began and before it takes effect, looks
  at the clock in between, takes at most \<open>d\<close>, and is over before the next one begins.
\<close>

definition timely :: "nat \<Rightarrow> loop_run \<Rightarrow> bool" where
  "timely d r \<longleftrightarrow>
     list_all (\<lambda>p. tp_begin p \<le> i_now (tp_input p) \<and> i_now (tp_input p) \<le> tp_end p \<and> tp_end p \<le> tp_begin p + d) (lr_passes r) \<and>
     (\<forall>p \<in> set (lr_passes r). \<forall>h. tp_begin p \<le> tp_heard p h \<and> tp_heard p h < tp_end p) \<and>
     sorted_wrt (\<lambda>p q. tp_end p \<le> tp_begin q) (lr_passes r)"

definition forms :: "(string \<Rightarrow> bool) \<Rightarrow> loop_run \<Rightarrow> nat \<Rightarrow> bool" where
  "forms u r k \<longleftrightarrow> Form_group \<in> commands_of u r k \<and> i_formed (tp_input (lr_passes r ! k))"

text \<open>
  A run from the start of the loop whose last pass alone may succeed in forming a group. In
  it, every GTID set the node reads of itself is the server's at an instant of that pass.
\<close>

definition loop_from_start :: "(string \<Rightarrow> bool) \<Rightarrow> nat \<Rightarrow> loop_run \<Rightarrow> bool" where
  "loop_from_start u d r \<longleftrightarrow>
     lr_passes r \<noteq> [] \<and> safe_since (snd (lr_first r)) = None \<and> timely d r \<and>
     (\<forall>k < length (lr_passes r) - 1. \<not> forms u r k) \<and>
     (\<forall>p \<in> set (lr_passes r). \<forall>g. i_gtid (tp_input p) = Some g \<longrightarrow>
        (\<exists>t. tp_begin p \<le> t \<and> t < tp_end p \<and> q_gtid (lr_server r t) = Some g))"

definition last_pass :: "loop_run \<Rightarrow> timed_pass" where
  "last_pass r = last (lr_passes r)"

text \<open>
  What the last pass of \<open>r\<close> hears of \<open>r'\<close> is what that node answers at the instant, or
  nothing; and the resolver never denies the name of a node that is there.
\<close>

definition hears_truly :: "(string \<Rightarrow> bool) \<Rightarrow> loop_run \<Rightarrow> loop_run \<Rightarrow> bool" where
  "hears_truly u r r' \<longleftrightarrow>
     (\<exists>h \<in> set (peer_hosts (lr_config r)). eq_ic h (private_domain (lr_config r')) \<and>
        (i_peer (tp_input (last_pass r)) h = Unreachable \<longrightarrow> i_probe (tp_input (last_pass r)) h \<noteq> Gone) \<and>
        (\<forall>s. i_peer (tp_input (last_pass r)) h = State s \<longrightarrow>
           advert u (node_at u r' (tp_heard (last_pass r) h)) = Some s))"

text \<open>
  Behind the write fence the executed set of a node outside a group stands still: over the
  last \<open>w\<close> before \<open>t\<close>, whenever the server says what it is, it says the same.
\<close>

definition stands_still :: "nat \<Rightarrow> nat \<Rightarrow> loop_run \<Rightarrow> bool" where
  "stands_still w t r \<longleftrightarrow>
     (\<forall>x y g h. t \<le> x + w \<and> x < t \<and> t \<le> y + w \<and> y < t \<and> q_gtid (lr_server r x) = Some g \<and>
        q_gtid (lr_server r y) = Some h \<longrightarrow> g = h)"

section \<open>A pass that forms a group\<close>

lemma forming_pass:
  assumes "Form_group \<in> cmds_of (orchestrate_pass u c s i)"
  obtains g considered where "i_gtid i = Some g"
    and "considered = filter (\<lambda>ha. \<not> waives c i (may_waive i s) (tracked c i (gone_tracker (snd s))) ha) (peer_answers c i)"
    and "classify_round (i_sub i) (i_compare_ok i) c (fst s) g considered = Some SafeToBootstrap"
    and "bootstrap_dwell_seconds c \<le> i_now i - (case safe_since (snd s) of Some t \<Rightarrow> t | None \<Rightarrow> i_now i)"
proof (cases rule: pass_cases [of u c s i])
  case early
  then show ?thesis using assms by auto
next
  case joins
  then show ?thesis using assms joining_forms_nothing by simp
next
  case (decides v st g considered)
  have "v = fst s" using local_gr_state_frame(4) [OF decides(2) refl decides(3)] .
  then show ?thesis
    using that [of g considered] decides(5,6) guard_forms(1,2) [OF assms [unfolded decides(9)]] by simp
qed

text \<open>A peer whose name is there is never waived: it was heard, with its state.\<close>

lemma tracked_there: "(i_peer i h = Unreachable \<Longrightarrow> i_probe i h \<noteq> Gone) \<Longrightarrow> h \<in> set (peer_hosts c) \<Longrightarrow> tracked c i g h = None"
proof -
  assume there: "i_peer i h = Unreachable \<Longrightarrow> i_probe i h \<noteq> Gone"
  have "foldl (track_peer i) g (map (\<lambda>h. (h, i_peer i h)) hs) h = (if h \<in> set hs then None else g h)" for hs
    using there
    by (induction hs rule: rev_induct)
      (auto simp: track_peer_def observe_def observe_reachable_def split: peer_answer.splits name_verdict.splits option.splits)
  then show "h \<in> set (peer_hosts c) \<Longrightarrow> tracked c i g h = None"
    by (simp add: tracked_def peer_answers_def)
qed

lemma forming_pass_hears:
  assumes "Form_group \<in> cmds_of (orchestrate_pass u c s i)"
    and "h \<in> set (peer_hosts c)" and "i_peer i h = Unreachable \<Longrightarrow> i_probe i h \<noteq> Gone"
  obtains g st p where "i_gtid i = Some g" and "i_peer i h = State st" and "\<not> group_active st"
    and "gtid_executed st = Some p" and "yields (i_sub i) c (fst s) g h st p"
proof -
  obtain g considered where g: "i_gtid i = Some g"
    and c: "considered = filter (\<lambda>ha. \<not> waives c i (may_waive i s) (tracked c i (gone_tracker (snd s))) ha) (peer_answers c i)"
    and safe: "classify_round (i_sub i) (i_compare_ok i) c (fst s) g considered = Some SafeToBootstrap"
    using forming_pass [OF assms(1)] by metis
  have "(h, i_peer i h) \<in> set considered"
    using assms(2) tracked_there [OF assms(3,2)] by (auto simp: c peer_answers_def waives_def is_waived_def)
  from classify_Safe_peer [OF safe this] show thesis using that g by blast
qed

section \<open>The window of the dwell\<close>

lemma guard_keeps_markers:
  assumes "safe_since (snd (fst (guard_stage c i w as s))) \<noteq> None"
    and "i_formed i \<longrightarrow> Form_group \<notin> cmds_of (guard_stage c i w as s)"
  shows "fst (fst (guard_stage c i w as s)) = fst s"
proof -
  have "fst (fst (safe_stage c i w as s)) = fst s"
    if "safe_since (snd (fst (safe_stage c i w as s))) \<noteq> None" "i_formed i \<longrightarrow> Form_group \<notin> cmds_of (safe_stage c i w as s)"
    using that
    by (auto simp: safe_stage_def Let_def fence_identity_def form_stage_def proceed_def finish_def and_then_def
        split: if_splits)
  then show ?thesis
    using assms by (auto simp: guard_stage_def finish_def split: option.splits verdict.splits)
qed

lemma pass_keeps_markers:
  assumes "safe_since (snd (orch_step u c s i)) \<noteq> None"
    and "i_formed i \<longrightarrow> Form_group \<notin> cmds_of (orchestrate_pass u c s i)"
  shows "waiver_file (fst (orch_step u c s i)) = waiver_file (fst s) \<and> pre_gtid_file (fst (orch_step u c s i)) = pre_gtid_file (fst s)"
proof (cases "round_verdict u c s i")
  case None
  obtain v o' where loc: "local_gr_state u (i_marker_io i) (i_local i) (fst s) = (v, o')" by fastforce
  show ?thesis
    using None local_gr_state_frame(1,2) [OF loc]
    by (auto simp: loc round_verdict_def orch_step_def orchestrate_pass_def deciding_pass_def Let_def guard_stage_def
        finish_def split: option.splits if_splits)
next
  case (Some verdict)
  show ?thesis
  proof (cases rule: pass_cases [of u c s i])
    case early
    then show ?thesis using Some by simp
  next
    case joins
    then show ?thesis using assms(1) by simp
  next
    case (decides v st g considered)
    then show ?thesis
      using assms guard_keeps_markers [of c i "considered \<noteq> peer_answers c i" considered
          "(v, (snd s)\<lparr>gone_tracker := tracked c i (gone_tracker (snd s))\<rparr>)"]
        local_gr_state_frame(1,2) [OF decides(2)]
      by simp
  qed
qed

text \<open>What the peers' decisions depend on, of a node's own volume.\<close>

definition markers :: "volume \<Rightarrow> u64 \<times> bool" where
  "markers v = (read_waiver_generation v, has_pre_gtid_data v)"

lemma markers_cong: "waiver_file v = waiver_file w \<Longrightarrow> pre_gtid_file v = pre_gtid_file w \<Longrightarrow> markers v = markers w"
  by (simp add: markers_def read_waiver_generation_def has_pre_gtid_data_def)

lemma last_pass_nth: "lr_passes r \<noteq> [] \<Longrightarrow> lr_passes r ! (length (lr_passes r) - 1) = last_pass r"
  by (simp add: last_pass_def last_conv_nth)

lemma state_before_Suc:
  "k < length (lr_passes r) \<Longrightarrow>
    state_before u r (Suc k) = orch_step u (lr_config r) (state_before u r k) (tp_input (lr_passes r ! k))"
  by (simp add: state_before_def take_Suc_conv_app_nth)

text \<open>
  When the last pass of a run forms a group, the clock of the dwell was started by some pass
  at least the dwell ago, and since then no pass changed the markers its peers read.
\<close>

lemma dwell_window:
  assumes run: "loop_from_start u d r" and forms: "forms u r (length (lr_passes r) - 1)"
  obtains k where "k < length (lr_passes r)"
    and "bootstrap_dwell_seconds (lr_config r) = 0 \<or>
      i_now (tp_input (lr_passes r ! k)) + bootstrap_dwell_seconds (lr_config r) \<le> i_now (tp_input (last_pass r))"
    and "\<And>j. k \<le> j \<Longrightarrow> j < length (lr_passes r) \<Longrightarrow>
      markers (fst (state_before u r j)) = markers (fst (state_before u r (length (lr_passes r) - 1)))"
proof -
  let ?n = "length (lr_passes r) - 1" and ?is = "map tp_input (lr_passes r)"
  let ?s = "state_before u r ?n"
  have n: "?n < length (lr_passes r)" and first: "safe_since (snd (lr_first r)) = None"
    using run by (simp_all add: loop_from_start_def)
  have last: "lr_passes r ! ?n = last_pass r"
    using run by (intro last_pass_nth) (simp add: loop_from_start_def)
  have "Form_group \<in> cmds_of (orchestrate_pass u (lr_config r) ?s (tp_input (last_pass r)))"
    using forms unfolding forms_def commands_of_def last by blast
  then have dwell: "bootstrap_dwell_seconds (lr_config r) \<le>
      i_now (tp_input (last_pass r)) - (case safe_since (snd ?s) of Some t \<Rightarrow> t | None \<Rightarrow> i_now (tp_input (last_pass r)))"
    by (rule forming_pass)
  show thesis
  proof (cases "safe_since (snd ?s)")
    case None
    show ?thesis
    proof (rule that [OF n])
      show "bootstrap_dwell_seconds (lr_config r) = 0 \<or>
          i_now (tp_input (lr_passes r ! ?n)) + bootstrap_dwell_seconds (lr_config r) \<le> i_now (tp_input (last_pass r))"
        using dwell None by simp
      show "markers (fst (state_before u r j)) = markers (fst ?s)" if "?n \<le> j" "j < length (lr_passes r)" for j
      proof -
        have "j = ?n" using that by linarith
        then show ?thesis by (rule arg_cong)
      qed
    qed
  next
    case (Some t)
    from safe_clock.window [OF first, of u "lr_config r" "take ?n ?is" t] Some obtain k where
      k: "k < ?n" "i_now (?is ! k) = t" "\<forall>j. k < j \<and> j \<le> ?n \<longrightarrow> safe_since (snd (state_before u r j)) = Some t"
      by (auto simp: state_before_def take_map min_def split: if_splits)
    have still: "markers (fst (state_before u r j)) = markers (fst ?s)" if "k \<le> j" "j \<le> ?n" for j
      using that(2,1)
    proof (induction rule: inc_induct)
      case (step j)
      have "j < length (lr_passes r)" using step.hyps n by simp
      note next_state = state_before_Suc [OF this, of u]
      have "\<not> forms u r j" using run step.hyps by (simp add: loop_from_start_def)
      then have "markers (fst (state_before u r (Suc j))) = markers (fst (state_before u r j))"
        using pass_keeps_markers [of u "lr_config r" "state_before u r j" "tp_input (lr_passes r ! j)"]
          k(3)[rule_format, of "Suc j"] step.hyps step.prems
        by (intro markers_cong) (auto simp: next_state forms_def commands_of_def)
      then show ?case using step by simp
    qed simp
    have "markers (fst (state_before u r j)) = markers (fst ?s)" if "k \<le> j" "j < length (lr_passes r)" for j
      by (rule still) (use that in linarith)+
    moreover have kn: "k < length (lr_passes r)" using k(1) by simp
    moreover have "bootstrap_dwell_seconds (lr_config r) = 0 \<or>
        i_now (tp_input (lr_passes r ! k)) + bootstrap_dwell_seconds (lr_config r) \<le> i_now (tp_input (last_pass r))"
      using k(2) dwell Some kn by auto
    ultimately show ?thesis by (intro that [of k])
  qed
qed

lemma timelyD:
  assumes "timely d r" and "k < length (lr_passes r)"
  shows "tp_begin (lr_passes r ! k) \<le> i_now (tp_input (lr_passes r ! k))"
    and "i_now (tp_input (lr_passes r ! k)) \<le> tp_end (lr_passes r ! k)"
    and "tp_end (lr_passes r ! k) \<le> tp_begin (lr_passes r ! k) + d"
    and "tp_begin (lr_passes r ! k) \<le> tp_heard (lr_passes r ! k) h" and "tp_heard (lr_passes r ! k) h < tp_end (lr_passes r ! k)"
    and "j < k \<Longrightarrow> tp_end (lr_passes r ! j) \<le> tp_begin (lr_passes r ! k)"
  using assms nth_mem [OF assms(2)] sorted_wrt_nth_less [of _ "lr_passes r" j k]
  by (auto simp: timely_def list_all_iff)

lemma markers_before_forming:
  assumes run: "loop_from_start u d r" and forms: "forms u r (length (lr_passes r) - 1)"
    and t: "tp_end (last_pass r) \<le> t + bootstrap_dwell_seconds (lr_config r)" "t < tp_end (last_pass r)"
  shows "markers (n_vol (node_at u r t)) = markers (fst (state_before u r (length (lr_passes r) - 1)))"
proof -
  let ?n = "length (lr_passes r) - 1" and ?P = "\<lambda>p. tp_end p \<le> t"
  have n: "?n < length (lr_passes r)" and clock: "timely d r"
    using run by (simp_all add: loop_from_start_def)
  have last: "lr_passes r ! ?n = last_pass r"
    using run by (intro last_pass_nth) (simp add: loop_from_start_def)
  obtain k where k: "k < length (lr_passes r)"
      "bootstrap_dwell_seconds (lr_config r) = 0 \<or>
        i_now (tp_input (lr_passes r ! k)) + bootstrap_dwell_seconds (lr_config r) \<le> i_now (tp_input (last_pass r))"
    and still: "\<And>j. k \<le> j \<Longrightarrow> j < length (lr_passes r) \<Longrightarrow>
      markers (fst (state_before u r j)) = markers (fst (state_before u r ?n))"
    using dwell_window [OF run forms] by blast
  have "i_now (tp_input (lr_passes r ! k)) \<le> t"
    using k(2) t timelyD(2) [OF clock n] last by auto
  then have "k \<le> ended_by r t"
    using timelyD(1,6) [OF clock k(1)] nth_length_takeWhile [of ?P "lr_passes r"] k(1)
    unfolding ended_by_def by (meson le_trans not_le order_less_trans)
  moreover have "ended_by r t \<le> ?n"
  proof (rule ccontr)
    assume "\<not> ended_by r t \<le> ?n"
    then have "lr_passes r ! ?n \<in> set (takeWhile ?P (lr_passes r))"
      unfolding ended_by_def by (metis not_le nth_mem takeWhile_nth)
    then show False using set_takeWhileD t(2) last by (metis not_le)
  qed
  ultimately show ?thesis
    using still [of "ended_by r t"] n by (simp add: node_at_def)
qed

section \<open>Two runs\<close>

text \<open>
  What the two last passes conclude of each other contradicts itself when each judged the
  markers and the set the other had.
\<close>

lemma yields_both:
  assumes "rank_or_last (my_seed_rank c) \<noteq> rank_or_last (my_seed_rank c')"
    and "rank_or_last (seed_rank c h') = rank_or_last (my_seed_rank c')" and "rank_or_last (seed_rank c' h) = rank_or_last (my_seed_rank c)"
    and "waiver_generation s' = fst (markers v')" and "waiver_generation s = fst (markers v)"
    and "snd (markers v') \<longrightarrow> pre_gtid_data s'" and "snd (markers v) \<longrightarrow> pre_gtid_data s"
    and "yields sub c v g h' s' g'" and "yields sub c' v' g' h s g"
  shows False
  using assms diverged_antisym [OF assms(1), of "fst (markers v)" "fst (markers v')"]
  by (auto simp: yields_def markers_def tie_peer_wins_def split: bool.splits if_splits)

lemma last_passD:
  assumes "loop_from_start u d r"
  shows "tp_begin (last_pass r) \<le> tp_heard (last_pass r) h" and "tp_heard (last_pass r) h < tp_end (last_pass r)"
    and "tp_end (last_pass r) \<le> tp_begin (last_pass r) + d"
    and "i_gtid (tp_input (last_pass r)) = Some g \<Longrightarrow>
      \<exists>t. tp_begin (last_pass r) \<le> t \<and> t < tp_end (last_pass r) \<and> q_gtid (lr_server r t) = Some g"
proof -
  have "last_pass r \<in> set (lr_passes r)" and clock: "timely d r"
    and own: "\<forall>p \<in> set (lr_passes r). \<forall>g. i_gtid (tp_input p) = Some g \<longrightarrow>
        (\<exists>t. tp_begin p \<le> t \<and> t < tp_end p \<and> q_gtid (lr_server r t) = Some g)"
    using assms by (auto simp: loop_from_start_def last_pass_def)
  then show "tp_begin (last_pass r) \<le> tp_heard (last_pass r) h" and "tp_heard (last_pass r) h < tp_end (last_pass r)"
    and "tp_end (last_pass r) \<le> tp_begin (last_pass r) + d"
    and "i_gtid (tp_input (last_pass r)) = Some g \<Longrightarrow>
      \<exists>t. tp_begin (last_pass r) \<le> t \<and> t < tp_end (last_pass r) \<and> q_gtid (lr_server r t) = Some g"
    by (auto simp: timely_def list_all_iff)
qed

text \<open>What a forming run has heard of the other, with the instant of it.\<close>

lemma formed_on_hearsay:
  assumes run: "loop_from_start u d r" and forms: "forms u r (length (lr_passes r) - 1)" and "hears_truly u r r'"
    and "gr_seeds (lr_config r) = gr_seeds (lr_config r')"
  obtains h g st p where "i_gtid (tp_input (last_pass r)) = Some g"
    and "rank_or_last (seed_rank (lr_config r) h) = rank_or_last (my_seed_rank (lr_config r'))"
    and "advert u (node_at u r' (tp_heard (last_pass r) h)) = Some st" and "\<not> group_active st"
    and "q_gtid (lr_server r' (tp_heard (last_pass r) h)) = Some p"
    and "yields (i_sub (tp_input (last_pass r))) (lr_config r) (fst (state_before u r (length (lr_passes r) - 1))) g h st p"
proof -
  obtain h where h: "h \<in> set (peer_hosts (lr_config r))" "eq_ic h (private_domain (lr_config r'))"
      "i_peer (tp_input (last_pass r)) h = Unreachable \<Longrightarrow> i_probe (tp_input (last_pass r)) h \<noteq> Gone"
    and true_word: "\<And>s. i_peer (tp_input (last_pass r)) h = State s \<Longrightarrow>
        advert u (node_at u r' (tp_heard (last_pass r) h)) = Some s"
    using assms(3) by (auto simp: hears_truly_def)
  have "lr_passes r ! (length (lr_passes r) - 1) = last_pass r"
    using run by (intro last_pass_nth) (simp add: loop_from_start_def)
  then have form: "Form_group \<in> cmds_of (orchestrate_pass u (lr_config r) (state_before u r (length (lr_passes r) - 1)) (tp_input (last_pass r)))"
    using forms unfolding forms_def commands_of_def by simp
  have rank: "rank_or_last (seed_rank (lr_config r) h) = rank_or_last (my_seed_rank (lr_config r'))"
    using seed_rank_eq_ic [OF h(2)] seed_rank_seeds [OF assms(4)] by (simp add: my_seed_rank_def)
  obtain g st p where "i_gtid (tp_input (last_pass r)) = Some g" and st: "i_peer (tp_input (last_pass r)) h = State st"
      "\<not> group_active st" "gtid_executed st = Some p"
      "yields (i_sub (tp_input (last_pass r))) (lr_config r) (fst (state_before u r (length (lr_passes r) - 1))) g h st p"
    using forming_pass_hears [OF form h(1,3)] by metis
  moreover have "q_gtid (lr_server r' (tp_heard (last_pass r) h)) = Some p"
    using advert_fields(1) [OF true_word [OF st(1)]] st(3) by (simp add: node_at_def)
  ultimately show thesis using that rank true_word by blast
qed

text \<open>
  A node at the instant at which a peer hears it, within the dwell before its last pass
  takes effect, shows the markers of that pass and the set the pass decided on.
\<close>

lemma heard_as_decided:
  assumes run: "loop_from_start u d r" and forms: "forms u r (length (lr_passes r) - 1)"
    and "stands_still (bootstrap_dwell_seconds (lr_config r)) (tp_end (last_pass r)) r"
    and "d \<le> bootstrap_dwell_seconds (lr_config r)"
    and t: "tp_end (last_pass r) \<le> t + bootstrap_dwell_seconds (lr_config r)" "t < tp_end (last_pass r)"
    and st: "advert u (node_at u r t) = Some st"
  shows "waiver_generation st = fst (markers (fst (state_before u r (length (lr_passes r) - 1))))"
    and "snd (markers (fst (state_before u r (length (lr_passes r) - 1)))) \<longrightarrow> pre_gtid_data st"
    and "q_gtid (lr_server r t) = Some p \<Longrightarrow> i_gtid (tp_input (last_pass r)) = Some g \<Longrightarrow> p = g"
proof -
  note m = markers_before_forming [OF run forms t]
  show "waiver_generation st = fst (markers (fst (state_before u r (length (lr_passes r) - 1))))"
    and "snd (markers (fst (state_before u r (length (lr_passes r) - 1)))) \<longrightarrow> pre_gtid_data st"
    using advert_fields(2,3) [OF st] m by (auto simp: markers_def)
  assume p: "q_gtid (lr_server r t) = Some p" and g: "i_gtid (tp_input (last_pass r)) = Some g"
  obtain x where "tp_begin (last_pass r) \<le> x" "x < tp_end (last_pass r)" "q_gtid (lr_server r x) = Some g"
    using last_passD(4) [OF run g] by blast
  then show "p = g"
    using assms(3,4) t p last_passD(3) [OF run] unfolding stands_still_def by (meson add_le_mono le_trans)
qed

text \<open>
  C2: Two nodes never found two groups. Let two nodes of one cluster run the loop of
  \<open>orchestrate\<close> from its start, their passes overlapping in any way, with no pass longer than
  half the dwell. While a node is outside a group its executed set stands still, each hears
  what the other answers at the instant of the question, or nothing, and no name of a
  node that is there is denied. If one of them has formed a group and is still in it, the
  other forms none, whatever the further peers say.
\<close>

theorem one_founder_at_a_time:
  assumes "gr_seeds (lr_config a) = gr_seeds (lr_config b)"
    and ranks: "rank_or_last (my_seed_rank (lr_config a)) \<noteq> rank_or_last (my_seed_rank (lr_config b))"
    and a: "loop_from_start u d a" and b: "loop_from_start u d b"
    and d: "2 * d \<le> bootstrap_dwell_seconds (lr_config a)" "2 * d \<le> bootstrap_dwell_seconds (lr_config b)"
    and "hears_truly u a b" and "hears_truly u b a"
    and "i_sub (tp_input (last_pass a)) = i_sub (tp_input (last_pass b))"
    and still: "stands_still (bootstrap_dwell_seconds (lr_config a)) (tp_end (last_pass a)) a"
      "stands_still (bootstrap_dwell_seconds (lr_config b)) (tp_end (last_pass b)) b"
    and founds: "forms u a (length (lr_passes a) - 1)" and before: "tp_end (last_pass a) \<le> tp_end (last_pass b)"
    and stays: "\<And>t st. tp_end (last_pass a) \<le> t \<Longrightarrow> t < tp_end (last_pass b) \<Longrightarrow>
      advert u (node_at u a t) = Some st \<Longrightarrow> group_active st"
  shows "\<not> forms u b (length (lr_passes b) - 1)"
proof
  assume too: "forms u b (length (lr_passes b) - 1)"
  obtain h' g s' g' where a_heard: "i_gtid (tp_input (last_pass a)) = Some g"
      "rank_or_last (seed_rank (lr_config a) h') = rank_or_last (my_seed_rank (lr_config b))"
      "advert u (node_at u b (tp_heard (last_pass a) h')) = Some s'" "q_gtid (lr_server b (tp_heard (last_pass a) h')) = Some g'"
      "yields (i_sub (tp_input (last_pass a))) (lr_config a) (fst (state_before u a (length (lr_passes a) - 1))) g h' s' g'"
    using formed_on_hearsay [OF a founds assms(7,1)] by metis
  obtain h k s k' where b_heard: "i_gtid (tp_input (last_pass b)) = Some k"
      "rank_or_last (seed_rank (lr_config b) h) = rank_or_last (my_seed_rank (lr_config a))"
      "advert u (node_at u a (tp_heard (last_pass b) h)) = Some s" "\<not> group_active s" "q_gtid (lr_server a (tp_heard (last_pass b) h)) = Some k'"
      "yields (i_sub (tp_input (last_pass b))) (lr_config b) (fst (state_before u b (length (lr_passes b) - 1))) k h s k'"
    using formed_on_hearsay [OF b too assms(8) assms(1) [symmetric]] by metis
  let ?x = "tp_heard (last_pass a) h'" and ?y = "tp_heard (last_pass b) h"
  note clock_a = last_passD(1-3) [OF a] and clock_b = last_passD(1-3) [OF b]
  have y: "?y < tp_end (last_pass a)"
    using stays [of ?y s] b_heard(3,4) clock_b(2) [of h] by force
  have in_a: "tp_end (last_pass a) \<le> ?y + bootstrap_dwell_seconds (lr_config a)"
    using clock_b(1) [of h] clock_b(3) before d(1) by linarith
  have in_b: "tp_end (last_pass b) \<le> ?x + bootstrap_dwell_seconds (lr_config b)" "?x < tp_end (last_pass b)"
    using clock_a(1,2) [of h'] clock_a(3) clock_b(1) [of h] clock_b(3) y before d(2) by linarith+
  have "d \<le> bootstrap_dwell_seconds (lr_config a)" "d \<le> bootstrap_dwell_seconds (lr_config b)"
    using d by simp_all
  note as_a = heard_as_decided [OF a founds still(1) this(1) in_a y b_heard(3)]
    and as_b = heard_as_decided [OF b too still(2) this(2) in_b a_heard(3)]
  show False
    using yields_both [OF ranks a_heard(2) b_heard(2) as_b(1) as_a(1) as_b(2) as_a(2)]
      as_a(3) [OF b_heard(5) a_heard(1)] as_b(3) [OF a_heard(4) b_heard(1)] a_heard(5) b_heard(6) assms(9)
    by simp
qed

section \<open>Example\<close>

text \<open>\<open>a\<close> forms a group in its second pass, which \<open>b\<close> begins at the same instant.\<close>

definition sample_server :: "string \<Rightarrow> sql_view" where
  "sample_server uuid = \<lparr>q_uuid = Some uuid, q_members = Some [], q_gtid = Some ''x'', q_pre_flag = Some False, q_block_size = Some 1\<rparr>"

definition sample_timed :: "(string \<Rightarrow> peer_answer) \<Rightarrow> nat \<Rightarrow> timed_pass" where
  "sample_timed p t = \<lparr>tp_begin = t, tp_heard = (\<lambda>_. t), tp_end = t + 1, tp_input = sample_pass p t ''x''\<rparr>"

definition run_a :: loop_run where
  "run_a = \<lparr>lr_config = sample_config ''a'', lr_first = (sample_volume False, orchestrate_start ''n''),
     lr_passes = [sample_timed idle 0, sample_timed idle 15], lr_server = (\<lambda>_. sample_server ''w'')\<rparr>"

definition run_b :: loop_run where
  "run_b = \<lparr>lr_config = sample_config ''b'', lr_first = (persist_group_name True ''n'' (sample_volume False), orchestrate_start ''n''),
     lr_passes = [sample_timed (\<lambda>_. State ((sample_state False ''w'' ''x'')\<lparr>group_name := None\<rparr>)) 15],
     lr_server = (\<lambda>_. sample_server ''v'')\<rparr>"

lemma sample_run_simps [simp]:
  "tp_begin (sample_timed p t) = t" "tp_heard (sample_timed p t) h = t" "tp_end (sample_timed p t) = Suc t"
  "tp_input (sample_timed p t) = sample_pass p t ''x''" "q_gtid (sample_server z) = Some ''x''"
  "lr_config run_a = sample_config ''a''" "lr_passes run_a = [sample_timed idle 0, sample_timed idle 15]"
  "lr_server run_a t = sample_server ''w''" "lr_server run_b t = sample_server ''v''" "lr_config run_b = sample_config ''b''"
  "lr_passes run_b = [sample_timed (\<lambda>_. State ((sample_state False ''w'' ''x'')\<lparr>group_name := None\<rparr>)) 15]"
  "safe_since (snd (lr_first run_a)) = None" "safe_since (snd (lr_first run_b)) = None"
  by (simp_all add: sample_timed_def sample_server_def run_a_def run_b_def orchestrate_start_def)

lemma run_a_first: "state_before u run_a (Suc 0) = orch_step u (sample_config ''a'') (sample_volume False, orchestrate_start ''n'') (sample_pass idle 0 ''x'')"
  by (simp add: state_before_def run_a_def sample_timed_def)

lemma run_a_forms: "forms (\<lambda>_. True) run_a (length (lr_passes run_a) - 1)"
  using idle_second_pass_forms [of "\<lambda>_. True"] by (simp add: forms_def commands_of_def run_a_first)

lemma run_a_not_before: "\<not> forms u run_a 0"
proof -
  have "state_before u run_a 0 = (sample_volume False, orchestrate_start ''n'')" by (simp add: state_before_def run_a_def)
  then show ?thesis
    by (simp add: forms_def commands_of_def sample_decides idle_decides safe_stage_def orchestrate_start_def finish_def)
qed

lemma sample_answers_of:
  assumes "\<not> has_pre_gtid_data v" and "read_waiver_generation v = 0"
  shows "advert u \<lparr>n_cfg = c, n_vol = v, n_sql = sample_server z\<rparr> =
    Some ((sample_state False z ''x'')\<lparr>group_name := read_group_name_marker u v\<rparr>)"
  using assms
  by (simp add: advert_def local_gr_state_def sample_server_def own_row_def group_active_from_def reachable_count_def
      pre_gtid_report_def sample_state_def)

lemma one_founder_at_a_time_witness: "\<not> forms (\<lambda>_. True) run_b (length (lr_passes run_b) - 1)"
proof (rule one_founder_at_a_time [where a = run_a and d = 1, OF _ _ _ _ _ _ _ _ _ _ _ run_a_forms])
  show "loop_from_start (\<lambda>_. True) 1 run_a"
    using run_a_not_before by (auto simp: loop_from_start_def timely_def less_Suc_eq)
  show "loop_from_start (\<lambda>_. True) 1 run_b"
    by (auto simp: loop_from_start_def timely_def)
  have b: "node_at (\<lambda>_. True) run_b 15 = \<lparr>n_cfg = sample_config ''b'', n_vol = persist_group_name True ''n'' (sample_volume False), n_sql = sample_server ''v''\<rparr>"
    by (simp add: node_at_def ended_by_def state_before_def) (simp add: run_b_def)
  have name: "read_group_name_marker (\<lambda>_. True) (persist_group_name True ''n'' (sample_volume False)) = Some ''n''"
    by (rule group_name_read_back) (simp_all add: plain_line_def is_ws_def char_code_def)
  have frame: "read_waiver_generation (persist_group_name io x v) = read_waiver_generation v"
    "has_pre_gtid_data (persist_group_name io x v) = has_pre_gtid_data v" for io x v
    by (simp_all add: read_waiver_generation_def has_pre_gtid_data_def persist_group_name_def)
  have "advert (\<lambda>_. True) (node_at (\<lambda>_. True) run_b 15) = Some (sample_state False ''v'' ''x'')"
    unfolding b
    by (subst sample_answers_of) (simp_all add: name frame sample_state_def)
  then show "hears_truly (\<lambda>_. True) run_a run_b"
    by (auto simp: hears_truly_def last_pass_def eq_ic_def)
  have a: "node_at (\<lambda>_. True) run_a 15 = \<lparr>n_cfg = sample_config ''a'', n_vol = sample_volume False, n_sql = sample_server ''w''\<rparr>"
    by (simp add: node_at_def ended_by_def run_a_first idle_first_pass)
  have unnamed: "read_group_name_marker (\<lambda>_. True) (sample_volume False) = None"
    by (simp add: read_group_name_marker_def sample_volume_def read_text_def)
  have "advert (\<lambda>_. True) (node_at (\<lambda>_. True) run_a 15) = Some ((sample_state False ''w'' ''x'')\<lparr>group_name := None\<rparr>)"
    unfolding a
    by (subst sample_answers_of) (simp_all add: unnamed)
  then show "hears_truly (\<lambda>_. True) run_b run_a"
    by (auto simp: hears_truly_def last_pass_def peer_hosts_def eq_ic_def ascii_lower_def char_code_def)
qed (simp_all add: last_pass_def stands_still_def my_seed_rank_def seed_rank_def eq_ic_def ascii_lower_def char_code_def
    rank_or_last_def)

end
