(* ===== verification/Archive_Life.thy ===== *)
theory Archive_Life
  imports Restore Sweep
begin

text \<open>
  The life of an archive across its two users: the retention sweep that deletes from the
  bucket (\<open>archiver.rs\<close>) and the restore that reads it (\<open>restore.rs\<close>). The theorem is
  that an attempt at a target inside the window ends the same way after a sweep as it
  would have before.
\<close>

section \<open>Two readers of one bucket\<close>

text \<open>
  A restore that reads the bucket a sweep saw: its listings are the bucket's keys under the
  prefix, and a meta object has the bytes the sweep was given.
\<close>

definition reads_bucket :: "s3_view \<Rightarrow> string list \<Rightarrow> restore_io \<Rightarrow> bool" where
  "reads_bucket v keys io \<longleftrightarrow>
     (\<forall>p. io_list io p = Some (filter (starts_with p) keys)) \<and>
     (\<forall>k \<in> set keys. is_meta_key k \<longrightarrow> io_download io k = (case bytes_of v k of S3_ok b \<Rightarrow> Some b | S3_err \<Rightarrow> None))"

text \<open>The same attempt once the keys \<open>gone\<close> have been deleted.\<close>

definition io_without :: "string list \<Rightarrow> restore_io \<Rightarrow> restore_io" where
  "io_without gone io = io\<lparr>io_list := (\<lambda>p. map_option (filter (\<lambda>k. k \<notin> set gone)) (io_list io p)),
     io_download := (\<lambda>k. if k \<in> set gone then None else io_download io k)\<rparr>"

definition attempt_without :: "string list \<Rightarrow> restore_attempt \<Rightarrow> restore_attempt" where
  "attempt_without gone a = a\<lparr>a_io := io_without gone (a_io a), a_load := (\<lambda>f. a_load a f \<and> dump_key f \<notin> set gone)\<rparr>"

text \<open>The logs of a lineage, for both readers: the objects under its prefix.\<close>

definition logs_under_prefix :: "s3_location \<Rightarrow> string \<Rightarrow> string list \<Rightarrow> bool" where
  "logs_under_prefix loc u keys \<longleftrightarrow>
     list_all (\<lambda>k. starts_with (binlog_prefix loc u) k = (is_binlog_key k \<and> server_uuid_from_key loc k = Some u)) keys"

lemma io_without_simps [simp]:
  "io_scratch (io_without gone io) = io_scratch io" "io_apply (io_without gone io) = io_apply io"
  "io_events (io_without gone io) = io_events io"
  "io_list (io_without gone io) p = map_option (filter (\<lambda>k. k \<notin> set gone)) (io_list io p)"
  "io_download (io_without gone io) k = (if k \<in> set gone then None else io_download io k)"
  by (simp_all add: io_without_def)

lemma attempt_without_simps [simp]:
  "a_io (attempt_without gone a) = io_without gone (a_io a)" "a_load (attempt_without gone a) f = (a_load a f \<and> dump_key f \<notin> set gone)"
  "a_own_args (attempt_without gone a) = a_own_args a" "a_client (attempt_without gone a) = a_client a"
  "a_parse (attempt_without gone a) = a_parse a" "a_shared_marker (attempt_without gone a) = a_shared_marker a"
  "a_spawn (attempt_without gone a) = a_spawn a" "a_first_entries (attempt_without gone a) = a_first_entries a"
  "a_first_write (attempt_without gone a) = a_first_write a" "a_writes (attempt_without gone a) = a_writes a"
  "a_ready (attempt_without gone a) = a_ready a" "a_bind (attempt_without gone a) = a_bind a"
  "a_left (attempt_without gone a) = a_left a" "a_accounts (attempt_without gone a) = a_accounts a"
  by (simp_all add: attempt_without_def)

section \<open>The replay after a sweep\<close>

lemma replay_from_subset: "set (replay_run (replay_from files done_so_far prev)) \<subseteq> set done_so_far \<union> set files"
  by (induction files done_so_far prev rule: replay_from.induct) auto

lemma replay_run_subset: "set (replay_run (binlogs_to_replay files start)) \<subseteq> set files"
  using replay_from_subset [of "drop i (sort_by binlog_name_cmp files)" "[]" None for i]
  by (auto simp: binlogs_to_replay_def Let_def split: option.splits) (metis Un_empty_left empty_set in_set_dropD set_sort_by subsetD)

lemma replay_binlogs_without:
  assumes keys: "\<And>p. io_list io p = Some (filter (starts_with p) keys)"
    and logs: "logs_under_prefix loc (lineage_uuid f) keys"
    and laid: "\<And>k. k \<in> set keys \<Longrightarrow> is_binlog_key k \<Longrightarrow> server_uuid_from_key loc k = Some (lineage_uuid f) \<Longrightarrow>
      k = binlog_key loc (lineage_uuid f) (file_name k)"
    and names: "names = map file_name (filter is_binlog_key (of_lineage loc (lineage_uuid f) keys))"
    and num: "numbered names" and start: "binlog_seq (coordinate f) = Some (seq_of (coordinate f))"
    and kept: "\<And>n. n \<in> set names \<Longrightarrow> seq_of (coordinate f) \<le> seq_of n \<Longrightarrow> binlog_key loc (lineage_uuid f) n \<notin> set gone"
  shows "replay_binlogs utc_of (io_without gone io) loc f target interval = replay_binlogs utc_of io loc f target interval"
proof -
  let ?u = "lineage_uuid f" and ?P = "\<lambda>n. binlog_key loc (lineage_uuid f) n \<notin> set gone"
  have listed: "filter (starts_with (binlog_prefix loc ?u)) keys = filter is_binlog_key (of_lineage loc ?u keys)"
    using logs by (auto simp: logs_under_prefix_def list_all_iff of_lineage_def intro: filter_cong)
  have left: "map file_name (filter (\<lambda>k. k \<notin> set gone) (filter is_binlog_key (of_lineage loc ?u keys))) = filter ?P names"
  proof -
    have "filter (\<lambda>k. k \<notin> set gone) (filter is_binlog_key (of_lineage loc ?u keys)) =
        filter (?P \<circ> file_name) (filter is_binlog_key (of_lineage loc ?u keys))"
      using laid by (intro filter_cong) (auto simp: of_lineage_def)
    then show ?thesis by (simp add: names filter_map)
  qed
  have plan: "binlogs_to_replay (filter ?P names) (coordinate f) = binlogs_to_replay names (coordinate f)"
    by (rule replay_after_expiry [OF num start kept])
  have "?P n" if "n \<in> set (replay_run (binlogs_to_replay names (coordinate f)))" for n
    using that replay_run_subset [of "filter ?P names" "coordinate f"] unfolding plan by auto
  then have got: "list_all (\<lambda>k. io_download (io_without gone io) k \<noteq> None) (map (binlog_key loc ?u) (replay_run (binlogs_to_replay names (coordinate f)))) =
      list_all (\<lambda>k. io_download io k \<noteq> None) (map (binlog_key loc ?u) (replay_run (binlogs_to_replay names (coordinate f))))"
    by (auto simp: list_all_iff)
  have "replay_downloaded utc_of (io_without gone io) = replay_downloaded utc_of io"
    by (simp add: fun_eq_iff replay_downloaded_def last_binlog_event_time_def)
  moreover obtain ks where "io_list io (binlog_prefix loc ?u) = Some ks" "map file_name ks = names"
    using keys listed names by simp
  moreover obtain ks' where "io_list (io_without gone io) (binlog_prefix loc ?u) = Some ks'" "map file_name ks' = filter ?P names"
    using keys listed left by (simp del: filter_filter)
  ultimately show ?thesis
    using got plan by (simp add: replay_binlogs_def Let_def)
qed

section \<open>The choice of the full after a sweep\<close>

lemma under_base: "server_uuid_from_key loc k = Some u \<Longrightarrow> starts_with (base_prefix loc) k"
  by (auto simp: server_uuid_from_key_def strip_prefix_def starts_with_def bind_eq_Some_conv split: if_splits option.splits)

lemma full_of_key_Some:
  assumes "full_of_key parse get loc k = Some f"
  obtains b where "is_meta_key k" and "server_uuid_from_key loc k = Some (lineage_uuid f)" and "get k = Some b"
    and "parse b = Some (meta f)" and "dump_of_meta k = Some (dump_key f)"
  using assms
  by (auto simp: full_of_key_def is_meta_key_def dump_of_meta_def bind_eq_Some_conv split: if_splits option.splits)

lemma discovered:
  assumes "reads_bucket v keys io"
  shows "\<exists>fulls. discover_fulls parse (io_download io) (io_list io) loc = Some fulls \<and>
    set fulls = {f. \<exists>k \<in> set keys. full_of_key parse (io_download io) loc k = Some f}"
    and "\<exists>fulls. discover_fulls parse (io_download (io_without gone io)) (io_list (io_without gone io)) loc = Some fulls \<and>
    set fulls = {f. \<exists>k \<in> set keys. k \<notin> set gone \<and> full_of_key parse (io_download io) loc k = Some f}"
proof -
  have list: "io_list io p = Some (filter (starts_with p) keys)" for p
    using assms by (simp add: reads_bucket_def)
  have base: "starts_with (base_prefix loc) k" if "full_of_key parse get loc k = Some f" for get k f
    using full_of_key_Some [OF that] under_base by metis
  have same: "full_of_key parse (io_download (io_without gone io)) loc k = full_of_key parse (io_download io) loc k"
    if "k \<notin> set gone" for k
  proof -
    have "io_download (io_without gone io) k = io_download io k" using that by simp
    then show ?thesis unfolding full_of_key_def by (simp only:)
  qed
  have mem: "f \<in> set (List.map_filter (full_of_key parse get loc) (filter Q (filter (starts_with (base_prefix loc)) keys))) \<longleftrightarrow>
      (\<exists>k \<in> set keys. Q k \<and> full_of_key parse get loc k = Some f)" for f get Q
  proof -
    have "(k \<in> set keys \<and> starts_with (base_prefix loc) k \<and> Q k \<and> full_of_key parse get loc k = Some f) \<longleftrightarrow>
        (k \<in> set keys \<and> Q k \<and> full_of_key parse get loc k = Some f)" for k
      using base by blast
    then show ?thesis by (simp add: in_map_filter) blast
  qed
  have "f \<in> set (List.map_filter (full_of_key parse (io_download io) loc) (filter (starts_with (base_prefix loc)) keys)) \<longleftrightarrow>
      (\<exists>k \<in> set keys. full_of_key parse (io_download io) loc k = Some f)" for f
    using mem [of f "io_download io" "\<lambda>_. True"] by (simp del: filter_filter)
  then show "\<exists>fulls. discover_fulls parse (io_download io) (io_list io) loc = Some fulls \<and>
    set fulls = {f. \<exists>k \<in> set keys. full_of_key parse (io_download io) loc k = Some f}"
    by (simp add: discover_fulls_def list set_eq_iff)
  have "f \<in> set (List.map_filter (full_of_key parse (io_download (io_without gone io)) loc)
        (filter (\<lambda>k. k \<notin> set gone) (filter (starts_with (base_prefix loc)) keys))) \<longleftrightarrow>
      (\<exists>k \<in> set keys. k \<notin> set gone \<and> full_of_key parse (io_download io) loc k = Some f)" for f
    unfolding mem using same by auto
  then show "\<exists>fulls. discover_fulls parse (io_download (io_without gone io)) (io_list (io_without gone io)) loc = Some fulls \<and>
    set fulls = {f. \<exists>k \<in> set keys. k \<notin> set gone \<and> full_of_key parse (io_download io) loc k = Some f}"
    by (simp add: discover_fulls_def list set_eq_iff del: filter_filter)
qed

text \<open>A full that stays is still chosen, when no other of its lineage has its instant.\<close>

lemma newest_still:
  assumes "newest_qualifying_full A target = Some f" and "f \<in> set B" and "set B \<subseteq> set A"
    and "\<And>g. g \<in> set B \<Longrightarrow> taken g = taken f \<Longrightarrow> lineage_uuid g = lineage_uuid f \<Longrightarrow> g = f"
  shows "newest_qualifying_full B target = Some f"
proof -
  note f = newest_qualifying_full_Some [OF assms(1)]
  obtain g where g: "newest_qualifying_full B target = Some g"
    using newest_qualifying_full_None [of B target] assms(2) f(2) by fastforce
  note b = newest_qualifying_full_Some [OF g]
  have "(taken g, lineage_uuid g) \<le> (taken f, lineage_uuid f)" using f(3) b(1,2) assms(3) by blast
  moreover have "(taken f, lineage_uuid f) \<le> (taken g, lineage_uuid g)" using b(3) assms(2) f(2) by blast
  ultimately have "(taken g, lineage_uuid g) = (taken f, lineage_uuid f)" by (rule antisym)
  then show ?thesis using assms(4) [OF b(1)] g by simp
qed

text \<open>
  When every meta object of the bucket could be read and has its dump, the two readers see
  the same fulls.
\<close>

lemma same_fulls:
  assumes read: "read_archive_lineages parse loc v now = Some ls" "listing v = S3_ok objs"
    and io: "reads_bucket v (map fst objs) io"
    and whole: "\<forall>l \<in> set ls. full_objects_seen l = length (lo_fulls l)"
  shows "k \<in> set (map fst objs) \<Longrightarrow> full_of_key parse (io_download io) loc k = Some f \<Longrightarrow>
      \<exists>l \<in> set ls. lo_uuid l = lineage_uuid f \<and> f \<in> set (lo_fulls l) \<and> meta_key_for_dump (dump_key f) = k"
    and "l \<in> set ls \<Longrightarrow> f \<in> set (lo_fulls l) \<Longrightarrow>
      \<exists>k \<in> set (map fst objs). full_of_key parse (io_download io) loc k = Some f \<and> lineage_uuid f = lo_uuid l"
proof -
  let ?h = "\<lambda>u. read_lineage parse v now u (the (group_objects loc objs u))"
  have ls: "ls = map ?h (uuids_listed loc objs)" using read_archive_Some [OF read(1)] read(2) by auto
  assume k: "k \<in> set (map fst objs)" and f: "full_of_key parse (io_download io) loc k = Some f"
  obtain b where b: "is_meta_key k" "server_uuid_from_key loc k = Some (lineage_uuid f)" "io_download io k = Some b"
      "parse b = Some (meta f)" "dump_of_meta k = Some (dump_key f)"
    using full_of_key_Some [OF f] by metis
  have u: "lineage_uuid f \<in> set (uuids_listed loc objs)"
    using k b(2) by (auto simp: uuids_listed_def in_map_filter)
  obtain e where e: "group_objects loc objs (lineage_uuid f) = Some e"
      "metas e = filter is_meta_key (of_lineage loc (lineage_uuid f) (map fst objs))"
    using listed_group [OF u] by metis
  have km: "k \<in> set (metas e)" using k b(1,2) by (simp add: e(2) of_lineage_def)
  have l: "?h (lineage_uuid f) \<in> set ls" using u by (simp add: ls)
  have "read_full parse v (lineage_uuid f) (dumps e) k \<noteq> None"
    using bspec [OF whole l] length_map_filter_less [OF km, of "read_full parse v (lineage_uuid f) (dumps e)"]
    by (auto simp: read_lineage_def e(1))
  moreover have "bytes_of v k = S3_ok b"
    using io k b(1,3) unfolding reads_bucket_def by (cases "bytes_of v k") force+
  ultimately have "read_full parse v (lineage_uuid f) (dumps e) k = Some f"
    using b(4,5) by (auto simp: read_full_def split: if_splits)
  then have "f \<in> set (lo_fulls (?h (lineage_uuid f)))"
    using km by (auto simp: read_lineage_def e(1) in_map_filter)
  then show "\<exists>l \<in> set ls. lo_uuid l = lineage_uuid f \<and> f \<in> set (lo_fulls l) \<and> meta_key_for_dump (dump_key f) = k"
    using l meta_key_of_dump [OF b(5)] by (intro bexI [OF _ l]) simp
next
  assume l: "l \<in> set ls" and f: "f \<in> set (lo_fulls l)"
  note lin = lineage_of_list [OF read l]
  obtain e where e: "group_objects loc objs (lo_uuid l) = Some e"
      "metas e = filter is_meta_key (of_lineage loc (lo_uuid l) (map fst objs))"
    using listed_group [OF conjunct1 [OF lin]] by metis
  have "lo_fulls l = List.map_filter (read_full parse v (lo_uuid l) (dumps e)) (metas e)"
    using lin e(1) by (metis lineage_objects.select_convs(2) option.sel read_lineage_def)
  then obtain k where k: "k \<in> set (metas e)" "read_full parse v (lo_uuid l) (dumps e) k = Some f"
    using f by (auto simp: in_map_filter)
  have kk: "k \<in> set (map fst objs)" "is_meta_key k" "server_uuid_from_key loc k = Some (lo_uuid l)"
    using k(1) by (auto simp: e(2) of_lineage_def)
  obtain b where "dump_of_meta k = Some (dump_key f)" "bytes_of v k = S3_ok b" "parse b = Some (meta f)" "lineage_uuid f = lo_uuid l"
    using k(2) by (auto simp: read_full_def split: option.splits if_splits s3_answer.splits)
  then have "full_of_key parse (io_download io) loc k = Some f"
    using kk io by (auto simp: full_of_key_def reads_bucket_def is_meta_key_def dump_of_meta_def)
  then show "\<exists>k \<in> set (map fst objs). full_of_key parse (io_download io) loc k = Some f \<and> lineage_uuid f = lo_uuid l"
    using kk(1) \<open>lineage_uuid f = lo_uuid l\<close> by blast
qed

section \<open>A restore after a sweep\<close>

text \<open>
  A lineage whose objects are in order: its logs and the coordinates of its fulls are numbered,
  no two of its fulls have one instant, and its logs are where both readers look for them.
\<close>

definition lineage_in_order :: "s3_location \<Rightarrow> string list \<Rightarrow> lineage_objects \<Rightarrow> bool" where
  "lineage_in_order loc keys l \<longleftrightarrow> numbered (lo_binlogs l) \<and> coordinates_in_order (lo_fulls l) \<and>
     inj_on taken (set (lo_fulls l)) \<and> logs_under_prefix loc (lo_uuid l) keys"

lemma select_full_unshared:
  assumes "select_full a loc target = Inr (f, False)"
    and "discover_fulls (a_parse a) (io_download (a_io a)) (io_list (a_io a)) loc = Some fulls"
  shows "newest_qualifying_full fulls target = Some f" and "\<not> list_ex (\<lambda>f. gtid_purged (meta f) \<noteq> None) fulls"
    and "recover_config_refusal loc = None" and "a_client a" and "a_shared_marker a = Some False"
  using assms by (auto simp: select_full_def split: option.splits if_splits)

lemma same_lineage:
  assumes "read_archive_lineages parse loc v now = Some ls" and "listing v = S3_ok objs"
    and "l \<in> set ls" and "l' \<in> set ls" and "lo_uuid l' = lo_uuid l"
  shows "l' = l"
  using lineage_of_list [OF assms(1-3)] lineage_of_list [OF assms(1,2,4)] assms(5) by metis

lemma names_of_lineage:
  assumes "read_archive_lineages parse loc v now = Some ls" and "listing v = S3_ok objs" and "l \<in> set ls"
  shows "lo_binlogs l = map file_name (filter is_binlog_key (of_lineage loc (lo_uuid l) (map fst objs)))"
proof -
  note l = lineage_of_list [OF assms]
  obtain e where "group_objects loc objs (lo_uuid l) = Some e"
    "binlogs e = map file_name (filter is_binlog_key (of_lineage loc (lo_uuid l) (map fst objs)))"
    using listed_group [OF conjunct1 [OF l]] by metis
  then show ?thesis using arg_cong [OF conjunct2 [OF l], of lo_binlogs] by (simp add: read_lineage_def)
qed

text \<open>The full an attempt selects survives the sweep, with its logs, and is selected again.\<close>

lemma selected_survives:
  assumes read: "read_archive_lineages (a_parse a) loc v now = Some ls" "listing v = S3_ok objs"
    and place: "distinct (map fst objs)" "laid_out loc objs" "marker_there v = S3_ok False"
    and io: "reads_bucket v (map fst objs) (a_io a)"
    and whole: "\<forall>l \<in> set ls. full_objects_seen l = length (lo_fulls l)"
    and sel: "select_full a loc target = Inr (f, False)"
    and l: "l \<in> set ls" "lo_uuid l = lineage_uuid f" "lineage_in_order loc (map fst objs) l"
    and alive: "lo_uuid l \<notin> set (retired_lineages (plan_retention (sweep_input ls own now span False)))"
    and win: "now - span \<le> target" and gone: "retention_pass (a_parse a) cfg loc v own now span = Swept gone"
  shows "select_full (attempt_without gone a) loc target = Inr (f, False)" and "dump_key f \<notin> set gone"
    and "binlog_seq (coordinate f) = Some (seq_of (coordinate f))"
    and "\<And>n. n \<in> set (lo_binlogs l) \<Longrightarrow> seq_of (coordinate f) \<le> seq_of n \<Longrightarrow> binlog_key loc (lo_uuid l) n \<notin> set gone"
proof -
  note present = same_fulls(1) [OF read io whole] and listed = same_fulls(2) [OF read io whole]
  obtain A where A: "discover_fulls (a_parse a) (io_download (a_io a)) (io_list (a_io a)) loc = Some A"
      "set A = {f. \<exists>k \<in> set (map fst objs). full_of_key (a_parse a) (io_download (a_io a)) loc k = Some f}"
    using discovered(1) [OF io] by blast
  obtain B where B: "discover_fulls (a_parse a) (io_download (io_without gone (a_io a))) (io_list (io_without gone (a_io a))) loc = Some B"
      "set B = {f. \<exists>k \<in> set (map fst objs). k \<notin> set gone \<and> full_of_key (a_parse a) (io_download (a_io a)) loc k = Some f}"
    using discovered(2) [OF io] by blast
  note s = select_full_unshared [OF sel A(1)]
  note ord = l(3) [unfolded lineage_in_order_def]
  obtain k where k: "k \<in> set (map fst objs)" "full_of_key (a_parse a) (io_download (a_io a)) loc k = Some f"
    using newest_qualifying_full_Some(1) [OF s(1)] unfolding A(2) by blast
  have in_l: "g \<in> set (lo_fulls l) \<and> meta_key_for_dump (dump_key g) = k'"
    if "k' \<in> set (map fst objs)" "full_of_key (a_parse a) (io_download (a_io a)) loc k' = Some g" "lineage_uuid g = lineage_uuid f" for g k'
    using present [OF that(1,2)] same_lineage [OF read l(1)] l(2) that(3) by auto
  have fl: "f \<in> set (lo_fulls l)" and km: "meta_key_for_dump (dump_key f) = k"
    using in_l [OF k] by simp_all
  have sub: "set (lo_fulls l) \<subseteq> set A" if "l \<in> set ls" for l
    using listed [OF that] unfolding A(2) by blast
  have uniq: "g = f" if "g \<in> set A" "taken g = taken f" "lineage_uuid g = lineage_uuid f" for g
  proof -
    have "g \<in> set (lo_fulls l)" using that(1,3) in_l unfolding A(2) by blast
    then show ?thesis using ord fl that(2) by (auto dest: inj_onD)
  qed
  have newest: "newest_qualifying_full (lo_fulls l) target = Some f"
    by (rule newest_still [OF s(1) fl sub [OF l(1)]]) (use uniq sub [OF l(1)] in blast)
  have "\<not> archive_shares_history ls"
    using s(2) sub by (fastforce simp: archive_shares_history_def list_ex_iff)
  then have unshared: "\<not> shared_archive (sweep_input ls own now span False)"
    by (simp add: shared_archive_def sweep_input_def)
  obtain f' where f': "f' \<in> set (lo_fulls l)" "taken f' = taken f" "dump_key f' \<notin> set gone" "meta_key_for_dump (dump_key f') \<notin> set gone"
      "\<forall>n \<in> set (lo_binlogs l). seq_of (coordinate f') \<le> seq_of n \<longrightarrow> binlog_key loc (lo_uuid l) n \<notin> set gone"
    using sweep_keeps_window [OF read place unshared l(1) alive _ _ newest win gone] ord by blast
  have "f' = f" using f'(1,2) fl ord by (auto dest: inj_onD)
  note kept = f'(3-5) [unfolded this]
  show "dump_key f \<notin> set gone" by (rule kept(1))
  show "binlog_seq (coordinate f) = Some (seq_of (coordinate f))" using ord fl unfolding coordinates_in_order_def by blast
  show "\<And>n. n \<in> set (lo_binlogs l) \<Longrightarrow> seq_of (coordinate f) \<le> seq_of n \<Longrightarrow> binlog_key loc (lo_uuid l) n \<notin> set gone"
    using kept(3) by blast
  have BA: "set B \<subseteq> set A" unfolding A(2) B(2) by blast
  have "f \<in> set B" using k kept(2) unfolding B(2) km by blast
  then have "newest_qualifying_full B target = Some f" using newest_still [OF s(1) _ BA] uniq BA by blast
  moreover have "\<not> list_ex (\<lambda>f. gtid_purged (meta f) \<noteq> None) B" using s(2) BA by (auto simp: list_ex_iff)
  ultimately show "select_full (attempt_without gone a) loc target = Inr (f, False)"
    using s(3-5) B(1) unfolding select_full_def attempt_without_simps by simp
qed

text \<open>
  C16: Retention does not change what a restore from independent lineages yields. The bucket is
  one whose histories are independent (no shared-history marker, and the attempt selects its full
  without one), every full of every lineage there has a dump and a meta that can be read, and the
  keys are those of the layout of the archive. Take any attempt whose target lies inside the window
  and whose full comes from a lineage that the plan does not retire and whose fulls and binlogs are
  in order: on the bucket a retention pass has swept, the attempt ends with the same result and
  leaves the same volume as on the bucket before it, the selection of the full, its download and the
  replay of its logs included. Outside these conditions the window can be lost, see
  \<open>dead_lineage_loses_the_window\<close> and \<open>unread_full_loses_its_binlogs\<close>.
\<close>

theorem restore_survives_retention:
  assumes "read_archive_lineages (a_parse a) loc v now = Some ls" and "listing v = S3_ok objs"
    and "distinct (map fst objs)" and "laid_out loc objs" and "marker_there v = S3_ok False"
    and "reads_bucket v (map fst objs) (a_io a)"
    and "\<forall>l \<in> set ls. full_objects_seen l = length (lo_fulls l)"
    and "recovery_target_time c = Some target" and "restore_s3_location c = Some loc"
    and "select_full a loc target = Inr (f, False)"
    and "l \<in> set ls" and "lo_uuid l = lineage_uuid f" and "lineage_in_order loc (map fst objs) l"
    and "lo_uuid l \<notin> set (retired_lineages (plan_retention (sweep_input ls own now span False)))"
    and "now - span \<le> target" and "retention_pass (a_parse a) cfg loc v own now span = Swept gone"
  shows "run utc_of c (attempt_without gone a) n vol = run utc_of c a n vol"
proof -
  note kept = selected_survives [OF assms(1-7,10-16)]
  let ?u = "lineage_uuid f" and ?keys = "map fst objs"
  have keys: "io_list (a_io a) p = Some (filter (starts_with p) ?keys)" for p
    using assms(6) by (simp add: reads_bucket_def)
  have laid: "k = binlog_key loc ?u (file_name k)"
    if "k \<in> set ?keys" "is_binlog_key k" "server_uuid_from_key loc k = Some ?u" for k
    using assms(4) that unfolding laid_out_def by fastforce
  have "replay_binlogs utc_of (io_without gone (a_io a)) loc f target i = replay_binlogs utc_of (a_io a) loc f target i" for i
    by (rule replay_binlogs_without [where keys = ?keys and names = "lo_binlogs l"])
       (use keys laid kept(3,4) assms(12,13) names_of_lineage [OF assms(1,2,11)] in
          \<open>simp_all add: lineage_in_order_def del: map_map set_map\<close>)
  then have "load_and_replay utc_of (attempt_without gone a) False loc f target i = load_and_replay utc_of a False loc f target i" for i
    using kept(2) unfolding load_and_replay_def replay_archive_def attempt_without_simps by (simp split: option.split)
  then show ?thesis using kept(1) assms(8-10) unfolding run_def attempt_without_simps by (simp only: option.case prod.case sum.case)
qed

section \<open>A sample sweep and restore\<close>

definition swept_objs :: "(string \<times> int option) list" where
  "swept_objs = (''server-u/binlog/b.0'', Some 0) # sample_objs"

definition swept_io :: restore_io where
  "swept_io = hole_io\<lparr>io_list := (\<lambda>p. Some (filter (starts_with p) (map fst swept_objs))), io_download := (\<lambda>k. Some [])\<rparr>"

definition swept_attempt :: restore_attempt where
  "swept_attempt = (restoring_attempt True)\<lparr>a_parse := sample_parse, a_io := swept_io\<rparr>"

definition sweep_settings :: sweep_config where
  "sweep_settings = \<lparr>retention_dry_run = False, min_object_age = 0\<rparr>"

lemma swept_read_parts:
  "map_option (map parts_of) (read_archive_lineages sample_parse restoring_loc (sample_view swept_objs False) 10000000000) =
     Some [(''u'', [sample_full ''u'' ''server-u/full/x'' ns_per_s ''b.1'' None], 1, [], [''b.0'', ''b.1''])]"
  by code_simp

lemma swept_selects: "select_full swept_attempt restoring_loc 6000000000 = Inr (sample_full ''u'' ''server-u/full/x'' ns_per_s ''b.1'' None, False)"
  by code_simp

text \<open>The lineage the sweep reads, and its plan: the log before the coordinate of the only full goes.\<close>

lemma swept_read:
  obtains l where "read_archive_lineages sample_parse restoring_loc (sample_view swept_objs False) 10000000000 = Some [l]"
    and "lo_uuid l = ''u''" and "lo_fulls l = [sample_full ''u'' ''server-u/full/x'' ns_per_s ''b.1'' None]"
    and "full_objects_seen l = 1" and "orphan_dumps l = []" and "lo_binlogs l = [''b.0'', ''b.1'']"
  using swept_read_parts by (auto simp: parts_of_def)

lemma swept_seq: "binlog_seq ''b.0'' = Some 0"
  by (simp add: binlog_seq_def parse_uint_def digits_val_def digit_val_def is_digit_def char_code_def u64_max_def)

lemma swept_plan:
  assumes "lo_uuid l = ''u''" and "lo_fulls l = [sample_full ''u'' ''server-u/full/x'' ns_per_s ''b.1'' None]"
    and "full_objects_seen l = 1" and "orphan_dumps l = []" and "lo_binlogs l = [''b.0'', ''b.1'']"
  shows "plan_retention (sweep_input [l] ''u'' 10000000000 4000000000 False) = empty_plan\<lparr>expired_binlogs := [(''u'', ''b.0'')]\<rparr>"
proof -
  let ?inp = "sweep_input [l] ''u'' 10000000000 4000000000 False" and ?f = "sample_full ''u'' ''server-u/full/x'' ns_per_s ''b.1'' None"
  have ready: "independent_ready ?inp ''u''"
    by (simp add: independent_ready_def shared_archive_def sweep_input_def archive_shares_history_def assms sample_full_def)
  have "fulls_to_keep [?f] c m = [?f]" for c m by (simp add: fulls_to_keep_def Let_def sort_by_def)
  then have "lineage_verdict ?inp ''u'' l = empty_plan\<lparr>expired_binlogs := [(''u'', ''b.0'')]\<rparr>"
    by (simp add: lineage_verdict_def assms old_orphans_def unkept_def owned_def below_seq_def sample_seqs swept_seq Let_def)
       (simp add: sample_full_def sample_seqs swept_seq empty_plan_def owned_def below_seq_def assms)
  moreover have "lineages ?inp = [l]" by (simp add: sweep_input_def)
  ultimately show ?thesis unfolding plan_independent [OF ready] by (simp add: plan_append_def empty_plan_def)
qed

lemma swept_laid: "laid_out restoring_loc swept_objs" by code_simp

lemma swept_prefix: "logs_under_prefix restoring_loc ''u'' (map fst swept_objs)" by code_simp

lemma swept_io_reads: "reads_bucket (sample_view swept_objs False) (map fst swept_objs) swept_io"
  by (simp add: reads_bucket_def swept_io_def sample_view_def del: filter.simps)

lemma swept_attempt_simps [simp]: "a_parse swept_attempt = sample_parse" "a_io swept_attempt = swept_io"
  by (simp_all add: swept_attempt_def)

lemma restore_survives_retention_witness:
  "retention_pass sample_parse sweep_settings restoring_loc (sample_view swept_objs False) ''u'' 10000000000 4000000000 =
      Swept [''server-u/binlog/b.0''] \<and>
   run day_clock restoring_config (attempt_without [''server-u/binlog/b.0''] swept_attempt) 1 fresh_volume =
      run day_clock restoring_config swept_attempt 1 fresh_volume"
proof (rule swept_read)
  fix l
  let ?f = "sample_full ''u'' ''server-u/full/x'' ns_per_s ''b.1'' None"
  assume l: "read_archive_lineages sample_parse restoring_loc (sample_view swept_objs False) 10000000000 = Some [l]"
    "lo_uuid l = ''u''" "lo_fulls l = [?f]" "full_objects_seen l = 1" "orphan_dumps l = []" "lo_binlogs l = [''b.0'', ''b.1'']"
  note plan = swept_plan [OF l(2-6)]
  have key: "binlog_key restoring_loc ''u'' ''b.0'' = ''server-u/binlog/b.0''" by code_simp
  have gone: "retention_pass sample_parse sweep_settings restoring_loc (sample_view swept_objs False) ''u'' 10000000000 4000000000 =
      Swept [''server-u/binlog/b.0'']"
    by (simp add: retention_pass_def l(1) plan plan_is_empty_def plan_keys_def empty_plan_def key sweep_settings_def old_enough_def)
       (simp add: sample_view_def old_enough_def)
  have order: "lineage_in_order restoring_loc (map fst swept_objs) l"
    using swept_prefix
    by (simp add: lineage_in_order_def l(2,3,6) numbered_def coordinates_in_order_def sample_full_def seq_of_def sample_seqs swept_seq)
  have alive: "lo_uuid l \<notin> set (retired_lineages (plan_retention (sweep_input [l] ''u'' 10000000000 4000000000 False)))"
    unfolding plan by (simp add: empty_plan_def)
  have keys: "distinct (map fst swept_objs)" by (simp add: swept_objs_def sample_objs_def)
  have target: "recovery_target_time restoring_config = Some 6000000000" by (simp add: ns_per_s_def)
  have u: "lo_uuid l = lineage_uuid ?f" by (simp add: l(2) sample_full_def)
  have seen: "\<forall>l' \<in> set [l]. full_objects_seen l' = length (lo_fulls l')" by (simp add: l(3,4))
  have "run day_clock restoring_config (attempt_without [''server-u/binlog/b.0''] swept_attempt) 1 fresh_volume =
      run day_clock restoring_config swept_attempt 1 fresh_volume"
    by (rule restore_survives_retention [OF _ sample_view_simps(1) keys swept_laid sample_view_simps(2) _ seen target restoring_config_simps(2)
          swept_selects _ u order alive _ gone [folded swept_attempt_simps(1)]])
       (simp_all add: l(1) swept_io_reads)
  then show ?thesis using gone by blast
qed

end
