(* ===== verification/Spec2Isabelle.thy ===== *)
theory Spec2Isabelle
  imports Cluster Majority_Watch Self_Heal Join Boot Replay Rotation Gtid_Text Archiver Restore
    Finish_Upgrade Mysql_Conf Edge Telemetry Process Wrapper Statements Queries Upload Services Booted_Config
    Durable Pipes Startup S3_Client Formation Archive_Life
begin

text \<open>
  A model of mysql-ha, the wrapper that turns a MySQL 8 image into a node of a highly
  available Group Replication cluster with point-in-time recovery, and of the HAProxy edge in
  front of it. All paths below are under \<open>src/mysql-wrapper/src\<close> unless they are given
  in full.

  \<^bold>\<open>The program.\<close> One container per node runs the wrapper as its first process. \<open>main.rs\<close>
  takes the lock on the volume, reads the environment, settles the root password, restores a
  backup when the environment asks for one, starts mysqld under a supervisor and then, with
  Group Replication, hands over to \<open>gr::orchestrate\<close>: a loop of passes that joins a live
  group or, when no peer can have one, forms a new group. Nodes see each other through
  \<open>/gr/state\<close>; the edge routes writes to the node that answers 200 on \<open>/role\<close>. A member
  watches its own majority and its own recovery, ships its binary logs and full backups to a
  bucket, and expires what the bucket no longer needs.

  \<^bold>\<open>Conventions.\<close> A Rust string is the list of its bytes; a machine integer whose wrap-around
  matters is a word (the generations and attempt counters of the markers, the lengths of
  \<open>Gone_Tracker\<close>, the sizes and server ids of \<open>Mysql_Conf\<close>) or is reduced by hand
  (\<open>retention_horizon\<close> of \<open>Services\<close>), the others are \<open>nat\<close> or \<open>int\<close>. An instant is an
  integer of nanoseconds or the unit its comment gives. A file on the volume is \<open>Missing\<close>,
  \<open>Unreadable\<close> or its content. Every early return, error and panic of the code that the
  model covers is a value. What the world answers (a statement, a DNS reply, an object of the
  bucket, an exit status, a failed write, the clock) is an argument, and the properties hold
  for all of it: a loop takes the list of answers of its rounds, and where it may
  outlast them its result is \<open>None\<close>. Loops over data end by a measure. The one definition with
  fuel is \<open>read_name\<close> of \<open>Gone_Tracker\<close>, the reader of a DNS name that the code does
  not have; the lemma that uses it shows that more fuel than the name has labels is enough.

  \<^bold>\<open>Code that is not in the repository\<close> is a parameter: \<open>is_uuid\<close> for
  \<open>Uuid::parse_str\<close>, \<open>calendar\<close> for the reading of an event time by chrono,
  \<open>decode_history\<close> and the payload encoders for serde_json, \<open>b64\<close> for the base64 crate,
  and the answers above for mysqld, mysqldump, mysqlbinlog, gzip, S3 and HAProxy.

  \<^bold>\<open>The theories\<close>, in the order of the code:

  \<^item> \<open>Prelude\<close>: \<open>str\<close> operations, decimal numbers, sorting, saturating and truncating
    arithmetic, and five interfaces as locales. \<open>dwell_clock\<close> (a clock that starts at a
    condition, is cleared when it fails, and fires after a dwell) is instantiated by the safe
    verdicts of \<open>Orchestrate\<close>, the deleted peers of \<open>Gone_Tracker\<close> and the stuck member
    of \<open>Self_Heal\<close>; \<open>attempt_budget\<close> (a counter that bounds how often something is done)
    by the forced re-formation of \<open>Majority_Watch\<close>, the discards of \<open>Self_Heal\<close> and the
    boots of \<open>Restore\<close>; \<open>volume_marker\<close> (what was written reads back) by the markers of
    \<open>Volume\<close>, \<open>Self_Heal\<close> and \<open>Finish_Upgrade\<close>; \<open>majority_test\<close> by
    \<open>Peers\<close>; \<open>cut_rule\<close> by both purge rules of \<open>Binlog\<close>.
  \<^item> \<open>Config\<close>, \<open>Booted_Config\<close> (\<open>config.rs\<close>, \<open>src/common/src/config.rs\<close>): the
    environment, and the type invariant of every configuration \<open>from_env\<close> accepts.
  \<^item> \<open>Peers\<close> (\<open>peers.rs\<close>, parts of \<open>sql.rs\<close>): membership views, GTID sets and the
    fence predicates. \<open>Volume\<close> (\<open>gr.rs\<close>): the markers of a node.
  \<^item> \<open>Bootstrap_Guard\<close>, \<open>Cluster\<close> (\<open>local_gr_state\<close>, \<open>classify_round\<close>,
    \<open>decide\<close> of \<open>gr.rs\<close>): the decision of one node, and what all the nodes of a
    cluster conclude from each other: never two bootstraps, and some node may.
  \<^item> \<open>Gone_Tracker\<close> (\<open>dns_probe.rs\<close>, \<open>GoneTracker\<close> of \<open>gr.rs\<close>): when a peer is
    provably deleted.
  \<^item> \<open>Boot\<close>, \<open>Startup\<close> (\<open>orchestrate\<close> up to its loop), \<open>Orchestrate\<close>, \<open>Join\<close>
    (one pass of the loop as a chain of stages, and what a stage that went on has checked),
    \<open>Formation\<close> (two loops whose passes take time and overlap in any way).
  \<^item> \<open>Majority_Watch\<close> (\<open>majority_watch\<close> of \<open>gr.rs\<close>), \<open>Self_Heal\<close>
    (\<open>self_heal.rs\<close>), \<open>Health\<close> (\<open>health_server.rs\<close>, \<open>health_auth.rs\<close>,
    \<open>demote_on_shutdown.rs\<close>), \<open>Services\<close> (the waits, \<open>post_bootstrap\<close>, the health
    supervisor, the \<open>/pitr\<close> routes, the loops of the archiver).
  \<^item> \<open>Credentials\<close> (\<open>password_pin.rs\<close>, \<open>credentials.rs\<close>): the pin, the resolver and
    the phases of a rotation. \<open>Rotation\<close>: a run of phases, some of them dropped at their
    time limit with a statement still running. \<open>Statements\<close>, \<open>Queries\<close> (\<open>sql.rs\<close>): what is sent on a
    session against every sequence of replies, and what is read from the rows.
  \<^item> \<open>Pitr\<close>, \<open>Binlog\<close>, \<open>Replay\<close>, \<open>Retention\<close> (\<open>pitr.rs\<close>): keys, ownership
    and selection; the binary head of a file and the purge rules; the plan of a replay; the
    plan of an expiry. \<open>Gtid_Text\<close>: a reader of GTID sets, written apart from the program, for what
    the parser of \<open>Binlog\<close> puts out.
  \<^item> \<open>Shipping\<close>, \<open>Full_Backup\<close>, \<open>Sweep\<close>, \<open>Archiver\<close> (\<open>archiver.rs\<close>),
    \<open>Upload\<close>, \<open>S3_Client\<close> (\<open>s3.rs\<close>): one shipping pass; the latch, the locks and the scan of a dump; one expiry;
    the ownership claim and the role supervisor; the multipart upload; the single calls and
    listings, and what a sweep makes of a listing that was cut off.
  \<^item> \<open>Restore_Replay\<close>, \<open>Pipes\<close>, \<open>Restore\<close> (\<open>restore.rs\<close>): the replay with its
    checks, the processes of an attempt, the marker and the boots around it. \<open>Archive_Life\<close>:
    one bucket under a sweep and then a restore.
  \<^item> \<open>Wrapper\<close> (\<open>main.rs\<close>), \<open>Process\<close> (\<open>volume_lock.rs\<close>,
    \<open>process_manager.rs\<close>), \<open>Durable\<close> (the write disciplines of the volume files):
    the boot as a plan of actions, containers that overlap on a volume as a step relation, and
    power cuts between any two steps of any writer.
  \<^item> \<open>Finish_Upgrade\<close> (\<open>finish_upgrade.rs\<close>), \<open>Mysql_Conf\<close> (\<open>mysql_conf.rs\<close>),
    \<open>Telemetry\<close> (\<open>src/common/src/telemetry.rs\<close>), \<open>Edge\<close> (\<open>src/haproxy/src\<close>).

  \<^bold>\<open>What is proved.\<close> \<open>Consensus:\<close> two nodes that hear each other never both bootstrap, and
  two nodes whose loops overlap in any way never both found a group, as long as no pass takes
  longer than half the dwell (the decision rests on answers taken during the pass); a
  pass forms a group only when every declared peer has answered or is provably deleted, after
  the dwell, and under a fresh identity when peers were waived (on the volume too, when the
  markers can be written); a pass joins only when history and adopted data allow it, and clones
  only a node that diverged, or one with an empty or unreadable history and no adopted data; once
  the group has been seen at a majority, a member that sees at most half of its declared members,
  the deleted ones discounted, is fenced in the same round; the group is re-formed only on fifteen
  proofs; and two disjoint parts of one membership never both route writes. The loop is entered
  only behind the fence. \<open>Archive:\<close> a shipping pass purges only what the bucket holds; in an
  archive of independent lineages that are readable and not retired, no restore to a point of the
  window comes out differently after an expiry; one full backup runs at a time and leaves no lock
  behind; an upload stores its source. \<open>Restore:\<close> over every sequence of failing boots, what a
  boot serves is a verified restore as long as every attempt leaves one of its markers, and at most
  three attempts run as long as each leaves itself on record; the boot of \<open>main\<close> refines that.
  \<open>Volume:\<close> two mysqld run on one volume only when a lock file could not be opened or a wrapper is
  gone without having reaped its server, and no power cut tears a flushed marker. \<open>Accounts:\<close> the
  prepare and database phases of a rotation keep the old password, retried or not, while no
  statement outlives its phase into the next one; account statements stay out of the binary log; a failed clone tries to put
  the fence back. The round trips read the option files, binary heads and the names of
  intermediate tables (in ASCII) back.

  Several theorems state what the code does where it falls short of its comments or where a
  condition above is dropped (\<open>unmarked_attempt_is_served\<close>, \<open>dead_lineage_loses_the_window\<close>,
  \<open>failed_discards_unbounded\<close>, \<open>divergence_overrides_adopted_guard\<close>,
  \<open>late_statement_drops_the_old_password\<close>, \<open>target_inside_a_hole_completes\<close>, \<open>pre_gtid_tie_stalls\<close>,
  \<open>failed_promotion_check_loses_the_flag\<close> and others named in their theories).

  \<^bold>\<open>Not modelled.\<close> Log lines and the throttling of log lines, unless an event of telemetry
  is sent with them; sockets, axum routes, the construction and the timeouts of the S3 client, and the spawning
  and relaying of processes, which are input and output around the modelled functions; the
  scheduling of tokio, except where two tasks share state (the latch of \<open>Full_Backup\<close>, the
  passes of two nodes in \<open>Formation\<close>, the
  containers of \<open>Process\<close>); the unit tests inside the source files, the end-to-end tests in
  \<open>src/test\<close>, and the images and pipelines. Time limits on a call appear as the answer
  \<open>timed out\<close>; that the server may still carry out the call afterwards is modelled for the
  phases of a rotation only.

  \<^bold>\<open>Simplified.\<close> \<open>orchestrate_pass\<close> reads the clock once where the code reads it
  twice in a pass, and leaves out the event that reports a started node; \<open>latch_step\<close> lets the
  archiver stop only when no full backup is running, which is what the code waits for, although
  its wait covers the outer task alone; \<open>clone_from_donor\<close> begins on a session that is open: a connection that
  fails before the first statement changes nothing on the server. \<open>encode_filename\<close> is the server's
  naming of a table's file restricted to ASCII.
\<close>

end
